(* ===== verification/Prelude.thy ===== *)
theory Prelude
  imports Main "HOL-Library.Word" "HOL-Library.Char_ord" "HOL-Library.List_Lexorder"
begin

text \<open>
  Shared ground of the development: the names of the model's basic types, decimal
  rendering and the string helpers the C++ code takes from the standard library, the
  \<open>std::map\<close> model (a strictly sorted association list), byte views of strings and
  machine words, and the generic lemmas on lists the components share.
\<close>

section \<open>Names of the basic types\<close>

text \<open>
  \<open>std::uint8_t\<close>, \<open>std::uint32_t\<close> and \<open>std::uint64_t\<close> keep their width.  A C++
  \<open>double\<close> is its 64-bit IEEE-754 pattern: the code under study stores, hashes, compares and
  truncates doubles but computes nothing with them.
\<close>

type_synonym byte = "8 word"
type_synonym u32 = "32 word"
type_synonym u64 = "64 word"
type_synonym double = "64 word"

named_theorems model_defs \<open>definitions a witness unfolds\<close>
named_theorems prefix_codes \<open>self-delimiting encodings\<close>

section \<open>Strings\<close>

definition starts_with :: "string \<Rightarrow> string \<Rightarrow> bool" where
  "starts_with p s = (take (length p) s = p)"

lemma starts_with_append [simp]: "starts_with p (p @ s)"
  by (simp add: starts_with_def)

lemma starts_withE:
  assumes "starts_with p s"
  obtains r where "s = p @ r"
  using assms unfolding starts_with_def by (metis append_take_drop_id)

definition newline :: string where
  "newline = [CHR 0x0A]"

text \<open>\<open>std::to_string\<close> and \<open>fmt\<close>'s rendering of integers.\<close>

definition digit_char :: "nat \<Rightarrow> char" where
  "digit_char d = char_of (48 + d)"

fun nat_str :: "nat \<Rightarrow> string" where
  "nat_str n = (if n < 10 then [digit_char n] else nat_str (n div 10) @ [digit_char (n mod 10)])"

declare nat_str.simps [simp del]

definition int_str :: "int \<Rightarrow> string" where
  "int_str i = (if i < 0 then ''-'' @ nat_str (nat (- i)) else nat_str (nat i))"

definition is_digit :: "char \<Rightarrow> bool" where
  "is_digit c = (CHR ''0'' \<le> c \<and> c \<le> CHR ''9'')"

definition digit_value :: "char \<Rightarrow> nat" where
  "digit_value c = of_char c - 48"

lemma of_char_digit [simp]: "d < 10 \<Longrightarrow> (of_char (digit_char d) :: nat) = 48 + d"
  by (simp add: digit_char_def of_char_of)

lemma is_digit_iff: "is_digit c \<longleftrightarrow> 48 \<le> (of_char c :: nat) \<and> (of_char c :: nat) \<le> 57"
  by (simp add: is_digit_def less_eq_char_def)

lemma is_digit_digit_char [simp]: "d < 10 \<Longrightarrow> is_digit (digit_char d)"
  by (simp add: is_digit_iff)

lemma digit_value_digit_char [simp]: "d < 10 \<Longrightarrow> digit_value (digit_char d) = d"
  by (simp add: digit_value_def)

lemma digit_value_less: "is_digit c \<Longrightarrow> digit_value c < 10"
  unfolding is_digit_iff digit_value_def by arith

lemma digit_char_digit_value: "is_digit c \<Longrightarrow> digit_char (digit_value c) = c"
  by (simp add: is_digit_iff digit_value_def digit_char_def)

lemma nat_str_digits: "c \<in> set (nat_str n) \<Longrightarrow> is_digit c"
proof (induction n rule: nat_str.induct)
  case (1 n)
  then show ?case
    by (subst (asm) (2) nat_str.simps) (auto split: if_splits)
qed

lemma nat_str_nonempty [simp]: "nat_str n \<noteq> []"
  by (subst nat_str.simps) simp

definition quoted :: "string \<Rightarrow> string" where
  "quoted s = [CHR 0x27] @ s @ [CHR 0x27]"

text \<open>\<open>fmt::join\<close>.\<close>

fun join :: "string \<Rightarrow> string list \<Rightarrow> string" where
  "join sep [] = []"
| "join sep [x] = x"
| "join sep (x # xs) = x @ sep @ join sep xs"

section \<open>Ordered maps\<close>

text \<open>
  A \<open>std::map<K, V>\<close> is its in-order sequence of entries: an association list whose keys
  increase strictly.  \<open>emplace\<close> keeps an existing entry, \<open>insert_or_assign\<close> replaces it.
\<close>

definition smap_ok :: "('k::linorder \<times> 'v) list \<Rightarrow> bool" where
  "smap_ok m = sorted_wrt (<) (map fst m)"

fun smap_emplace :: "'k::linorder \<Rightarrow> 'v \<Rightarrow> ('k \<times> 'v) list \<Rightarrow> ('k \<times> 'v) list" where
  "smap_emplace k v [] = [(k, v)]"
| "smap_emplace k v ((k', v') # m) =
     (if k < k' then (k, v) # (k', v') # m
      else if k = k' then (k', v') # m
      else (k', v') # smap_emplace k v m)"

fun smap_assign :: "'k::linorder \<Rightarrow> 'v \<Rightarrow> ('k \<times> 'v) list \<Rightarrow> ('k \<times> 'v) list" where
  "smap_assign k v [] = [(k, v)]"
| "smap_assign k v ((k', v') # m) =
     (if k < k' then (k, v) # (k', v') # m
      else if k = k' then (k, v) # m
      else (k', v') # smap_assign k v m)"

lemma smap_ok_Nil [simp]: "smap_ok []"
  by (simp add: smap_ok_def)

lemma smap_ok_Cons: "smap_ok ((k, v) # m) \<longleftrightarrow> (\<forall>k' \<in> fst ` set m. k < k') \<and> smap_ok m"
  by (auto simp: smap_ok_def)

lemma keys_smap_emplace [simp]: "fst ` set (smap_emplace k v m) = insert k (fst ` set m)"
  by (induction k v m rule: smap_emplace.induct) auto

lemma keys_smap_assign [simp]: "fst ` set (smap_assign k v m) = insert k (fst ` set m)"
  by (induction k v m rule: smap_assign.induct) auto

lemma smap_ok_emplace [simp, intro]: "smap_ok m \<Longrightarrow> smap_ok (smap_emplace k v m)"
proof (induction k v m rule: smap_emplace.induct)
  case (2 k v k' v' m)
  then show ?case
    by (simp only: smap_emplace.simps smap_ok_Cons keys_smap_emplace split: if_split)
      (force simp: smap_ok_Cons)
qed (simp add: smap_ok_Cons)

lemma smap_ok_assign [simp, intro]: "smap_ok m \<Longrightarrow> smap_ok (smap_assign k v m)"
proof (induction k v m rule: smap_assign.induct)
  case (2 k v k' v' m)
  then show ?case
    by (simp only: smap_assign.simps smap_ok_Cons keys_smap_assign split: if_split)
      (force simp: smap_ok_Cons)
qed (simp add: smap_ok_Cons)

lemma smap_ok_distinct: "smap_ok m \<Longrightarrow> distinct (map fst m)"
  unfolding smap_ok_def by (simp add: strict_sorted_iff)

lemma map_of_smap_Cons_less:
  "smap_ok ((k', v') # m) \<Longrightarrow> k < k' \<Longrightarrow> map_of ((k', v') # m) k = None"
  by (auto simp: smap_ok_Cons map_of_eq_None_iff dest: less_asym)

lemma map_of_smap_emplace:
  "smap_ok m \<Longrightarrow>
     map_of (smap_emplace k v m) k'
       = (if k' = k \<and> map_of m k = None then Some v else map_of m k')"
proof (induction m)
  case Nil
  then show ?case by simp
next
  case (Cons p m)
  obtain a b where p: "p = (a, b)" by (cases p)
  have ok: "smap_ok m" using Cons.prems by (simp add: p smap_ok_Cons)
  have none: "k < a \<Longrightarrow> map_of m k = None"
    using map_of_smap_Cons_less [of a b m k] Cons.prems by (auto simp: p split: if_splits)
  show ?case
    using Cons.IH [OF ok] none by (auto simp: p)
qed

lemma map_of_smap_assign:
  "smap_ok m \<Longrightarrow> map_of (smap_assign k v m) = (map_of m)(k \<mapsto> v)"
proof (induction m)
  case Nil
  then show ?case by simp
next
  case (Cons p m)
  obtain a b where p: "p = (a, b)" by (cases p)
  have ok: "smap_ok m" using Cons.prems by (simp add: p smap_ok_Cons)
  show ?case
    using Cons.IH [OF ok] by (auto simp: p fun_eq_iff)
qed

lemma smap_emplace_new:
  "smap_ok m \<Longrightarrow> k \<notin> fst ` set m \<Longrightarrow> set (smap_emplace k v m) = insert (k, v) (set m)"
proof (induction k v m rule: smap_emplace.induct)
  case (2 k v k' v' m)
  then show ?case by (simp add: smap_ok_Cons) blast
qed simp

section \<open>Bytes\<close>

definition byte_of_char :: "char \<Rightarrow> byte" where
  "byte_of_char c = of_char c"

definition char_of_byte :: "byte \<Rightarrow> char" where
  "char_of_byte b = char_of (unat b)"

definition bytes_of :: "string \<Rightarrow> byte list" where
  "bytes_of s = map byte_of_char s"

definition string_of_bytes :: "byte list \<Rightarrow> string" where
  "string_of_bytes bs = map char_of_byte bs"

lemma byte_of_char_nat: "byte_of_char c = word_of_nat (of_char c)"
  by (simp add: byte_of_char_def of_nat_of_char)

lemma unat_byte_of_char [simp]: "unat (byte_of_char c) = of_char c"
proof -
  have "(of_char c :: nat) < 2 ^ 8" using nat_of_char_less_256 [of c] by simp
  then show ?thesis by (simp add: byte_of_char_nat unat_of_nat)
qed

lemma char_of_byte_of_char [simp]: "char_of_byte (byte_of_char c) = c"
  by (simp add: char_of_byte_def)

lemma byte_of_char_of_byte [simp]: "byte_of_char (char_of_byte b) = b"
proof -
  have "unat b < 256" using unsigned_less [of b] by simp
  then have "unat (byte_of_char (char_of_byte b)) = unat b"
    by (simp add: char_of_byte_def of_char_of)
  then show ?thesis by (rule unsigned_word_eqI)
qed

lemma bytes_of_inj [simp]: "bytes_of s = bytes_of t \<longleftrightarrow> s = t"
  unfolding bytes_of_def by (metis char_of_byte_of_char inj_on_def inj_map_eq_map injI)

lemma string_of_bytes_of [simp]: "string_of_bytes (bytes_of s) = s"
  by (simp add: string_of_bytes_def bytes_of_def map_idI)

lemma bytes_of_string_of_bytes [simp]: "bytes_of (string_of_bytes bs) = bs"
  by (simp add: string_of_bytes_def bytes_of_def map_idI)

lemma length_bytes_of [simp]: "length (bytes_of s) = length s"
  by (simp add: bytes_of_def)

lemma bytes_of_append [simp]: "bytes_of (s @ t) = bytes_of s @ bytes_of t"
  by (simp add: bytes_of_def)

section \<open>Lists\<close>

lemma distinct_snoc [simp]: "distinct (xs @ [x]) \<longleftrightarrow> distinct xs \<and> x \<notin> set xs"
  by auto

lemma find_None_set: "find P xs = None \<longleftrightarrow> (\<forall>x \<in> set xs. \<not> P x)"
  by (auto simp: find_None_iff)

lemma find_SomeD: "find P xs = Some x \<Longrightarrow> x \<in> set xs \<and> P x"
  by (auto simp: find_Some_iff)


lemma ball_enumerate: "(\<forall>e \<in> set (enumerate n xs). Q (snd e)) \<longleftrightarrow> (\<forall>x \<in> set xs. Q x)"
proof -
  have "snd ` set (enumerate n xs) = set xs" by (metis map_snd_enumerate set_map)
  then show ?thesis by (metis (no_types, lifting) image_iff)
qed

lemma option_eqI: "(\<And>n. x = Some n \<longleftrightarrow> y = Some n) \<Longrightarrow> x = y"
  by (cases x; cases y) auto

text \<open>A loop invariant over the part of the list already processed.\<close>

lemma foldl_invariant:
  assumes "P [] a"
    and "\<And>xs x ys s. zs = xs @ x # ys \<Longrightarrow> P xs s \<Longrightarrow> P (xs @ [x]) (f s x)"
  shows "P zs (foldl f a zs)"
proof -
  have "ws @ vs = zs \<Longrightarrow> P ws s \<Longrightarrow> P zs (foldl f s vs)" for ws vs s
  proof (induction vs arbitrary: ws s)
    case (Cons x vs)
    then have "P (ws @ [x]) (f s x)" by (intro assms(2) [of ws x vs]) simp_all
    then show ?case using Cons.IH [of "ws @ [x]" "f s x"] Cons.prems by simp
  qed simp
  from this [of "[]" zs] assms(1) show ?thesis by simp
qed

end
