(* ===== verification/Value.thy ===== *)
theory Value
  imports Prelude
begin

text \<open>
  \<open>souxmar::pipeline::Value\<close> (src/pipeline/value.cpp, include/souxmar/pipeline/value.h):
  the typed tree of a stage's inputs, its checked accessors, its lookup and comparison, the
  plugin-facing C ABI over it (src/pipeline/c_abi_value.cpp) and the text emitter.  A
  \<open>std::map<std::string, Value>\<close> is a strictly sorted association list, the invariant
  \<open>value_ok\<close> states it for the whole tree.
\<close>

section \<open>The tree\<close>

datatype value_kind = KNull | KBool | KNumber | KString | KStage | KList | KMap

datatype pvalue =
    Null
  | Boolean bool
  | Number double
  | String string
  | Stage_ref string
  | VList "pvalue list"
  | VMap "(string \<times> pvalue) list"

fun kind_code :: "value_kind \<Rightarrow> byte" where
  "kind_code KNull = 0"
| "kind_code KBool = 1"
| "kind_code KNumber = 2"
| "kind_code KString = 3"
| "kind_code KStage = 4"
| "kind_code KList = 5"
| "kind_code KMap = 6"

lemma kind_code_inj [simp]: "kind_code a = kind_code b \<longleftrightarrow> a = b"
  by (cases a; cases b) simp_all

fun kind_name :: "value_kind \<Rightarrow> string" where
  "kind_name KNull = ''null''"
| "kind_name KBool = ''bool''"
| "kind_name KNumber = ''number''"
| "kind_name KString = ''string''"
| "kind_name KStage = ''stage-ref''"
| "kind_name KList = ''list''"
| "kind_name KMap = ''map''"

fun kind_of :: "pvalue \<Rightarrow> value_kind" where
  "kind_of Null = KNull"
| "kind_of (Boolean _) = KBool"
| "kind_of (Number _) = KNumber"
| "kind_of (String _) = KString"
| "kind_of (Stage_ref _) = KStage"
| "kind_of (VList _) = KList"
| "kind_of (VMap _) = KMap"

text \<open>The well-formedness invariant: every map of the tree is a \<open>std::map\<close>.\<close>

fun value_ok :: "pvalue \<Rightarrow> bool" where
  "value_ok (VList xs) = (\<forall>x \<in> set xs. value_ok x)"
| "value_ok (VMap m) = (smap_ok m \<and> (\<forall>e \<in> set m. value_ok (snd e)))"
| "value_ok _ = True"

section \<open>Accessors\<close>

definition wrong_kind :: "value_kind \<Rightarrow> value_kind \<Rightarrow> string" where
  "wrong_kind expected actual =
     ''Value: requested as '' @ kind_name expected @ '', but holds '' @ kind_name actual"

fun as_bool :: "pvalue \<Rightarrow> string + bool" where
  "as_bool (Boolean b) = Inr b"
| "as_bool v = Inl (wrong_kind KBool (kind_of v))"

fun as_number :: "pvalue \<Rightarrow> string + double" where
  "as_number (Number d) = Inr d"
| "as_number v = Inl (wrong_kind KNumber (kind_of v))"

fun as_string :: "pvalue \<Rightarrow> string + string" where
  "as_string (String s) = Inr s"
| "as_string v = Inl (wrong_kind KString (kind_of v))"

fun as_stage :: "pvalue \<Rightarrow> string + string" where
  "as_stage (Stage_ref s) = Inr s"
| "as_stage v = Inl (wrong_kind KStage (kind_of v))"

fun as_list :: "pvalue \<Rightarrow> string + pvalue list" where
  "as_list (VList xs) = Inr xs"
| "as_list v = Inl (wrong_kind KList (kind_of v))"

fun as_map :: "pvalue \<Rightarrow> string + (string \<times> pvalue) list" where
  "as_map (VMap m) = Inr m"
| "as_map v = Inl (wrong_kind KMap (kind_of v))"

fun try_bool :: "pvalue \<Rightarrow> bool option" where
  "try_bool (Boolean b) = Some b"
| "try_bool _ = None"

fun try_number :: "pvalue \<Rightarrow> double option" where
  "try_number (Number d) = Some d"
| "try_number _ = None"

fun try_string :: "pvalue \<Rightarrow> string option" where
  "try_string (String s) = Some s"
| "try_string _ = None"

fun try_stage :: "pvalue \<Rightarrow> string option" where
  "try_stage (Stage_ref s) = Some s"
| "try_stage _ = None"

fun try_list :: "pvalue \<Rightarrow> pvalue list option" where
  "try_list (VList xs) = Some xs"
| "try_list _ = None"

fun try_map :: "pvalue \<Rightarrow> (string \<times> pvalue) list option" where
  "try_map (VMap m) = Some m"
| "try_map _ = None"

text \<open>\<open>Value::find\<close>: \<open>nullptr\<close> for a value that is no map and for an absent key.\<close>

definition find_field :: "pvalue \<Rightarrow> string \<Rightarrow> pvalue option" where
  "find_field v key = (case try_map v of None \<Rightarrow> None | Some m \<Rightarrow> map_of m key)"

lemma find_field_simps [simp]:
  "find_field (VMap m) key = map_of m key"
  "kind_of v \<noteq> KMap \<Longrightarrow> find_field v key = None"
  by (simp add: find_field_def) (cases v; simp add: find_field_def)

section \<open>Comparison\<close>

text \<open>
  \<open>operator==\<close> compares the stored variants, so numbers are compared as IEEE doubles: a
  NaN differs from itself, and the two zeros are equal.
\<close>

definition double_exponent :: "double \<Rightarrow> nat" where
  "double_exponent d = unat (take_bit 11 (drop_bit 52 d))"

definition double_fraction :: "double \<Rightarrow> nat" where
  "double_fraction d = unat (take_bit 52 d)"

definition double_negative :: "double \<Rightarrow> bool" where
  "double_negative d = bit d 63"

definition double_nan :: "double \<Rightarrow> bool" where
  "double_nan d = (double_exponent d = 2047 \<and> double_fraction d \<noteq> 0)"

definition double_zero :: "double \<Rightarrow> bool" where
  "double_zero d = (double_exponent d = 0 \<and> double_fraction d = 0)"

definition double_eq :: "double \<Rightarrow> double \<Rightarrow> bool" where
  "double_eq a b = (\<not> double_nan a \<and> \<not> double_nan b \<and> (a = b \<or> double_zero a \<and> double_zero b))"

text \<open>
  The integral part of a double, as a C++ conversion to an integer type takes it: \<open>None\<close>
  for the infinities and NaN.
\<close>

definition double_trunc :: "double \<Rightarrow> int option" where
  "double_trunc d =
     (let e = double_exponent d; f = double_fraction d
      in if e = 2047 then None
         else let m = (if e = 0 then f else 2 ^ 52 + f);
                  mag = (if 1075 \<le> e then m * 2 ^ (e - 1075)
                         else m div 2 ^ (if e = 0 then 1074 else 1075 - e))
              in Some (if double_negative d then - int mag else int mag))"

fun value_eq :: "pvalue \<Rightarrow> pvalue \<Rightarrow> bool"
  and values_eq :: "pvalue list \<Rightarrow> pvalue list \<Rightarrow> bool"
  and fields_eq :: "(string \<times> pvalue) list \<Rightarrow> (string \<times> pvalue) list \<Rightarrow> bool" where
  "value_eq Null Null = True"
| "value_eq (Boolean a) (Boolean b) = (a = b)"
| "value_eq (Number a) (Number b) = double_eq a b"
| "value_eq (String a) (String b) = (a = b)"
| "value_eq (Stage_ref a) (Stage_ref b) = (a = b)"
| "value_eq (VList a) (VList b) = values_eq a b"
| "value_eq (VMap a) (VMap b) = fields_eq a b"
| "value_eq _ _ = False"
| "values_eq [] [] = True"
| "values_eq (x # xs) (y # ys) = (value_eq x y \<and> values_eq xs ys)"
| "values_eq _ _ = False"
| "fields_eq [] [] = True"
| "fields_eq ((k, x) # xs) ((l, y) # ys) = (k = l \<and> value_eq x y \<and> fields_eq xs ys)"
| "fields_eq _ _ = False"

text \<open>The trees whose numbers are numbers.\<close>

fun nan_free :: "pvalue \<Rightarrow> bool" where
  "nan_free (Number d) = (\<not> double_nan d)"
| "nan_free (VList xs) = (\<forall>x \<in> set xs. nan_free x)"
| "nan_free (VMap m) = (\<forall>e \<in> set m. nan_free (snd e))"
| "nan_free _ = True"

lemma values_eq_refl_iff: "values_eq xs xs \<longleftrightarrow> (\<forall>x \<in> set xs. value_eq x x)"
  by (induction xs) auto

lemma fields_eq_refl_iff: "fields_eq m m \<longleftrightarrow> (\<forall>e \<in> set m. value_eq (snd e) (snd e))"
  by (induction m) auto

lemma value_eq_refl_iff: "value_eq v v \<longleftrightarrow> nan_free v"
  by (induction v)
    (force simp: double_eq_def values_eq_refl_iff fields_eq_refl_iff)+

lemma value_eq_kind: "value_eq a b \<Longrightarrow> kind_of a = kind_of b"
  by (cases a; cases b) auto

section \<open>The C ABI\<close>

text \<open>
  \<open>souxmar_value_*\<close>: the handle may be null, and every accessor answers a wrong kind with
  a default instead of failing.
\<close>

definition souxmar_value_kind :: "pvalue option \<Rightarrow> byte" where
  "souxmar_value_kind h = (case h of None \<Rightarrow> 0 | Some v \<Rightarrow> kind_code (kind_of v))"

definition souxmar_value_as_bool :: "pvalue option \<Rightarrow> int" where
  "souxmar_value_as_bool h =
     (case h of None \<Rightarrow> 0
      | Some v \<Rightarrow> (case try_bool v of Some b \<Rightarrow> (if b then 1 else 0) | None \<Rightarrow> 0))"

definition souxmar_value_as_number :: "pvalue option \<Rightarrow> double" where
  "souxmar_value_as_number h =
     (case h of None \<Rightarrow> 0 | Some v \<Rightarrow> (case try_number v of Some d \<Rightarrow> d | None \<Rightarrow> 0))"

definition souxmar_value_as_string :: "pvalue option \<Rightarrow> string option" where
  "souxmar_value_as_string h = (case h of None \<Rightarrow> None | Some v \<Rightarrow> try_string v)"

definition souxmar_value_as_stage :: "pvalue option \<Rightarrow> string option" where
  "souxmar_value_as_stage h = (case h of None \<Rightarrow> None | Some v \<Rightarrow> try_stage v)"

definition souxmar_value_list_size :: "pvalue option \<Rightarrow> nat" where
  "souxmar_value_list_size h =
     (case h of None \<Rightarrow> 0 | Some v \<Rightarrow> (case try_list v of Some l \<Rightarrow> length l | None \<Rightarrow> 0))"

definition souxmar_value_list_at :: "pvalue option \<Rightarrow> nat \<Rightarrow> pvalue option" where
  "souxmar_value_list_at h i =
     (case h of None \<Rightarrow> None
      | Some v \<Rightarrow> (case try_list v of None \<Rightarrow> None
                   | Some l \<Rightarrow> if length l \<le> i then None else Some (l ! i)))"

definition souxmar_value_map_get :: "pvalue option \<Rightarrow> string option \<Rightarrow> pvalue option" where
  "souxmar_value_map_get h key =
     (case (h, key) of
        (Some v, Some k) \<Rightarrow> (case try_map v of None \<Rightarrow> None | Some m \<Rightarrow> map_of m k)
      | _ \<Rightarrow> None)"

definition souxmar_value_map_size :: "pvalue option \<Rightarrow> nat" where
  "souxmar_value_map_size h =
     (case h of None \<Rightarrow> 0 | Some v \<Rightarrow> (case try_map v of Some m \<Rightarrow> length m | None \<Rightarrow> 0))"

lemma value_map_get_find_field:
  "souxmar_value_map_get (Some v) (Some k) = find_field v k"
  by (simp add: souxmar_value_map_get_def find_field_def)


section \<open>Stage references\<close>

text \<open>
  \<open>collect_into\<close> of src/pipeline/dag.cpp: the ids of every \<open>StageRef\<close> of the tree, in
  traversal order, with repetitions.
\<close>

fun collect_into :: "pvalue \<Rightarrow> string list \<Rightarrow> string list"
  and collect_items :: "pvalue list \<Rightarrow> string list \<Rightarrow> string list"
  and collect_fields :: "(string \<times> pvalue) list \<Rightarrow> string list \<Rightarrow> string list" where
  "collect_into (Stage_ref i) out = out @ [i]"
| "collect_into (VList xs) out = collect_items xs out"
| "collect_into (VMap m) out = collect_fields m out"
| "collect_into _ out = out"
| "collect_items [] out = out"
| "collect_items (x # xs) out = collect_items xs (collect_into x out)"
| "collect_fields [] out = out"
| "collect_fields ((k, x) # m) out = collect_fields m (collect_into x out)"

definition collect_stage_refs :: "pvalue \<Rightarrow> string list" where
  "collect_stage_refs v = collect_into v []"

fun refs :: "pvalue \<Rightarrow> string set" where
  "refs (Stage_ref i) = {i}"
| "refs (VList xs) = (\<Union>x \<in> set xs. refs x)"
| "refs (VMap m) = (\<Union>e \<in> set m. refs (snd e))"
| "refs _ = {}"

lemma set_collect_into:
  "set (collect_into v out) = set out \<union> refs v"
  "set (collect_items xs out) = set out \<union> (\<Union>x \<in> set xs. refs x)"
  "set (collect_fields m out) = set out \<union> (\<Union>e \<in> set m. refs (snd e))"
  by (induction v out and xs out and m out
      rule: collect_into_collect_items_collect_fields.induct) auto

lemma set_collect_stage_refs [simp]: "set (collect_stage_refs v) = refs v"
  by (simp add: collect_stage_refs_def set_collect_into)

end
