(* ===== verification/Dag.thy ===== *)
theory Dag
  imports Value "HOL-Library.While_Combinator"
begin

text \<open>
  The pipeline data model (include/souxmar/pipeline/pipeline.h) and the DAG validator with
  its Kahn topological sort (src/pipeline/dag.cpp).  The iteration order of the
  \<open>std::unordered_set\<close> of references is a parameter \<open>iter\<close>: any function that lists the
  set of its argument without repetitions.  The sort is a \<open>while_option\<close>, whose value
  \<open>None\<close> is non-termination, so its termination is a theorem and not an assumption.
\<close>

section \<open>Pipelines\<close>

record stage =
  st_id :: string
  st_plugin :: string
  st_input :: pvalue

record pipeline =
  version :: int
  stages :: "stage list"

record dag_error =
  err_message :: string
  err_stage :: string

definition dag_err :: "string \<Rightarrow> string \<Rightarrow> dag_error" where
  "dag_err m s = \<lparr>err_message = m, err_stage = s\<rparr>"

section \<open>Indexing the stage ids\<close>

fun index_stages ::
  "nat \<Rightarrow> stage list \<Rightarrow> dag_error list \<Rightarrow> (string \<rightharpoonup> nat) \<Rightarrow> dag_error list \<times> (string \<rightharpoonup> nat)" where
  "index_stages i [] errors ids = (errors, ids)"
| "index_stages i (s # ss) errors ids =
     (if st_id s = []
      then index_stages (i + 1) ss (errors @ [dag_err ''stage id must be non-empty'' []]) ids
      else case ids (st_id s) of
             None \<Rightarrow> index_stages (i + 1) ss errors (ids(st_id s \<mapsto> i))
           | Some _ \<Rightarrow>
               index_stages (i + 1) ss
                 (errors @ [dag_err (''duplicate stage id '' @ quoted (st_id s)) (st_id s)]) ids)"

section \<open>Edges\<close>

type_synonym adjacency = "dag_error list \<times> nat list list \<times> nat list"

definition link_ref ::
  "(string \<rightharpoonup> nat) \<Rightarrow> nat \<Rightarrow> stage \<Rightarrow> adjacency \<Rightarrow> string \<Rightarrow> adjacency" where
  "link_ref ids i s adj r =
     (case adj of (errors, children, in_degree) \<Rightarrow>
        if r = st_id s
        then (errors @ [dag_err (''stage '' @ quoted (st_id s) @ '' references itself via `from: ''
                                   @ st_id s @ ''`'') (st_id s)], children, in_degree)
        else case ids r of
               None \<Rightarrow>
                 (errors @ [dag_err (''stage '' @ quoted (st_id s)
                                       @ '' references unknown stage '' @ quoted r) (st_id s)],
                  children, in_degree)
             | Some producer \<Rightarrow>
                 (errors, children[producer := children ! producer @ [i]],
                  in_degree[i := in_degree ! i + 1]))"

definition link_stage ::
  "(string list \<Rightarrow> string list) \<Rightarrow> (string \<rightharpoonup> nat) \<Rightarrow> adjacency \<Rightarrow> nat \<times> stage \<Rightarrow> adjacency" where
  "link_stage iter ids adj e =
     (case e of (i, s) \<Rightarrow>
        foldl (link_ref ids i s) adj (iter (collect_stage_refs (st_input s))))"

section \<open>Kahn's algorithm\<close>

text \<open>\<open>--in_degree[child]\<close> on a \<open>std::size_t\<close> wraps at zero.\<close>

definition decrement :: "nat \<Rightarrow> nat" where
  "decrement n = (if n = 0 then 2 ^ 64 - 1 else n - 1)"

text \<open>\<open>std::lower_bound\<close> followed by \<open>insert\<close>.\<close>

definition lower_bound_insert :: "nat \<Rightarrow> nat list \<Rightarrow> nat list" where
  "lower_bound_insert x xs = takeWhile (\<lambda>y. y < x) xs @ x # dropWhile (\<lambda>y. y < x) xs"

definition relax :: "nat list \<times> nat list \<Rightarrow> nat \<Rightarrow> nat list \<times> nat list" where
  "relax st child =
     (case st of (ready, in_degree) \<Rightarrow>
        let d = decrement (in_degree ! child); in_degree = in_degree[child := d]
        in if d = 0 then (lower_bound_insert child ready, in_degree) else (ready, in_degree))"

type_synonym kahn_state = "nat list \<times> nat list \<times> nat list"

definition kahn_step :: "nat list list \<Rightarrow> kahn_state \<Rightarrow> kahn_state" where
  "kahn_step children st =
     (case st of (ready, in_degree, order) \<Rightarrow>
        let node = hd ready;
            (ready, in_degree) = foldl relax (tl ready, in_degree) (children ! node)
        in (ready, in_degree, order @ [node]))"

definition kahn_continue :: "kahn_state \<Rightarrow> bool" where
  "kahn_continue st = (case st of (ready, in_degree, order) \<Rightarrow> ready \<noteq> [])"

definition kahn_start :: "nat list \<Rightarrow> kahn_state" where
  "kahn_start in_degree =
     (sort (filter (\<lambda>i. in_degree ! i = 0) [0..<length in_degree]), in_degree, [])"

definition kahn :: "nat list list \<Rightarrow> nat list \<Rightarrow> kahn_state option" where
  "kahn children in_degree =
     while_option kahn_continue (kahn_step children) (kahn_start in_degree)"

section \<open>Validation\<close>

definition cycle_members :: "stage list \<Rightarrow> nat list \<Rightarrow> string list" where
  "cycle_members ss in_degree =
     map (\<lambda>i. st_id (ss ! i)) (filter (\<lambda>i. 0 < in_degree ! i) [0..<length ss])"

definition validate ::
  "(string list \<Rightarrow> string list) \<Rightarrow> pipeline \<Rightarrow> (dag_error list + nat list) option" where
  "validate iter p =
     (let ss = stages p; n = length ss;
          (errors, ids) = index_stages 0 ss [] Map.empty;
          (errors, children, in_degree) =
            foldl (link_stage iter ids) (errors, replicate n [], replicate n 0) (enumerate 0 ss)
      in if errors \<noteq> [] then Some (Inl errors)
         else case kahn children in_degree of
                None \<Rightarrow> None
              | Some (ready, in_degree, order) \<Rightarrow>
                  if length order \<noteq> n
                  then Some (Inl [dag_err (''pipeline contains a cycle involving stages: ''
                                             @ join '', '' (cycle_members ss in_degree)) []])
                  else Some (Inr order))"

section \<open>Specification\<close>

definition uset_iter :: "(string list \<Rightarrow> string list) \<Rightarrow> bool" where
  "uset_iter iter = (\<forall>xs. distinct (iter xs) \<and> set (iter xs) = set xs)"

definition deps :: "pipeline \<Rightarrow> nat \<Rightarrow> nat set" where
  "deps p i = {j. j < length (stages p) \<and> st_id (stages p ! j) \<in> refs (st_input (stages p ! i))}"

definition dep_rel :: "pipeline \<Rightarrow> (nat \<times> nat) set" where
  "dep_rel p = {(j, i). i < length (stages p) \<and> j \<in> deps p i}"

definition ids_ok :: "pipeline \<Rightarrow> bool" where
  "ids_ok p = ([] \<notin> set (map st_id (stages p)) \<and> distinct (map st_id (stages p)))"

definition refs_ok :: "pipeline \<Rightarrow> bool" where
  "refs_ok p = (\<forall>s \<in> set (stages p).
     st_id s \<notin> refs (st_input s) \<and> refs (st_input s) \<subseteq> set (map st_id (stages p)))"

definition dag_ok :: "pipeline \<Rightarrow> bool" where
  "dag_ok p = (ids_ok p \<and> refs_ok p \<and> acyclic (dep_rel p))"

definition topo_order :: "pipeline \<Rightarrow> nat list \<Rightarrow> bool" where
  "topo_order p ord =
     (distinct ord \<and> set ord = {..<length (stages p)} \<and>
      (\<forall>k < length ord. deps p (ord ! k) \<subseteq> set (take k ord)))"

text \<open>Every position holds the least index that can be scheduled there.\<close>

definition next_least :: "(nat \<Rightarrow> nat set) \<Rightarrow> nat \<Rightarrow> nat list \<Rightarrow> nat \<Rightarrow> bool" where
  "next_least E n done i =
     (i < n \<and> i \<notin> set done \<and> E i \<subseteq> set done \<and>
      (\<forall>j < n. j \<notin> set done \<longrightarrow> E j \<subseteq> set done \<longrightarrow> i \<le> j))"

definition greedy :: "(nat \<Rightarrow> nat set) \<Rightarrow> nat \<Rightarrow> nat list \<Rightarrow> bool" where
  "greedy E n ord = (\<forall>k < length ord. next_least E n (take k ord) (ord ! k))"

section \<open>The sort\<close>

lemma lower_bound_insert_insort: "sorted xs \<Longrightarrow> lower_bound_insert x xs = insort x xs"
proof (induction xs)
  case (Cons y ys)
  show ?case
  proof (cases "y < x")
    case True
    then show ?thesis using Cons by (simp add: lower_bound_insert_def)
  next
    case False
    then show ?thesis by (simp add: lower_bound_insert_def)
  qed
qed (simp add: lower_bound_insert_def)

lemma relax_simp:
  "sorted ready \<Longrightarrow> 0 < deg ! c \<Longrightarrow>
     relax (ready, deg) c =
       (if deg ! c = 1 then insort c ready else ready, deg[c := deg ! c - 1])"
  by (simp add: relax_def decrement_def lower_bound_insert_insort Let_def)

lemma foldl_relax:
  assumes "sorted ready" "distinct ready" "distinct cs"
    and "\<forall>c \<in> set cs. c < length deg \<and> 0 < deg ! c \<and> c \<notin> set ready"
  shows "\<exists>ready' deg'. foldl relax (ready, deg) cs = (ready', deg') \<and> sorted ready' \<and> distinct ready'
    \<and> set ready' = set ready \<union> {c \<in> set cs. deg ! c = 1} \<and> length deg' = length deg
    \<and> (\<forall>i < length deg. deg' ! i = (if i \<in> set cs then deg ! i - 1 else deg ! i))"
  using assms
proof (induction cs arbitrary: ready deg)
  case (Cons c cs)
  define r1 where "r1 = (if deg ! c = 1 then insort c ready else ready)"
  define d1 where "d1 = deg[c := deg ! c - 1]"
  have step: "relax (ready, deg) c = (r1, d1)"
    using Cons.prems by (simp add: relax_simp r1_def d1_def)
  have "sorted r1" "distinct r1" and pre: "\<forall>x \<in> set cs. x < length d1 \<and> 0 < d1 ! x \<and> x \<notin> set r1"
    using Cons.prems by (auto simp: r1_def d1_def sorted_insort distinct_insort set_insort_key nth_list_update)
  from Cons.IH [OF this(1,2) _ pre] Cons.prems obtain r' d' where
    *: "foldl relax (r1, d1) cs = (r', d')" "sorted r'" "distinct r'"
      "set r' = set r1 \<union> {x \<in> set cs. d1 ! x = 1}" "length d' = length d1"
      "\<forall>i < length d1. d' ! i = (if i \<in> set cs then d1 ! i - 1 else d1 ! i)" by auto
  have "set r' = set ready \<union> {x \<in> set (c # cs). deg ! x = 1}"
    using *(4) Cons.prems by (auto simp: r1_def d1_def set_insort_key nth_list_update)
  moreover have "\<forall>i < length deg. d' ! i = (if i \<in> set (c # cs) then deg ! i - 1 else deg ! i)"
    using *(6) Cons.prems by (auto simp: d1_def nth_list_update)
  ultimately show ?case using * step by (simp add: d1_def)
qed simp

text \<open>
  The graph as the link phase leaves it: \<open>children\<close> lists the successors of every node, and
  \<open>E i\<close> is the set of predecessors of \<open>i\<close>.
\<close>

definition graph_ok :: "(nat \<Rightarrow> nat set) \<Rightarrow> nat \<Rightarrow> nat list list \<Rightarrow> bool" where
  "graph_ok E n children \<longleftrightarrow>
     (\<forall>i < n. E i \<subseteq> {..<n}) \<and>
     (\<forall>j < n. distinct (children ! j) \<and> set (children ! j) = {i. i < n \<and> j \<in> E i})"

definition kahn_inv :: "(nat \<Rightarrow> nat set) \<Rightarrow> nat \<Rightarrow> kahn_state \<Rightarrow> bool" where
  "kahn_inv E n st =
     (case st of (ready, deg, order) \<Rightarrow>
        length deg = n \<and> sorted ready \<and> distinct (order @ ready) \<and>
        set order \<union> set ready \<subseteq> {..<n} \<and>
        (\<forall>i < n. deg ! i = card (E i - set order)) \<and>
        (\<forall>i < n. i \<in> set order \<union> set ready \<longleftrightarrow> E i \<subseteq> set order) \<and>
        greedy E n order)"

lemma graph_finite: "graph_ok E n children \<Longrightarrow> i < n \<Longrightarrow> finite (E i)"
  unfolding graph_ok_def by (meson finite_lessThan finite_subset)

lemma kahn_inv_start:
  assumes g: "graph_ok E n children" and len: "length deg = n"
    and deg: "\<forall>i < n. deg ! i = card (E i)"
  shows "kahn_inv E n (kahn_start deg)"
  using len deg graph_finite [OF g] by (auto simp: kahn_inv_def kahn_start_def greedy_def)

lemma kahn_inv_step:
  assumes g: "graph_ok E n children" and inv: "kahn_inv E n st" and cont: "kahn_continue st"
  shows "kahn_inv E n (kahn_step children st)"
    and "length (snd (snd (kahn_step children st))) = Suc (length (snd (snd st)))"
proof -
  obtain ready deg order where st: "st = (ready, deg, order)" by (cases st)
  obtain node rest where ready: "ready = node # rest"
    using cont by (cases ready) (auto simp: st kahn_continue_def)
  have I: "length deg = n" "sorted ready" "distinct (order @ ready)"
      "set order \<union> set ready \<subseteq> {..<n}" "\<forall>i < n. deg ! i = card (E i - set order)"
      "\<forall>i < n. i \<in> set order \<union> set ready \<longleftrightarrow> E i \<subseteq> set order" "greedy E n order"
    using inv by (simp_all add: kahn_inv_def st)
  let ?cs = "children ! node"
  have node: "node < n" "node \<notin> set order" "E node \<subseteq> set order" using I(3,4,6) ready by auto
  have cs: "distinct ?cs" "set ?cs = {i. i < n \<and> node \<in> E i}"
    using g node by (auto simp: graph_ok_def)
  have pre: "\<forall>c \<in> set ?cs. c < length deg \<and> 0 < deg ! c \<and> c \<notin> set rest"
  proof
    fix c assume "c \<in> set ?cs"
    then have c: "c < n" "node \<in> E c - set order" using cs node by auto
    then have "0 < card (E c - set order)" using graph_finite [OF g] card_gt_0_iff by blast
    then show "c < length deg \<and> 0 < deg ! c \<and> c \<notin> set rest" using c I ready by auto
  qed
  from foldl_relax [OF _ _ cs(1) pre] I(2,3) ready obtain r' d' where
    r: "foldl relax (rest, deg) ?cs = (r', d')" "sorted r'" "distinct r'"
      "set r' = set rest \<union> {c \<in> set ?cs. deg ! c = 1}" "length d' = length deg"
      "\<forall>i < length deg. d' ! i = (if i \<in> set ?cs then deg ! i - 1 else deg ! i)" by auto
  have step: "kahn_step children st = (r', d', order @ [node])"
    using r(1) by (simp add: kahn_step_def st ready)
  have deg': "d' ! i = card (E i - set (order @ [node]))" if i: "i < n" for i
  proof -
    have "E i - set (order @ [node]) = (E i - set order) - {node}" by auto
    then show ?thesis using r(6) I(1,5) i cs(2) node(2) graph_finite [OF g i]
      by (auto simp: card_Diff_singleton_if)
  qed
  have fresh: "c \<in> set ?cs \<Longrightarrow> deg ! c = 1 \<Longrightarrow> c \<notin> set order \<union> set ready" for c
    using I(6) cs(2) node(2) by auto
  have mem: "i \<in> set (order @ [node]) \<union> set r' \<longleftrightarrow> E i \<subseteq> set (order @ [node])" if i: "i < n" for i
  proof (cases "node \<in> E i")
    case True
    have "E i \<subseteq> set (order @ [node]) \<longleftrightarrow> card (E i - set order - {node}) = 0"
      using graph_finite [OF g i] by auto
    also have "\<dots> \<longleftrightarrow> deg ! i = 1"
      using True node(2) graph_finite [OF g i] I(5) i pre cs(2) I(1) by auto
    finally show ?thesis
      using True I(6) i node(2) cs(2) r(4) ready by auto
  next
    case False
    then show ?thesis using I(6) i cs(2) r(4) ready node by auto
  qed
  have "next_least E n order node"
    unfolding next_least_def using node I(2,6) ready by auto
  then have greedy': "greedy E n (order @ [node])"
    using I(7) by (auto simp: greedy_def nth_append less_Suc_eq)
  have dist: "distinct ((order @ [node]) @ r')"
    using I(3) ready r(3,4) fresh by auto
  show "kahn_inv E n (kahn_step children st)"
    unfolding kahn_inv_def step prod.case
    using r(2,4,5) I(1,4) dist greedy' deg' mem cs(2) node ready by auto
  show "length (snd (snd (kahn_step children st))) = Suc (length (snd (snd st)))"
    by (subst step) (simp add: st)
qed

lemma kahn_inv_length:
  assumes "kahn_inv E n st"
  shows "length (snd (snd st)) \<le> n"
proof -
  obtain ready deg order where st: "st = (ready, deg, order)" by (cases st)
  have "distinct order" "set order \<subseteq> {..<n}" using assms by (auto simp: kahn_inv_def st)
  then have "length order \<le> card {..<n}" by (metis card_mono distinct_card finite_lessThan)
  then show ?thesis by (simp add: st)
qed

lemma kahn_terminates:
  assumes g: "graph_ok E n children" and len: "length deg = n"
    and deg: "\<forall>i < n. deg ! i = card (E i)"
  shows "\<exists>st. kahn children deg = Some st \<and> kahn_inv E n st \<and> \<not> kahn_continue st"
proof -
  have "\<exists>t. while_option kahn_continue (kahn_step children) (kahn_start deg) = Some t"
  proof (rule measure_while_option_Some [where P = "kahn_inv E n"
        and f = "\<lambda>st. n - length (snd (snd st))"])
    fix s assume s: "kahn_inv E n s" "kahn_continue s"
    note st = kahn_inv_step [OF g s]
    show "kahn_inv E n (kahn_step children s) \<and>
        n - length (snd (snd (kahn_step children s))) < n - length (snd (snd s))"
      using st kahn_inv_length [OF st(1)] by simp
  qed (rule kahn_inv_start [OF g len deg])
  then obtain t where t: "kahn children deg = Some t" by (auto simp: kahn_def)
  have "kahn_inv E n t"
    using while_option_rule [where P = "kahn_inv E n", OF _ t [unfolded kahn_def]]
      kahn_inv_step [OF g] kahn_inv_start [OF g len deg] by blast
  moreover have "\<not> kahn_continue t" using while_option_stop [OF t [unfolded kahn_def]] .
  ultimately show ?thesis using t by blast
qed


section \<open>What the sort returns\<close>

lemma greedy_order_unique:
  assumes "greedy E n xs" "greedy E n ys" "length xs = length ys"
  shows "xs = ys"
proof -
  have "take k xs = take k ys" if "k \<le> length xs" for k
    using that
  proof (induction k)
    case (Suc k)
    then have eq: "take k xs = take k ys" and k: "k < length xs" "k < length ys"
      using assms(3) by auto
    have "next_least E n (take k xs) (xs ! k)" "next_least E n (take k xs) (ys ! k)"
      using assms(1,2) k eq by (auto simp: greedy_def)
    then have "xs ! k = ys ! k" unfolding next_least_def by (meson le_antisym)
    then show ?case using eq k by (simp add: take_Suc_conv_app_nth)
  qed simp
  from this [of "length xs"] assms(3) show ?thesis by simp
qed

lemma kahn_stuck:
  assumes g: "graph_ok E n children" and inv: "kahn_inv E n st" and stop: "\<not> kahn_continue st"
  shows "acyclic {(j, i). i < n \<and> j \<in> E i} \<longleftrightarrow> length (snd (snd st)) = n"
    and "\<forall>i < n. 0 < fst (snd st) ! i \<longleftrightarrow> i \<notin> set (snd (snd st))"
proof -
  obtain deg order where st: "st = ([], deg, order)"
    using stop by (cases st) (simp add: kahn_continue_def)
  let ?R = "{(j, i). i < n \<and> j \<in> E i}"
  have I: "distinct order" "set order \<subseteq> {..<n}" "\<forall>i < n. i \<in> set order \<longleftrightarrow> E i \<subseteq> set order"
      "greedy E n order" "\<forall>i < n. deg ! i = card (E i - set order)"
    using inv by (auto simp: kahn_inv_def st)
  have sub: "?R \<subseteq> {..<n} \<times> {..<n}" using g by (auto simp: graph_ok_def)
  then have fin: "finite ?R" by (rule finite_subset) simp
  have "\<forall>i < n. 0 < deg ! i \<longleftrightarrow> i \<notin> set order"
    using I(3,5) graph_finite [OF g] by (auto simp: card_gt_0_iff)
  then show "\<forall>i < n. 0 < fst (snd st) ! i \<longleftrightarrow> i \<notin> set (snd (snd st))" by (simp add: st)
  show "acyclic ?R \<longleftrightarrow> length (snd (snd st)) = n"
  proof
    assume "acyclic ?R"
    then have wf: "wf ?R" by (rule finite_acyclic_wf [OF fin])
    have "set order = {..<n}"
    proof (rule ccontr)
      assume "set order \<noteq> {..<n}"
      then obtain x where "x \<in> {..<n} - set order" using I(2) by blast
      from wfE_min [OF wf this] obtain z where z: "z < n" "z \<notin> set order"
          "\<And>y. (y, z) \<in> ?R \<Longrightarrow> y \<notin> {..<n} - set order" by auto
      then have "E z \<subseteq> set order" using sub by auto
      then show False using I(3) z by blast
    qed
    then show "length (snd (snd st)) = n" using distinct_card [OF I(1)] by (simp add: st)
  next
    assume "length (snd (snd st)) = n"
    then have len: "length order = n" by (simp add: st)
    have "set order = {..<n}"
      using I(1,2) len by (metis card_lessThan card_subset_eq distinct_card finite_lessThan)
    define pos where "pos i = (LEAST k. k < n \<and> order ! k = i)" for i
    have pos: "pos (order ! k) = k" if "k < n" for k
    proof -
      have "l = k" if "l < n" "order ! l = order ! k" for l
        using that \<open>k < n\<close> I(1) len nth_eq_iff_index_eq by blast
      then show ?thesis unfolding pos_def using that
        by (intro Least_equality) auto
    qed
    have "pos j < pos i" if "(j, i) \<in> ?R" for j i
    proof -
      have "i \<in> set order" using that \<open>set order = {..<n}\<close> by simp
      then obtain k where k: "k < n" "order ! k = i" using len by (auto simp: in_set_conv_nth)
      then have "E i \<subseteq> set (take k order)" using I(4) len by (auto simp: greedy_def next_least_def)
      then have "j \<in> set (take k order)" using that by auto
      then obtain l where "l < k" "order ! l = j" using len k by (auto simp: in_set_conv_nth)
      then show ?thesis using pos k by auto
    qed
    then have "?R \<subseteq> inv_image less_than pos" by auto
    then have "wf ?R" by (rule wf_subset [rotated]) simp
    then show "acyclic ?R" by (rule wf_acyclic)
  qed
qed

section \<open>The index phase\<close>

definition index_good :: "stage list \<Rightarrow> (string \<rightharpoonup> nat) \<Rightarrow> bool" where
  "index_good ss ids \<longleftrightarrow>
     (\<forall>r j. ids r = Some j \<longleftrightarrow> j < length ss \<and> st_id (ss ! j) = r)"

lemma index_stages_errors:
  "fst (index_stages i ss errors ids) = [] \<longleftrightarrow>
     errors = [] \<and> [] \<notin> set (map st_id ss) \<and> distinct (map st_id ss)
     \<and> (\<forall>s \<in> set ss. ids (st_id s) = None)"
proof (induction i ss errors ids rule: index_stages.induct)
  case (2 i s ss errors ids)
  show ?case
  proof (cases "st_id s = [] \<or> ids (st_id s) \<noteq> None")
    case True
    then show ?thesis using 2 by auto
  next
    case False
    then have s: "ids (st_id s) = None" "st_id s \<noteq> []" by auto
    have step: "fst (index_stages i (s # ss) errors ids)
        = fst (index_stages (i + 1) ss errors (ids(st_id s \<mapsto> i)))" using s by simp
    show ?thesis unfolding step "2.IH"(2) [OF s(2,1)] using s
      by (auto split: if_splits) (metis imageI)
  qed
qed auto

lemma index_stages_ids:
  "fst (index_stages (length pre) ss errors ids) = [] \<Longrightarrow> index_good pre ids \<Longrightarrow>
     index_good (pre @ ss) (snd (index_stages (length pre) ss errors ids))"
proof (induction ss arbitrary: pre errors ids)
  case (Cons s ss)
  have s: "st_id s \<noteq> []" "ids (st_id s) = None"
    using Cons.prems(1) unfolding index_stages_errors by auto
  have "index_good (pre @ [s]) (ids(st_id s \<mapsto> length pre))"
    using Cons.prems(2) s(2) unfolding index_good_def
    by (auto simp: nth_append less_Suc_eq) (metis option.distinct(1))
  from Cons.IH [of "pre @ [s]" errors, OF _ this] Cons.prems(1) s show ?case
    by (simp del: fun_upd_apply)
qed simp


section \<open>The link phase\<close>

text \<open>
  The first \<open>i\<close> stages are linked, and of stage \<open>i\<close> the references \<open>rs\<close>.  \<open>D k\<close>
  stands for the predecessors of stage \<open>k\<close>.
\<close>

definition producers :: "(string \<rightharpoonup> nat) \<Rightarrow> string set \<Rightarrow> nat set" where
  "producers ids rs = {j. \<exists>r \<in> rs. ids r = Some j}"

definition linked :: "(nat \<Rightarrow> nat set) \<Rightarrow> nat \<Rightarrow> nat \<Rightarrow> nat set \<Rightarrow> adjacency \<Rightarrow> bool" where
  "linked D n i P adj =
     (case adj of (errors, children, deg) \<Rightarrow>
        length children = n \<and> length deg = n \<and>
        (\<forall>j < n. distinct (children ! j) \<and>
           set (children ! j) = {k. k < i \<and> j \<in> D k} \<union> {k. k = i \<and> j \<in> P}) \<and>
        (\<forall>k < n. deg ! k = (if k < i then card (D k) else if k = i then card P else 0)))"

lemma link_ref_step:
  assumes "linked D n i (producers ids R) (errors, children, deg)" "i < n" "r \<notin> R" "finite R"
    and ids: "index_good ss ids" "length ss = n" "distinct (map st_id ss)"
    and r: "r \<noteq> st_id s" "ids r = Some j"
  shows "\<exists>c d. link_ref ids i s (errors, children, deg) r = (errors, c, d)
           \<and> linked D n i (producers ids (insert r R)) (errors, c, d)"
proof -
  have j: "j < n" "st_id (ss ! j) = r" using ids r by (auto simp: index_good_def)
  have new: "j \<notin> producers ids R"
    using j assms(3) ids(1) by (auto simp: producers_def index_good_def)
  have ins: "producers ids (insert r R) = insert j (producers ids R)"
    using r(2) by (auto simp: producers_def)
  have "producers ids R \<subseteq> {..<n}" using ids by (auto simp: producers_def index_good_def)
  then have fin: "finite (producers ids R)" by (rule finite_subset) simp
  show ?thesis
    using assms(1,2) r j(1) new fin
    by (auto simp: link_ref_def linked_def ins nth_list_update)
qed

lemma link_stage_step:
  assumes it: "uset_iter iter" and adj: "linked D n i {} (errors, children, deg)" "i < n"
    and ids: "index_good ss ids" "length ss = n" "distinct (map st_id ss)"
    and ok: "st_id s \<notin> refs (st_input s)" "\<forall>r \<in> refs (st_input s). ids r \<noteq> None"
    and D: "D i = producers ids (refs (st_input s))"
  shows "\<exists>c d. link_stage iter ids (errors, children, deg) (i, s) = (errors, c, d)
           \<and> linked D n (Suc i) {} (errors, c, d)"
proof -
  define rs where "rs = iter (collect_stage_refs (st_input s))"
  have rs: "distinct rs" "set rs = refs (st_input s)"
    using it by (simp_all add: uset_iter_def rs_def)
  have "\<exists>c d. foldl (link_ref ids i s) (errors, children, deg) rs = (errors, c, d)
      \<and> linked D n i (producers ids (set rs)) (errors, c, d)"
  proof (rule foldl_invariant [where zs = rs and
        P = "\<lambda>xs st. \<exists>c d. st = (errors, c, d) \<and> linked D n i (producers ids (set xs)) (errors, c, d)"])
    show "\<exists>c d. (errors, children, deg) = (errors, c, d)
        \<and> linked D n i (producers ids (set [])) (errors, c, d)"
      using adj(1) by (simp add: producers_def)
  next
    fix xs x ys st
    assume split: "rs = xs @ x # ys"
      and "\<exists>c d. st = (errors, c, d) \<and> linked D n i (producers ids (set xs)) (errors, c, d)"
    then obtain c d where st: "st = (errors, c, d)"
      "linked D n i (producers ids (set xs)) (errors, c, d)" by blast
    have "x \<in> refs (st_input s)" "x \<notin> set xs" using rs split by auto
    moreover obtain j where "ids x = Some j" using ok(2) calculation(1) by blast
    moreover have "x \<noteq> st_id s" using ok(1) calculation(1) by blast
    ultimately show "\<exists>c d. link_ref ids i s st x = (errors, c, d)
        \<and> linked D n i (producers ids (set (xs @ [x]))) (errors, c, d)"
      using link_ref_step [OF st(2) adj(2) _ _ ids, of x s j] st(1) by simp
  qed
  then obtain c d where "foldl (link_ref ids i s) (errors, children, deg) rs = (errors, c, d)"
    "linked D n i (D i) (errors, c, d)" using D rs(2) by auto
  moreover from this(2) have "linked D n (Suc i) {} (errors, c, d)"
    by (auto simp: linked_def less_Suc_eq)
  ultimately show ?thesis by (auto simp: link_stage_def rs_def)
qed

text \<open>An unresolved or self reference leaves an error, and errors are never removed.\<close>

lemma link_ref_errors:
  "\<exists>es. fst (link_ref ids i s adj r) = fst adj @ es \<and> (es = [] \<longleftrightarrow> r \<noteq> st_id s \<and> ids r \<noteq> None)"
  by (cases adj) (auto simp: link_ref_def split: option.splits)

lemma foldl_link_ref_errors:
  "\<exists>es. fst (foldl (link_ref ids i s) adj rs) = fst adj @ es
     \<and> (es = [] \<longleftrightarrow> (\<forall>r \<in> set rs. r \<noteq> st_id s \<and> ids r \<noteq> None))"
proof (induction rs arbitrary: adj)
  case (Cons r rs)
  from link_ref_errors [of ids i s adj r] obtain es where
    es: "fst (link_ref ids i s adj r) = fst adj @ es" "es = [] \<longleftrightarrow> r \<noteq> st_id s \<and> ids r \<noteq> None"
    by (elim exE conjE)
  from Cons.IH [of "link_ref ids i s adj r"] obtain fs where
    fs: "fst (foldl (link_ref ids i s) (link_ref ids i s adj r) rs)
      = fst (link_ref ids i s adj r) @ fs"
    "fs = [] \<longleftrightarrow> (\<forall>r \<in> set rs. r \<noteq> st_id s \<and> ids r \<noteq> None)" by (elim exE conjE)
  show ?case by (rule exI [of _ "es @ fs"]) (simp add: fs(1) es(1), simp add: fs(2) es(2))
qed simp

lemma foldl_link_stage_errors:
  assumes it: "uset_iter iter"
  shows "\<exists>es. fst (foldl (link_stage iter ids) adj ess) = fst adj @ es
    \<and> (es = [] \<longleftrightarrow> (\<forall>e \<in> set ess. \<forall>r \<in> refs (st_input (snd e)). r \<noteq> st_id (snd e) \<and> ids r \<noteq> None))"
proof (induction ess arbitrary: adj)
  case (Cons e ess)
  obtain i s where e: "e = (i, s)" by (cases e)
  obtain es where es: "fst (link_stage iter ids adj e) = fst adj @ es"
    "es = [] \<longleftrightarrow> (\<forall>r \<in> refs (st_input s). r \<noteq> st_id s \<and> ids r \<noteq> None)"
    using foldl_link_ref_errors [of ids i s adj "iter (collect_stage_refs (st_input s))"] it
    by (auto simp: link_stage_def e uset_iter_def)
  from Cons.IH [of "link_stage iter ids adj e"] obtain fs where
    fs: "fst (foldl (link_stage iter ids) (link_stage iter ids adj e) ess)
      = fst (link_stage iter ids adj e) @ fs"
    "fs = [] \<longleftrightarrow> (\<forall>e \<in> set ess. \<forall>r \<in> refs (st_input (snd e)). r \<noteq> st_id (snd e) \<and> ids r \<noteq> None)"
    by (elim exE conjE)
  show ?case
    by (rule exI [of _ "es @ fs"]) (simp add: fs(1) es(1), simp add: fs(2) es(2), simp add: e)
qed simp


lemma foldl_link_stage_linked:
  assumes it: "uset_iter iter" and ids: "index_good ss ids" "distinct (map st_id ss)"
    and ok: "\<forall>s \<in> set ss. st_id s \<notin> refs (st_input s) \<and> (\<forall>r \<in> refs (st_input s). ids r \<noteq> None)"
    and D: "\<forall>i < length ss. D i = producers ids (refs (st_input (ss ! i)))"
  defines "n \<equiv> length ss"
  shows "\<exists>c d. foldl (link_stage iter ids) ([], replicate n [], replicate n 0) (enumerate 0 ss)
           = ([], c, d) \<and> linked D n n {} ([], c, d)"
proof -
  let ?P = "\<lambda>xs (st :: adjacency). \<exists>c d. st = ([], c, d) \<and> linked D n (length xs) {} ([], c, d)"
  have "?P (enumerate 0 ss)
      (foldl (link_stage iter ids) ([], replicate n [], replicate n 0) (enumerate 0 ss))"
  proof (rule foldl_invariant [where P = ?P])
    show "\<exists>c d. (([], replicate n [], replicate n 0) :: adjacency) = ([], c, d)
        \<and> linked D n (length ([] :: (nat \<times> stage) list)) {} ([], c, d)"
      by (auto simp: linked_def)
  next
    fix xs x ys and st :: adjacency
    assume split: "enumerate 0 ss = xs @ x # ys"
      and "\<exists>c d. st = ([], c, d) \<and> linked D n (length xs) {} ([], c, d)"
    then obtain c d where st: "st = ([], c, d)" "linked D n (length xs) {} ([], c, d)" by blast
    have lt: "length xs < n" using arg_cong [OF split, of length] by (simp add: n_def)
    have "x = enumerate 0 ss ! length xs" using split by simp
    then have x: "x = (length xs, ss ! length xs)" using lt by (simp add: nth_enumerate_eq n_def)
    have mem: "ss ! length xs \<in> set ss" using lt by (simp add: n_def)
    from link_stage_step [OF it st(2) lt ids(1) _ ids(2), of "ss ! length xs"] ok mem D lt
    show "\<exists>c d. link_stage iter ids st x = ([], c, d)
        \<and> linked D n (length (xs @ [x])) {} ([], c, d)"
      by (simp add: st(1) x n_def)
  qed
  then show ?thesis by (simp add: n_def)
qed

section \<open>Validation\<close>

lemma deps_producers:
  "index_good (stages p) ids \<Longrightarrow> deps p i = producers ids (refs (st_input (stages p ! i)))"
  by (auto simp: deps_def producers_def index_good_def)

lemma ids_ok_index:
  assumes "ids_ok p"
  shows "\<exists>ids. index_stages 0 (stages p) [] Map.empty = ([], ids) \<and> index_good (stages p) ids"
proof -
  let ?r = "index_stages 0 (stages p) [] Map.empty"
  have "fst ?r = []" using assms by (simp add: index_stages_errors ids_ok_def)
  moreover have "index_good (stages p) (snd ?r)"
    using index_stages_ids [of "[]" "stages p" "[]" Map.empty] calculation
    by (simp add: index_good_def)
  ultimately show ?thesis by (metis prod.collapse)
qed

lemma index_good_None: "index_good ss ids \<Longrightarrow> ids r \<noteq> None \<longleftrightarrow> r \<in> set (map st_id ss)"
proof -
  assume g: "index_good ss ids"
  have "ids r \<noteq> None \<longleftrightarrow> (\<exists>j. ids r = Some j)" by simp
  also have "\<dots> \<longleftrightarrow> (\<exists>j < length ss. st_id (ss ! j) = r)" using g by (simp add: index_good_def)
  also have "\<dots> \<longleftrightarrow> r \<in> set (map st_id ss)" by (metis in_set_conv_nth length_map nth_map)
  finally show ?thesis .
qed

lemma validate_static_error:
  assumes it: "uset_iter iter" and bad: "\<not> (ids_ok p \<and> refs_ok p)"
  shows "\<exists>es. validate iter p = Some (Inl es) \<and> es \<noteq> []"
proof -
  let ?n = "length (stages p)"
  obtain errs ids where idx: "index_stages 0 (stages p) [] Map.empty = (errs, ids)"
    by (cases "index_stages 0 (stages p) [] Map.empty")
  obtain errs' c d where lnk: "foldl (link_stage iter ids) (errs, replicate ?n [], replicate ?n 0)
      (enumerate 0 (stages p)) = (errs', c, d)"
    by (cases "foldl (link_stage iter ids) (errs, replicate ?n [], replicate ?n 0)
      (enumerate 0 (stages p))")
  from foldl_link_stage_errors [OF it, of ids "(errs, replicate ?n [], replicate ?n 0)"
      "enumerate 0 (stages p)"] lnk
  obtain es where es: "errs' = errs @ es" "es = [] \<longleftrightarrow>
      (\<forall>e \<in> set (enumerate 0 (stages p)). \<forall>r \<in> refs (st_input (snd e)). r \<noteq> st_id (snd e) \<and> ids r \<noteq> None)"
    by auto
  have "errs' \<noteq> []"
  proof
    assume "errs' = []"
    then have "errs = []" and all: "\<forall>s \<in> set (stages p). \<forall>r \<in> refs (st_input s). r \<noteq> st_id s \<and> ids r \<noteq> None"
      using es ball_enumerate [where n = 0 and xs = "stages p"
          and Q = "\<lambda>s. \<forall>r \<in> refs (st_input s). r \<noteq> st_id s \<and> ids r \<noteq> None"]
      by blast+
    then have io: "ids_ok p"
      using index_stages_errors [of 0 "stages p" "[]" Map.empty] idx by (simp add: ids_ok_def)
    then have "index_good (stages p) ids" using ids_ok_index [of p] idx by simp
    then have "refs_ok p" using all index_good_None unfolding refs_ok_def by blast
    with io bad show False by blast
  qed
  then show ?thesis using idx lnk by (simp add: validate_def Let_def)
qed

lemma validate_graph:
  assumes it: "uset_iter iter" and ok: "ids_ok p" "refs_ok p"
  shows "\<exists>ready deg order.
    validate iter p = (if length order \<noteq> length (stages p)
       then Some (Inl [dag_err (''pipeline contains a cycle involving stages: ''
              @ join '', '' (cycle_members (stages p) deg)) []])
       else Some (Inr order))
    \<and> kahn_inv (deps p) (length (stages p)) (ready, deg, order) \<and> ready = []
    \<and> (acyclic (dep_rel p) \<longleftrightarrow> length order = length (stages p))
    \<and> (\<forall>i < length (stages p). 0 < deg ! i \<longleftrightarrow> i \<notin> set order)"
proof -
  let ?n = "length (stages p)"
  obtain ids where idx: "index_stages 0 (stages p) [] Map.empty = ([], ids)"
    and good: "index_good (stages p) ids" using ids_ok_index [OF ok(1)] by blast
  have dist: "distinct (map st_id (stages p))" using ok(1) by (simp add: ids_ok_def)
  have res: "\<forall>s \<in> set (stages p). st_id s \<notin> refs (st_input s) \<and> (\<forall>r \<in> refs (st_input s). ids r \<noteq> None)"
    using ok(2) index_good_None [OF good] unfolding refs_ok_def by blast
  from foldl_link_stage_linked [OF it good dist res, of "deps p"] deps_producers [OF good]
  obtain c d where lnk: "foldl (link_stage iter ids) ([], replicate ?n [], replicate ?n 0)
      (enumerate 0 (stages p)) = ([], c, d)" and linked: "linked (deps p) ?n ?n {} ([], c, d)"
    by auto
  have g: "graph_ok (deps p) ?n c"
    using linked by (auto simp: graph_ok_def linked_def deps_def)
  from kahn_terminates [OF g, of d] linked obtain st where
    st: "kahn c d = Some st" "kahn_inv (deps p) ?n st" "\<not> kahn_continue st"
    by (auto simp: linked_def)
  obtain ready deg order where tup: "st = (ready, deg, order)" by (cases st)
  have "ready = []" using st(3) by (simp add: tup kahn_continue_def)
  moreover note kahn_stuck [OF g st(2,3)]
  ultimately show ?thesis using idx lnk st(1,2)
    by (intro exI [of _ ready] exI [of _ deg] exI [of _ order])
      (simp add: validate_def Let_def tup dep_rel_def)
qed


section \<open>The contract of a stage sorter\<close>

text \<open>
  What the runners need of the validator: the iteration order is a parameter \<open>'i\<close> they do
  not choose, the call returns, and it returns an order exactly for the well-formed pipelines.
\<close>

locale stage_sorter =
  fixes sorter :: "'i \<Rightarrow> pipeline \<Rightarrow> (dag_error list + nat list) option"
    and admissible :: "'i \<Rightarrow> bool"
  assumes sorter_ok: "admissible it \<Longrightarrow> dag_ok p \<Longrightarrow>
      \<exists>ord. sorter it p = Some (Inr ord) \<and> topo_order p ord"
    and sorter_bad: "admissible it \<Longrightarrow> \<not> dag_ok p \<Longrightarrow> \<exists>es. sorter it p = Some (Inl es) \<and> es \<noteq> []"
begin

lemma sorter_returns: "admissible it \<Longrightarrow> sorter it p \<noteq> None"
  using sorter_ok sorter_bad by (cases "dag_ok p") force+

lemma sorter_InrD:
  assumes "admissible it" "sorter it p = Some (Inr ord)"
  shows "dag_ok p \<and> topo_order p ord"
proof (cases "dag_ok p")
  case True
  then show ?thesis using sorter_ok [OF assms(1) True] assms(2) by auto
next
  case False
  then show ?thesis using sorter_bad [OF assms(1) False] assms(2) by auto
qed

lemma sorter_InlD:
  assumes "admissible it" "sorter it p = Some (Inl es)"
  shows "\<not> dag_ok p \<and> es \<noteq> []"
  using sorter_ok [OF assms(1)] sorter_bad [OF assms(1)] assms(2) by (cases "dag_ok p") force+

end

lemma greedy_topo:
  assumes "greedy (deps p) (length (stages p)) ord" "distinct ord"
    "set ord \<subseteq> {..<length (stages p)}" "length ord = length (stages p)"
  shows "topo_order p ord"
proof -
  have "set ord = {..<length (stages p)}"
    using assms(2-4) by (metis card_lessThan card_subset_eq distinct_card finite_lessThan)
  then show ?thesis using assms(1,2) by (auto simp: topo_order_def greedy_def next_least_def)
qed

lemma validate_dag_ok:
  assumes "uset_iter iter" "dag_ok p"
  shows "\<exists>ord. validate iter p = Some (Inr ord) \<and> topo_order p ord
           \<and> greedy (deps p) (length (stages p)) ord"
  using validate_graph [OF assms(1), of p] assms(2) greedy_topo
  unfolding dag_ok_def kahn_inv_def by fastforce

lemma validate_not_dag_ok:
  assumes "uset_iter iter" "\<not> dag_ok p"
  shows "\<exists>es. validate iter p = Some (Inl es) \<and> es \<noteq> []"
proof (cases "ids_ok p \<and> refs_ok p")
  case True
  then show ?thesis
    using validate_graph [OF assms(1), of p] assms(2) by (auto simp: dag_ok_def)
next
  case False
  then show ?thesis using validate_static_error [OF assms(1)] by blast
qed

interpretation dag: stage_sorter validate uset_iter
  by unfold_locales (use validate_dag_ok validate_not_dag_ok in blast)+

lemma uset_iter_remdups: "uset_iter remdups"
  by (simp add: uset_iter_def)

section \<open>Which stages a cycle error names\<close>

lemma greedy_upstream:
  assumes g: "greedy E n ord"
  shows "k < length ord \<Longrightarrow> (j, ord ! k) \<in> {(j, i). i < n \<and> j \<in> E i}\<^sup>+ \<Longrightarrow> j \<in> set (take k ord)"
proof (induction k rule: less_induct)
  case (less k)
  have sub: "E (ord ! k) \<subseteq> set (take k ord)"
    using g less.prems(1) by (simp add: greedy_def next_least_def)
  from less.prems(2) show ?case
  proof (cases rule: tranclE)
    case base
    then show ?thesis using sub by auto
  next
    case (step y)
    then have "y \<in> set (take k ord)" using sub by auto
    then obtain l where l: "l < k" "ord ! l = y"
      using less.prems(1) by (auto simp: in_set_conv_nth)
    then have "j \<in> set (take l ord)" using less.IH [of l] less.prems(1) step(1) by auto
    then show ?thesis using l(1) set_take_subset_set_take [of l k] by fastforce
  qed
qed

lemma stuck_cyclic:
  assumes fin: "finite R" and S: "\<And>i. i \<in> S \<Longrightarrow> \<exists>j \<in> S. (j, i) \<in> R" and i: "i \<in> S"
  shows "\<exists>j. (j, j) \<in> R\<^sup>+ \<and> (j, i) \<in> R\<^sup>*"
proof (rule ccontr)
  assume none: "\<nexists>j. (j, j) \<in> R\<^sup>+ \<and> (j, i) \<in> R\<^sup>*"
  define R' where "R' = {(a, b). (a, b) \<in> R \<and> (b, i) \<in> R\<^sup>*}"
  have "R' \<subseteq> R" by (auto simp: R'_def)
  moreover have "acyclic R'" unfolding acyclic_def
  proof (intro allI notI)
    fix x assume x: "(x, x) \<in> R'\<^sup>+"
    then have "(x, i) \<in> R\<^sup>*" by (cases rule: tranclE) (auto simp: R'_def)
    moreover have "(x, x) \<in> R\<^sup>+" using x \<open>R' \<subseteq> R\<close> trancl_mono by blast
    ultimately show False using none by blast
  qed
  ultimately have "wf R'" using finite_acyclic_wf finite_subset fin by blast
  moreover have "i \<in> {x \<in> S. (x, i) \<in> R\<^sup>*}" using i by simp
  ultimately obtain z where z: "z \<in> S" "(z, i) \<in> R\<^sup>*"
      "\<And>y. (y, z) \<in> R' \<Longrightarrow> y \<notin> {x \<in> S. (x, i) \<in> R\<^sup>*}" by (rule wfE_min) blast
  obtain j where "j \<in> S" "(j, z) \<in> R" using S z(1) by blast
  then show False using z(2) z(3) [of j] by (auto simp: R'_def intro: converse_rtrancl_into_rtrancl)
qed

lemma stuck_iff_downstream:
  assumes inv: "kahn_inv E n ([], deg, order)" and sub: "\<forall>i < n. E i \<subseteq> {..<n}" and i: "i < n"
  defines "R \<equiv> {(j, i). i < n \<and> j \<in> E i}"
  shows "i \<notin> set order \<longleftrightarrow> (\<exists>j. (j, j) \<in> R\<^sup>+ \<and> (j, i) \<in> R\<^sup>*)"
proof
  have I: "distinct order" "\<forall>i < n. i \<in> set order \<longleftrightarrow> E i \<subseteq> set order" "greedy E n order"
    using inv by (auto simp: kahn_inv_def)
  have "R \<subseteq> {..<n} \<times> {..<n}" using sub by (auto simp: R_def)
  then have fin: "finite R" by (rule finite_subset) simp
  {
    assume "i \<notin> set order"
    moreover have "\<exists>j \<in> {..<n} - set order. (j, k) \<in> R" if "k \<in> {..<n} - set order" for k
      using that I(2) sub unfolding R_def by blast
    ultimately show "\<exists>j. (j, j) \<in> R\<^sup>+ \<and> (j, i) \<in> R\<^sup>*"
      using stuck_cyclic [OF fin, of "{..<n} - set order" i] i by blast
  }
  assume "\<exists>j. (j, j) \<in> R\<^sup>+ \<and> (j, i) \<in> R\<^sup>*"
  then obtain j where j: "(j, j) \<in> R\<^sup>+" "(j, i) \<in> R\<^sup>*" by blast
  show "i \<notin> set order"
  proof
    assume "i \<in> set order"
    with j(2) have "j \<in> set order"
      by (induction rule: converse_rtrancl_induct) (use I(2) in \<open>auto simp: R_def\<close>)
    then obtain k where k: "k < length order" "order ! k = j" by (auto simp: in_set_conv_nth)
    then have "j \<in> set (take k order)"
      using greedy_upstream [OF I(3), of k j] j(1) by (simp add: R_def)
    then obtain l where "l < k" "order ! l = j" using k(1) by (auto simp: in_set_conv_nth)
    then show False using I(1) k nth_eq_iff_index_eq [of order l k] by simp
  qed
qed

section \<open>Properties\<close>

text \<open>A chain of three stages and a two-stage cycle, for the witnesses.\<close>

definition chain3 :: pipeline where
  "chain3 = \<lparr>version = 1, stages =
     [\<lparr>st_id = ''a'', st_plugin = ''reader.x'', st_input = Null\<rparr>,
      \<lparr>st_id = ''b'', st_plugin = ''mesher.x'', st_input = VMap [(''geometry'', Stage_ref ''a'')]\<rparr>,
      \<lparr>st_id = ''c'', st_plugin = ''writer.x'', st_input = VList [Stage_ref ''b'', Stage_ref ''a'']\<rparr>]\<rparr>"

definition loop2 :: pipeline where
  "loop2 = \<lparr>version = 1, stages =
     [\<lparr>st_id = ''a'', st_plugin = ''reader.x'', st_input = Stage_ref ''b''\<rparr>,
      \<lparr>st_id = ''b'', st_plugin = ''mesher.x'', st_input = Stage_ref ''a''\<rparr>]\<rparr>"

lemma less3: "i < Suc (Suc (Suc 0)) \<Longrightarrow> i = 0 \<or> i = 1 \<or> i = 2"
  by auto

lemma chain3_ok: "ids_ok chain3" "refs_ok chain3" "\<forall>i < length (stages chain3). deps chain3 i \<subseteq> {..<i}"
  by (auto simp: ids_ok_def refs_ok_def chain3_def deps_def less_Suc_eq)

text \<open>C1: Validation decides well-formedness.  \<open>dag::validate\<close> returns on every pipeline, whatever
  order the reference sets are walked in.  It returns an order of the stages, each after all stages
  its input refers to, exactly when every id is non-empty and unique, every reference names another
  stage of the pipeline and the references have no cycle; otherwise it returns errors.\<close>

theorem validate_correct:
  assumes "uset_iter iter"
  shows "if dag_ok p then \<exists>ord. validate iter p = Some (Inr ord) \<and> topo_order p ord
         else \<exists>es. validate iter p = Some (Inl es) \<and> es \<noteq> []"
  using dag.sorter_ok [OF assms] dag.sorter_bad [OF assms] by simp

theorem validate_correct_witness:
  "if dag_ok loop2 then \<exists>ord. validate remdups loop2 = Some (Inr ord) \<and> topo_order loop2 ord
   else \<exists>es. validate remdups loop2 = Some (Inl es) \<and> es \<noteq> []"
  by (rule validate_correct [OF uset_iter_remdups])

text \<open>Determinism.  The order is a function of the pipeline alone: any two iteration orders of the
  reference sets give the same result, at each place the earliest declared stage that is ready.\<close>

theorem validate_deterministic:
  assumes "uset_iter iter" "uset_iter iter'" "validate iter p = Some (Inr ord)"
  shows "validate iter' p = Some (Inr ord) \<and> greedy (deps p) (length (stages p)) ord"
proof -
  have "dag_ok p" using dag.sorter_InrD [OF assms(1,3)] by blast
  from validate_dag_ok [OF assms(1) this] validate_dag_ok [OF assms(2) this] obtain ord' where
    *: "validate iter' p = Some (Inr ord')" "topo_order p ord" "topo_order p ord'"
      "greedy (deps p) (length (stages p)) ord" "greedy (deps p) (length (stages p)) ord'"
    using assms(3) by auto
  then have "length ord = length ord'" unfolding topo_order_def by (metis distinct_card)
  then show ?thesis using greedy_order_unique *(1,4,5) by blast
qed

definition walk_back :: "string list \<Rightarrow> string list" where
  "walk_back xs = rev (remdups xs)"

lemma uset_iter_walk_back: "uset_iter walk_back"
  by (simp add: uset_iter_def walk_back_def)

text \<open>Declaration order.  A pipeline whose stages only refer to stages declared before them runs
  in the order in which it is written.\<close>

theorem validate_declared_order:
  assumes it: "uset_iter iter" and ok: "ids_ok p" "refs_ok p"
    and earlier: "\<forall>i < length (stages p). deps p i \<subseteq> {..<i}"
  shows "validate iter p = Some (Inr [0..<length (stages p)])"
proof -
  have "dep_rel p \<subseteq> less_than" using earlier by (auto simp: dep_rel_def)
  then have "acyclic (dep_rel p)" using wf_acyclic wf_subset wf_less_than by blast
  then have "dag_ok p" using ok by (simp add: dag_ok_def)
  from validate_dag_ok [OF it this] obtain ord where
    ord: "validate iter p = Some (Inr ord)" "topo_order p ord"
      "greedy (deps p) (length (stages p)) ord" by blast
  have "greedy (deps p) (length (stages p)) [0..<length (stages p)]"
    unfolding greedy_def next_least_def by (simp add: take_upt) (use earlier in force)
  moreover have "length ord = length [0..<length (stages p)]"
    using ord(2) unfolding topo_order_def by (metis card_lessThan distinct_card length_upt minus_nat.diff_0)
  ultimately show ?thesis using greedy_order_unique [OF ord(3)] ord(1) by blast
qed

theorem validate_declared_order_witness: "validate remdups chain3 = Some (Inr [0, 1, 2])"
  using validate_declared_order [OF uset_iter_remdups chain3_ok] by (simp add: chain3_def upt_rec)

theorem validate_deterministic_witness: "validate walk_back chain3 = Some (Inr [0, 1, 2])"
proof -
  have "validate remdups chain3 = Some (Inr [0, 1, 2])" by code_simp
  from validate_deterministic [OF uset_iter_remdups uset_iter_walk_back this] show ?thesis by simp
qed

text \<open>Cycle errors.  When ids and references are fine but the references have a cycle, the one
  error names, in declaration order, the stages that lie on a cycle or downstream of one.\<close>

theorem validate_cycle_error:
  assumes it: "uset_iter iter" and ok: "ids_ok p" "refs_ok p" and cyc: "\<not> acyclic (dep_rel p)"
  shows "validate iter p = Some (Inl [dag_err (''pipeline contains a cycle involving stages: ''
     @ join '', '' (map (\<lambda>i. st_id (stages p ! i))
         (filter (\<lambda>i. \<exists>j. (j, j) \<in> (dep_rel p)\<^sup>+ \<and> (j, i) \<in> (dep_rel p)\<^sup>*) [0..<length (stages p)]))) []])"
proof -
  let ?n = "length (stages p)"
  from validate_graph [OF it ok] obtain deg order where
    v: "validate iter p = (if length order \<noteq> ?n
       then Some (Inl [dag_err (''pipeline contains a cycle involving stages: ''
              @ join '', '' (cycle_members (stages p) deg)) []]) else Some (Inr order))"
    and inv: "kahn_inv (deps p) ?n ([], deg, order)"
    and ac: "acyclic (dep_rel p) \<longleftrightarrow> length order = ?n"
    and deg: "\<forall>i < ?n. 0 < deg ! i \<longleftrightarrow> i \<notin> set order" by blast
  have sub: "\<forall>i < ?n. deps p i \<subseteq> {..<?n}" by (auto simp: deps_def)
  have eq: "0 < deg ! i \<longleftrightarrow> (\<exists>j. (j, j) \<in> (dep_rel p)\<^sup>+ \<and> (j, i) \<in> (dep_rel p)\<^sup>*)" if "i < ?n" for i
    using stuck_iff_downstream [OF inv sub that] deg that by (simp add: dep_rel_def)
  have "filter (\<lambda>i. 0 < deg ! i) [0..<?n]
      = filter (\<lambda>i. \<exists>j. (j, j) \<in> (dep_rel p)\<^sup>+ \<and> (j, i) \<in> (dep_rel p)\<^sup>*) [0..<?n]"
    by (rule filter_cong) (simp_all add: eq)
  then show ?thesis using v ac cyc by (simp add: cycle_members_def)
qed

lemma loop2_edges: "(0, 1) \<in> dep_rel loop2" "(1, 0) \<in> dep_rel loop2"
  by (simp_all add: dep_rel_def deps_def loop2_def)

lemma loop2_cyclic: "(0, 0) \<in> (dep_rel loop2)\<^sup>+" "(1, 1) \<in> (dep_rel loop2)\<^sup>+"
  using loop2_edges by (meson trancl.intros)+

theorem validate_cycle_error_witness:
  "validate remdups loop2
     = Some (Inl [dag_err ''pipeline contains a cycle involving stages: a, b'' []])"
proof -
  have ok: "ids_ok loop2" "refs_ok loop2"
    by (auto simp: ids_ok_def refs_ok_def loop2_def)
  have cyc: "\<not> acyclic (dep_rel loop2)" using loop2_cyclic by (auto simp: acyclic_def)
  have "\<exists>j. (j, j) \<in> (dep_rel loop2)\<^sup>+ \<and> (j, i) \<in> (dep_rel loop2)\<^sup>*" if "i < 2" for i
    using that loop2_cyclic by (auto simp: less_2_cases_iff)
  then have "filter (\<lambda>i. \<exists>j. (j, j) \<in> (dep_rel loop2)\<^sup>+ \<and> (j, i) \<in> (dep_rel loop2)\<^sup>*)
      [0..<length (stages loop2)] = [0, 1]"
    by (simp add: loop2_def upt_rec)
  with validate_cycle_error [OF uset_iter_remdups ok cyc] show ?thesis
    by (simp add: loop2_def)
qed

end
