(* ===== verification/File_System.thy ===== *)
theory File_System
  imports Prelude "HOL-Library.State_Monad" "HOL-Library.AList" "HOL-Library.Sublist"
begin

text \<open>
  The file system as the disk cache and the updater use it through \<open>std::filesystem\<close> and
  \<open>std::fstream\<close>: a tree of directories and files, operations that report success or failure,
  and scripted faults.  Every kind of operation takes its next fault from its own list, and an
  empty list means the operation behaves.  A stream has three places where the disk can fail: when
  it is opened, when it is written (reported by \<open>good()\<close>), and when the buffer is flushed on
  destruction, which nothing reports.  \<open>trace\<close> collects every state of the tree that another
  process, or a restart after a crash, could see.
\<close>

section \<open>States\<close>

type_synonym path = "string list"

datatype node = Dir | File "byte list"

type_synonym tree = "(path \<times> node) list"

text \<open>
  A fault says how far the operation got: the bytes or directories that were still written, and the
  entries a recursive removal left behind.
\<close>

datatype fault = Fault (fault_at: nat) (fault_keep: "path list")

datatype prim = POpen | PWrite | PClose | PRename | PCopy | PRemove | PMkdir | PRead | PList

record fs =
  tree :: tree
  faults :: "prim \<Rightarrow> fault option list"
  entropy :: "u64 list"
  trace :: "tree list"

definition healthy :: "fs \<Rightarrow> bool" where
  "healthy s = (\<forall>p. faults s p = [])"

definition look :: "tree \<Rightarrow> path \<Rightarrow> node option" where
  "look m p = map_of m p"

section \<open>Paths\<close>

text \<open>
  A path is the list of its components, \<open>p / name\<close> is \<open>p @ [name]\<close> and the parent path drops
  the last component.  A name is one component: it is not empty, no dot name and has no separator.
\<close>

definition plain_name :: "string \<Rightarrow> bool" where
  "plain_name n = (n \<noteq> [] \<and> n \<noteq> ''.'' \<and> n \<noteq> ''..'' \<and> CHR ''/'' \<notin> set n)"

definition path_str :: "path \<Rightarrow> string" where
  "path_str p = concat (map (\<lambda>c. ''/'' @ c) p)"

definition tmp_sibling :: "path \<Rightarrow> u64 \<Rightarrow> path" where
  "tmp_sibling p r = butlast p @ [(if p = [] then [] else last p) @ ''.tmp.'' @ nat_str (unat r)]"

section \<open>Operations\<close>

type_synonym 'a io = "(fs, 'a) state"

definition return_io :: "'a \<Rightarrow> 'a io" where
  "return_io a = State_Monad.return a"

definition query :: "(tree \<Rightarrow> 'a) \<Rightarrow> 'a io" where
  "query f = State (\<lambda>s. (f (tree s), s))"

definition put_tree :: "tree \<Rightarrow> unit io" where
  "put_tree m = State (\<lambda>s. ((), s\<lparr>tree := m, trace := trace s @ [m]\<rparr>))"

definition take_fault :: "prim \<Rightarrow> fault option io" where
  "take_fault p = State (\<lambda>s. case faults s p of
       [] \<Rightarrow> (None, s)
     | f # fs \<Rightarrow> (f, s\<lparr>faults := (faults s)(p := fs)\<rparr>))"

definition random :: "u64 io" where
  "random = State (\<lambda>s. case entropy s of [] \<Rightarrow> (0, s) | r # rs \<Rightarrow> (r, s\<lparr>entropy := rs\<rparr>))"

definition children_of :: "tree \<Rightarrow> path \<Rightarrow> path list" where
  "children_of m p = filter (\<lambda>q. q \<noteq> [] \<and> butlast q = p) (map fst m)"

definition file_exists :: "path \<Rightarrow> bool io" where
  "file_exists p = query (\<lambda>m. look m p \<noteq> None)"

definition is_directory :: "path \<Rightarrow> bool io" where
  "is_directory p = query (\<lambda>m. look m p = Some Dir)"

text \<open>\<open>file_size\<close> of a path that is no file fails and returns the largest \<open>uintmax_t\<close>.\<close>

definition file_size :: "path \<Rightarrow> nat io" where
  "file_size p = query (\<lambda>m. case look m p of Some (File c) \<Rightarrow> length c | _ \<Rightarrow> 2 ^ 64 - 1)"

definition read_file :: "path \<Rightarrow> byte list option io" where
  "read_file p = do {
     f \<leftarrow> take_fault PRead;
     c \<leftarrow> query (\<lambda>m. look m p);
     return_io (case c of
        Some (File bs) \<Rightarrow> (case f of
             None \<Rightarrow> Some bs
           | Some f \<Rightarrow> (case fault_at f of 0 \<Rightarrow> None | Suc k \<Rightarrow> Some (take k bs)))
      | _ \<Rightarrow> None)
   }"

definition list_directories :: "path \<Rightarrow> string list io" where
  "list_directories p = do {
     f \<leftarrow> take_fault PList;
     m \<leftarrow> query (\<lambda>m. m);
     return_io (if f \<noteq> None then []
       else map last (filter (\<lambda>q. look m q = Some Dir) (children_of m p)))
   }"

definition writable_at :: "tree \<Rightarrow> path \<Rightarrow> bool" where
  "writable_at m p = (p \<noteq> [] \<and> look m (butlast p) = Some Dir \<and> look m p \<noteq> Some Dir)"

definition open_trunc :: "path \<Rightarrow> bool io" where
  "open_trunc p = do {
     f \<leftarrow> take_fault POpen;
     m \<leftarrow> query (\<lambda>m. m);
     if f \<noteq> None \<or> \<not> writable_at m p then return_io False
     else do { put_tree (AList.update p (File []) m); return_io True }
   }"

text \<open>Writing to the freshly truncated file; the result is \<open>good()\<close>.\<close>

definition is_file :: "tree \<Rightarrow> path \<Rightarrow> bool" where
  "is_file m p = (case look m p of Some (File _) \<Rightarrow> True | _ \<Rightarrow> False)"

definition stream_write :: "path \<Rightarrow> byte list \<Rightarrow> bool io" where
  "stream_write p bs = do {
     f \<leftarrow> take_fault PWrite;
     m \<leftarrow> query (\<lambda>m. m);
     if \<not> is_file m p then return_io False
     else (case f of
        None \<Rightarrow> do { put_tree (AList.update p (File bs) m); return_io True }
      | Some f \<Rightarrow> do { put_tree (AList.update p (File (take (fault_at f) bs)) m); return_io False })
   }"

text \<open>The flush of the destructor: a failure truncates the file and is not reported.\<close>

definition stream_close :: "path \<Rightarrow> byte list \<Rightarrow> unit io" where
  "stream_close p bs = do {
     f \<leftarrow> take_fault PClose;
     m \<leftarrow> query (\<lambda>m. m);
     if \<not> is_file m p then return_io ()
     else (case f of
        None \<Rightarrow> return_io ()
      | Some f \<Rightarrow> put_tree (AList.update p (File (take (fault_at f) bs)) m))
   }"

definition remove_tree :: "path \<Rightarrow> tree \<Rightarrow> tree" where
  "remove_tree p m = filter (\<lambda>e. \<not> prefix p (fst e)) m"

definition move_tree :: "path \<Rightarrow> path \<Rightarrow> tree \<Rightarrow> tree" where
  "move_tree a b m =
     map (\<lambda>(q, n). if prefix a q then (b @ drop (length a) q, n) else (q, n)) (remove_tree b m)"

text \<open>\<open>rename\<close>: replaces a file by a file, and puts a directory where nothing or an empty
  directory is.\<close>

definition may_rename :: "tree \<Rightarrow> path \<Rightarrow> path \<Rightarrow> bool" where
  "may_rename m a b =
     (a \<noteq> [] \<and> b \<noteq> [] \<and> look m (butlast b) = Some Dir \<and>
      (case look m a of
         None \<Rightarrow> False
       | Some (File _) \<Rightarrow> look m b \<noteq> Some Dir
       | Some Dir \<Rightarrow> \<not> strict_prefix a b
           \<and> (look m b = None \<or> look m b = Some Dir \<and> children_of m b = [])))"

definition rename :: "path \<Rightarrow> path \<Rightarrow> bool io" where
  "rename a b = do {
     f \<leftarrow> take_fault PRename;
     m \<leftarrow> query (\<lambda>m. m);
     if f \<noteq> None \<or> \<not> may_rename m a b then return_io False
     else if a = b then return_io True
     else do { put_tree (move_tree a b m); return_io True }
   }"

definition copy_file :: "path \<Rightarrow> path \<Rightarrow> bool io" where
  "copy_file a b = do {
     f \<leftarrow> take_fault PCopy;
     m \<leftarrow> query (\<lambda>m. m);
     (case look m a of
        Some (File c) \<Rightarrow>
          if \<not> writable_at m b \<or> a = b then return_io False
          else (case f of
            None \<Rightarrow> do {
              put_tree (AList.update b (File []) m);
              put_tree (AList.update b (File c) m);
              return_io True }
          | Some f \<Rightarrow> (case fault_at f of
              0 \<Rightarrow> return_io False
            | Suc k \<Rightarrow> do {
                put_tree (AList.update b (File (take k c)) m);
                return_io False }))
      | _ \<Rightarrow> return_io False)
   }"

text \<open>\<open>remove\<close>: removing what is not there is no error, a directory must be empty.\<close>

definition remove_file :: "path \<Rightarrow> bool io" where
  "remove_file p = do {
     f \<leftarrow> take_fault PRemove;
     m \<leftarrow> query (\<lambda>m. m);
     if f \<noteq> None then return_io False
     else (case look m p of
        None \<Rightarrow> return_io True
      | Some _ \<Rightarrow>
          if p = [] \<or> children_of m p \<noteq> [] then return_io False
          else do { put_tree (remove_tree p m); return_io True })
   }"

definition remove_all :: "path \<Rightarrow> bool io" where
  "remove_all p = do {
     f \<leftarrow> take_fault PRemove;
     m \<leftarrow> query (\<lambda>m. m);
     (case f of
        None \<Rightarrow> if p = [] then return_io False
                 else do { put_tree (remove_tree p m); return_io True }
      | Some f \<Rightarrow> if p = [] then return_io False
                 else do {
                   put_tree (filter (\<lambda>e. \<not> prefix p (fst e)
                       \<or> (\<exists>k \<in> set (fault_keep f). prefix (fst e) k)) m);
                   return_io False })
   }"

text \<open>
  \<open>create_directories\<close> walks down the path and makes what is missing; a fault stops it after
  some directories.  An existing directory is not looked into.
\<close>

fun make_dirs :: "nat option \<Rightarrow> path \<Rightarrow> string list \<Rightarrow> bool io" where
  "make_dirs budget base [] = return_io True"
| "make_dirs budget base (c # cs) = do {
     m \<leftarrow> query (\<lambda>m. m);
     (case look m (base @ [c]) of
        Some Dir \<Rightarrow> make_dirs budget (base @ [c]) cs
      | Some (File _) \<Rightarrow> return_io False
      | None \<Rightarrow>
          if budget = Some 0 then return_io False
          else do {
            put_tree (AList.update (base @ [c]) Dir m);
            make_dirs (map_option (\<lambda>n. n - 1) budget) (base @ [c]) cs })
   }"

definition create_directories :: "path \<Rightarrow> bool io" where
  "create_directories p = do {
     m \<leftarrow> query (\<lambda>m. m);
     if look m p = Some Dir then return_io True
     else do { f \<leftarrow> take_fault PMkdir; make_dirs (map_option fault_at f) [] p }
   }"

section \<open>Well-formed trees\<close>

definition tree_ok :: "tree \<Rightarrow> bool" where
  "tree_ok m = (distinct (map fst m) \<and> look m [] = Some Dir \<and>
     (\<forall>q \<in> set (map fst m). q \<noteq> [] \<longrightarrow> look m (butlast q) = Some Dir))"

lemma look_update [simp]: "look (AList.update p n m) q = (if q = p then Some n else look m q)"
  by (simp add: look_def update_conv')

lemma look_filter: "look (filter (\<lambda>e. P (fst e)) m) q = (if P q then look m q else None)"
  by (induction m) (auto simp: look_def)

lemma look_remove_tree [simp]: "look (remove_tree p m) q = (if prefix p q then None else look m q)"
  unfolding remove_tree_def using look_filter [of "\<lambda>q. \<not> prefix p q" m q] by simp

lemma look_in_keys: "look m q \<noteq> None \<longleftrightarrow> q \<in> fst ` set m"
  unfolding look_def by (metis map_of_eq_None_iff)

lemma look_SomeD: "look m q = Some n \<Longrightarrow> q \<in> fst ` set m"
  using look_in_keys [of m q] by simp

lemma look_set: "distinct (map fst m) \<Longrightarrow> look m q = Some n \<longleftrightarrow> (q, n) \<in> set m"
  by (simp add: look_def map_of_eq_Some_iff)

lemma tree_ok_distinct: "tree_ok m \<Longrightarrow> distinct (map fst m)"
  by (simp add: tree_ok_def)

lemma tree_ok_parent: "tree_ok m \<Longrightarrow> look m (p @ [x]) \<noteq> None \<Longrightarrow> look m p = Some Dir"
  unfolding tree_ok_def look_in_keys by (metis append_is_Nil_conv butlast_snoc image_set not_Cons_self2)

lemma tree_ok_ancestor:
  assumes "tree_ok m" "look m q \<noteq> None" "strict_prefix p q"
  shows "look m p = Some Dir"
proof -
  obtain x xs where q: "q = p @ x # xs" using assms(3) by (auto elim: strict_prefixE')
  have "look m (p @ [x] @ xs) \<noteq> None \<Longrightarrow> look m p = Some Dir"
  proof (induction xs rule: rev_induct)
    case Nil
    then show ?case using tree_ok_parent [OF assms(1)] by simp
  next
    case (snoc y xs)
    then show ?case using tree_ok_parent [OF assms(1), of "p @ [x] @ xs" y] by simp
  qed
  then show ?thesis using assms(2) q by simp
qed

lemma tree_ok_update:
  assumes "tree_ok m" "p \<noteq> []" "look m (butlast p) = Some Dir" "n = Dir \<or> look m p \<noteq> Some Dir"
  shows "tree_ok (AList.update p n m)"
  using assms unfolding tree_ok_def
  by (auto simp: distinct_update dom_update look_in_keys [symmetric])

lemma tree_ok_remove:
  assumes "tree_ok m" "p \<noteq> []" "\<And>q. q \<noteq> [] \<Longrightarrow> P q \<Longrightarrow> P (butlast q)" "P []"
  shows "tree_ok (filter (\<lambda>e. P (fst e)) m)"
  using assms unfolding tree_ok_def
  by (auto simp: look_filter distinct_map inj_on_def)

lemma not_prefix_butlast: "\<not> prefix p q \<Longrightarrow> \<not> prefix p (butlast q)"
  using prefixeq_butlast prefix_order.order_trans by blast

lemma strict_prefix_butlast: "strict_prefix p q \<Longrightarrow> prefix p (butlast q)"
  by (cases q rule: rev_cases) (auto simp: strict_prefix_def)

lemma tree_ok_remove_tree: "tree_ok m \<Longrightarrow> p \<noteq> [] \<Longrightarrow> tree_ok (remove_tree p m)"
  unfolding remove_tree_def by (rule tree_ok_remove [where P = "\<lambda>q. \<not> prefix p q"])
    (auto dest: not_prefix_butlast)

text \<open>A rename that is allowed never moves something above or below itself.\<close>

lemma may_rename_apart:
  assumes "tree_ok m" "may_rename m a b" "a \<noteq> b"
  shows "\<not> prefix a b" "\<not> prefix b a"
proof -
  have b: "b \<noteq> []" "look m (butlast b) = Some Dir" and a: "look m a \<noteq> None"
    using assms(2) by (auto simp: may_rename_def split: option.splits)
  show "\<not> prefix a b"
  proof
    assume "prefix a b"
    then have sp: "strict_prefix a b" using assms(3) by (simp add: strict_prefix_def)
    then have "look m a = Some Dir"
      using tree_ok_ancestor [OF assms(1), of "butlast b" a] b strict_prefix_butlast [OF sp]
      by (cases "a = butlast b") (auto simp: strict_prefix_def)
    then show False using assms(2) sp by (simp add: may_rename_def)
  qed
  show "\<not> prefix b a"
  proof
    assume "prefix b a"
    then have sp: "strict_prefix b a" using assms(3) by (auto simp: strict_prefix_def)
    then have dir: "look m b = Some Dir" using tree_ok_ancestor [OF assms(1) a] by simp
    obtain x xs where ax: "a = b @ x # xs" using sp by (auto elim: strict_prefixE')
    have "look m (b @ [x]) \<noteq> None"
      using a ax tree_ok_ancestor [OF assms(1) a, of "b @ [x]"]
      by (cases xs) (auto simp: strict_prefix_def prefix_def)
    then have "b @ [x] \<in> set (children_of m b)"
      by (auto simp: children_of_def dest: look_SomeD)
    then show False using assms(2) dir
      by (auto simp: may_rename_def split: option.splits node.splits)
  qed
qed

lemma distinct_move_tree:
  assumes "distinct (map fst m)" "\<not> prefix b a"
  shows "distinct (map fst (move_tree a b m))"
proof -
  have inj: "inj_on (\<lambda>q. if prefix a q then b @ drop (length a) q else q)
      {q. \<not> prefix b q}"
    by (rule inj_onI) (auto simp: prefix_def split: if_splits)
  have eq: "map fst (move_tree a b m)
      = map (\<lambda>q. if prefix a q then b @ drop (length a) q else q) (filter (\<lambda>q. \<not> prefix b q) (map fst m))"
    by (induction m) (auto simp: move_tree_def remove_tree_def)
  show ?thesis unfolding eq distinct_map
    using assms(1) by (auto intro!: inj_on_subset [OF inj])
qed

lemma look_move_tree:
  assumes ok: "tree_ok m" and may: "may_rename m a b" "a \<noteq> b"
  shows "look (move_tree a b m) q =
    (if prefix b q then look m (a @ drop (length b) q) else if prefix a q then None else look m q)"
proof -
  note apart = may_rename_apart [OF ok may]
  have d: "distinct (map fst m)" and d': "distinct (map fst (move_tree a b m))"
    using ok distinct_move_tree [OF _ apart(2)] by (simp_all add: tree_ok_def)
  have mem0: "(q, n) \<in> set (move_tree a b m) \<longleftrightarrow> (\<exists>q'. (q', n) \<in> set m \<and> \<not> prefix b q'
      \<and> q = (if prefix a q' then b @ drop (length a) q' else q'))" for n
    by (force simp: move_tree_def remove_tree_def)
  have mem: "(q, n) \<in> set (move_tree a b m) \<longleftrightarrow>
      (if prefix b q then (a @ drop (length b) q, n) \<in> set m
       else \<not> prefix a q \<and> (q, n) \<in> set m)" for n
  proof (cases "prefix b q")
    case True
    then obtain r where r: "q = b @ r" by (auto simp: prefix_def)
    have "\<not> prefix b (a @ r)" using apart prefix_same_cases [of a "a @ r" b] by auto
    then have "(\<exists>q'. (q', n) \<in> set m \<and> \<not> prefix b q'
        \<and> q = (if prefix a q' then b @ drop (length a) q' else q')) \<longleftrightarrow> (a @ r, n) \<in> set m"
      by (auto simp: r elim!: prefixE intro!: exI [of _ "a @ r"]) (metis prefixI)
    then show ?thesis using mem0 r by simp
  next
    case False
    then show ?thesis unfolding mem0 by auto (metis prefixI)
  qed
  show ?thesis
    by (rule option_eqI) (simp add: look_set [OF d'] mem look_set [OF d])
qed

lemma tree_ok_move_tree:
  assumes ok: "tree_ok m" and may: "may_rename m a b" "a \<noteq> b"
  shows "tree_ok (move_tree a b m)"
proof -
  note apart = may_rename_apart [OF ok may] and L = look_move_tree [OF ok may]
  have ends: "a \<noteq> []" "b \<noteq> []" "look m (butlast b) = Some Dir"
    using may by (auto simp: may_rename_def)
  have nb: "\<not> prefix b (butlast b)" "\<not> prefix a (butlast b)"
  proof -
    show "\<not> prefix b (butlast b)" using ends(2) prefix_length_le [of b "butlast b"] by (cases b) auto
    show "\<not> prefix a (butlast b)" using prefix_order.order_trans [OF _ prefixeq_butlast] apart(1) by blast
  qed
  have parent: "look (move_tree a b m) (butlast q) = Some Dir"
    if q: "look (move_tree a b m) q \<noteq> None" "q \<noteq> []" for q
  proof (cases "prefix b q")
    case True
    then obtain r where r: "q = b @ r" by (auto simp: prefix_def)
    show ?thesis
    proof (cases r rule: rev_cases)
      case Nil
      then show ?thesis using r ends nb by (simp add: L)
    next
      case (snoc r' x)
      then have "look m (a @ r' @ [x]) \<noteq> None" using q r L by simp
      then have "look m (a @ r') = Some Dir" using tree_ok_parent [OF ok, of "a @ r'" x] by simp
      then show ?thesis using r snoc by (simp add: L butlast_append)
    qed
  next
    case False
    then have "look m q \<noteq> None" "\<not> prefix a q" using q(1) by (auto simp: L split: if_splits)
    then have "look m (butlast q) = Some Dir"
      using ok q(2) tree_ok_parent [OF ok, of "butlast q" "last q"] by simp
    then show ?thesis
      using not_prefix_butlast [OF False] not_prefix_butlast [OF \<open>\<not> prefix a q\<close>] by (simp add: L)
  qed
  have "distinct (map fst (move_tree a b m))"
    using distinct_move_tree [OF tree_ok_distinct [OF ok] apart(2)] .
  moreover have "look (move_tree a b m) [] = Some Dir"
    using ends ok by (simp add: L tree_ok_def)
  ultimately show ?thesis
    using parent unfolding tree_ok_def look_in_keys by (simp add: image_iff)
qed

section \<open>Weakest preconditions\<close>

text \<open>
  \<open>wp m Q s\<close>: started in \<open>s\<close>, the operation ends in a result and a state that satisfy \<open>Q\<close>.
  The rules below hold for every script of faults.  \<open>idle\<close> relates two states with the same
  tree, \<open>moved t\<close> a state to the one after its tree became \<open>t\<close>; both keep exhausted fault lists
  exhausted.
\<close>

named_theorems wp_rules \<open>weakest precondition rules\<close>

definition wp :: "'a io \<Rightarrow> ('a \<Rightarrow> fs \<Rightarrow> bool) \<Rightarrow> fs \<Rightarrow> bool" where
  "wp m Q s = (case run_state m s of (a, s') \<Rightarrow> Q a s')"

definition calm :: "fs \<Rightarrow> fs \<Rightarrow> bool" where
  "calm s s' = (\<forall>p. faults s p = [] \<longrightarrow> faults s' p = [])"

definition idle :: "fs \<Rightarrow> fs \<Rightarrow> bool" where
  "idle s s' = (tree s' = tree s \<and> trace s' = trace s \<and> calm s s')"

definition moved :: "tree \<Rightarrow> fs \<Rightarrow> fs \<Rightarrow> bool" where
  "moved t s s' = (tree s' = t \<and> trace s' = trace s @ [t] \<and> calm s s')"

lemma calm_refl [simp]: "calm s s"
  by (simp add: calm_def)

lemma calm_trans [trans]: "calm s t \<Longrightarrow> calm t u \<Longrightarrow> calm s u"
  by (simp add: calm_def)

lemma idle_refl [simp]: "idle s s"
  by (simp add: idle_def)

lemma wp_run: "wp m Q s \<Longrightarrow> run_state m s = (a, s') \<Longrightarrow> Q a s'"
  by (simp add: wp_def)

lemma wp_mono: "wp m Q s \<Longrightarrow> (\<And>a s'. Q a s' \<Longrightarrow> R a s') \<Longrightarrow> wp m R s"
  by (auto simp: wp_def split: prod.splits)

lemma wp_bind [simp]: "wp (State_Monad.bind m f) Q = wp m (\<lambda>a. wp (f a) Q)"
  by (simp add: wp_def fun_eq_iff split: prod.splits)

lemma wp_return [simp]: "wp (return_io a) Q = Q a"
  by (simp add: wp_def return_io_def fun_eq_iff)

lemma wp_query [simp]: "wp (query f) Q s = Q (f (tree s)) s"
  by (simp add: wp_def query_def)

lemma wp_put_tree:
  "(\<And>s'. moved m s s' \<Longrightarrow> Q () s') \<Longrightarrow> wp (put_tree m) Q s"
  by (simp add: wp_def put_tree_def moved_def calm_def)

lemma wp_take_fault:
  "(\<And>f s'. idle s s' \<Longrightarrow> (faults s p = [] \<Longrightarrow> f = None) \<Longrightarrow> Q f s') \<Longrightarrow> wp (take_fault p) Q s"
  by (auto simp: wp_def take_fault_def idle_def calm_def split: list.splits)

lemma wp_random: "(\<And>r s'. idle s s' \<Longrightarrow> Q r s') \<Longrightarrow> wp random Q s"
  by (auto simp: wp_def random_def idle_def calm_def split: list.splits)

lemma idle_moved: "idle s s' \<Longrightarrow> moved t s' s'' \<Longrightarrow> moved t s s''"
  unfolding idle_def moved_def by (auto intro: calm_trans)

lemma idle_trans: "idle s s' \<Longrightarrow> idle s' s'' \<Longrightarrow> idle s s''"
  unfolding idle_def by (auto intro: calm_trans)

lemma wp_take_query:
  assumes "\<And>f s'. idle s s' \<Longrightarrow> (faults s p = [] \<Longrightarrow> f = None) \<Longrightarrow> wp (g f (tree s)) Q s'"
  shows "wp (State_Monad.bind (take_fault p) (\<lambda>f. State_Monad.bind (query (\<lambda>m. m)) (g f))) Q s"
  using assms by (auto intro!: wp_take_fault simp: idle_def)

lemma wp_put_return:
  "idle s s0 \<Longrightarrow> (\<And>s'. moved m s s' \<Longrightarrow> Q a s') \<Longrightarrow>
     wp (State_Monad.bind (put_tree m) (\<lambda>_. return_io a)) Q s0"
  by (auto intro!: wp_put_tree dest: idle_moved)

lemma wp_open_trunc:
  assumes "\<And>s'. idle s s' \<Longrightarrow> Q False s'"
    and "\<And>s'. writable_at (tree s) p \<Longrightarrow> moved (AList.update p (File []) (tree s)) s s' \<Longrightarrow> Q True s'"
  shows "wp (open_trunc p) Q s"
  unfolding open_trunc_def by (rule wp_take_query) (auto intro: assms intro!: wp_put_return simp del: wp_bind)

lemma wp_stream_write:
  assumes "\<And>s'. \<not> is_file (tree s) p \<Longrightarrow> idle s s' \<Longrightarrow> Q False s'"
    and "\<And>s'. is_file (tree s) p \<Longrightarrow> moved (AList.update p (File bs) (tree s)) s s' \<Longrightarrow> Q True s'"
    and "\<And>k s'. is_file (tree s) p \<Longrightarrow> faults s PWrite \<noteq> [] \<Longrightarrow>
           moved (AList.update p (File (take k bs)) (tree s)) s s' \<Longrightarrow> Q False s'"
  shows "wp (stream_write p bs) Q s"
  unfolding stream_write_def
  by (rule wp_take_query)
    (auto intro: assms intro!: wp_put_return simp del: wp_bind split: option.split)

lemma wp_stream_close:
  assumes "\<And>s'. idle s s' \<Longrightarrow> Q () s'"
    and "\<And>k s'. is_file (tree s) p \<Longrightarrow> faults s PClose \<noteq> [] \<Longrightarrow>
           moved (AList.update p (File (take k bs)) (tree s)) s s' \<Longrightarrow> Q () s'"
  shows "wp (stream_close p bs) Q s"
  unfolding stream_close_def
  by (rule wp_take_query)
    (auto intro: assms intro!: wp_put_tree dest: idle_moved split: option.split)

lemma wp_rename:
  assumes "\<And>s'. faults s PRename \<noteq> [] \<or> \<not> may_rename (tree s) a b \<Longrightarrow> idle s s' \<Longrightarrow> Q False s'"
    and "\<And>s'. a = b \<Longrightarrow> may_rename (tree s) a b \<Longrightarrow> idle s s' \<Longrightarrow> Q True s'"
    and "\<And>s'. a \<noteq> b \<Longrightarrow> may_rename (tree s) a b \<Longrightarrow> moved (move_tree a b (tree s)) s s' \<Longrightarrow> Q True s'"
  shows "wp (rename a b) Q s"
  unfolding rename_def by (rule wp_take_query) (auto intro: assms intro!: wp_put_return simp del: wp_bind)

lemma wp_remove_file:
  assumes "\<And>b s'. b \<longrightarrow> look (tree s) p = None \<Longrightarrow> idle s s' \<Longrightarrow> Q b s'"
    and "\<And>s'. p \<noteq> [] \<Longrightarrow> children_of (tree s) p = [] \<Longrightarrow> moved (remove_tree p (tree s)) s s' \<Longrightarrow> Q True s'"
  shows "wp (remove_file p) Q s"
  unfolding remove_file_def
  by (rule wp_take_query)
    (auto intro: assms intro!: wp_put_return simp del: wp_bind split: option.split)

lemma wp_remove_all:
  assumes "\<And>s'. p = [] \<Longrightarrow> idle s s' \<Longrightarrow> Q False s'"
    and "\<And>s'. p \<noteq> [] \<Longrightarrow> moved (remove_tree p (tree s)) s s' \<Longrightarrow> Q True s'"
    and "\<And>s' ks. p \<noteq> [] \<Longrightarrow> faults s PRemove \<noteq> [] \<Longrightarrow>
      moved (filter (\<lambda>e. \<not> prefix p (fst e) \<or> (\<exists>k \<in> set ks. prefix (fst e) k)) (tree s)) s s' \<Longrightarrow> Q False s'"
  shows "wp (remove_all p) Q s"
  unfolding remove_all_def
  by (rule wp_take_query)
    (auto intro: assms intro!: wp_put_return simp del: wp_bind split: option.split)

lemma wp_read_file:
  assumes "\<And>s' bs. is_file (tree s) p \<Longrightarrow> look (tree s) p = Some (File bs) \<Longrightarrow> idle s s' \<Longrightarrow> Q (Some bs) s'"
    and "\<And>s'. faults s PRead \<noteq> [] \<or> \<not> is_file (tree s) p \<Longrightarrow> idle s s' \<Longrightarrow> Q None s'"
    and "\<And>s' bs k. faults s PRead \<noteq> [] \<Longrightarrow> look (tree s) p = Some (File bs) \<Longrightarrow> idle s s' \<Longrightarrow> Q (Some (take k bs)) s'"
  shows "wp (read_file p) Q s"
proof -
  have "faults s PRead \<noteq> []" if "faults s PRead = [] \<longrightarrow> f = None" "f \<noteq> None" for f
    using that by blast
  then show ?thesis unfolding read_file_def
    by (auto intro!: wp_take_fault split: option.split node.split nat.split)
      (auto simp: idle_def is_file_def split: option.split node.split
        intro!: assms [unfolded idle_def])
qed

lemma wp_list_directories:
  assumes "\<And>s'. faults s PList \<noteq> [] \<Longrightarrow> idle s s' \<Longrightarrow> Q [] s'"
    and "\<And>s'. idle s s' \<Longrightarrow>
      Q (map last (filter (\<lambda>q. look (tree s) q = Some Dir) (children_of (tree s) p))) s'"
  shows "wp (list_directories p) Q s"
  unfolding list_directories_def
  by (rule wp_take_query) (auto intro: assms)

lemma wp_copy_file:
  assumes "\<And>s'. idle s s' \<Longrightarrow> Q False s'"
    and "\<And>k c s'. faults s PCopy \<noteq> [] \<Longrightarrow> writable_at (tree s) b \<Longrightarrow> look (tree s) a = Some (File c) \<Longrightarrow>
      moved (AList.update b (File (take k c)) (tree s)) s s' \<Longrightarrow> Q False s'"
    and "\<And>c s0 s'. a \<noteq> b \<Longrightarrow> writable_at (tree s) b \<Longrightarrow> look (tree s) a = Some (File c) \<Longrightarrow>
      moved (AList.update b (File []) (tree s)) s s0 \<Longrightarrow>
      moved (AList.update b (File c) (tree s)) s0 s' \<Longrightarrow> Q True s'"
  shows "wp (copy_file a b) Q s"
proof -
  have "wp (put_tree t1) (\<lambda>_. wp (State_Monad.bind (put_tree t2) (\<lambda>_. return_io True)) Q) s0"
    if "idle s s0" "\<And>s1 s'. moved t1 s s1 \<Longrightarrow> moved t2 s1 s' \<Longrightarrow> Q True s'" for t1 t2 s0
    using that idle_moved by (intro wp_put_tree wp_put_return [OF idle_refl]) blast
  then show ?thesis unfolding copy_file_def
    by (intro wp_take_query)
      (auto intro: assms intro!: wp_put_return simp del: wp_bind wp_return
        simp: wp_bind [of "put_tree _" "\<lambda>_. State_Monad.bind (put_tree _) _"] wp_return
        split: option.split node.split nat.split)
qed

text \<open>Directories appear on the way to \<open>p\<close>, nothing else changes.\<close>

definition grown :: "path \<Rightarrow> tree \<Rightarrow> tree \<Rightarrow> bool" where
  "grown p m t = ((tree_ok m \<longrightarrow> tree_ok t) \<and>
     (\<forall>q. look t q = look m q \<or> look m q = None \<and> look t q = Some Dir \<and> prefix q p))"

text \<open>From \<open>s\<close> to \<open>s'\<close> every visible tree satisfies \<open>R\<close>.\<close>

definition steps :: "(tree \<Rightarrow> bool) \<Rightarrow> fs \<Rightarrow> fs \<Rightarrow> bool" where
  "steps R s s' = (calm s s' \<and> R (tree s') \<and> (\<exists>ts. trace s' = trace s @ ts \<and> (\<forall>t \<in> set ts. R t)))"

lemma steps_idle: "idle s s' \<Longrightarrow> R (tree s) \<Longrightarrow> steps R s s'"
  by (auto simp: steps_def idle_def)

lemma steps_moved: "moved t s s' \<Longrightarrow> R t \<Longrightarrow> steps R s s'"
  by (auto simp: steps_def moved_def)

lemma steps_trans: "steps R s s' \<Longrightarrow> steps R s' s'' \<Longrightarrow> steps R s s''"
  unfolding steps_def by (fastforce intro: calm_trans)

lemma steps_mono: "steps R s s' \<Longrightarrow> (\<And>t. R t \<Longrightarrow> R' t) \<Longrightarrow> steps R' s s'"
  unfolding steps_def by blast

lemma stepsD:
  assumes "steps R s s'"
  shows "calm s s'" "R (tree s')"
  using assms by (simp_all add: steps_def)

definition grew :: "path \<Rightarrow> fs \<Rightarrow> fs \<Rightarrow> bool" where
  "grew p s s' = steps (grown p (tree s)) s s'"

lemma grown_refl [simp]: "grown p m m"
  by (simp add: grown_def)

lemma grown_trans: "grown p m t \<Longrightarrow> grown p t u \<Longrightarrow> grown p m u"
  unfolding grown_def by (metis option.distinct(1))

lemma grew_refl [simp]: "grew p s s"
  by (simp add: grew_def steps_def)

lemma grew_trans: "grew p s s' \<Longrightarrow> grew p s' s'' \<Longrightarrow> grew p s s''"
  unfolding grew_def
  by (rule steps_trans, assumption, erule steps_mono) (auto simp: steps_def intro: grown_trans)

lemma moved_grew: "moved t s s' \<Longrightarrow> grown p (tree s) t \<Longrightarrow> grew p s s'"
  unfolding grew_def by (rule steps_moved)

lemma idle_grew: "idle s s' \<Longrightarrow> grew p s s'"
  unfolding grew_def by (simp add: steps_idle)

lemma wp_make_dirs:
  assumes "\<And>b s'. grew (base @ cs) s s' \<Longrightarrow>
      (b \<longrightarrow> look (tree s) base = Some Dir \<longrightarrow> look (tree s') (base @ cs) = Some Dir) \<Longrightarrow> Q b s'"
    and "look (tree s) base = Some Dir"
  shows "wp (make_dirs budget base cs) Q s"
  using assms
proof (induction budget base cs arbitrary: Q s rule: make_dirs.induct)
  case (1 budget base)
  then show ?case by simp
next
  case (2 budget base c cs)
  let ?q = "base @ [c]"
  show ?case
  proof (cases "look (tree s) ?q")
    case None
    have step: "wp (make_dirs (map_option (\<lambda>n. n - 1) budget) ?q cs) Q s1"
      if b: "budget \<noteq> Some 0" and s1: "moved (AList.update ?q Dir (tree s)) s s1" for s1
    proof (rule "2.IH"(1) [OF None b])
      have g: "grew (base @ c # cs) s s1"
        using s1 None "2.prems"(2) by (auto simp: grown_def intro!: moved_grew tree_ok_update)
      show "look (tree s1) ?q = Some Dir" using s1 by (simp add: moved_def)
      fix b s' assume "grew (?q @ cs) s1 s'"
        "b \<longrightarrow> look (tree s1) ?q = Some Dir \<longrightarrow> look (tree s') (?q @ cs) = Some Dir"
      then show "Q b s'" using "2.prems"(1) [of s' b] g grew_trans s1
        by (simp add: moved_def)
    qed
    then show ?thesis using None "2.prems"(1) [OF grew_refl, of False]
      by (auto intro!: wp_put_tree)
  next
    case (Some n)
    then show ?thesis
      using "2.IH"(2) [OF Some] "2.prems" by (cases n) auto
  qed
qed

lemma wp_create_directories:
  assumes "\<And>b s'. grew p s s' \<Longrightarrow> (b \<longrightarrow> look (tree s') p = Some Dir) \<Longrightarrow> Q b s'"
    and "look (tree s) [] = Some Dir"
  shows "wp (create_directories p) Q s"
proof (cases "look (tree s) p = Some Dir")
  case True
  then show ?thesis using assms(1) [OF grew_refl, of True] by (simp add: create_directories_def)
next
  case False
  have "wp (make_dirs budget [] p) Q s0" if "idle s s0" for budget s0
  proof (rule wp_make_dirs)
    show "look (tree s0) [] = Some Dir" using that assms(2) by (simp add: idle_def)
    then show "Q b s'" if "grew ([] @ p) s0 s'"
      "b \<longrightarrow> look (tree s0) [] = Some Dir \<longrightarrow> look (tree s') ([] @ p) = Some Dir" for b s'
      using that assms(1) [OF grew_trans [OF idle_grew [OF \<open>idle s s0\<close>]]] by simp
  qed
  then show ?thesis using False by (auto simp: create_directories_def intro!: wp_take_fault)
qed

section \<open>A disk without faults\<close>

definition set_tree :: "tree \<Rightarrow> fs \<Rightarrow> fs" where
  "set_tree m s = s\<lparr>tree := m, trace := trace s @ [m]\<rparr>"

lemma set_tree_simps [simp]:
  "tree (set_tree m s) = m" "healthy (set_tree m s) = healthy s"
  "entropy (set_tree m s) = entropy s" "trace (set_tree m s) = trace s @ [m]"
  "faults (set_tree m s) = faults s"
  by (simp_all add: set_tree_def healthy_def)

lemma run_basic [simp]:
  "run_state (return_io a) s = (a, s)"
  "run_state (query f) s = (f (tree s), s)"
  "run_state (put_tree m) s = ((), set_tree m s)"
  by (simp_all add: return_io_def query_def put_tree_def set_tree_def)

lemma run_take_fault [simp]: "healthy s \<Longrightarrow> run_state (take_fault p) s = (None, s)"
  by (simp add: take_fault_def healthy_def)

lemma healthy_faults: "healthy s \<Longrightarrow> faults s p = []"
  by (simp add: healthy_def)

lemma healthy_calm: "calm s s' \<Longrightarrow> healthy s \<Longrightarrow> healthy s'"
  unfolding calm_def healthy_def by blast

lemma run_queries [simp]:
  "run_state (file_exists p) s = (look (tree s) p \<noteq> None, s)"
  "run_state (is_directory p) s = (look (tree s) p = Some Dir, s)"
  "run_state (file_size p) s = (case look (tree s) p of Some (File c) \<Rightarrow> length c | _ \<Rightarrow> 2 ^ 64 - 1, s)"
  by (simp_all add: file_exists_def is_directory_def file_size_def)

lemma run_read_file [simp]:
  "healthy s \<Longrightarrow> run_state (read_file p) s
     = (case look (tree s) p of Some (File c) \<Rightarrow> Some c | _ \<Rightarrow> None, s)"
  by (simp add: read_file_def split: option.split node.split)

lemma run_open_trunc [simp]:
  "healthy s \<Longrightarrow> run_state (open_trunc p) s
     = (if writable_at (tree s) p then (True, set_tree (AList.update p (File []) (tree s)) s) else (False, s))"
  by (simp add: open_trunc_def)

lemma run_stream_write [simp]:
  "healthy s \<Longrightarrow> run_state (stream_write p bs) s
     = (if is_file (tree s) p then (True, set_tree (AList.update p (File bs) (tree s)) s) else (False, s))"
  by (simp add: stream_write_def)

lemma run_stream_close [simp]: "healthy s \<Longrightarrow> run_state (stream_close p bs) s = ((), s)"
  by (simp add: stream_close_def)

lemma run_rename [simp]:
  "healthy s \<Longrightarrow> run_state (rename a b) s
     = (if \<not> may_rename (tree s) a b then (False, s)
        else if a = b then (True, s) else (True, set_tree (move_tree a b (tree s)) s))"
  by (simp add: rename_def)

lemma run_copy_file [simp]:
  "healthy s \<Longrightarrow> run_state (copy_file a b) s
     = (case look (tree s) a of
          Some (File c) \<Rightarrow>
            if \<not> writable_at (tree s) b \<or> a = b then (False, s)
            else (True, set_tree (AList.update b (File c) (tree s)) (set_tree (AList.update b (File []) (tree s)) s))
        | _ \<Rightarrow> (False, s))"
  by (simp add: copy_file_def split: option.split node.split)

lemma run_remove_file [simp]:
  "healthy s \<Longrightarrow> run_state (remove_file p) s
     = (if look (tree s) p = None then (True, s)
        else if p = [] \<or> children_of (tree s) p \<noteq> [] then (False, s)
        else (True, set_tree (remove_tree p (tree s)) s))"
  by (simp add: remove_file_def split: option.split)

lemma run_remove_all [simp]:
  "healthy s \<Longrightarrow> run_state (remove_all p) s
     = (if p = [] then (False, s) else (True, set_tree (remove_tree p (tree s)) s))"
  by (simp add: remove_all_def)

lemma run_list_directories [simp]:
  "healthy s \<Longrightarrow> run_state (list_directories p) s
     = (map last (filter (\<lambda>q. look (tree s) q = Some Dir) (children_of (tree s) p)), s)"
  by (simp add: list_directories_def)

lemma tree_ok_no_children:
  assumes "tree_ok m" "look m p = Some (File c)"
  shows "children_of m p = []"
proof (rule ccontr)
  assume "children_of m p \<noteq> []"
  then obtain q where "q \<in> set (children_of m p)" by (cases "children_of m p") auto
  then have q: "q \<in> set (map fst m)" "q \<noteq> []" "butlast q = p" by (auto simp: children_of_def)
  from assms(1) have "\<forall>q \<in> set (map fst m). q \<noteq> [] \<longrightarrow> look m (butlast q) = Some Dir"
    unfolding tree_ok_def by blast
  with q have "look m p = Some Dir" by blast
  then show False using assms(2) by simp
qed

end
