(* ===== verification/Atomic_Write.thy ===== *)
theory Atomic_Write
  imports File_System
begin

text \<open>
  The write-to-a-temporary-then-rename protocol that the updater's marker, state and log writers
  and the disk cache share (\<open>write_marker_atomic\<close> of src/updater/install_layout.cpp, the tails of
  \<open>save_update_state\<close> and \<open>append_rollback_event\<close>, \<open>DiskCache::put_bytes\<close>), with what it
  guarantees: other files are left alone, and a reader sees the old content or the new one.
\<close>

section \<open>The protocol\<close>

text \<open>Open, write, check \<open>good()\<close>, close; an unfinished file is removed.\<close>

definition write_stream :: "path \<Rightarrow> byte list \<Rightarrow> bool io" where
  "write_stream t bs = do {
     opened \<leftarrow> open_trunc t;
     if \<not> opened then return_io False
     else do {
       good \<leftarrow> (if bs = [] then return_io True else stream_write t bs);
       if \<not> good then do { _ \<leftarrow> remove_file t; return_io False }
       else do { stream_close t bs; return_io True }
     }
   }"

text \<open>
  Rename into place; when that fails, copy and delete.  The error code tested at the end is the one
  of the deletion, which overwrote the one of the copy.
\<close>

definition move_into_place :: "path \<Rightarrow> path \<Rightarrow> bool io" where
  "move_into_place tmp p = do {
     renamed \<leftarrow> rename tmp p;
     if renamed then return_io True
     else do { _ \<leftarrow> copy_file tmp p; removed \<leftarrow> remove_file tmp; return_io removed }
   }"

definition write_file_atomic :: "path \<Rightarrow> byte list \<Rightarrow> bool io" where
  "write_file_atomic p bs = do {
     r \<leftarrow> random;
     let tmp = tmp_sibling p r;
     written \<leftarrow> write_stream tmp bs;
     if \<not> written then return_io False else move_into_place tmp p
   }"

text \<open>The disk cache's variant has no copying.\<close>

definition write_file_rename :: "path \<Rightarrow> byte list \<Rightarrow> bool io" where
  "write_file_rename p bs = do {
     r \<leftarrow> random;
     let tmp = tmp_sibling p r;
     written \<leftarrow> write_stream tmp bs;
     if \<not> written then return_io False
     else do {
       renamed \<leftarrow> rename tmp p;
       if renamed then return_io True
       else do { _ \<leftarrow> remove_file tmp; return_io False }
     }
   }"

section \<open>What it touches\<close>

definition touches :: "path \<Rightarrow> node set \<Rightarrow> tree \<Rightarrow> tree \<Rightarrow> bool" where
  "touches p C m t = ((tree_ok m \<longrightarrow> tree_ok t) \<and>
     (\<forall>q. q \<noteq> p \<longrightarrow> q \<notin> range (tmp_sibling p) \<longrightarrow> look t q = look m q) \<and>
     (look t p = look m p \<or> look t p \<in> Some ` C))"

lemma touches_refl [simp]: "touches p C m m"
  by (simp add: touches_def)

lemma touches_trans: "touches p C m t \<Longrightarrow> touches p C t u \<Longrightarrow> touches p C m u"
  unfolding touches_def by metis

lemma touches_mono: "touches p C m t \<Longrightarrow> C \<subseteq> C' \<Longrightarrow> touches p C' m t"
  unfolding touches_def by blast

lemma tmp_sibling_neq [simp]: "p \<noteq> [] \<Longrightarrow> tmp_sibling p r \<noteq> p" "p \<noteq> [] \<Longrightarrow> p \<noteq> tmp_sibling p r"
  by (cases p rule: rev_cases; simp add: tmp_sibling_def)+

lemma butlast_tmp_sibling [simp]: "butlast (tmp_sibling p r) = butlast p"
  by (simp add: tmp_sibling_def)

lemma length_tmp_sibling: "p \<noteq> [] \<Longrightarrow> length (tmp_sibling p r) = length p"
  by (cases p rule: rev_cases) (simp_all add: tmp_sibling_def)

lemma tmp_sibling_nonempty [simp]: "tmp_sibling p r \<noteq> []"
  by (simp add: tmp_sibling_def)

text \<open>Only the temporary file changes: the shape of every step but the last.\<close>

definition only_at :: "path \<Rightarrow> tree \<Rightarrow> tree \<Rightarrow> bool" where
  "only_at q m t = ((tree_ok m \<longrightarrow> tree_ok t) \<and> (\<forall>x. x \<noteq> q \<longrightarrow> look t x = look m x))"

lemma only_at_refl [simp]: "only_at q m m"
  by (simp add: only_at_def)

lemma only_at_trans: "only_at q m t \<Longrightarrow> only_at q t u \<Longrightarrow> only_at q m u"
  by (simp add: only_at_def)

lemma only_at_touches: "p \<noteq> [] \<Longrightarrow> only_at (tmp_sibling p r) m t \<Longrightarrow> touches p C m t"
  unfolding only_at_def touches_def by (metis rangeI tmp_sibling_neq(1))

lemma only_at_update:
  "writable_at m q \<or> is_file m q \<Longrightarrow> q \<noteq> [] \<Longrightarrow> only_at q m (AList.update q (File c) m)"
proof -
  assume q: "writable_at m q \<or> is_file m q" "q \<noteq> []"
  have "look m (butlast q) = Some Dir" if "tree_ok m"
    using q tree_ok_parent [OF that, of "butlast q" "last q"]
    by (auto simp: writable_at_def is_file_def split: option.splits)
  moreover have "look m q \<noteq> Some Dir"
    using q by (auto simp: writable_at_def is_file_def)
  ultimately show ?thesis using q(2) by (auto simp: only_at_def intro: tree_ok_update)
qed

lemma no_children_remove:
  assumes "tree_ok m" "q \<noteq> []" "children_of m q = []"
  shows "prefix q x \<Longrightarrow> x \<noteq> q \<Longrightarrow> look m x = None"
proof (rule ccontr)
  assume x: "prefix q x" "x \<noteq> q" "look m x \<noteq> None"
  then have "q \<noteq> x" by simp
  with x(1) obtain a as where ax: "x = q @ a # as"
    by (meson strict_prefixE' strict_prefixI)
  have "look m (q @ [a]) \<noteq> None"
    using x(3) ax tree_ok_ancestor [OF assms(1) x(3), of "q @ [a]"]
    by (cases as) (auto simp: strict_prefix_def prefix_def)
  then have "q @ [a] \<in> set (children_of m q)" by (auto simp: children_of_def dest: look_SomeD)
  then show False using assms(3) by simp
qed

lemma only_at_remove:
  assumes "tree_ok m" "q \<noteq> []" "children_of m q = []"
  shows "only_at q m (remove_tree q m)"
  using assms no_children_remove [OF assms] by (auto simp: only_at_def intro: tree_ok_remove_tree)

lemma only_at_ok: "only_at q m t \<Longrightarrow> tree_ok m \<Longrightarrow> tree_ok t"
  by (simp add: only_at_def)

lemma steps_only_at:
  "steps (only_at q m) s s' \<Longrightarrow> moved t s' s'' \<Longrightarrow> only_at q (tree s') t \<Longrightarrow> steps (only_at q m) s s''"
  using stepsD(2) [of "only_at q m" s s']
  by (blast intro: steps_trans steps_moved only_at_trans)

lemma steps_keep_idle: "steps R s s' \<Longrightarrow> idle s' s'' \<Longrightarrow> steps R s s''"
  using stepsD(2) [of R s s'] by (blast intro: steps_trans steps_idle)

lemma steps_faults: "steps R s s' \<Longrightarrow> faults s p = [] \<Longrightarrow> faults s' p = []"
  by (simp add: steps_def calm_def)

lemma wp_write_stream:
  assumes ok: "tree_ok (tree s)" "t \<noteq> []"
    and no: "\<And>s'. steps (only_at t (tree s)) s s' \<Longrightarrow> Q False s'"
    and yes: "\<And>s' c. steps (only_at t (tree s)) s s' \<Longrightarrow> look (tree s') t = Some (File c) \<Longrightarrow>
        c = bs \<or> faults s PClose \<noteq> [] \<and> (\<exists>k. c = take k bs) \<Longrightarrow> Q True s'"
  shows "wp (write_stream t bs) Q s"
proof -
  let ?S = "steps (only_at t (tree s))"
  have drop: "wp (remove_file t) (\<lambda>_. Q False) s2" if s2: "?S s s2" for s2
  proof (rule wp_remove_file)
    show "Q False s'" if "idle s2 s'" for s' using no steps_keep_idle [OF s2 that] .
    show "Q False s'" if "children_of (tree s2) t = []" "moved (remove_tree t (tree s2)) s2 s'" for s'
      using no [OF steps_only_at [OF s2 that(2)]]
        only_at_remove [OF only_at_ok [OF stepsD(2) [OF s2] ok(1)] ok(2) that(1)] .
  qed
  have close: "wp (stream_close t bs) (\<lambda>_. Q True) s2"
    if s2: "?S s s2" "look (tree s2) t = Some (File bs)" for s2
  proof (rule wp_stream_close)
    show "Q True s'" if "idle s2 s'" for s'
      using yes [OF steps_keep_idle [OF s2(1) that]] s2(2) that by (simp add: idle_def)
    show "Q True s'" if "is_file (tree s2) t" "faults s2 PClose \<noteq> []"
      "moved (AList.update t (File (take k bs)) (tree s2)) s2 s'" for k s'
      using yes [OF steps_only_at [OF s2(1) that(3)], of "take k bs"] that steps_faults [OF s2(1)] ok(2)
      by (auto simp: moved_def only_at_update)
  qed
  have body: "wp (if bs = [] then return_io True else stream_write t bs)
      (\<lambda>good. wp (if \<not> good then State_Monad.bind (remove_file t) (\<lambda>_. return_io False)
               else State_Monad.bind (stream_close t bs) (\<lambda>_. return_io True)) Q) s1"
    if s1: "?S s s1" "look (tree s1) t = Some (File [])" for s1
  proof (cases "bs = []")
    case True
    then show ?thesis using close [OF s1(1)] s1(2) by simp
  next
    case False
    have isf: "is_file (tree s1) t" using s1(2) by (simp add: is_file_def)
    have "wp (stream_write t bs)
      (\<lambda>good. wp (if \<not> good then State_Monad.bind (remove_file t) (\<lambda>_. return_io False)
               else State_Monad.bind (stream_close t bs) (\<lambda>_. return_io True)) Q) s1"
    proof (rule wp_stream_write, goal_cases)
      case (1 s')
      then show ?case using isf by simp
    next
      case (2 s')
      from steps_only_at [OF s1(1) 2(2)] close [of s'] 2 ok(2) show ?case
        by (simp add: only_at_update moved_def)
    next
      case (3 k s')
      from steps_only_at [OF s1(1) 3(3)] drop [of s'] 3 ok(2) show ?case
        by (simp add: only_at_update)
    qed
    then show ?thesis using False by simp
  qed
  show ?thesis unfolding write_stream_def wp_bind
  proof (rule wp_open_trunc, goal_cases)
    case (1 s')
    then show ?case using no [OF steps_idle] by simp
  next
    case (2 s')
    have "?S s s'" using 2 ok(2) by (auto intro!: steps_moved only_at_update)
    then show ?case using body [of s'] 2 by (simp add: moved_def)
  qed
qed

section \<open>Moving into place\<close>

definition prefixes_of :: "byte list \<Rightarrow> node set" where
  "prefixes_of bs = range (\<lambda>k. File (take k bs))"

lemma prefixes_of_self [simp]: "File bs \<in> prefixes_of bs" "File [] \<in> prefixes_of bs"
  "File (take k bs) \<in> prefixes_of bs"
  unfolding prefixes_of_def by (metis rangeI take_all_iff le_refl, metis rangeI take0, simp)

lemma prefixes_of_take: "prefixes_of (take k bs) \<subseteq> prefixes_of bs"
  by (auto simp: prefixes_of_def)

lemma touches_ok: "touches p C m t \<Longrightarrow> tree_ok m \<Longrightarrow> tree_ok t"
  by (simp add: touches_def)

lemma touches_update:
  assumes "writable_at m p" "File c \<in> C"
  shows "touches p C m (AList.update p (File c) m)"
proof -
  have "tree_ok m \<longrightarrow> tree_ok (AList.update p (File c) m)"
    using assms(1) by (auto simp: writable_at_def intro: tree_ok_update)
  then show ?thesis using assms(2) by (simp add: touches_def)
qed

lemma may_rename_tmp:
  assumes "tree_ok m" "p \<noteq> []" "look m (tmp_sibling p r) = Some (File c)"
  shows "may_rename m (tmp_sibling p r) p \<longleftrightarrow> look m p \<noteq> Some Dir"
proof -
  have "look m (butlast p) = Some Dir"
    using assms tree_ok_parent [OF assms(1), of "butlast p" "last (tmp_sibling p r)"]
    by (metis append_butlast_last_id butlast_tmp_sibling option.distinct(1) tmp_sibling_nonempty)
  then show ?thesis using assms by (simp add: may_rename_def)
qed

lemma tmp_move:
  assumes ok: "tree_ok m" and p: "p \<noteq> []" and tmp: "look m (tmp_sibling p r) = Some (File c)"
    and may: "may_rename m (tmp_sibling p r) p"
  shows "touches p {File c} m (move_tree (tmp_sibling p r) p m)"
    and "look (move_tree (tmp_sibling p r) p m) p = Some (File c)"
proof -
  note L = look_move_tree [OF ok may tmp_sibling_neq(1) [OF p]]
  have below: "look m q = None" if "strict_prefix (tmp_sibling p r) q" for q
    using tree_ok_ancestor [OF ok _ that] tmp by (cases "look m q") auto
  have belowp: "look m q = None" if "strict_prefix p q" for q
    using tree_ok_ancestor [OF ok _ that] may_rename_tmp [OF ok p tmp] may by (cases "look m q") auto
  have other: "look (move_tree (tmp_sibling p r) p m) q = look m q"
    if q: "q \<noteq> p" "q \<noteq> tmp_sibling p r" for q
  proof (cases "prefix p q")
    case True
    then have "look m q = None" using belowp q(1) by (simp add: strict_prefix_def)
    moreover have "strict_prefix (tmp_sibling p r) (tmp_sibling p r @ drop (length p) q)"
      using True q(1) by (auto simp: strict_prefix_def prefix_def)
    ultimately show ?thesis using True below L by simp
  next
    case False
    then show ?thesis using below q(2) L by (auto simp: strict_prefix_def)
  qed
  show last: "look (move_tree (tmp_sibling p r) p m) p = Some (File c)" using L tmp by simp
  show "touches p {File c} m (move_tree (tmp_sibling p r) p m)"
    unfolding touches_def using other last tree_ok_move_tree [OF ok may tmp_sibling_neq(1) [OF p]] by auto
qed

lemma wp_move_into_place:
  assumes ok: "tree_ok (tree s)" and p: "p \<noteq> []" and tmp: "look (tree s) (tmp_sibling p r) = Some (File c)"
    and moved: "\<And>s'. steps (touches p {File c} (tree s)) s s' \<Longrightarrow> look (tree s') p = Some (File c) \<Longrightarrow> Q True s'"
    and copied: "\<And>b s'. faults s PRename \<noteq> [] \<or> look (tree s) p = Some Dir \<Longrightarrow>
        steps (touches p (prefixes_of c) (tree s)) s s' \<Longrightarrow> Q b s'"
  shows "wp (move_into_place (tmp_sibling p r) p) Q s"
proof -
  let ?tmp = "tmp_sibling p r" and ?S = "steps (touches p (prefixes_of c) (tree s))"
  have drop: "wp (remove_file ?tmp) Q s2"
    if why: "faults s PRename \<noteq> [] \<or> look (tree s) p = Some Dir" and s2: "?S s s2" for s2
  proof (rule wp_remove_file)
    show "Q b s'" if "idle s2 s'" for b s' using copied [OF why steps_keep_idle [OF s2 that]] .
    show "Q True s'" if "children_of (tree s2) ?tmp = []" "moved (remove_tree ?tmp (tree s2)) s2 s'" for s'
    proof -
      have "only_at ?tmp (tree s2) (remove_tree ?tmp (tree s2))"
        using only_at_remove that(1) touches_ok [OF stepsD(2) [OF s2] ok] by simp
      then have "touches p (prefixes_of c) (tree s) (remove_tree ?tmp (tree s2))"
        using only_at_touches [OF p] touches_trans stepsD(2) [OF s2] by blast
      then show ?thesis using copied [OF why steps_trans [OF s2 steps_moved [OF that(2)]]] by blast
    qed
  qed
  show ?thesis unfolding move_into_place_def wp_bind
  proof (rule wp_rename, goal_cases)
    case (1 s1)
    then have why: "faults s PRename \<noteq> [] \<or> look (tree s) p = Some Dir"
      using may_rename_tmp [OF ok p tmp] by blast
    have s1: "?S s s1" using 1 by (auto intro: steps_idle)
    have tree1: "tree s1 = tree s" using 1(2) by (simp add: idle_def)
    have "wp (copy_file ?tmp p) (\<lambda>_. wp (remove_file ?tmp) Q) s1"
    proof (rule wp_copy_file)
      show "wp (remove_file ?tmp) Q s2" if "idle s1 s2" for s2
        using drop [OF why steps_keep_idle [OF s1 that]] .
      show "wp (remove_file ?tmp) Q s2"
        if "writable_at (tree s1) p" "look (tree s1) ?tmp = Some (File c')"
          "moved (AList.update p (File (take k c')) (tree s1)) s1 s2" for k c' s2
        using drop [OF why steps_trans [OF s1 steps_moved [OF that(3)]]] that tmp tree1
        by (simp add: touches_update)
      show "wp (remove_file ?tmp) Q s3"
        if "writable_at (tree s1) p" "look (tree s1) ?tmp = Some (File c')"
          "moved (AList.update p (File []) (tree s1)) s1 s2"
          "moved (AList.update p (File c') (tree s1)) s2 s3" for c' s2 s3
        using drop [OF why steps_trans [OF s1 steps_trans [OF steps_moved [OF that(3)] steps_moved [OF that(4)]]]]
          that tmp tree1 by (simp add: touches_update)
    qed
    then show ?case by simp
  next
    case (2 s1)
    then show ?case using tmp_sibling_neq [OF p] by blast
  next
    case (3 s1)
    then show ?case using moved [OF steps_moved [OF 3(3)]] tmp_move [OF ok p tmp 3(2)]
      by (simp add: moved_def)
  qed
qed

section \<open>What the writers guarantee\<close>

definition replaced :: "path \<Rightarrow> byte list \<Rightarrow> fs \<Rightarrow> bool \<Rightarrow> fs \<Rightarrow> bool" where
  "replaced p bs s b s' = (steps (touches p (prefixes_of bs) (tree s)) s s' \<and>
     (faults s PClose = [] \<longrightarrow> faults s PRename = [] \<longrightarrow> look (tree s) p \<noteq> Some Dir \<longrightarrow>
        steps (touches p {File bs} (tree s)) s s' \<and>
        look (tree s') p = (if b then Some (File bs) else look (tree s) p)))"

lemma replaced_failed:
  assumes "p \<noteq> []" "steps (only_at (tmp_sibling p r) (tree s)) s s'"
  shows "replaced p bs s False s'"
proof -
  have "steps (touches p C (tree s)) s s'" for C
    using steps_mono [OF assms(2)] only_at_touches [OF assms(1)] by blast
  moreover have "look (tree s') p = look (tree s) p"
    using stepsD(2) [OF assms(2)] assms(1) by (simp add: only_at_def)
  ultimately show ?thesis by (simp add: replaced_def)
qed

lemma replaced_moved:
  assumes p: "p \<noteq> []" and s1: "steps (only_at (tmp_sibling p r) (tree s)) s s1"
    and c: "c = bs \<or> faults s PClose \<noteq> [] \<and> (\<exists>k. c = take k bs)"
    and s2: "steps (touches p {File c} (tree s1)) s1 s2" "look (tree s2) p = Some (File c)"
  shows "replaced p bs s True s2"
proof -
  have first: "steps (touches p C (tree s)) s s1" for C
    using steps_mono [OF s1] only_at_touches [OF p] by blast
  have both: "steps (touches p C (tree s)) s s2" if "File c \<in> C" for C
  proof (rule steps_trans [OF first])
    show "steps (touches p C (tree s)) s1 s2"
      using that by (intro steps_mono [OF s2(1)])
        (blast intro: touches_trans [OF stepsD(2) [OF first]] touches_mono)
  qed
  have "File c \<in> prefixes_of bs" using c by auto
  then show ?thesis using both c s2(2) by (auto simp: replaced_def)
qed

lemma replaced_copied:
  assumes p: "p \<noteq> []" and s1: "steps (only_at (tmp_sibling p r) (tree s)) s s1"
    and c: "c = bs \<or> faults s PClose \<noteq> [] \<and> (\<exists>k. c = take k bs)"
    and s2: "steps (touches p (prefixes_of c) (tree s1)) s1 s2"
    and why: "faults s1 PRename \<noteq> [] \<or> look (tree s1) p = Some Dir"
  shows "replaced p bs s b s2"
proof -
  have first: "steps (touches p (prefixes_of bs) (tree s)) s s1"
    using steps_mono [OF s1] only_at_touches [OF p] by blast
  have sub: "prefixes_of c \<subseteq> prefixes_of bs" using c prefixes_of_take by auto
  have "steps (touches p (prefixes_of bs) (tree s)) s1 s2"
    by (intro steps_mono [OF s2])
      (blast intro: touches_trans [OF stepsD(2) [OF first]] touches_mono [OF _ sub])
  moreover have "\<not> (faults s PRename = [] \<and> look (tree s) p \<noteq> Some Dir)"
    using why steps_faults [OF s1] stepsD(2) [OF s1] p by (auto simp: only_at_def)
  ultimately show ?thesis using steps_trans [OF first] by (simp add: replaced_def)
qed

lemma replaced_idle: "idle s s1 \<Longrightarrow> replaced p bs s1 b s' \<Longrightarrow> replaced p bs s b s'"
proof -
  assume i: "idle s s1" and r: "replaced p bs s1 b s'"
  have "steps R s s'" if "steps R s1 s'" for R
    using that i unfolding steps_def idle_def by (auto intro: calm_trans)
  moreover have "tree s1 = tree s" "faults s q = [] \<Longrightarrow> faults s1 q = []" for q
    using i by (simp_all add: idle_def calm_def)
  ultimately show ?thesis using r unfolding replaced_def by auto
qed

section \<open>The contract of an atomic writer\<close>

locale atomic_writer =
  fixes wr :: "path \<Rightarrow> byte list \<Rightarrow> bool io"
  assumes wp_write: "tree_ok (tree s) \<Longrightarrow> p \<noteq> [] \<Longrightarrow>
      (\<And>b s'. replaced p bs s b s' \<Longrightarrow> Q b s') \<Longrightarrow> wp (wr p bs) Q s"
    and write_succeeds: "healthy s \<Longrightarrow> tree_ok (tree s) \<Longrightarrow> p \<noteq> [] \<Longrightarrow>
      look (tree s) (butlast p) = Some Dir \<Longrightarrow> look (tree s) p \<noteq> Some Dir \<Longrightarrow>
      \<forall>r. look (tree s) (tmp_sibling p r) \<noteq> Some Dir \<Longrightarrow> fst (run_state (wr p bs) s)"
begin

lemma run_write:
  assumes "tree_ok (tree s)" "p \<noteq> []" "run_state (wr p bs) s = (b, s')"
  shows "replaced p bs s b s'"
  using wp_run [OF wp_write [where Q = "replaced p bs s"]] assms by blast

text \<open>Whatever fails, no file but the target and its temporary siblings is touched, and the tree
  stays well formed.\<close>

lemma write_spares:
  assumes "tree_ok (tree s)" "p \<noteq> []" "run_state (wr p bs) s = (b, s')"
  shows "tree_ok (tree s')"
    and "q \<noteq> p \<Longrightarrow> q \<notin> range (tmp_sibling p) \<Longrightarrow> look (tree s') q = look (tree s) q"
    and "calm s s'"
  using run_write [OF assms] assms(1) by (auto simp: replaced_def steps_def touches_def)

lemma write_visible:
  assumes "tree_ok (tree s)" "p \<noteq> []" "look (tree s) p \<noteq> Some Dir"
    and "faults s PClose = []" "faults s PRename = []" "run_state (wr p bs) s = (b, s')"
  shows "look (tree s') p = (if b then Some (File bs) else look (tree s) p)"
    and "\<exists>ts. trace s' = trace s @ ts \<and> (\<forall>t \<in> set ts. look t p = look (tree s) p \<or> look t p = Some (File bs))"
  using run_write [OF assms(1,2,6)] assms(3-5) by (auto simp: replaced_def steps_def touches_def)

lemma write_healthy:
  assumes "healthy s" "tree_ok (tree s)" "p \<noteq> []" "look (tree s) (butlast p) = Some Dir"
    and "look (tree s) p \<noteq> Some Dir" "\<forall>r. look (tree s) (tmp_sibling p r) \<noteq> Some Dir"
    and "run_state (wr p bs) s = (b, s')"
  shows "b" "look (tree s') p = Some (File bs)" "healthy s'"
  using write_visible(1) [OF assms(2,3,5) _ _ assms(7)] write_succeeds [OF assms(1-6), of bs]
    healthy_calm [OF write_spares(3) [OF assms(2,3,7)] assms(1)] assms(1,7)
    by (simp_all add: healthy_faults)

end

lemma wp_write_file_atomic:
  assumes ok: "tree_ok (tree s)" and p: "p \<noteq> []" and Q: "\<And>b s'. replaced p bs s b s' \<Longrightarrow> Q b s'"
  shows "wp (write_file_atomic p bs) Q s"
proof -
  have main: "wp (State_Monad.bind (write_stream (tmp_sibling p r) bs)
      (\<lambda>w. if \<not> w then return_io False else move_into_place (tmp_sibling p r) p)) (replaced p bs s0) s0"
    if "tree_ok (tree s0)" for r s0
    unfolding wp_bind
  proof (rule wp_write_stream [OF that tmp_sibling_nonempty], goal_cases)
    case (1 s1)
    then show ?case using replaced_failed [OF p] by simp
  next
    case (2 s1 c)
    have ok1: "tree_ok (tree s1)" using only_at_ok [OF stepsD(2) [OF 2(1)] that] .
    have "wp (move_into_place (tmp_sibling p r) p) (replaced p bs s0) s1"
      by (rule wp_move_into_place [OF ok1 p 2(2)])
        (blast intro: replaced_moved [OF p 2(1,3)] replaced_copied [OF p 2(1,3)])+
    then show ?case by simp
  qed
  show ?thesis unfolding write_file_atomic_def wp_bind Let_def
  proof (rule wp_random)
    fix r s0 assume i: "idle s s0"
    then have "tree_ok (tree s0)" using ok by (simp add: idle_def)
    from main [OF this, of r]
    have "wp (State_Monad.bind (write_stream (tmp_sibling p r) bs)
      (\<lambda>w. if \<not> w then return_io False else move_into_place (tmp_sibling p r) p)) Q s0"
      by (rule wp_mono) (blast intro: Q replaced_idle [OF i])
    then show "wp (write_stream (tmp_sibling p r) bs)
        (\<lambda>w. wp (if \<not> w then return_io False else move_into_place (tmp_sibling p r) p) Q) s0"
      by (simp only: wp_bind)
  qed
qed

lemma wp_write_file_rename:
  assumes ok: "tree_ok (tree s)" and p: "p \<noteq> []" and Q: "\<And>b s'. replaced p bs s b s' \<Longrightarrow> Q b s'"
  shows "wp (write_file_rename p bs) Q s"
proof -
  have drop: "wp (remove_file (tmp_sibling p r)) (\<lambda>_. replaced p bs s0 False) s1"
    if ok1: "tree_ok (tree s1)" and s1: "steps (only_at (tmp_sibling p r) (tree s0)) s0 s1" for r s0 s1
  proof (rule wp_remove_file)
    show "replaced p bs s0 False s'" if "idle s1 s'" for s'
      using replaced_failed [OF p steps_keep_idle [OF s1 that]] .
    show "replaced p bs s0 False s'" if "children_of (tree s1) (tmp_sibling p r) = []"
      "moved (remove_tree (tmp_sibling p r) (tree s1)) s1 s'" for s'
      using replaced_failed [OF p steps_only_at [OF s1 that(2)]] only_at_remove [OF ok1 _ that(1)] by simp
  qed
  have main: "wp (State_Monad.bind (write_stream (tmp_sibling p r) bs)
      (\<lambda>w. if \<not> w then return_io False
        else State_Monad.bind (rename (tmp_sibling p r) p)
          (\<lambda>ok. if ok then return_io True
             else State_Monad.bind (remove_file (tmp_sibling p r)) (\<lambda>_. return_io False))))
      (replaced p bs s0) s0"
    if "tree_ok (tree s0)" for r s0
    unfolding wp_bind
  proof (rule wp_write_stream [OF that tmp_sibling_nonempty], goal_cases)
    case (1 s1)
    then show ?case using replaced_failed [OF p] by simp
  next
    case (2 s1 c)
    have ok1: "tree_ok (tree s1)" using only_at_ok [OF stepsD(2) [OF 2(1)] that] .
    have "wp (rename (tmp_sibling p r) p)
      (\<lambda>ok. wp (if ok then return_io True
         else State_Monad.bind (remove_file (tmp_sibling p r)) (\<lambda>_. return_io False)) (replaced p bs s0)) s1"
    proof (rule wp_rename, goal_cases)
      case (1 s2)
      have "tree_ok (tree s2)" using ok1 1(2) by (simp add: idle_def)
      from drop [OF this steps_keep_idle [OF 2(1) 1(2)]] show ?case by simp
    next
      case (3 s2)
      from tmp_move [OF ok1 p 2(2) 3(2)] replaced_moved [OF p 2(1,3) steps_moved [OF 3(3)]] 3(3)
      show ?case by (simp add: moved_def)
    qed (use tmp_sibling_neq [OF p] in blast)
    then show ?case by simp
  qed
  show ?thesis unfolding write_file_rename_def wp_bind Let_def
  proof (rule wp_random)
    fix r s0 assume i: "idle s s0"
    then have "tree_ok (tree s0)" using ok by (simp add: idle_def)
    from main [OF this, of r] have "wp (State_Monad.bind (write_stream (tmp_sibling p r) bs)
      (\<lambda>w. if \<not> w then return_io False
        else State_Monad.bind (rename (tmp_sibling p r) p)
          (\<lambda>ok. if ok then return_io True
             else State_Monad.bind (remove_file (tmp_sibling p r)) (\<lambda>_. return_io False)))) Q s0"
      by (rule wp_mono) (blast intro: Q replaced_idle [OF i])
    then show "wp (write_stream (tmp_sibling p r) bs)
        (\<lambda>w. wp (if \<not> w then return_io False
        else State_Monad.bind (rename (tmp_sibling p r) p)
          (\<lambda>ok. if ok then return_io True
             else State_Monad.bind (remove_file (tmp_sibling p r)) (\<lambda>_. return_io False))) Q) s0"
      by (simp only: wp_bind)
  qed
qed

lemma run_random: "\<exists>r s0. run_state random s = (r, s0) \<and> tree s0 = tree s \<and> trace s0 = trace s \<and> faults s0 = faults s"
  by (auto simp: random_def split: list.split)

lemma run_write_stream:
  assumes "healthy s" "writable_at (tree s) t"
  shows "\<exists>s'. run_state (write_stream t bs) s = (True, s') \<and> healthy s'
    \<and> look (tree s') t = Some (File bs) \<and> (\<forall>q. q \<noteq> t \<longrightarrow> look (tree s') q = look (tree s) q)
    \<and> (tree_ok (tree s) \<longrightarrow> tree_ok (tree s'))"
proof -
  have "is_file (AList.update t (File []) (tree s)) t" by (simp add: is_file_def)
  then show ?thesis
    using assms by (auto simp: write_stream_def writable_at_def intro!: tree_ok_update)
qed

lemma tmp_writable:
  "look m (butlast p) = Some Dir \<Longrightarrow> \<forall>r. look m (tmp_sibling p r) \<noteq> Some Dir \<Longrightarrow>
     writable_at m (tmp_sibling p r)"
  by (simp add: writable_at_def)

lemma run_write_then_rename:
  assumes "healthy s" "tree_ok (tree s)" "p \<noteq> []"
    and "look (tree s) (butlast p) = Some Dir" "look (tree s) p \<noteq> Some Dir"
    and "\<forall>r. look (tree s) (tmp_sibling p r) \<noteq> Some Dir"
  shows "\<exists>s'. run_state (write_stream (tmp_sibling p r) bs) s = (True, s')
    \<and> fst (run_state (rename (tmp_sibling p r) p) s')"
proof -
  from run_write_stream [OF assms(1) tmp_writable [OF assms(4,6)], of r bs] obtain s' where
    s': "run_state (write_stream (tmp_sibling p r) bs) s = (True, s')" "healthy s'"
      "look (tree s') (tmp_sibling p r) = Some (File bs)" "tree_ok (tree s')"
      "look (tree s') p = look (tree s) p" using assms(2) tmp_sibling_neq [OF assms(3)] by auto
  then show ?thesis using may_rename_tmp [OF s'(4) assms(3) s'(3)] assms(5) by auto
qed

lemma write_file_atomic_succeeds:
  assumes "healthy s" "tree_ok (tree s)" "p \<noteq> []"
    and "look (tree s) (butlast p) = Some Dir" "look (tree s) p \<noteq> Some Dir"
    and "\<forall>r. look (tree s) (tmp_sibling p r) \<noteq> Some Dir"
  shows "fst (run_state (write_file_atomic p bs) s)" "fst (run_state (write_file_rename p bs) s)"
proof -
  obtain r s0 where r: "run_state random s = (r, s0)" "tree s0 = tree s" "faults s0 = faults s"
    using run_random [of s] by blast
  then have h: "healthy s0" using assms(1) by (simp add: healthy_def)
  obtain s' where s': "run_state (write_stream (tmp_sibling p r) bs) s0 = (True, s')"
    "fst (run_state (rename (tmp_sibling p r) p) s')"
    using run_write_then_rename [OF h, of p r bs] assms r(2) by auto
  obtain s2 where s2: "run_state (rename (tmp_sibling p r) p) s' = (True, s2)"
    using s'(2) by (metis (full_types) prod.collapse)
  show "fst (run_state (write_file_atomic p bs) s)"
    by (simp add: write_file_atomic_def move_into_place_def Let_def r(1) s'(1) s2 del: run_rename)
  show "fst (run_state (write_file_rename p bs) s)"
    by (simp add: write_file_rename_def Let_def r(1) s'(1) s2 del: run_rename)
qed

interpretation copying: atomic_writer write_file_atomic
  by unfold_locales (rule wp_write_file_atomic, assumption+, rule write_file_atomic_succeeds)

interpretation renaming: atomic_writer write_file_rename
  by unfold_locales (rule wp_write_file_rename, assumption+, rule write_file_atomic_succeeds)

text \<open>When the target is a directory, nothing is written, and yet the writer reports success.\<close>

lemma write_file_atomic_onto_directory:
  assumes "healthy s" "tree_ok (tree s)" "p \<noteq> []" "look (tree s) p = Some Dir"
    and "\<forall>r. look (tree s) (tmp_sibling p r) \<noteq> Some Dir"
  shows "\<exists>s'. run_state (write_file_atomic p bs) s = (True, s') \<and> look (tree s') p = Some Dir"
proof -
  obtain r s0 where r: "run_state random s = (r, s0)" "tree s0 = tree s" "faults s0 = faults s"
    using run_random [of s] by blast
  then have h: "healthy s0" using assms(1) by (simp add: healthy_def)
  have par: "look (tree s) (butlast p) = Some Dir"
    using tree_ok_parent [OF assms(2), of "butlast p" "last p"] assms(3,4) by simp
  from run_write_stream [OF h, of "tmp_sibling p r" bs] tmp_writable [OF par assms(5)] r(2)
  obtain s1 where s1: "run_state (write_stream (tmp_sibling p r) bs) s0 = (True, s1)" "healthy s1"
      "look (tree s1) (tmp_sibling p r) = Some (File bs)" "tree_ok (tree s1)"
      "look (tree s1) p = Some Dir"
    using assms(2,4) tmp_sibling_neq [OF assms(3)] by auto
  have "\<not> may_rename (tree s1) (tmp_sibling p r) p" "\<not> writable_at (tree s1) p"
    using may_rename_tmp [OF s1(4) assms(3) s1(3)] s1(5) by (simp_all add: writable_at_def)
  moreover have "children_of (tree s1) (tmp_sibling p r) = []"
    using tree_ok_no_children [OF s1(4,3)] .
  moreover have "\<not> prefix (tmp_sibling p r) p"
    using tmp_sibling_neq(1) [OF assms(3), of r] length_tmp_sibling [OF assms(3), of r]
    by (metis append_Nil2 append_eq_append_conv prefixE)
  ultimately have m: "run_state (move_into_place (tmp_sibling p r) p) s1
      = (True, set_tree (remove_tree (tmp_sibling p r) (tree s1)) s1)"
    using s1(2,3) by (simp add: move_into_place_def)
  have "look (remove_tree (tmp_sibling p r) (tree s1)) p = Some Dir"
    using s1(5) \<open>\<not> prefix (tmp_sibling p r) p\<close> by simp
  moreover have "run_state (write_file_atomic p bs) s
      = (True, set_tree (remove_tree (tmp_sibling p r) (tree s1)) s1)"
    by (simp add: write_file_atomic_def Let_def r(1) s1(1) m)
  ultimately show ?thesis by simp
qed

end
