(* ===== verification/Sha256.thy ===== *)
theory Sha256
  imports Prelude
begin

unbundle bit_operations_syntax

text \<open>
  The in-tree SHA-256 of src/pipeline/cache.cpp: the class \<open>Sha256\<close> with its streaming
  \<open>update\<close>, its padding \<open>finalize\<close> and the compression function, over 32-bit words.  The
  reference digest pads a whole message at once; the streaming object computes it whatever the
  chunking.  The locale \<open>streaming_hash\<close> is the contract the callers rely on.
\<close>

section \<open>Constants and the compression function\<close>

definition kK :: "u32 list" where
  "kK = concat [
    [0x428a2f98, 0x71374491, 0xb5c0fbcf, 0xe9b5dba5, 0x3956c25b, 0x59f111f1, 0x923f82a4, 0xab1c5ed5],
    [0xd807aa98, 0x12835b01, 0x243185be, 0x550c7dc3, 0x72be5d74, 0x80deb1fe, 0x9bdc06a7, 0xc19bf174],
    [0xe49b69c1, 0xefbe4786, 0x0fc19dc6, 0x240ca1cc, 0x2de92c6f, 0x4a7484aa, 0x5cb0a9dc, 0x76f988da],
    [0x983e5152, 0xa831c66d, 0xb00327c8, 0xbf597fc7, 0xc6e00bf3, 0xd5a79147, 0x06ca6351, 0x14292967],
    [0x27b70a85, 0x2e1b2138, 0x4d2c6dfc, 0x53380d13, 0x650a7354, 0x766a0abb, 0x81c2c92e, 0x92722c85],
    [0xa2bfe8a1, 0xa81a664b, 0xc24b8b70, 0xc76c51a3, 0xd192e819, 0xd6990624, 0xf40e3585, 0x106aa070],
    [0x19a4c116, 0x1e376c08, 0x2748774c, 0x34b0bcb5, 0x391c0cb3, 0x4ed8aa4a, 0x5b9cca4f, 0x682e6ff3],
    [0x748f82ee, 0x78a5636f, 0x84c87814, 0x8cc70208, 0x90befffa, 0xa4506ceb, 0xbef9a3f7, 0xc67178f2]]"

definition kInitH :: "u32 list" where
  "kInitH = [0x6a09e667, 0xbb67ae85, 0x3c6ef372, 0xa54ff53a,
             0x510e527f, 0x9b05688c, 0x1f83d9ab, 0x5be0cd19]"

definition rotr32 :: "u32 \<Rightarrow> nat \<Rightarrow> u32" where
  "rotr32 x n = drop_bit n x OR push_bit (32 - n) x"

definition be_word :: "byte list \<Rightarrow> nat \<Rightarrow> u32" where
  "be_word block i =
     push_bit 24 (ucast (block ! (i * 4 + 0))) OR push_bit 16 (ucast (block ! (i * 4 + 1)))
       OR push_bit 8 (ucast (block ! (i * 4 + 2))) OR ucast (block ! (i * 4 + 3))"

definition schedule_step :: "u32 list \<Rightarrow> nat \<Rightarrow> u32 list" where
  "schedule_step w i =
     (let s0 = rotr32 (w ! (i - 15)) 7 XOR rotr32 (w ! (i - 15)) 18 XOR drop_bit 3 (w ! (i - 15));
          s1 = rotr32 (w ! (i - 2)) 17 XOR rotr32 (w ! (i - 2)) 19 XOR drop_bit 10 (w ! (i - 2))
      in w @ [w ! (i - 16) + s0 + w ! (i - 7) + s1])"

definition message_schedule :: "byte list \<Rightarrow> u32 list" where
  "message_schedule block = foldl schedule_step (map (be_word block) [0..<16]) [16..<64]"

type_synonym working = "u32 \<times> u32 \<times> u32 \<times> u32 \<times> u32 \<times> u32 \<times> u32 \<times> u32"

definition round_step :: "u32 list \<Rightarrow> working \<Rightarrow> nat \<Rightarrow> working" where
  "round_step w v i =
     (case v of (a, b, c, d, e, f, g, hh) \<Rightarrow>
        let S1 = rotr32 e 6 XOR rotr32 e 11 XOR rotr32 e 25;
            ch = (e AND f) XOR (NOT e AND g);
            temp1 = hh + S1 + ch + kK ! i + w ! i;
            S0 = rotr32 a 2 XOR rotr32 a 13 XOR rotr32 a 22;
            maj = (a AND b) XOR (a AND c) XOR (b AND c);
            temp2 = S0 + maj
        in (temp1 + temp2, a, b, c, d + temp1, e, f, g))"

definition compress :: "u32 list \<Rightarrow> byte list \<Rightarrow> u32 list" where
  "compress h block =
     (let w = message_schedule block
      in case foldl (round_step w)
            (h ! 0, h ! 1, h ! 2, h ! 3, h ! 4, h ! 5, h ! 6, h ! 7) [0..<64] of
          (a, b, c, d, e, f, g, hh) \<Rightarrow>
            [h ! 0 + a, h ! 1 + b, h ! 2 + c, h ! 3 + d,
             h ! 4 + e, h ! 5 + f, h ! 6 + g, h ! 7 + hh])"

section \<open>The streaming object\<close>

text \<open>
  The members of the class.  \<open>buf_\<close> is the whole 64-byte array: bytes past \<open>buf_len\<close> are
  left over from earlier blocks, and \<open>finalize\<close> overwrites them.
\<close>

record sha256 =
  sha_h :: "u32 list"
  sha_buf :: "byte list"
  sha_buf_len :: nat
  sha_bit_count :: u64

definition sha_init :: sha256 where
  "sha_init = \<lparr>sha_h = kInitH, sha_buf = replicate 64 0, sha_buf_len = 0, sha_bit_count = 0\<rparr>"

text \<open>\<open>memcpy (buf + at, src)\<close> and \<open>memset (buf + at, 0, n)\<close>.\<close>

definition memcpy_at :: "byte list \<Rightarrow> nat \<Rightarrow> byte list \<Rightarrow> byte list" where
  "memcpy_at buf at src = take at buf @ src @ drop (at + length src) buf"

definition memset0_at :: "byte list \<Rightarrow> nat \<Rightarrow> nat \<Rightarrow> byte list" where
  "memset0_at buf at n = memcpy_at buf at (replicate n 0)"

text \<open>
  The loop of \<open>update\<close>.  The class keeps \<open>buf_len_ < 64\<close> between calls; the second
  disjunct of the guard only makes the function total outside that invariant.
\<close>

function update_loop :: "sha256 \<Rightarrow> byte list \<Rightarrow> sha256" where
  "update_loop s p =
     (if p = [] \<or> 64 \<le> sha_buf_len s then s
      else let n = min (64 - sha_buf_len s) (length p);
               buf = memcpy_at (sha_buf s) (sha_buf_len s) (take n p);
               len = sha_buf_len s + n
           in if len = 64
              then update_loop (s\<lparr>sha_h := compress (sha_h s) buf, sha_buf := buf, sha_buf_len := 0\<rparr>)
                     (drop n p)
              else update_loop (s\<lparr>sha_buf := buf, sha_buf_len := len\<rparr>) (drop n p))"
  by pat_completeness auto
termination
  by (relation "measure (\<lambda>(s, p). length p)") auto

declare update_loop.simps [simp del]

definition update :: "sha256 \<Rightarrow> byte list \<Rightarrow> sha256" where
  "update s p =
     update_loop (s\<lparr>sha_bit_count := sha_bit_count s + word_of_nat (length p) * 8\<rparr>) p"

text \<open>The eight big-endian bytes of the bit count, and the big-endian bytes of a state word.\<close>

definition be64 :: "u64 \<Rightarrow> byte list" where
  "be64 v = map (\<lambda>i. ucast (drop_bit (8 * (7 - i)) v)) [0..<8]"

definition be32 :: "u32 \<Rightarrow> byte list" where
  "be32 v = map (\<lambda>i. ucast (drop_bit (8 * (3 - i)) v)) [0..<4]"

definition finalize :: "sha256 \<Rightarrow> byte list" where
  "finalize s =
     (let buf = (sha_buf s)[sha_buf_len s := 0x80];
          len = sha_buf_len s + 1;
          (h, buf, len) =
            (if 56 < len
             then (let buf' = memset0_at buf len (64 - len) in (compress (sha_h s) buf', buf', 0))
             else (sha_h s, buf, len));
          buf = memset0_at buf len (56 - len);
          buf = memcpy_at buf 56 (be64 (sha_bit_count s));
          h = compress h buf
      in concat (map be32 h))"

section \<open>The reference digest\<close>

function absorb :: "u32 list \<Rightarrow> byte list \<Rightarrow> u32 list" where
  "absorb h d = (if length d < 64 then h else absorb (compress h (take 64 d)) (drop 64 d))"
  by pat_completeness auto
termination
  by (relation "measure (\<lambda>(h, d). length d)") auto

declare absorb.simps [simp del]

definition padding :: "nat \<Rightarrow> byte list" where
  "padding n = 0x80 # replicate ((119 - n mod 64) mod 64) 0 @ be64 (word_of_nat (8 * n))"

definition sha256_digest :: "byte list \<Rightarrow> byte list" where
  "sha256_digest m = concat (map be32 (absorb kInitH (m @ padding (length m))))"

section \<open>Rotation\<close>

lemma bit_rotr32:
  assumes "0 < n" "n < 32"
  shows "bit (rotr32 x n) i \<longleftrightarrow> i < 32 \<and> bit x ((i + n) mod 32)"
proof (cases "i < 32")
  case True
  show ?thesis
  proof (cases "i + n < 32")
    case True
    then show ?thesis using assms
      by (auto simp: rotr32_def bit_or_iff bit_drop_bit_eq bit_push_bit_iff add.commute)
  next
    case False
    have m: "(i + n) mod 32 = i + n - 32" using False True assms by (simp add: mod_if)
    show ?thesis using False True assms
      by (auto simp: m rotr32_def bit_or_iff bit_drop_bit_eq bit_push_bit_iff add.commute
          dest: bit_imp_le_length)
  qed
next
  case False
  then show ?thesis by (auto dest: bit_imp_le_length)
qed

section \<open>Absorbing whole blocks\<close>

lemma absorb_short: "length d < 64 \<Longrightarrow> absorb h d = h"
  by (subst absorb.simps) simp

lemma absorb_block: "length b = 64 \<Longrightarrow> absorb h (b @ d) = absorb (compress h b) d"
  by (subst absorb.simps) simp

lemma absorb_append:
  "64 dvd length a \<Longrightarrow> absorb h (a @ b) = absorb (absorb h a) b"
proof (induction h a rule: absorb.induct)
  case (1 h d)
  show ?case
  proof (cases "length d < 64")
    case True
    then have "d = []" using "1.prems" by (auto dest: dvd_imp_le)
    then show ?thesis by (simp add: absorb_short)
  next
    case False
    then have "64 dvd length (drop 64 d)" using "1.prems" by (simp add: dvd_diff_nat)
    then have "absorb (compress h (take 64 d)) (drop 64 d @ b)
                 = absorb (absorb (compress h (take 64 d)) (drop 64 d)) b"
      using "1.IH" False by simp
    then show ?thesis
      using False by (simp add: absorb.simps [of h "d @ b"] absorb.simps [of h d])
  qed
qed

section \<open>What the streaming object has absorbed\<close>

definition buffered :: "sha256 \<Rightarrow> byte list \<Rightarrow> bool" where
  "buffered s d \<longleftrightarrow>
     length (sha_buf s) = 64 \<and> sha_buf_len s < 64 \<and>
     (\<exists>a r. d = a @ r \<and> 64 dvd length a \<and> sha_h s = absorb kInitH a \<and>
        length r = sha_buf_len s \<and> take (sha_buf_len s) (sha_buf s) = r)"

lemma bufferedI:
  assumes "length (sha_buf s) = 64" "sha_buf_len s < 64" "d = a @ r" "64 dvd length a"
    and "sha_h s = absorb kInitH a" "length r = sha_buf_len s"
    and "take (sha_buf_len s) (sha_buf s) = r"
  shows "buffered s d"
  using assms unfolding buffered_def by blast

definition absorbed :: "sha256 \<Rightarrow> byte list \<Rightarrow> bool" where
  "absorbed s d \<longleftrightarrow> buffered s d \<and> sha_bit_count s = word_of_nat (8 * length d)"

lemma length_memcpy_at:
  "at + length src \<le> length buf \<Longrightarrow> length (memcpy_at buf at src) = length buf"
  by (simp add: memcpy_at_def)

lemma take_memcpy_at:
  "at + length src \<le> length buf \<Longrightarrow>
     take (at + length src) (memcpy_at buf at src) = take at buf @ src"
  by (simp add: memcpy_at_def)

lemma update_loop_buffered:
  "buffered s d \<Longrightarrow> buffered (update_loop s p) (d @ p)"
proof (induction s p arbitrary: d rule: update_loop.induct)
  case (1 s p)
  from "1.prems" obtain a r where d: "d = a @ r" and da: "64 dvd length a"
    and h: "sha_h s = absorb kInitH a" and lr: "length r = sha_buf_len s"
    and r: "take (sha_buf_len s) (sha_buf s) = r"
    and lb: "length (sha_buf s) = 64" and bl: "sha_buf_len s < 64"
    unfolding buffered_def by blast
  show ?case
  proof (cases "p = []")
    case True
    then show ?thesis using "1.prems" by (simp add: update_loop.simps [of s])
  next
    case False
    define n where "n = min (64 - sha_buf_len s) (length p)"
    define buf where "buf = memcpy_at (sha_buf s) (sha_buf_len s) (take n p)"
    have fits: "sha_buf_len s + length (take n p) \<le> length (sha_buf s)"
      and ln: "length (take n p) = n" using bl lb by (auto simp: n_def)
    have lbuf: "length buf = 64" unfolding buf_def using fits lb by (simp add: length_memcpy_at)
    have tbuf: "take (sha_buf_len s + n) buf = r @ take n p"
      using take_memcpy_at [OF fits] unfolding buf_def ln r by simp
    show ?thesis
    proof (cases "sha_buf_len s + n = 64")
      case True
      define s' where "s' = s\<lparr>sha_h := compress (sha_h s) buf, sha_buf := buf, sha_buf_len := 0\<rparr>"
      have full: "buf = r @ take n p" using tbuf True lbuf by simp
      have hs: "sha_h s' = absorb kInitH (a @ buf)"
        using absorb_append [OF da, of kInitH buf] absorb_block [OF lbuf, of _ "[]"]
        by (simp add: s'_def h absorb_short)
      have "buffered s' (d @ take n p)"
        by (rule bufferedI [of _ _ "a @ buf" "[]", OF _ _ _ _ hs])
          (use da lbuf full in \<open>simp_all add: s'_def d\<close>)
      then have "buffered (update_loop s' (drop n p)) ((d @ take n p) @ drop n p)"
        unfolding s'_def using False bl True
        by (intro "1.IH"(1) [OF _ n_def buf_def refl]) simp_all
      then show ?thesis
        using False bl True unfolding update_loop.simps [of s p]
        by (simp only: Let_def n_def [symmetric] buf_def [symmetric] s'_def [symmetric]) simp
    next
      case neq: False
      define s' where "s' = s\<lparr>sha_buf := buf, sha_buf_len := sha_buf_len s + n\<rparr>"
      have "sha_buf_len s + n < 64" using neq bl by (auto simp: n_def)
      then have "buffered s' (d @ take n p)"
        by (intro bufferedI [of _ _ a "r @ take n p"])
          (use da lbuf tbuf ln lr in \<open>simp_all add: s'_def d h del: length_take\<close>)
      then have "buffered (update_loop s' (drop n p)) ((d @ take n p) @ drop n p)"
        unfolding s'_def using False bl neq
        by (intro "1.IH"(2) [OF _ n_def buf_def refl]) simp_all
      then show ?thesis
        using False bl neq unfolding update_loop.simps [of s p]
        by (simp only: Let_def n_def [symmetric] buf_def [symmetric] s'_def [symmetric]) simp
    qed
  qed
qed

lemma update_loop_bit_count [simp]: "sha_bit_count (update_loop s p) = sha_bit_count s"
proof (induction s p rule: update_loop.induct)
  case (1 s p)
  show ?case
    using "1.IH" by (cases "p = [] \<or> 64 \<le> sha_buf_len s")
      (simp_all add: update_loop.simps [of s p] Let_def)
qed

lemma absorbed_init: "absorbed sha_init []"
  by (simp add: absorbed_def buffered_def sha_init_def absorb_short)

lemma buffered_bit_count [simp]: "buffered (s\<lparr>sha_bit_count := n\<rparr>) d = buffered s d"
  by (simp add: buffered_def)

lemma absorbed_update: "absorbed s d \<Longrightarrow> absorbed (update s p) (d @ p)"
  unfolding absorbed_def update_def by (simp add: update_loop_buffered distrib_left)

section \<open>Padding\<close>

lemma length_be64 [simp]: "length (be64 v) = 8"
  by (simp add: be64_def)

lemma take_Suc_list_update:
  "n < length b \<Longrightarrow> take (Suc n) (b[n := x]) = take n b @ [x]"
  by (simp add: take_Suc_conv_app_nth)

lemma length_memset0_at [simp]:
  "at + n \<le> length buf \<Longrightarrow> length (memset0_at buf at n) = length buf"
  by (simp add: memset0_at_def length_memcpy_at)

lemma take_memset0_at:
  "at + n \<le> length buf \<Longrightarrow>
     take (at + n) (memset0_at buf at n) = take at buf @ replicate n 0"
  using take_memcpy_at [of at "replicate n 0" buf] by (simp add: memset0_at_def)

text \<open>The last eight bytes of a padded block.\<close>

lemma seal_block:
  assumes "length b = 64"
  shows "memcpy_at b 56 (be64 v) = take 56 b @ be64 v"
  using assms by (simp add: memcpy_at_def)

lemma finalize_absorbed:
  assumes "absorbed s m"
  shows "finalize s = sha256_digest m"
proof -
  obtain a r where m: "m = a @ r" and da: "64 dvd length a" and h: "sha_h s = absorb kInitH a"
    and lr: "length r = sha_buf_len s" and r: "take (sha_buf_len s) (sha_buf s) = r"
    and lb: "length (sha_buf s) = 64" and bl: "sha_buf_len s < 64"
    and bc: "sha_bit_count s = word_of_nat (8 * length m)"
    using assms unfolding absorbed_def buffered_def by blast
  let ?n = "sha_buf_len s" and ?b = "be64 (word_of_nat (8 * length m))"
  define b1 where "b1 = (sha_buf s)[?n := 0x80]"
  have lb1: "length b1 = 64" using lb by (simp add: b1_def)
  have t1: "take (?n + 1) b1 = r @ [0x80]"
    using take_Suc_list_update [of ?n "sha_buf s"] bl lb r by (simp add: b1_def)
  have pad: "padding (length m) = 0x80 # replicate ((119 - ?n) mod 64) 0 @ ?b"
    using da bl by (auto simp: padding_def m lr mod_add_eq [symmetric] elim!: dvdE)
  have dig: "sha256_digest m = concat (map be32 (absorb (sha_h s) (r @ padding (length m))))"
    by (simp add: sha256_digest_def m h absorb_append [OF da])
  show ?thesis
  proof (cases "56 < ?n + 1")
    case False
    define b2 where "b2 = memset0_at b1 (?n + 1) (56 - (?n + 1))"
    have eq: "take 56 b2 = r @ [0x80] @ replicate (55 - ?n) 0"
      using take_memset0_at [of "?n + 1" "56 - (?n + 1)" b1] t1 False lb1 by (simp add: b2_def)
    have lb2: "length b2 = 64" using False lb1 by (simp add: b2_def)
    have "(119 - ?n) mod 64 = 55 - ?n" using False by (simp add: mod_if)
    then have blk: "r @ padding (length m) = memcpy_at b2 56 ?b"
      using pad eq seal_block [OF lb2] by simp
    have "absorb (sha_h s) (memcpy_at b2 56 ?b) = compress (sha_h s) (memcpy_at b2 56 ?b)"
      using absorb_block [of "memcpy_at b2 56 ?b" "sha_h s" "[]"] lb2
      by (simp add: length_memcpy_at absorb_short)
    then show ?thesis
      using False unfolding dig blk by (simp add: finalize_def Let_def bc b2_def b1_def)
  next
    case True
    define b2 where "b2 = memset0_at b1 (?n + 1) (64 - (?n + 1))"
    define b3 where "b3 = memset0_at b2 0 56"
    have lb2: "length b2 = 64" using bl lb1 by (simp add: b2_def)
    have lb3: "length b3 = 64" using lb2 by (simp add: b3_def)
    have e2: "b2 = r @ [0x80] @ replicate (63 - ?n) 0"
      using take_memset0_at [of "?n + 1" "64 - (?n + 1)" b1] t1 bl lb1 lb2 by (simp add: b2_def)
    have e3: "take 56 b3 = replicate 56 0"
      using take_memset0_at [of 0 56 b2] lb2 by (simp add: b3_def)
    have "(119 - ?n) mod 64 = (63 - ?n) + 56" using True bl by (simp add: mod_if)
    then have blk: "r @ padding (length m) = b2 @ memcpy_at b3 56 ?b"
      using pad e2 e3 seal_block [OF lb3] by (simp only: replicate_add append_assoc append_Cons)
        simp
    have "absorb (sha_h s) (b2 @ memcpy_at b3 56 ?b)
            = compress (compress (sha_h s) b2) (memcpy_at b3 56 ?b)"
      using absorb_block [OF lb2] absorb_block [of "memcpy_at b3 56 ?b" _ "[]"] lb3
      by (simp add: length_memcpy_at absorb_short)
    then show ?thesis
      using True unfolding dig blk by (simp add: finalize_def Let_def bc b3_def b2_def b1_def)
  qed
qed

section \<open>The contract of a streaming hash\<close>

text \<open>
  What the callers use: an object that starts empty, absorbs chunks, and whose \<open>finalize\<close>
  is a function of the concatenation of what it absorbed.
\<close>

locale streaming_hash =
  fixes start :: 's
    and feed :: "'s \<Rightarrow> 'b list \<Rightarrow> 's"
    and finish :: "'s \<Rightarrow> 'd"
    and holds :: "'s \<Rightarrow> 'b list \<Rightarrow> bool"
    and digest :: "'b list \<Rightarrow> 'd"
  assumes holds_start: "holds start []"
    and holds_feed: "holds s d \<Longrightarrow> holds (feed s p) (d @ p)"
    and finish_holds: "holds s d \<Longrightarrow> finish s = digest d"
begin

lemma holds_foldl: "holds s d \<Longrightarrow> holds (foldl feed s ps) (d @ concat ps)"
proof (induction ps arbitrary: s d)
  case (Cons p ps)
  from Cons.IH [OF holds_feed [OF Cons.prems]] show ?case by simp
qed simp

lemma finish_foldl: "finish (foldl feed start ps) = digest (concat ps)"
  using finish_holds [OF holds_foldl [OF holds_start]] by simp

lemma chunking_irrelevant:
  "concat ps = concat qs \<Longrightarrow> finish (foldl feed start ps) = finish (foldl feed start qs)"
  by (simp add: finish_foldl)

end

interpretation sha: streaming_hash sha_init update finalize absorbed sha256_digest
  by unfold_locales (fact absorbed_init absorbed_update finalize_absorbed)+

lemma length_concat_be32: "length (concat (map be32 ws)) = 4 * length ws"
  by (induction ws) (simp_all add: be32_def)

lemma length_compress [simp]: "length (compress h b) = 8"
  by (simp add: compress_def Let_def split: prod.split)

lemma length_absorb [simp]: "length h = 8 \<Longrightarrow> length (absorb h d) = 8"
proof (induction h d rule: absorb.induct)
  case (1 h d)
  then show ?case by (subst absorb.simps) simp
qed

lemma length_sha256_digest [simp]: "length (sha256_digest m) = 32"
  by (simp add: sha256_digest_def length_concat_be32 kInitH_def)


end
