(* ===== verification/Content_Hash.thy ===== *)
theory Content_Hash
  imports Value Sha256 "HOL-Library.AList"
begin

text \<open>
  Content addressing of stage outputs (src/pipeline/cache.cpp,
  include/souxmar/pipeline/cache.h): the canonical byte encoding of a \<open>Value\<close> tree that
  \<open>hash_value\<close> feeds to SHA-256, \<open>hash_inputs\<close>, \<open>hash_file\<close>, the hash's hexadecimal
  form, and the in-memory \<open>Cache\<close>.
\<close>

section \<open>Content hashes\<close>

text \<open>A \<open>ContentHash\<close> is its array of 32 bytes.\<close>

type_synonym hash = "byte list"

definition hash_ok :: "hash \<Rightarrow> bool" where
  "hash_ok h = (length h = 32)"

definition empty_hash :: hash where
  "empty_hash = replicate 32 0"

text \<open>The seeding constructor \<open>ContentHash(std::uint64_t)\<close>.\<close>

definition seed_hash :: "u64 \<Rightarrow> hash" where
  "seed_hash seed = map (\<lambda>i. ucast (drop_bit (8 * (7 - i)) seed)) [0..<8] @ replicate 24 0"

definition kHex :: string where
  "kHex = ''0123456789abcdef''"

definition hex_digit :: "nat \<Rightarrow> char" where
  "hex_digit n = kHex ! n"

definition hex_byte :: "byte \<Rightarrow> string" where
  "hex_byte b = [hex_digit (unat b div 16), hex_digit (unat b mod 16)]"

definition hash_hex :: "hash \<Rightarrow> string" where
  "hash_hex h = concat (map hex_byte h)"

lemma hash_ok_empty [simp]: "hash_ok empty_hash"
  by (simp add: hash_ok_def empty_hash_def)

lemma hash_ok_seed [simp]: "hash_ok (seed_hash n)"
  by (simp add: hash_ok_def seed_hash_def)

section \<open>Feeding a value tree\<close>

definition le64 :: "u64 \<Rightarrow> byte list" where
  "le64 v = map (\<lambda>i. ucast (drop_bit (8 * i) v)) [0..<8]"

definition feed_u64 :: "sha256 \<Rightarrow> u64 \<Rightarrow> sha256" where
  "feed_u64 sh v = update sh (le64 v)"

definition feed_str :: "sha256 \<Rightarrow> string \<Rightarrow> sha256" where
  "feed_str sh s =
     (let sh = feed_u64 sh (word_of_nat (length s))
      in if s \<noteq> [] then update sh (bytes_of s) else sh)"

type_synonym upstream = "(string \<times> hash) list"

text \<open>The first entry of \<open>upstream\<close> for the id, all ones if there is none.\<close>

fun resolve :: "upstream \<Rightarrow> string \<Rightarrow> hash" where
  "resolve [] i = replicate 32 0xFF"
| "resolve ((j, h) # up) i = (if j = i then h else resolve up i)"

text \<open>A double is fed as its eight raw bytes, little-endian on every supported host.\<close>

fun hash_value :: "sha256 \<Rightarrow> pvalue \<Rightarrow> upstream \<Rightarrow> sha256"
  and hash_items :: "sha256 \<Rightarrow> pvalue list \<Rightarrow> upstream \<Rightarrow> sha256"
  and hash_fields :: "sha256 \<Rightarrow> (string \<times> pvalue) list \<Rightarrow> upstream \<Rightarrow> sha256" where
  "hash_value sh Null up = update sh [kind_code KNull]"
| "hash_value sh (Boolean b) up =
     (let sh = update sh [kind_code KBool] in update sh [if b then 1 else 0])"
| "hash_value sh (Number d) up =
     (let sh = update sh [kind_code KNumber] in update sh (le64 d))"
| "hash_value sh (String s) up =
     (let sh = update sh [kind_code KString] in feed_str sh s)"
| "hash_value sh (Stage_ref i) up =
     (let sh = update sh [kind_code KStage]; sh = feed_str sh i in update sh (resolve up i))"
| "hash_value sh (VList xs) up =
     (let sh = update sh [kind_code KList]; sh = feed_u64 sh (word_of_nat (length xs))
      in hash_items sh xs up)"
| "hash_value sh (VMap m) up =
     (let sh = update sh [kind_code KMap]; sh = feed_u64 sh (word_of_nat (length m))
      in hash_fields sh m up)"
| "hash_items sh [] up = sh"
| "hash_items sh (x # xs) up = hash_items (hash_value sh x up) xs up"
| "hash_fields sh [] up = sh"
| "hash_fields sh ((k, x) # m) up = hash_fields (hash_value (feed_str sh k) x up) m up"

definition hash_inputs :: "string \<Rightarrow> pvalue \<Rightarrow> upstream \<Rightarrow> hash" where
  "hash_inputs context inputs up = finalize (hash_value (feed_str sha_init context) inputs up)"

section \<open>The canonical encoding\<close>

definition encode_str :: "string \<Rightarrow> byte list" where
  "encode_str s = le64 (word_of_nat (length s)) @ bytes_of s"

fun encode :: "upstream \<Rightarrow> pvalue \<Rightarrow> byte list"
  and encode_items :: "upstream \<Rightarrow> pvalue list \<Rightarrow> byte list"
  and encode_fields :: "upstream \<Rightarrow> (string \<times> pvalue) list \<Rightarrow> byte list" where
  "encode up Null = [kind_code KNull]"
| "encode up (Boolean b) = [kind_code KBool, if b then 1 else 0]"
| "encode up (Number d) = kind_code KNumber # le64 d"
| "encode up (String s) = kind_code KString # encode_str s"
| "encode up (Stage_ref i) = kind_code KStage # encode_str i @ resolve up i"
| "encode up (VList xs) = kind_code KList # le64 (word_of_nat (length xs)) @ encode_items up xs"
| "encode up (VMap m) = kind_code KMap # le64 (word_of_nat (length m)) @ encode_fields up m"
| "encode_items up [] = []"
| "encode_items up (x # xs) = encode up x @ encode_items up xs"
| "encode_fields up [] = []"
| "encode_fields up ((k, x) # m) = encode_str k @ encode up x @ encode_fields up m"

definition key_message :: "string \<Rightarrow> pvalue \<Rightarrow> upstream \<Rightarrow> byte list" where
  "key_message context inputs up = encode_str context @ encode up inputs"

lemma absorbed_feed_str: "absorbed s d \<Longrightarrow> absorbed (feed_str s x) (d @ encode_str x)"
proof (cases "x = []")
  case True
  assume "absorbed s d"
  with sha.holds_feed [of s d "le64 0"] show ?thesis
    by (simp add: feed_str_def feed_u64_def encode_str_def bytes_of_def True Let_def)
next
  case False
  assume "absorbed s d"
  then have "absorbed (update s (le64 (word_of_nat (length x))))
      (d @ le64 (word_of_nat (length x)))" by (rule sha.holds_feed)
  from sha.holds_feed [OF this, of "bytes_of x"] False show ?thesis
    by (simp add: feed_str_def feed_u64_def encode_str_def Let_def)
qed

lemma absorbed_update_append:
  "absorbed s d \<Longrightarrow> e = d @ p \<Longrightarrow> absorbed (update s p) e"
  by (simp add: sha.holds_feed)

lemma absorbed_hash_value:
  "absorbed s d \<Longrightarrow> absorbed (hash_value s v up) (d @ encode up v)"
  "absorbed s d \<Longrightarrow> absorbed (hash_items s xs up) (d @ encode_items up xs)"
  "absorbed s d \<Longrightarrow> absorbed (hash_fields s m up) (d @ encode_fields up m)"
proof (induction s v up and s xs up and s m up arbitrary: d and d and d
    rule: hash_value_hash_items_hash_fields.induct)
  case (2 sh b up)
  from absorbed_update_append [OF sha.holds_feed [OF this], OF refl,
      of "[kind_code KBool]" "[if b then 1 else 0]"]
  show ?case by (cases b) simp_all
next
  case (3 sh x up)
  from absorbed_update_append [OF sha.holds_feed [OF this], OF refl,
      of "[kind_code KNumber]" "le64 x"]
  show ?case by simp
next
  case (4 sh x up)
  from absorbed_feed_str [OF sha.holds_feed [OF this, of "[kind_code KString]"], of x]
  show ?case by simp
next
  case (5 sh x up)
  from absorbed_update_append [OF absorbed_feed_str [OF sha.holds_feed [OF this,
        of "[kind_code KStage]"]], OF refl, of x "resolve up x"]
  show ?case by simp
next
  case (6 sh xs up)
  from sha.holds_feed [OF sha.holds_feed [OF "6.prems"]]
  show ?case using "6.IH" [OF refl refl] by (simp add: feed_u64_def) (metis append.assoc append_Cons append_Nil)
next
  case (7 sh m up)
  from sha.holds_feed [OF sha.holds_feed [OF "7.prems"]]
  show ?case using "7.IH" [OF refl refl] by (simp add: feed_u64_def) (metis append.assoc append_Cons append_Nil)
next
  case (9 sh x xs up)
  then show ?case by (simp flip: append_assoc)
next
  case (11 sh k x m up)
  show ?case
    using "11.IH"(2) [OF "11.IH"(1) [OF absorbed_feed_str [OF "11.prems"]]] by simp
qed (auto intro: absorbed_update_append)

lemma hash_inputs_digest:
  "hash_inputs context inputs up = sha256_digest (key_message context inputs up)"
  unfolding hash_inputs_def key_message_def
  using sha.finish_holds [OF absorbed_hash_value(1) [OF absorbed_feed_str [OF sha.holds_start]]]
  by simp

lemma hash_ok_hash_inputs [simp]: "hash_ok (hash_inputs context inputs up)"
  by (simp add: hash_ok_def hash_inputs_digest)


section \<open>Self-delimiting encodings\<close>

text \<open>
  The contract of an encoding that can be parsed back off the front of a byte sequence: two
  encodings followed by anything agree only when what is encoded and what follows agree.
\<close>

locale prefix_code =
  fixes enc :: "'a \<Rightarrow> 'b list"
    and admissible :: "'a \<Rightarrow> bool"
  assumes unique: "admissible x \<Longrightarrow> admissible y \<Longrightarrow> enc x @ r = enc y @ s \<Longrightarrow> x = y \<and> r = s"
begin

lemma injective: "admissible x \<Longrightarrow> admissible y \<Longrightarrow> enc x = enc y \<Longrightarrow> x = y"
  using unique [of x y "[]" "[]"] by simp

lemma unique_iff:
  "admissible x \<Longrightarrow> admissible y \<Longrightarrow> enc x @ r = enc y @ s \<longleftrightarrow> x = y \<and> r = s"
  using unique by blast

end

lemma length_le64 [simp]: "length (le64 v) = 8"
  by (simp add: le64_def)

lemma bit_le64:
  "i < 8 \<Longrightarrow> j < 8 \<Longrightarrow> bit (le64 v ! i) j \<longleftrightarrow> bit v (8 * i + j)"
  by (simp add: le64_def bit_ucast_iff bit_drop_bit_eq)

lemma le64_inj: "le64 v = le64 w \<Longrightarrow> v = w"
proof (rule bit_word_eqI)
  fix n assume eq: "le64 v = le64 w" and n: "n < LENGTH(64)"
  have "bit (le64 v ! (n div 8)) (n mod 8) = bit (le64 w ! (n div 8)) (n mod 8)"
    using eq by simp
  then show "bit v n = bit w n"
    using n bit_le64 [of "n div 8" "n mod 8" v] bit_le64 [of "n div 8" "n mod 8" w] by simp
qed

lemma le64_eq [simp]: "le64 v = le64 w \<longleftrightarrow> v = w"
  by (auto dest: le64_inj)

lemma unat_word_of_nat_64: "n < 2 ^ 64 \<Longrightarrow> unat (word_of_nat n :: u64) = n"
  by (simp add: unat_of_nat)

lemma word_of_nat_64_inj:
  "m < 2 ^ 64 \<Longrightarrow> n < 2 ^ 64 \<Longrightarrow> (word_of_nat m :: u64) = word_of_nat n \<longleftrightarrow> m = n"
  by (metis unat_word_of_nat_64)

definition str_fits :: "string \<Rightarrow> bool" where
  "str_fits s = (length s < 2 ^ 64)"

interpretation le: prefix_code le64 "\<lambda>_. True"
  by unfold_locales (metis append_eq_append_conv length_le64 le64_inj)

interpretation str: prefix_code encode_str str_fits
proof
  fix x y :: string and r s
  assume fits: "str_fits x" "str_fits y" and eq: "encode_str x @ r = encode_str y @ s"
  then have "length x = length y \<and> bytes_of x @ r = bytes_of y @ s"
    by (simp add: encode_str_def le.unique_iff str_fits_def word_of_nat_64_inj)
  then show "x = y \<and> r = s"
    by (metis append_eq_append_conv bytes_of_inj length_bytes_of)
qed

section \<open>The encoding determines the key\<close>

text \<open>Every length of the tree fits the 64-bit counts the encoding writes.\<close>

fun value_fits :: "pvalue \<Rightarrow> bool" where
  "value_fits (String s) = str_fits s"
| "value_fits (Stage_ref i) = str_fits i"
| "value_fits (VList xs) = (length xs < 2 ^ 64 \<and> (\<forall>x \<in> set xs. value_fits x))"
| "value_fits (VMap m) =
     (length m < 2 ^ 64 \<and> (\<forall>e \<in> set m. str_fits (fst e) \<and> value_fits (snd e)))"
| "value_fits _ = True"

definition upstream_ok :: "upstream \<Rightarrow> bool" where
  "upstream_ok up = (\<forall>e \<in> set up. hash_ok (snd e))"

lemma length_resolve: "upstream_ok up \<Longrightarrow> length (resolve up i) = 32"
  by (induction up i rule: resolve.induct) (auto simp: upstream_ok_def hash_ok_def)

lemma encode_hd: "\<exists>t. encode up v = kind_code (kind_of v) # t"
  by (cases v) auto

lemma encode_kind: "encode up v @ r = encode up' v' @ s \<Longrightarrow> kind_of v = kind_of v'"
  using encode_hd [of up v] encode_hd [of up' v'] by auto

text \<open>What two encodings have in common, for the induction below.\<close>

definition same_key :: "upstream \<Rightarrow> upstream \<Rightarrow> pvalue \<Rightarrow> bool" where
  "same_key up up' v =
     (value_fits v \<longrightarrow>
        (\<forall>v' r s. value_fits v' \<longrightarrow> encode up v @ r = encode up' v' @ s \<longrightarrow>
           v = v' \<and> r = s \<and> (\<forall>i \<in> refs v. resolve up i = resolve up' i)))"

lemma same_keyD:
  assumes "same_key up up' v" "value_fits v" "value_fits v'" "encode up v @ r = encode up' v' @ s"
  shows "v = v'" "r = s" "\<And>i. i \<in> refs v \<Longrightarrow> resolve up i = resolve up' i"
  using assms unfolding same_key_def by blast+

lemma same_keyI:
  assumes "\<And>v' r s. value_fits v \<Longrightarrow> value_fits v' \<Longrightarrow> kind_of v = kind_of v' \<Longrightarrow>
      encode up v @ r = encode up' v' @ s \<Longrightarrow>
      v = v' \<and> r = s \<and> (\<forall>i \<in> refs v. resolve up i = resolve up' i)"
  shows "same_key up up' v"
  using assms encode_kind unfolding same_key_def by meson

lemma encode_items_unique:
  assumes "\<forall>x \<in> set xs. same_key up up' x"
    and "\<forall>x \<in> set xs. value_fits x" "\<forall>x \<in> set ys. value_fits x" "length xs = length ys"
    and "encode_items up xs @ r = encode_items up' ys @ s"
  shows "xs = ys \<and> r = s \<and> (\<forall>x \<in> set xs. \<forall>i \<in> refs x. resolve up i = resolve up' i)"
  using assms(4,1,2,3,5)
proof (induction xs ys arbitrary: r s rule: list_induct2)
  case (Cons x xs y ys)
  have key: "same_key up up' x" "value_fits x" "value_fits y"
    "encode up x @ (encode_items up xs @ r) = encode up' y @ (encode_items up' ys @ s)"
    using Cons.prems by simp_all
  note k = same_keyD [OF key]
  show ?case using Cons.IH [OF _ _ _ k(2)] k(1,3) Cons.prems by simp
qed simp

lemma encode_fields_unique:
  assumes "\<forall>e \<in> set m. same_key up up' (snd e)"
    and "\<forall>e \<in> set m. str_fits (fst e) \<and> value_fits (snd e)"
    and "\<forall>e \<in> set n. str_fits (fst e) \<and> value_fits (snd e)" "length m = length n"
    and "encode_fields up m @ r = encode_fields up' n @ s"
  shows "m = n \<and> r = s \<and> (\<forall>e \<in> set m. \<forall>i \<in> refs (snd e). resolve up i = resolve up' i)"
  using assms(4,1,2,3,5)
proof (induction m n arbitrary: r s rule: list_induct2)
  case (Cons e m f n)
  obtain k x l y where ef: "e = (k, x)" "f = (l, y)" by (cases e; cases f)
  have kl: "k = l"
    and tail: "encode up x @ (encode_fields up m @ r) = encode up' y @ (encode_fields up' n @ s)"
    using str.unique [of k l] Cons.prems by (auto simp: ef)
  have key: "same_key up up' x" "value_fits x" "value_fits y" using Cons.prems by (simp_all add: ef)
  note d = same_keyD [OF key tail]
  show ?case using Cons.IH [OF _ _ _ d(2)] d(1,3) kl Cons.prems by (simp add: ef)
qed simp

lemma same_key:
  assumes up: "upstream_ok up" and up': "upstream_ok up'"
  shows "same_key up up' v"
proof (induction v)
  case (Stage_ref i)
  show ?case unfolding same_key_def
  proof (intro impI allI)
    fix v' r s
    assume fits: "value_fits (Stage_ref i)" "value_fits v'"
      and eq: "encode up (Stage_ref i) @ r = encode up' v' @ s"
    from encode_kind [OF eq] obtain j where v': "v' = Stage_ref j" by (cases v') auto
    show "Stage_ref i = v' \<and> r = s \<and> (\<forall>i \<in> refs (Stage_ref i). resolve up i = resolve up' i)"
      using fits eq length_resolve [OF up] length_resolve [OF up'] by (auto simp: v' str.unique_iff)
  qed
next
  case (VList xs)
  show ?case unfolding same_key_def
  proof (intro impI allI)
    fix v' r s
    assume fits: "value_fits (VList xs)" "value_fits v'"
      and eq: "encode up (VList xs) @ r = encode up' v' @ s"
    from encode_kind [OF eq] obtain ys where v': "v' = VList ys" by (cases v') auto
    have len: "length xs = length ys"
      and items: "encode_items up xs @ r = encode_items up' ys @ s"
      using fits eq by (auto simp: v' word_of_nat_64_inj)
    show "VList xs = v' \<and> r = s \<and> (\<forall>i \<in> refs (VList xs). resolve up i = resolve up' i)"
      using encode_items_unique [OF _ _ _ len items] VList.IH fits by (auto simp: v')
  qed
next
  case (VMap m)
  show ?case unfolding same_key_def
  proof (intro impI allI)
    fix v' r s
    assume fits: "value_fits (VMap m)" "value_fits v'"
      and eq: "encode up (VMap m) @ r = encode up' v' @ s"
    from encode_kind [OF eq] obtain n where v': "v' = VMap n" by (cases v') auto
    have len: "length m = length n"
      and fields: "encode_fields up m @ r = encode_fields up' n @ s"
      using fits eq by (auto simp: v' word_of_nat_64_inj)
    have IH: "\<forall>e \<in> set m. same_key up up' (snd e)"
      using VMap.IH by (auto simp: snds.simps)
    show "VMap m = v' \<and> r = s \<and> (\<forall>i \<in> refs (VMap m). resolve up i = resolve up' i)"
      using encode_fields_unique [OF IH _ _ len fields] fits by (auto simp: v')
  qed
next
  case Null
  show ?case by (rule same_keyI, case_tac v') auto
next
  case (Boolean b)
  show ?case by (rule same_keyI, case_tac v') (auto split: if_splits)
next
  case (Number d)
  show ?case by (rule same_keyI, case_tac v') auto
next
  case (String x)
  show ?case by (rule same_keyI, case_tac v') (auto simp: str.unique_iff)
qed

theorem key_message_unique:
  assumes "upstream_ok up" "upstream_ok up'" "str_fits c" "str_fits c'"
    and "value_fits v" "value_fits v'" "key_message c v up = key_message c' v' up'"
  shows "c = c'" "v = v'" "\<forall>i \<in> refs v. resolve up i = resolve up' i"
proof -
  have "c = c' \<and> encode up v = encode up' v'"
    using str.unique [of c c'] assms unfolding key_message_def by blast
  moreover have "encode up v @ [] = encode up' v' @ []" using calculation by simp
  note same_keyD [OF same_key [OF assms(1,2)] assms(5,6) this]
  ultimately show "c = c'" "v = v'" "\<forall>i \<in> refs v. resolve up i = resolve up' i" by auto
qed

text \<open>The key only looks at the hashes of the stages the tree refers to.\<close>

lemma encode_cong:
  "(\<And>i. i \<in> refs v \<Longrightarrow> resolve up i = resolve up' i) \<Longrightarrow> encode up v = encode up' v"
  "(\<And>i x. x \<in> set xs \<Longrightarrow> i \<in> refs x \<Longrightarrow> resolve up i = resolve up' i) \<Longrightarrow>
     encode_items up xs = encode_items up' xs"
  "(\<And>i e. e \<in> set m \<Longrightarrow> i \<in> refs (snd e) \<Longrightarrow> resolve up i = resolve up' i) \<Longrightarrow>
     encode_fields up m = encode_fields up' m"
  by (induction up v and up xs and up m rule: encode_encode_items_encode_fields.induct)
    (auto, (metis snd_conv)+)

lemma hash_inputs_cong:
  assumes "\<And>i. i \<in> refs v \<Longrightarrow> resolve up i = resolve up' i"
  shows "hash_inputs c v up = hash_inputs c v up'"
  using encode_cong(1) [OF assms] by (simp add: hash_inputs_digest key_message_def)

section \<open>Hashing a file\<close>

text \<open>
  \<open>hash_file\<close> reads 64 KiB at a time.  A file is what the stream delivers: \<open>None\<close> when it
  cannot be opened, else the bytes it yields and whether the stream ended with an I/O error.
\<close>

function read_chunks :: "nat \<Rightarrow> byte list \<Rightarrow> byte list list" where
  "read_chunks n bs =
     (if bs = [] \<or> n = 0 then [] else take n bs # read_chunks n (drop n bs))"
  by pat_completeness auto
termination
  by (relation "measure (\<lambda>(n, bs). length bs)") auto

declare read_chunks.simps [simp del]

definition hash_file :: "(byte list \<times> bool) option \<Rightarrow> hash option" where
  "hash_file f =
     (case f of None \<Rightarrow> None
      | Some (content, bad) \<Rightarrow>
          (let sh = foldl update sha_init (read_chunks 65536 content)
           in if bad then None else Some (finalize sh)))"

lemma concat_read_chunks: "0 < n \<Longrightarrow> concat (read_chunks n bs) = bs"
proof (induction n bs rule: read_chunks.induct)
  case (1 n bs)
  then show ?case by (subst read_chunks.simps) simp
qed

section \<open>The in-memory cache\<close>

text \<open>
  \<open>Cache::Impl::entries\<close> as an association list with distinct keys; a payload is a
  \<open>shared_ptr<void>\<close> that may be null.  \<open>get\<close> returns a null pointer for an absent key.
\<close>

type_synonym 'p cache = "(hash \<times> 'p option) list"

definition cache_empty :: "'p cache" where
  "cache_empty = []"

definition cache_put :: "'p cache \<Rightarrow> hash \<Rightarrow> 'p option \<Rightarrow> 'p cache" where
  "cache_put c key payload = AList.update key payload c"

definition cache_get :: "'p cache \<Rightarrow> hash \<Rightarrow> 'p option" where
  "cache_get c key = (case map_of c key of None \<Rightarrow> None | Some p \<Rightarrow> p)"

definition cache_contains :: "'p cache \<Rightarrow> hash \<Rightarrow> bool" where
  "cache_contains c key = (map_of c key \<noteq> None)"

definition cache_size :: "'p cache \<Rightarrow> nat" where
  "cache_size c = length c"

definition cache_clear :: "'p cache \<Rightarrow> 'p cache" where
  "cache_clear c = []"

definition cache_ok :: "'p cache \<Rightarrow> bool" where
  "cache_ok c = distinct (map fst c)"

lemma cache_ok_put: "cache_ok c \<Longrightarrow> cache_ok (cache_put c k p)"
  by (simp add: cache_ok_def cache_put_def distinct_update)

lemma cache_size_put:
  "cache_size (cache_put c k p) = (if cache_contains c k then cache_size c else cache_size c + 1)"
  by (induction c) (auto simp: cache_size_def cache_put_def cache_contains_def)

text \<open>The contract the pipeline runner relies on: last write wins, other keys keep theirs.\<close>

locale kv_store =
  fixes put :: "'s \<Rightarrow> 'k \<Rightarrow> 'v option \<Rightarrow> 's"
    and get :: "'s \<Rightarrow> 'k \<Rightarrow> 'v option"
  assumes get_put: "get (put s k v) k' = (if k' = k then v else get s k')"
begin

lemma get_put_same [simp]: "get (put s k v) k = v"
  by (simp add: get_put)

lemma put_get_mono: "get s k' = Some w \<Longrightarrow> k' \<noteq> k \<Longrightarrow> get (put s k v) k' = Some w"
  by (simp add: get_put)

lemma present_after_put: "get s k' \<noteq> None \<Longrightarrow> get (put s k (Some v)) k' \<noteq> None"
  by (simp add: get_put)

end

interpretation mem: kv_store cache_put cache_get
  by unfold_locales (simp add: cache_put_def cache_get_def update_conv')


section \<open>Properties\<close>

lemma hex_digit_lower: "n < 16 \<Longrightarrow> hex_digit n \<in> set kHex"
  unfolding hex_digit_def by (rule nth_mem) (simp add: kHex_def)

lemma hex_digit_inj: "m < 16 \<Longrightarrow> n < 16 \<Longrightarrow> hex_digit m = hex_digit n \<Longrightarrow> m = n"
  unfolding hex_digit_def by (subst (asm) nth_eq_iff_index_eq) (simp_all add: kHex_def)

lemma unat_byte_less: "unat (b :: byte) < 256"
  using unsigned_less [of b] by simp

lemma hex_byte_inj [simp]: "hex_byte a = hex_byte b \<longleftrightarrow> a = b"
proof
  assume "hex_byte a = hex_byte b"
  then have "unat a div 16 = unat b div 16 \<and> unat a mod 16 = unat b mod 16"
    using unat_byte_less [of a] unat_byte_less [of b]
    by (auto simp: hex_byte_def intro!: hex_digit_inj)
  then have "unat a = unat b" by (metis div_mult_mod_eq)
  then show "a = b" by (rule unsigned_word_eqI)
qed simp

lemma length_hex_byte [simp]: "length (hex_byte b) = 2"
  by (simp add: hex_byte_def)

lemma hex_byte_lower: "set (hex_byte b) \<subseteq> set kHex"
  using hex_digit_lower [of "unat b div 16"] hex_digit_lower [of "unat b mod 16"]
    unat_byte_less [of b] by (simp add: hex_byte_def)

interpretation hex: prefix_code hex_byte "\<lambda>_. True"
  by unfold_locales (metis append_eq_append_conv hex_byte_inj length_hex_byte)

lemma length_hash_hex: "length (hash_hex h) = 2 * length h"
  by (induction h) (simp_all add: hash_hex_def hex_byte_def)

lemma hash_hex_inj: "hash_hex h = hash_hex h' \<Longrightarrow> h = h'"
proof (induction h arbitrary: h')
  case Nil
  then show ?case by (cases h') (simp_all add: hash_hex_def hex_byte_def)
next
  case (Cons b h)
  then show ?case
    by (cases h') (auto simp: hash_hex_def hex.unique_iff, simp add: hex_byte_def)
qed

text \<open>C15: SHA-256 streaming.  Whatever the chunks \<open>update\<close> is called with, \<open>finalize\<close>
  returns the FIPS 180-4 digest of their concatenation: the buffered object and the reference that
  pads the whole message at once agree.\<close>

theorem sha256_streaming:
  "finalize (foldl update sha_init chunks) = sha256_digest (concat chunks)"
  by (rule sha.finish_foldl)

text \<open>C2: Cache keys.  If two stage keys are equal, then the two stages had the same
  context, the same input tree and the same hashes for every upstream stage the tree refers to; or
  else a SHA-256 collision between two different messages is exhibited.\<close>

theorem hash_inputs_collision:
  assumes "upstream_ok up" "upstream_ok up'" "str_fits c" "str_fits c'"
    and "value_fits v" "value_fits v'" "hash_inputs c v up = hash_inputs c' v' up'"
  shows "c = c' \<and> v = v' \<and> (\<forall>i \<in> refs v. resolve up i = resolve up' i)
    \<or> key_message c v up \<noteq> key_message c' v' up'
        \<and> sha256_digest (key_message c v up) = sha256_digest (key_message c' v' up')"
  using key_message_unique [OF assms(1-6)] assms(7) by (auto simp: hash_inputs_digest)

lemma hash_inputs_collision_witness:
  "hash_inputs ''mesher.x'' (VMap [(''a'', Boolean True)]) []
     = hash_inputs ''mesher.x'' (VMap [(''a'', Boolean True)]) [(''s'', empty_hash)]
   \<and> refs (VMap [(''a'', Boolean True)]) = {}"
proof -
  have eq: "hash_inputs ''mesher.x'' (VMap [(''a'', Boolean True)]) []
     = hash_inputs ''mesher.x'' (VMap [(''a'', Boolean True)]) [(''s'', empty_hash)]"
    by (rule hash_inputs_cong) simp
  show ?thesis
    using eq hash_inputs_collision [OF _ _ _ _ _ _ eq]
    by (simp add: upstream_ok_def str_fits_def)
qed

text \<open>Hashing a file.  Reading in 64 KiB pieces yields the digest of the file's bytes; a
  file that cannot be opened or whose stream ends in an error yields none.\<close>

theorem hash_file_digest:
  "hash_file None = None \<and> hash_file (Some (content, True)) = None
   \<and> hash_file (Some (content, False)) = Some (sha256_digest content)"
  by (simp add: hash_file_def sha.finish_foldl concat_read_chunks)

text \<open>The textual key.  \<open>hex\<close> writes 64 lowercase hexadecimal digits for a 32-byte
  hash, and different hashes have different names, so no two entries of the disk cache share a
  file.\<close>

theorem hash_hex_names:
  "length (hash_hex h) = 2 * length h \<and> set (hash_hex h) \<subseteq> set kHex
   \<and> (hash_hex h = hash_hex h' \<longleftrightarrow> h = h')"
proof (intro conjI)
  show "set (hash_hex h) \<subseteq> set kHex"
    unfolding hash_hex_def using hex_byte_lower by auto
qed (auto simp: length_hash_hex dest: hash_hex_inj)

end
