(* ===== verification/Disk_Cache.thy ===== *)
theory Disk_Cache
  imports Atomic_Write Content_Hash
begin

text \<open>
  \<open>DiskCache\<close> of src/pipeline/cache.cpp: one file per content hash below a directory, written
  through a temporary file.  The platform of the build selects the default directory, so it is an
  argument here, as are the environment and the temporary directory.
\<close>

section \<open>Default locations\<close>

datatype platform = Linux | MacOS | Windows

text \<open>\<open>std::filesystem::path::operator/\<close> on a relative right-hand side.\<close>

definition append_path :: "string \<Rightarrow> string \<Rightarrow> string" where
  "append_path a b =
     (if a = [] then b else if last a = CHR ''/'' then a @ b else a @ ''/'' @ b)"

definition append_paths :: "string \<Rightarrow> string list \<Rightarrow> string" where
  "append_paths a bs = foldl append_path a bs"

text \<open>An environment variable counts only when it is set and not empty.\<close>

definition env_value :: "(string \<Rightarrow> string option) \<Rightarrow> string \<Rightarrow> string option" where
  "env_value env name = (case env name of None \<Rightarrow> None | Some v \<Rightarrow> if v = [] then None else Some v)"

definition home_dir :: "platform \<Rightarrow> (string \<Rightarrow> string option) \<Rightarrow> string" where
  "home_dir pf env =
     (case env_value env (if pf = Windows then ''USERPROFILE'' else ''HOME'') of
        Some v \<Rightarrow> v | None \<Rightarrow> [])"

definition default_dir ::
  "platform \<Rightarrow> (string \<Rightarrow> string option) \<Rightarrow> string \<Rightarrow> string \<Rightarrow> string" where
  "default_dir pf env temp override =
     (let fallback = append_path temp ''souxmar-cache''; h = home_dir pf env
      in if override \<noteq> [] then override
         else case env_value env ''SOUXMAR_CACHE_DIR'' of
           Some v \<Rightarrow> v
         | None \<Rightarrow> (case pf of
             Windows \<Rightarrow> (case env_value env ''LOCALAPPDATA'' of
                 Some v \<Rightarrow> append_paths v [''souxmar'', ''cache''] | None \<Rightarrow> fallback)
           | MacOS \<Rightarrow> if h \<noteq> [] then append_paths h [''Library'', ''Caches'', ''souxmar''] else fallback
           | Linux \<Rightarrow> (case env_value env ''XDG_CACHE_HOME'' of
                 Some v \<Rightarrow> append_path v ''souxmar''
               | None \<Rightarrow> if h \<noteq> [] then append_paths h [''.cache'', ''souxmar''] else fallback)))"

section \<open>Operations\<close>

definition disk_open :: "path \<Rightarrow> (string + path) io" where
  "disk_open dir = do {
     made \<leftarrow> create_directories dir;
     present \<leftarrow> is_directory dir;
     if \<not> made \<and> \<not> present
     then return_io (Inl ''souxmar DiskCache: cannot create directory'')
     else return_io (Inr dir)
   }"

definition entry_path :: "path \<Rightarrow> hash \<Rightarrow> path" where
  "entry_path dir key = dir @ [hash_hex key]"

definition put_bytes :: "path \<Rightarrow> hash \<Rightarrow> byte list \<Rightarrow> bool io" where
  "put_bytes dir key blob = write_file_rename (entry_path dir key) blob"

text \<open>A read that ends before the size found by seeking is an error.\<close>

definition get_bytes :: "path \<Rightarrow> hash \<Rightarrow> byte list option io" where
  "get_bytes dir key = do {
     entry \<leftarrow> query (\<lambda>m. look m (entry_path dir key));
     content \<leftarrow> read_file (entry_path dir key);
     return_io (case (entry, content) of
        (Some (File c), Some bs) \<Rightarrow> if length bs < length c then None else Some bs
      | _ \<Rightarrow> None)
   }"

definition disk_contains :: "path \<Rightarrow> hash \<Rightarrow> bool io" where
  "disk_contains dir key = file_exists (entry_path dir key)"

section \<open>Lemmas\<close>

lemma hash_hex_no_dot: "CHR ''.'' \<notin> set (hash_hex h)"
  using hex_byte_lower by (force simp: hash_hex_def kHex_def)

lemma entry_path_simps [simp]:
  "entry_path dir key \<noteq> []" "entry_path dir key = entry_path dir key' \<longleftrightarrow> key = key'"
  by (auto simp: entry_path_def dest: hash_hex_inj)

lemma entry_not_tmp [simp]: "entry_path dir key' \<notin> range (tmp_sibling (entry_path dir key))"
  using hash_hex_no_dot [of key'] by (auto simp: entry_path_def tmp_sibling_def)

text \<open>Reading leaves the tree alone and never invents bytes.\<close>

lemma wp_get_bytes:
  assumes "\<And>bs s'. look (tree s) (entry_path dir key) = Some (File bs) \<Longrightarrow> idle s s' \<Longrightarrow> Q (Some bs) s'"
    and "\<And>s'. faults s PRead \<noteq> [] \<or> \<not> is_file (tree s) (entry_path dir key) \<Longrightarrow> idle s s' \<Longrightarrow> Q None s'"
  shows "wp (get_bytes dir key) Q s"
  unfolding get_bytes_def wp_bind wp_query wp_return
proof (rule wp_read_file, goal_cases)
  case (3 s' bs k)
  then show ?case using assms
    by (cases "length (take k bs) < length bs") (auto simp: take_all_iff min_def split: if_splits)
qed (auto simp: is_file_def intro: assms split: option.split node.split)

lemma get_bytes_faithful:
  assumes "run_state (get_bytes dir key) s = (Some bs, s')"
  shows "look (tree s) (entry_path dir key) = Some (File bs) \<and> tree s' = tree s"
proof -
  have "wp (get_bytes dir key) (\<lambda>r s'. \<forall>bs. r = Some bs \<longrightarrow>
      look (tree s) (entry_path dir key) = Some (File bs) \<and> tree s' = tree s) s"
    by (rule wp_get_bytes) (auto simp: idle_def)
  from wp_run [OF this assms] show ?thesis by blast
qed

lemma run_get_bytes:
  assumes "faults s PRead = []"
  shows "run_state (get_bytes dir key) s
    = (case look (tree s) (entry_path dir key) of Some (File c) \<Rightarrow> Some c | _ \<Rightarrow> None, s)"
  using assms by (simp add: get_bytes_def read_file_def take_fault_def split: option.split node.split)

section \<open>Properties\<close>

text \<open>Disk cache read-back.  A blob whose \<open>put_bytes\<close> reports success is what \<open>get_bytes\<close> returns for
  the key afterwards, every other key keeps its blob, and a \<open>put_bytes\<close> that reports failure leaves the
  old blob in place, on a disk that flushes what it accepted.\<close>

theorem disk_put_get:
  assumes "tree_ok (tree s)" "look (tree s) (entry_path dir key) \<noteq> Some Dir"
    and "faults s PClose = []" "faults s PRename = []" "faults s PRead = []"
    and "run_state (put_bytes dir key blob) s = (b, s')"
  shows "fst (run_state (get_bytes dir key') s')
    = (if key' = key \<and> b then Some blob else fst (run_state (get_bytes dir key') s))"
proof -
  note put = assms(6) [unfolded put_bytes_def]
  have read: "faults s' PRead = []"
    using renaming.write_spares(3) [OF assms(1) _ put] assms(5) by (simp add: calm_def)
  have self: "look (tree s') (entry_path dir key)
      = (if b then Some (File blob) else look (tree s) (entry_path dir key))"
    using renaming.write_visible(1) [OF assms(1) _ assms(2-4) put] by simp
  have other: "key' \<noteq> key \<Longrightarrow> look (tree s') (entry_path dir key') = look (tree s) (entry_path dir key')"
    using renaming.write_spares(2) [OF assms(1) _ put, of "entry_path dir key'"] by simp
  show ?thesis using self other
    by (cases "key' = key") (simp_all add: run_get_bytes [OF read] run_get_bytes [OF assms(5)])
qed

definition blank_disk :: fs where
  "blank_disk = \<lparr>tree = [([], Dir), ([''c''], Dir)], faults = (\<lambda>_. []), entropy = [7], trace = []\<rparr>"

lemma healthy_blank [simp]: "healthy blank_disk"
  by (simp add: blank_disk_def healthy_def)

lemma blank_tree [simp]: "tree blank_disk = [([], Dir), ([''c''], Dir)]"
  by (simp add: blank_disk_def)

lemma blank_ok [simp]: "tree_ok (tree blank_disk)"
  by (simp add: blank_disk_def tree_ok_def look_def)

lemma look_blank: "look (tree blank_disk) p = (if p = [] \<or> p = [''c''] then Some Dir else None)"
  by (simp add: look_def)

theorem disk_put_get_witness:
  "\<exists>s'. run_state (put_bytes [''c''] empty_hash [1, 2, 3]) blank_disk = (True, s')
     \<and> fst (run_state (get_bytes [''c''] empty_hash) s') = Some [1, 2, 3]"
proof -
  let ?r = "run_state (put_bytes [''c''] empty_hash [1, 2, 3]) blank_disk"
  have "fst ?r" unfolding put_bytes_def
    by (rule renaming.write_succeeds)
      (simp_all add: look_blank entry_path_def tmp_sibling_def del: blank_tree)
  then obtain s' where s': "?r = (True, s')" by (metis (full_types) prod.collapse)
  have "look (tree blank_disk) (entry_path [''c''] empty_hash) \<noteq> Some Dir"
    by (simp add: look_blank entry_path_def hash_hex_def empty_hash_def del: blank_tree)
  from disk_put_get [OF blank_ok this _ _ _ s', of empty_hash] s' show ?thesis
    by (auto simp: healthy_faults)
qed

end
