(* ===== verification/Runner.thy ===== *)
theory Runner
  imports Dag Disk_Cache
begin

text \<open>
  The sequential pipeline runner (src/pipeline/runner.cpp, include/souxmar/pipeline/runner.h).
  The dispatcher is an interface of the program: a record of functions over a world \<open>'w\<close> it may
  read and change, whose payloads \<open>'p\<close> the runner passes around without looking into them.  A
  \<open>std::shared_ptr<void>\<close> is a \<open>'p option\<close>, null being \<open>None\<close>.
\<close>

section \<open>The dispatcher interface and the options\<close>

text \<open>A call returns a payload or a \<open>DispatchError\<close>, or throws, a \<open>std::exception\<close> with its
  message or something else.\<close>

datatype 'p dispatch_result =
    Dispatched "'p option"
  | Dispatch_error string
  | Thrown "string option"

datatype threading_model = Reentrant | Single_threaded | Internal_parallel

type_synonym 'p outputs = "(string \<times> 'p option) list"

record ('p, 'w) dispatcher =
  d_dispatch :: "string \<Rightarrow> pvalue \<Rightarrow> 'p outputs \<Rightarrow> 'w \<Rightarrow> 'p dispatch_result \<times> 'w"
  d_version :: "string \<Rightarrow> 'w \<Rightarrow> string \<times> 'w"
  d_extra :: "string \<Rightarrow> pvalue \<Rightarrow> 'w \<Rightarrow> string \<times> 'w"
  d_plugin_id :: "string \<Rightarrow> string"
  d_threading :: "string \<Rightarrow> threading_model"

record 'p disk_backing =
  db_cache :: "path option"
  db_serialize :: "('p \<Rightarrow> byte list option) option"
  db_deserialize :: "(byte list \<Rightarrow> 'p option) option"

record 'p run_options =
  use_cache :: bool
  stop_on_first_failure :: bool
  max_workers :: nat
  disk_backing :: "'p disk_backing option"

section \<open>Results\<close>

datatype stage_status = Cached | Executed | Failed | Skipped

record stage_result =
  sr_id :: string
  sr_status :: stage_status
  sr_hash :: hash
  sr_error :: "string option"

datatype run_status = Success | Validation_failed | Stage_failed

record 'p run_result =
  rr_status :: run_status
  rr_errors :: "string list"
  rr_stages :: "stage_result list"
  rr_outputs :: "'p outputs"

text \<open>What outlives a run: the in-memory cache, the disk and the dispatcher's world.\<close>

record ('p, 'w) env =
  e_cache :: "'p cache"
  e_disk :: fs
  e_world :: 'w

section \<open>One stage\<close>

definition stage_context ::
  "('p, 'w) dispatcher \<Rightarrow> string \<Rightarrow> pvalue \<Rightarrow> 'w \<Rightarrow> string \<times> 'w" where
  "stage_context d plugin input w =
     (let (version, w) = d_version d plugin w;
          context = (if version = [] then plugin else plugin @ ''@'' @ version);
          (extra, w) = d_extra d plugin input w
      in (if extra \<noteq> [] then context @ ''|'' @ extra else context, w))"

definition disk_lookup ::
  "'p run_options \<Rightarrow> hash \<Rightarrow> ('p, 'w) env \<Rightarrow> 'p option \<times> ('p, 'w) env" where
  "disk_lookup opts key env =
     (case disk_backing opts of
        None \<Rightarrow> (None, env)
      | Some db \<Rightarrow> (case (db_cache db, db_deserialize db) of
          (Some dir, Some deserialize) \<Rightarrow>
            (let (blob, disk) = run_state (get_bytes dir key) (e_disk env);
                 env = env\<lparr>e_disk := disk\<rparr>
             in case blob of
                  None \<Rightarrow> (None, env)
                | Some blob \<Rightarrow> (case deserialize blob of
                    None \<Rightarrow> (None, env)
                  | Some p \<Rightarrow> (Some p, env\<lparr>e_cache := cache_put (e_cache env) key (Some p)\<rparr>)))
        | _ \<Rightarrow> (None, env)))"

definition cache_lookup ::
  "'p run_options \<Rightarrow> hash \<Rightarrow> ('p, 'w) env \<Rightarrow> 'p option \<times> ('p, 'w) env" where
  "cache_lookup opts key env =
     (if \<not> use_cache opts then (None, env)
      else case cache_get (e_cache env) key of
             Some p \<Rightarrow> (Some p, env)
           | None \<Rightarrow> disk_lookup opts key env)"

definition disk_store :: "'p run_options \<Rightarrow> hash \<Rightarrow> 'p \<Rightarrow> ('p, 'w) env \<Rightarrow> ('p, 'w) env" where
  "disk_store opts key p env =
     (case disk_backing opts of
        None \<Rightarrow> env
      | Some db \<Rightarrow> (case (db_cache db, db_serialize db) of
          (Some dir, Some serialize) \<Rightarrow> (case serialize p of
              None \<Rightarrow> env
            | Some blob \<Rightarrow> env\<lparr>e_disk := snd (run_state (put_bytes dir key blob) (e_disk env))\<rparr>)
        | _ \<Rightarrow> env))"

definition store_payload ::
  "'p run_options \<Rightarrow> hash \<Rightarrow> 'p option \<Rightarrow> ('p, 'w) env \<Rightarrow> ('p, 'w) env" where
  "store_payload opts key payload env =
     (case payload of
        Some p \<Rightarrow>
          if use_cache opts
          then disk_store opts key p (env\<lparr>e_cache := cache_put (e_cache env) key (Some p)\<rparr>)
          else env
      | None \<Rightarrow> env)"

section \<open>The run\<close>

record 'p progress =
  pr_upstream :: upstream
  pr_failed :: bool
  pr_results :: "stage_result list"
  pr_outputs :: "'p outputs"

type_synonym exn = "string option"

text \<open>The stage's hash goes into \<open>upstream_hashes\<close> whether it was cached, executed or failed.\<close>

definition record_stage :: "stage_result \<Rightarrow> 'p outputs \<Rightarrow> 'p progress \<Rightarrow> 'p progress" where
  "record_stage sr outs pr =
     pr\<lparr>pr_upstream := pr_upstream pr @ [(sr_id sr, sr_hash sr)],
        pr_results := pr_results pr @ [sr], pr_outputs := outs\<rparr>"

definition run_stage ::
  "('p, 'w) dispatcher \<Rightarrow> 'p run_options \<Rightarrow> stage \<Rightarrow> ('p, 'w) env \<Rightarrow> 'p progress \<Rightarrow>
     (exn + 'p progress) \<times> ('p, 'w) env" where
  "run_stage d opts s env pr =
     (if pr_failed pr \<and> stop_on_first_failure opts
      then (Inr (pr\<lparr>pr_results := pr_results pr
              @ [\<lparr>sr_id = st_id s, sr_status = Skipped, sr_hash = empty_hash, sr_error = None\<rparr>]\<rparr>), env)
      else
        let (context, w) = stage_context d (st_plugin s) (st_input s) (e_world env);
            env = env\<lparr>e_world := w\<rparr>;
            key = hash_inputs context (st_input s) (pr_upstream pr);
            (hit, env) = cache_lookup opts key env
        in case hit of
             Some p \<Rightarrow>
               (Inr (record_stage
                  \<lparr>sr_id = st_id s, sr_status = Cached, sr_hash = key, sr_error = None\<rparr>
                  (smap_emplace (st_id s) (Some p) (pr_outputs pr)) pr), env)
           | None \<Rightarrow>
               let (dr, w) = d_dispatch d (st_plugin s) (st_input s) (pr_outputs pr) (e_world env);
                   env = env\<lparr>e_world := w\<rparr>
               in case dr of
                    Thrown e \<Rightarrow> (Inl e, env)
                  | Dispatch_error m \<Rightarrow>
                      (Inr ((record_stage
                         \<lparr>sr_id = st_id s, sr_status = Failed, sr_hash = key, sr_error = Some m\<rparr>
                         (pr_outputs pr) pr)\<lparr>pr_failed := True\<rparr>), env)
                  | Dispatched payload \<Rightarrow>
                      (Inr (record_stage
                         \<lparr>sr_id = st_id s, sr_status = Executed, sr_hash = key, sr_error = None\<rparr>
                         (smap_emplace (st_id s) payload (pr_outputs pr)) pr),
                       store_payload opts key payload env))"

fun run_stages ::
  "('p, 'w) dispatcher \<Rightarrow> 'p run_options \<Rightarrow> stage list \<Rightarrow> ('p, 'w) env \<Rightarrow> 'p progress \<Rightarrow>
     (exn + 'p progress) \<times> ('p, 'w) env" where
  "run_stages d opts [] env pr = (Inr pr, env)"
| "run_stages d opts (s # ss) env pr =
     (case run_stage d opts s env pr of
        (Inl e, env) \<Rightarrow> (Inl e, env)
      | (Inr pr, env) \<Rightarrow> run_stages d opts ss env pr)"

definition initial_progress :: "'p progress" where
  "initial_progress = \<lparr>pr_upstream = [], pr_failed = False, pr_results = [], pr_outputs = []\<rparr>"

definition format_error :: "dag_error \<Rightarrow> string" where
  "format_error e =
     (if err_stage e = [] then err_message e else ''['' @ err_stage e @ ''] '' @ err_message e)"

definition finish_run :: "'p progress \<Rightarrow> 'p run_result" where
  "finish_run pr =
     \<lparr>rr_status = (if pr_failed pr then Stage_failed else Success), rr_errors = [],
      rr_stages = pr_results pr, rr_outputs = pr_outputs pr\<rparr>"

definition validation_failure :: "dag_error list \<Rightarrow> 'p run_result" where
  "validation_failure es =
     \<lparr>rr_status = Validation_failed, rr_errors = map format_error es, rr_stages = [], rr_outputs = []\<rparr>"

definition run_sequential ::
  "(string list \<Rightarrow> string list) \<Rightarrow> ('p, 'w) dispatcher \<Rightarrow> 'p run_options \<Rightarrow> pipeline \<Rightarrow>
     ('p, 'w) env \<Rightarrow> ((exn + 'p run_result) \<times> ('p, 'w) env) option" where
  "run_sequential iter d opts p env =
     (case validate iter p of
        None \<Rightarrow> None
      | Some (Inl es) \<Rightarrow> Some (Inr (validation_failure es), env)
      | Some (Inr order) \<Rightarrow>
          (case run_stages d opts (map (\<lambda>i. stages p ! i) order) env initial_progress of
             (Inl e, env) \<Rightarrow> Some (Inl e, env)
           | (Inr pr, env) \<Rightarrow> Some (Inr (finish_run pr), env)))"

section \<open>The shape of a run\<close>

lemma run_stageE:
  assumes "run_stage d opts s env pr = (Inr pr', env')"
  obtains (skipped) "pr_failed pr" "stop_on_first_failure opts" "env' = env"
      "pr' = pr\<lparr>pr_results := pr_results pr
          @ [\<lparr>sr_id = st_id s, sr_status = Skipped, sr_hash = empty_hash, sr_error = None\<rparr>]\<rparr>"
  | (cached) key ctx w p where "\<not> (pr_failed pr \<and> stop_on_first_failure opts)"
      "stage_context d (st_plugin s) (st_input s) (e_world env) = (ctx, w)"
      "key = hash_inputs ctx (st_input s) (pr_upstream pr)"
      "cache_lookup opts key (env\<lparr>e_world := w\<rparr>) = (Some p, env')"
      "pr' = record_stage \<lparr>sr_id = st_id s, sr_status = Cached, sr_hash = key, sr_error = None\<rparr>
          (smap_emplace (st_id s) (Some p) (pr_outputs pr)) pr"
  | (failed) key ctx w env1 m w' where "\<not> (pr_failed pr \<and> stop_on_first_failure opts)"
      "stage_context d (st_plugin s) (st_input s) (e_world env) = (ctx, w)"
      "key = hash_inputs ctx (st_input s) (pr_upstream pr)"
      "cache_lookup opts key (env\<lparr>e_world := w\<rparr>) = (None, env1)"
      "d_dispatch d (st_plugin s) (st_input s) (pr_outputs pr) (e_world env1) = (Dispatch_error m, w')"
      "env' = env1\<lparr>e_world := w'\<rparr>"
      "pr' = (record_stage \<lparr>sr_id = st_id s, sr_status = Failed, sr_hash = key, sr_error = Some m\<rparr>
          (pr_outputs pr) pr)\<lparr>pr_failed := True\<rparr>"
  | (executed) key ctx w env1 payload w' where "\<not> (pr_failed pr \<and> stop_on_first_failure opts)"
      "stage_context d (st_plugin s) (st_input s) (e_world env) = (ctx, w)"
      "key = hash_inputs ctx (st_input s) (pr_upstream pr)"
      "cache_lookup opts key (env\<lparr>e_world := w\<rparr>) = (None, env1)"
      "d_dispatch d (st_plugin s) (st_input s) (pr_outputs pr) (e_world env1) = (Dispatched payload, w')"
      "env' = store_payload opts key payload (env1\<lparr>e_world := w'\<rparr>)"
      "pr' = record_stage \<lparr>sr_id = st_id s, sr_status = Executed, sr_hash = key, sr_error = None\<rparr>
          (smap_emplace (st_id s) payload (pr_outputs pr)) pr"
  using assms unfolding run_stage_def Let_def
  by (fastforce split: if_splits prod.splits option.splits dispatch_result.splits)

definition delivers :: "stage_result \<Rightarrow> bool" where
  "delivers r = (sr_status r = Cached \<or> sr_status r = Executed)"

definition progress_ok :: "'p run_options \<Rightarrow> stage list \<Rightarrow> 'p progress \<Rightarrow> bool" where
  "progress_ok opts ss pr \<longleftrightarrow>
     map sr_id (pr_results pr) = map st_id ss \<and>
     (pr_failed pr \<longleftrightarrow> (\<exists>r \<in> set (pr_results pr). sr_status r = Failed)) \<and>
     (\<forall>k < length (pr_results pr). sr_status (pr_results pr ! k) = Skipped
        \<longleftrightarrow> stop_on_first_failure opts \<and> (\<exists>j < k. sr_status (pr_results pr ! j) = Failed)) \<and>
     (\<forall>r \<in> set (pr_results pr). sr_error r \<noteq> None \<longleftrightarrow> sr_status r = Failed) \<and>
     smap_ok (pr_outputs pr) \<and>
     fst ` set (pr_outputs pr) = sr_id ` {r \<in> set (pr_results pr). delivers r}"

lemma progress_ok_initial: "progress_ok opts [] initial_progress"
  by (simp add: progress_ok_def initial_progress_def)

lemma skipped_snoc:
  assumes "\<forall>k < length rs. sr_status (rs ! k) = Skipped \<longleftrightarrow> stop \<and> (\<exists>j < k. sr_status (rs ! j) = Failed)"
    and "sr_status r = Skipped \<longleftrightarrow> stop \<and> (\<exists>r \<in> set rs. sr_status r = Failed)"
  shows "\<forall>k < length (rs @ [r]). sr_status ((rs @ [r]) ! k) = Skipped
    \<longleftrightarrow> stop \<and> (\<exists>j < k. sr_status ((rs @ [r]) ! j) = Failed)"
proof (intro allI impI)
  fix k assume "k < length (rs @ [r])"
  then have k: "k \<le> length rs" by simp
  have at: "(rs @ [r]) ! j = rs ! j" if "j < k" for j
    using that k by (simp add: nth_append_left)
  have same: "(\<exists>j < k. sr_status ((rs @ [r]) ! j) = Failed) \<longleftrightarrow> (\<exists>j < k. sr_status (rs ! j) = Failed)"
    by (simp add: at cong: conj_cong)
  show "sr_status ((rs @ [r]) ! k) = Skipped
      \<longleftrightarrow> stop \<and> (\<exists>j < k. sr_status ((rs @ [r]) ! j) = Failed)"
  proof (cases "k = length rs")
    case True
    have "(\<exists>j < length rs. sr_status (rs ! j) = Failed) \<longleftrightarrow> (\<exists>r \<in> set rs. sr_status r = Failed)"
      unfolding Bex_def in_set_conv_nth by blast
    moreover have "(rs @ [r]) ! k = r" using True by simp
    ultimately show ?thesis unfolding same using assms(2) True by metis
  next
    case False
    then have "k < length rs" using k by simp
    then show ?thesis
      unfolding same nth_append_left [OF \<open>k < length rs\<close>] using assms(1) by blast
  qed
qed

lemma progress_ok_step:
  assumes ok: "progress_ok opts ss pr" and run: "run_stage d opts s env pr = (Inr pr', env')"
  shows "progress_ok opts (ss @ [s]) pr'"
proof -
  note P = ok [unfolded progress_ok_def]
  obtain r where r: "pr_results pr' = pr_results pr @ [r]" "sr_id r = st_id s"
    and st: "sr_status r = Skipped \<longleftrightarrow> stop_on_first_failure opts \<and> pr_failed pr"
    and er: "sr_error r \<noteq> None \<longleftrightarrow> sr_status r = Failed"
    and fl: "pr_failed pr' \<longleftrightarrow> pr_failed pr \<or> sr_status r = Failed"
    and out: "smap_ok (pr_outputs pr')"
      "fst ` set (pr_outputs pr') = fst ` set (pr_outputs pr) \<union> (if delivers r then {st_id s} else {})"
    using run P
    by (elim run_stageE) (auto simp: record_stage_def delivers_def)
  have "\<forall>k < length (pr_results pr'). sr_status (pr_results pr' ! k) = Skipped
      \<longleftrightarrow> stop_on_first_failure opts \<and> (\<exists>j < k. sr_status (pr_results pr' ! j) = Failed)"
    unfolding r(1) by (rule skipped_snoc) (use P st in auto)
  moreover have "fst ` set (pr_outputs pr') = sr_id ` {r \<in> set (pr_results pr'). delivers r}"
  proof -
    have "{x \<in> set (pr_results pr'). delivers x}
        = {x \<in> set (pr_results pr). delivers x} \<union> (if delivers r then {r} else {})"
      using r(1) by auto
    then show ?thesis using P r(2) out(2) by auto
  qed
  ultimately show ?thesis unfolding progress_ok_def using P r fl er out(1) by auto
qed

lemma run_stages_invariant:
  assumes step: "\<And>s env pr pr' env'. s \<in> set ss \<Longrightarrow> run_stage d opts s env pr = (Inr pr', env') \<Longrightarrow>
      I env pr \<Longrightarrow> I env' pr'"
    and "run_stages d opts ss env pr = (Inr pr', env')" "I env pr"
  shows "I env' pr'"
  using assms
proof (induction ss arbitrary: env pr)
  case (Cons s ss)
  obtain pr1 env1 where s1: "run_stage d opts s env pr = (Inr pr1, env1)"
      "run_stages d opts ss env1 pr1 = (Inr pr', env')"
    using Cons.prems(2) by (auto split: prod.splits sum.splits)
  have "I env1 pr1" using Cons.prems(1) [OF _ s1(1) Cons.prems(3)] by simp
  from _ s1(2) this show ?case
    by (rule Cons.IH) (use Cons.prems(1) in \<open>meson list.set_intros(2)\<close>)
qed simp

lemma run_stages_progress:
  assumes "run_stages d opts ss env pr = (Inr pr', env')" "progress_ok opts ts pr"
  shows "progress_ok opts (ts @ ss) pr'"
  using assms
proof (induction ss arbitrary: env pr ts)
  case (Cons s ss)
  obtain pr1 env1 where s1: "run_stage d opts s env pr = (Inr pr1, env1)"
      "run_stages d opts ss env1 pr1 = (Inr pr', env')"
    using Cons.prems(1) by (auto split: prod.splits sum.splits)
  from Cons.IH [OF s1(2) progress_ok_step [OF Cons.prems(2) s1(1)]] show ?case by simp
qed simp

section \<open>What a dispatched stage sees\<close>

text \<open>A dispatcher that records its calls: capability, inputs and upstream outputs.\<close>

type_synonym 'p call = "string \<times> pvalue \<times> 'p outputs"

definition logging :: "('p, 'w) dispatcher \<Rightarrow> ('p, 'w \<times> 'p call list) dispatcher" where
  "logging d = \<lparr>
     d_dispatch = (\<lambda>c v outs (w, log).
        case d_dispatch d c v outs w of (r, w) \<Rightarrow> (r, w, log @ [(c, v, outs)])),
     d_version = (\<lambda>c (w, log). case d_version d c w of (x, w) \<Rightarrow> (x, w, log)),
     d_extra = (\<lambda>c v (w, log). case d_extra d c v w of (x, w) \<Rightarrow> (x, w, log)),
     d_plugin_id = d_plugin_id d, d_threading = d_threading d\<rparr>"

lemma logging_context:
  "stage_context (logging d) c v (w, log) = (case stage_context d c v w of (x, w) \<Rightarrow> (x, w, log))"
  by (simp add: stage_context_def logging_def split: prod.splits)

lemma disk_lookup_world: "e_world (snd (disk_lookup opts key env)) = e_world env"
  by (auto simp: disk_lookup_def Let_def split: option.splits prod.splits)

lemma cache_lookup_world: "e_world (snd (cache_lookup opts key env)) = e_world env"
  by (simp add: cache_lookup_def disk_lookup_world split: option.splits)

lemma disk_store_frame:
  "e_world (disk_store opts key p env) = e_world env" "e_cache (disk_store opts key p env) = e_cache env"
  by (auto simp: disk_store_def split: option.splits)

lemma store_payload_world: "e_world (store_payload opts key pl env) = e_world env"
  by (auto simp: store_payload_def disk_store_frame split: option.splits)

lemma run_stage_log:
  assumes "run_stage (logging d) opts s env pr = (res, env')"
  shows "snd (e_world env') = snd (e_world env)
    \<or> \<not> (pr_failed pr \<and> stop_on_first_failure opts)
        \<and> snd (e_world env') = snd (e_world env) @ [(st_plugin s, st_input s, pr_outputs pr)]"
proof (cases "pr_failed pr \<and> stop_on_first_failure opts")
  case True
  then show ?thesis using assms by (simp add: run_stage_def)
next
  case False
  obtain w log where w: "e_world env = (w, log)" by (cases "e_world env")
  obtain ctx w1 where ctx: "stage_context d (st_plugin s) (st_input s) w = (ctx, w1)"
    by (cases "stage_context d (st_plugin s) (st_input s) w")
  let ?key = "hash_inputs ctx (st_input s) (pr_upstream pr)"
  obtain hit env1 where look: "cache_lookup opts ?key (env\<lparr>e_world := (w1, log)\<rparr>) = (hit, env1)"
    by (cases "cache_lookup opts ?key (env\<lparr>e_world := (w1, log)\<rparr>)")
  have w1: "e_world env1 = (w1, log)"
    using cache_lookup_world [of opts ?key "env\<lparr>e_world := (w1, log)\<rparr>"] look by simp
  obtain dr w2 where dr: "d_dispatch d (st_plugin s) (st_input s) (pr_outputs pr) w1 = (dr, w2)"
    by (cases "d_dispatch d (st_plugin s) (st_input s) (pr_outputs pr) w1")
  have dl: "d_dispatch (logging d) (st_plugin s) (st_input s) (pr_outputs pr) (w1, log)
      = (dr, w2, log @ [(st_plugin s, st_input s, pr_outputs pr)])"
    using dr by (simp add: logging_def)
  show ?thesis
    using assms False look dl w1
    by (auto simp: run_stage_def Let_def w ctx logging_context store_payload_world
        split: option.splits dispatch_result.splits)
qed

text \<open>Without a failure so far, every stage done has an output.\<close>

lemma outputs_complete:
  assumes "progress_ok opts ss pr" "\<not> pr_failed pr"
  shows "fst ` set (pr_outputs pr) = st_id ` set ss"
proof -
  note P = assms(1) [unfolded progress_ok_def]
  have none: "sr_status r \<noteq> Failed" if "r \<in> set (pr_results pr)" for r
    using P assms(2) that by blast
  have skip: "sr_status r \<noteq> Skipped" if "r \<in> set (pr_results pr)" for r
  proof -
    from that obtain k where k: "k < length (pr_results pr)" "r = pr_results pr ! k"
      by (metis in_set_conv_nth)
    have "sr_status (pr_results pr ! j) \<noteq> Failed" if "j < k" for j
      using none that k(1) by simp
    then show ?thesis using P k by blast
  qed
  have "{r \<in> set (pr_results pr). delivers r} = set (pr_results pr)"
    using none skip by (auto simp: delivers_def) (metis stage_status.exhaust)
  moreover have "sr_id ` set (pr_results pr) = st_id ` set ss"
    using P by (metis set_map)
  ultimately show ?thesis using P by simp
qed

definition calls_complete :: "'p call list \<Rightarrow> bool" where
  "calls_complete log = (\<forall>(c, v, outs) \<in> set log. refs v \<subseteq> fst ` set outs)"

definition upstream_first :: "stage list \<Rightarrow> bool" where
  "upstream_first ss = (\<forall>k < length ss. refs (st_input (ss ! k)) \<subseteq> st_id ` set (take k ss))"

lemma run_stages_log:
  assumes "run_stages (logging d) opts ss env pr = (res, env')"
    and "upstream_first (done @ ss)" "progress_ok opts done pr" "stop_on_first_failure opts"
    and "calls_complete (snd (e_world env))"
  shows "calls_complete (snd (e_world env'))"
  using assms
proof (induction ss arbitrary: env pr "done")
  case (Cons s ss)
  obtain r1 env1 where s1: "run_stage (logging d) opts s env pr = (r1, env1)"
    by (cases "run_stage (logging d) opts s env pr")
  have "refs (st_input s) \<subseteq> fst ` set (pr_outputs pr)" if "\<not> pr_failed pr"
  proof -
    have "refs (st_input ((done @ s # ss) ! length done)) \<subseteq> st_id ` set (take (length done) (done @ s # ss))"
      using Cons.prems(2) unfolding upstream_first_def by (metis add_Suc_right length_Cons length_append less_add_Suc1)
    then show ?thesis using outputs_complete [OF Cons.prems(3) that] by simp
  qed
  then have good: "calls_complete (snd (e_world env1))"
    using run_stage_log [OF s1] Cons.prems(4,5)
    unfolding calls_complete_def by (elim disjE) simp_all
  show ?case
  proof (cases r1)
    case (Inl e)
    then show ?thesis using Cons.prems(1) s1 good by simp
  next
    case (Inr pr1)
    then have rest: "run_stages (logging d) opts ss env1 pr1 = (res, env')"
      using Cons.prems(1) s1 by simp
    have "progress_ok opts (done @ [s]) pr1"
      using progress_ok_step [OF Cons.prems(3)] s1 Inr by blast
    then show ?thesis using Cons.IH [OF rest, of "done @ [s]"] Cons.prems(2,4) good by simp
  qed
qed simp

lemma topo_upstream_first:
  assumes "dag_ok p" "topo_order p ord"
  shows "upstream_first (map (\<lambda>i. stages p ! i) ord)"
  unfolding upstream_first_def
proof (intro allI impI subsetI)
  fix k r
  assume k: "k < length (map (\<lambda>i. stages p ! i) ord)"
    and r: "r \<in> refs (st_input (map (\<lambda>i. stages p ! i) ord ! k))"
  then have i: "ord ! k < length (stages p)" "deps p (ord ! k) \<subseteq> set (take k ord)"
    using assms(2) by (auto simp: topo_order_def)
  have "r \<in> set (map st_id (stages p))"
    using assms(1) r i(1) k by (auto simp: dag_ok_def refs_ok_def)
  then obtain j where j: "j < length (stages p)" "st_id (stages p ! j) = r"
    by (auto simp: in_set_conv_nth)
  then have "j \<in> set (take k ord)" using i r k by (auto simp: deps_def)
  then show "r \<in> st_id ` set (take k (map (\<lambda>i. stages p ! i) ord))"
    using j by (auto simp: take_map)
qed

section \<open>Running again\<close>

definition stable :: "('p, 'w) dispatcher \<Rightarrow> bool" where
  "stable d = ((\<forall>c w w'. fst (d_version d c w) = fst (d_version d c w')) \<and>
     (\<forall>c v w w'. fst (d_extra d c v w) = fst (d_extra d c v w')))"

definition never_null :: "('p, 'w) dispatcher \<Rightarrow> bool" where
  "never_null d = (\<forall>c v outs w. fst (d_dispatch d c v outs w) \<noteq> Dispatched None)"

lemma stable_context: "stable d \<Longrightarrow> fst (stage_context d c v w) = fst (stage_context d c v w')"
proof -
  assume "stable d"
  then have "fst (d_version d c w) = fst (d_version d c w')"
    "fst (d_extra d c v x) = fst (d_extra d c v y)" for x y
    unfolding stable_def by blast+
  then show ?thesis by (auto simp: stage_context_def Let_def split: prod.splits) (metis fst_conv)+
qed

lemma disk_lookup_cache:
  assumes "disk_lookup opts key env = (hit, env')" "cache_get (e_cache env) key = None"
  shows "(case hit of Some p \<Rightarrow> cache_get (e_cache env') key = Some p | None \<Rightarrow> e_cache env' = e_cache env)"
    and "cache_get (e_cache env) k = Some q \<Longrightarrow> cache_get (e_cache env') k = Some q"
  using assms
  by (auto simp: disk_lookup_def Let_def mem.get_put split: option.splits prod.splits if_splits)

lemma cache_lookup_cache:
  assumes "cache_lookup opts key env = (hit, env')" "use_cache opts"
  shows "hit = Some p \<Longrightarrow> cache_get (e_cache env') key = Some p"
    and "hit = None \<Longrightarrow> e_cache env' = e_cache env \<and> cache_get (e_cache env) key = None"
    and "cache_get (e_cache env) k = Some q \<Longrightarrow> cache_get (e_cache env') k = Some q"
  using assms disk_lookup_cache [of opts key env hit env']
  by (auto simp: cache_lookup_def split: option.splits if_splits)

lemma store_payload_cache:
  assumes "use_cache opts"
  shows "cache_get (e_cache (store_payload opts key (Some p) env)) k
    = (if k = key then Some p else cache_get (e_cache env) k)"
  using assms by (simp add: store_payload_def disk_store_frame mem.get_put)

lemma run_stage_cache_mono:
  assumes "run_stage d opts s env pr = (Inr pr', env')" "use_cache opts" "never_null d"
    and q: "cache_get (e_cache env) k = Some q"
  shows "cache_get (e_cache env') k = Some q"
  using assms(1)
proof (cases rule: run_stageE)
  case (cached key ctx w p)
  then show ?thesis using cache_lookup_cache(3) [OF cached(4) assms(2)] q by simp
next
  case (failed key ctx w env1 m w')
  then show ?thesis using cache_lookup_cache(3) [OF failed(4) assms(2)] q by simp
next
  case (executed key ctx w env1 payload w')
  then obtain p where "payload = Some p"
    using assms(3) unfolding never_null_def by (metis fst_conv option.exhaust)
  then show ?thesis
    using executed cache_lookup_cache(2,3) [OF executed(4) assms(2)] q
    by (auto simp: store_payload_cache [OF assms(2)])
qed (use q in simp)

lemma run_stages_cache_mono:
  assumes "run_stages d opts ss env pr = (Inr pr', env')" "use_cache opts" "never_null d"
    and "cache_get (e_cache env) k = Some q"
  shows "cache_get (e_cache env') k = Some q"
  using run_stages_invariant [OF _ assms(1), of "\<lambda>env pr. cache_get (e_cache env) k = Some q"]
    run_stage_cache_mono [OF _ assms(2,3)] assms(4) by blast

text \<open>The step of the second run that answers a step of the first one.\<close>

definition as_cached :: "stage_result \<Rightarrow> stage_result" where
  "as_cached r = r\<lparr>sr_status := Cached\<rparr>"

definition recached :: "'p progress \<Rightarrow> 'p progress" where
  "recached pr = pr\<lparr>pr_results := map as_cached (pr_results pr)\<rparr>"

lemma recached_simps [simp]:
  "pr_upstream (recached pr) = pr_upstream pr" "pr_outputs (recached pr) = pr_outputs pr"
  "pr_failed (recached pr) = pr_failed pr"
  by (simp_all add: recached_def)

lemma recached_initial [simp]: "recached initial_progress = initial_progress"
  by (simp add: recached_def initial_progress_def)

lemma recached_record:
  "recached (record_stage sr outs pr) = record_stage (as_cached sr) outs (recached pr)"
  by (simp add: recached_def record_stage_def as_cached_def)

lemma run_stage_again:
  assumes d: "stable d" "never_null d" and opts: "use_cache opts"
    and run: "run_stage d opts s env pr = (Inr pr', env')" and ok: "\<not> pr_failed pr'"
    and hits: "\<And>k q. cache_get (e_cache env') k = Some q \<Longrightarrow> cache_get (e_cache env2) k = Some q"
  shows "\<exists>w. run_stage d opts s env2 (recached pr) = (Inr (recached pr'), env2\<lparr>e_world := w\<rparr>)"
proof -
  have again: ?thesis
    if ctx: "stage_context d (st_plugin s) (st_input s) (e_world env) = (ctx, w)"
      and key: "key = hash_inputs ctx (st_input s) (pr_upstream pr)"
      and hit: "cache_get (e_cache env') key = Some p" and pf: "\<not> pr_failed pr"
      and pr': "pr' = record_stage \<lparr>sr_id = st_id s, sr_status = st, sr_hash = key, sr_error = None\<rparr>
          (smap_emplace (st_id s) (Some p) (pr_outputs pr)) pr" for ctx w key p st
  proof -
    obtain w2 where "stage_context d (st_plugin s) (st_input s) (e_world env2) = (ctx, w2)"
      using stable_context [OF d(1)] ctx by (metis fst_conv prod.collapse)
    then show ?thesis
      using key hits [OF hit] pf opts pr'
      by (auto simp: run_stage_def Let_def cache_lookup_def recached_record as_cached_def)
  qed
  from run show ?thesis
  proof (cases rule: run_stageE)
    case (cached key ctx w p)
    then have "\<not> pr_failed pr" using ok by (simp add: record_stage_def)
    from again [OF cached(2,3) _ this cached(5)] cache_lookup_cache(1) [OF cached(4) opts]
    show ?thesis by simp
  next
    case (executed key ctx w env1 payload w')
    then have pf: "\<not> pr_failed pr" using ok by (simp add: record_stage_def)
    obtain p where p: "payload = Some p"
      using d(2) executed(5) unfolding never_null_def by (metis fst_conv option.exhaust)
    show ?thesis
      by (rule again [OF executed(2,3) _ pf executed(7) [unfolded p]])
        (simp add: executed(6) p store_payload_cache [OF opts])
  qed (use ok in simp_all)
qed

lemma run_stages_failed_mono:
  assumes "run_stages d opts ss env pr = (Inr pr', env')" "\<not> pr_failed pr'"
  shows "\<not> pr_failed pr"
proof
  assume "pr_failed pr"
  with assms(1) have "pr_failed pr'"
    by (rule run_stages_invariant [of ss d opts "\<lambda>_ pr. pr_failed pr", rotated])
      (auto elim!: run_stageE simp: record_stage_def)
  with assms(2) show False by simp
qed

lemma run_stages_again:
  assumes d: "stable d" "never_null d" and opts: "use_cache opts"
    and "run_stages d opts ss env pr = (Inr pr', env')" "\<not> pr_failed pr'"
    and "\<And>k q. cache_get (e_cache env') k = Some q \<Longrightarrow> cache_get (e_cache env2) k = Some q"
  shows "\<exists>w. run_stages d opts ss env2 (recached pr) = (Inr (recached pr'), env2\<lparr>e_world := w\<rparr>)"
  using assms(4-6)
proof (induction ss arbitrary: env pr env2)
  case Nil
  then show ?case by (auto intro: exI [of _ "e_world env2"])
next
  case (Cons s ss)
  obtain pr1 env1 where s1: "run_stage d opts s env pr = (Inr pr1, env1)"
      "run_stages d opts ss env1 pr1 = (Inr pr', env')"
    using Cons.prems(1) by (auto split: prod.splits sum.splits)
  have "\<not> pr_failed pr1" using run_stages_failed_mono [OF s1(2) Cons.prems(2)] .
  moreover have "cache_get (e_cache env2) k = Some q" if "cache_get (e_cache env1) k = Some q" for k q
    using Cons.prems(3) run_stages_cache_mono [OF s1(2) opts d(2) that] by blast
  ultimately obtain w where
    w: "run_stage d opts s env2 (recached pr) = (Inr (recached pr1), env2\<lparr>e_world := w\<rparr>)"
    using run_stage_again [OF d opts s1(1)] by blast
  from Cons.IH [OF s1(2) Cons.prems(2), of "env2\<lparr>e_world := w\<rparr>"] Cons.prems(3) obtain w' where
    "run_stages d opts ss (env2\<lparr>e_world := w\<rparr>) (recached pr1)
      = (Inr (recached pr'), env2\<lparr>e_world := w'\<rparr>)" by auto
  then show ?case using w by auto
qed

section \<open>Properties\<close>

lemma run_sequential_returns: "uset_iter iter \<Longrightarrow> run_sequential iter d opts p env \<noteq> None"
  using dag.sorter_returns [of iter p]
  by (auto simp: run_sequential_def split: option.splits sum.splits prod.splits)

text \<open>C3: Results of a run.  A run that is not stopped by an exception or by validation lists one result
  per stage, in an order in which every stage follows the stages its input refers to.  The run succeeds
  exactly when no stage failed, only failed stages carry an error, the stages after the first failure are
  skipped exactly when \<open>stop_on_first_failure\<close> asks for it, and the outputs are those of the executed and
  cached stages.\<close>

theorem run_results:
  assumes it: "uset_iter iter"
    and run: "run_sequential iter d opts p env = Some (Inr r, env')" "rr_status r \<noteq> Validation_failed"
  shows "\<exists>ord. topo_order p ord \<and> map sr_id (rr_stages r) = map (\<lambda>i. st_id (stages p ! i)) ord
    \<and> (rr_status r = Success \<longleftrightarrow> (\<forall>s \<in> set (rr_stages r). sr_status s \<noteq> Failed))
    \<and> (\<forall>s \<in> set (rr_stages r). sr_error s \<noteq> None \<longleftrightarrow> sr_status s = Failed)
    \<and> (\<forall>k < length ord. sr_status (rr_stages r ! k) = Skipped
         \<longleftrightarrow> stop_on_first_failure opts \<and> (\<exists>j < k. sr_status (rr_stages r ! j) = Failed))
    \<and> fst ` set (rr_outputs r) = sr_id ` {s \<in> set (rr_stages r). delivers s}"
proof -
  obtain ord pr where ord: "validate iter p = Some (Inr ord)"
    and rs: "run_stages d opts (map (\<lambda>i. stages p ! i) ord) env initial_progress = (Inr pr, env')"
    and r: "r = finish_run pr"
    using run by (auto simp: run_sequential_def validation_failure_def split: option.splits sum.splits prod.splits)
  have ok: "progress_ok opts (map (\<lambda>i. stages p ! i) ord) pr"
    using run_stages_progress [OF rs progress_ok_initial] by simp
  have ids: "map sr_id (rr_stages r) = map (\<lambda>i. st_id (stages p ! i)) ord"
    using ok by (simp add: progress_ok_def r finish_run_def)
  then have "length (rr_stages r) = length ord" by (metis length_map)
  moreover have "topo_order p ord" using dag.sorter_InrD [OF it ord] by blast
  ultimately show ?thesis
    using ok ids unfolding progress_ok_def r finish_run_def by (intro exI [of _ ord]) auto
qed

text \<open>Validation comes first.  The runner returns on every pipeline, whatever the dispatcher does; a
  pipeline that is not well formed is reported with at least one formatted error and neither touches the
  cache or the disk nor calls the dispatcher.\<close>

theorem run_validates:
  assumes it: "uset_iter iter"
  shows "run_sequential iter d opts p env \<noteq> None \<and>
    (\<not> dag_ok p \<longrightarrow> (\<exists>es. es \<noteq> [] \<and> run_sequential iter d opts p env
       = Some (Inr \<lparr>rr_status = Validation_failed, rr_errors = map format_error es,
                    rr_stages = [], rr_outputs = []\<rparr>, env)))"
proof (intro conjI impI)
  show "run_sequential iter d opts p env \<noteq> None" by (rule run_sequential_returns [OF it])
  show "\<exists>es. es \<noteq> [] \<and> run_sequential iter d opts p env
       = Some (Inr \<lparr>rr_status = Validation_failed, rr_errors = map format_error es,
                    rr_stages = [], rr_outputs = []\<rparr>, env)" if "\<not> dag_ok p"
    using dag.sorter_bad [OF it that] by (auto simp: run_sequential_def validation_failure_def)
qed

text \<open>Inputs are there.  With \<open>stop_on_first_failure\<close>, the dispatcher is only ever called for a stage
  when the outputs it is handed contain an entry for every stage its input refers to, even in a run that
  ends in an exception.\<close>

theorem dispatch_sees_upstream:
  assumes it: "uset_iter iter" and stop: "stop_on_first_failure opts"
    and run: "run_sequential iter (logging d) opts p env = Some (res, env')" and start: "snd (e_world env) = []"
  shows "\<forall>(c, v, outs) \<in> set (snd (e_world env')). refs v \<subseteq> fst ` set outs"
proof (cases "validate iter p")
  case None
  then show ?thesis using run by (simp add: run_sequential_def)
next
  case (Some res0)
  show ?thesis
  proof (cases res0)
    case (Inl es)
    then show ?thesis using Some run start by (simp add: run_sequential_def)
  next
    case (Inr ord)
    then obtain res1 where rs: "run_stages (logging d) opts (map (\<lambda>i. stages p ! i) ord) env initial_progress
        = (res1, env')"
      using Some run by (auto simp: run_sequential_def split: prod.splits sum.splits)
    have "upstream_first (map (\<lambda>i. stages p ! i) ord)"
      using topo_upstream_first dag.sorter_InrD [OF it] Some Inr by blast
    then show ?thesis
      using run_stages_log [OF rs _ progress_ok_initial stop] start
      by (simp add: calls_complete_def)
  qed
qed

text \<open>C16: Incremental runs.  Let the dispatcher's version strings and key extras not change, and let it never
  return a null payload.  After a successful run with the cache on, running the same pipeline again answers
  every stage from the cache: same keys, same outputs, every status \<open>Cached\<close>, no dispatch, and cache and disk
  as they were.\<close>

theorem run_again_cached:
  assumes d: "stable d" "never_null d" and opts: "use_cache opts"
    and run: "run_sequential iter d opts p env = Some (Inr r, env')" "rr_status r = Success"
  shows "\<exists>w. run_sequential iter d opts p env'
    = Some (Inr (r\<lparr>rr_stages := map (\<lambda>s. s\<lparr>sr_status := Cached\<rparr>) (rr_stages r)\<rparr>), env'\<lparr>e_world := w\<rparr>)"
proof -
  obtain ord pr where ord: "validate iter p = Some (Inr ord)"
    and rs: "run_stages d opts (map (\<lambda>i. stages p ! i) ord) env initial_progress = (Inr pr, env')"
    and r: "r = finish_run pr"
    using run by (auto simp: run_sequential_def validation_failure_def split: option.splits sum.splits prod.splits)
  have nf: "\<not> pr_failed pr" using run(2) by (auto simp: r finish_run_def)
  from run_stages_again [OF d opts rs nf, of env'] obtain w where
    "run_stages d opts (map (\<lambda>i. stages p ! i) ord) env' initial_progress
      = (Inr (recached pr), env'\<lparr>e_world := w\<rparr>)" by auto
  then show ?thesis
    using ord by (auto simp: run_sequential_def r finish_run_def recached_def as_cached_def)
qed

text \<open>A pipeline of one reader and a dispatcher that counts its calls, for the witnesses.\<close>

definition single :: pipeline where
  "single = \<lparr>version = 1, stages = [\<lparr>st_id = ''a'', st_plugin = ''reader.x'', st_input = Null\<rparr>]\<rparr>"

definition counter :: "(nat, nat) dispatcher" where
  "counter = \<lparr>d_dispatch = (\<lambda>c v outs n. (Dispatched (Some n), n + 1)),
     d_version = (\<lambda>c n. (''1'', n)), d_extra = (\<lambda>c v n. ([], n)),
     d_plugin_id = (\<lambda>c. c), d_threading = (\<lambda>c. Single_threaded)\<rparr>"

definition memory_only :: "nat run_options" where
  "memory_only = \<lparr>use_cache = True, stop_on_first_failure = True, max_workers = 1, disk_backing = None\<rparr>"

definition fresh_env :: "'w \<Rightarrow> (nat, 'w) env" where
  "fresh_env w = \<lparr>e_cache = [], e_disk = blank_disk, e_world = w\<rparr>"

definition single_key :: hash where
  "single_key = hash_inputs ''reader.x@1'' Null []"

lemma validate_single: "validate remdups single = Some (Inr [0])"
  by code_simp

lemma single_stage:
  "stages single ! 0 = \<lparr>st_id = ''a'', st_plugin = ''reader.x'', st_input = Null\<rparr>"
  by (simp add: single_def)

lemma run_single:
  "run_sequential remdups counter memory_only single (fresh_env 7)
     = Some (Inr \<lparr>rr_status = Success, rr_errors = [],
          rr_stages = [\<lparr>sr_id = ''a'', sr_status = Executed, sr_hash = single_key, sr_error = None\<rparr>],
          rr_outputs = [(''a'', Some 7)]\<rparr>,
        \<lparr>e_cache = [(single_key, Some 7)], e_disk = blank_disk, e_world = 8\<rparr>)"
  by (simp add: run_sequential_def validate_single single_stage run_stage_def counter_def memory_only_def
      fresh_env_def stage_context_def cache_lookup_def disk_lookup_def cache_get_def store_payload_def
      disk_store_def cache_put_def record_stage_def initial_progress_def finish_run_def single_key_def Let_def)

theorem run_validates_witness:
  "\<exists>es. es \<noteq> [] \<and> run_sequential remdups counter memory_only loop2 (fresh_env 7)
       = Some (Inr \<lparr>rr_status = Validation_failed, rr_errors = map format_error es,
                    rr_stages = [], rr_outputs = []\<rparr>, fresh_env 7)"
proof -
  have "\<not> dag_ok loop2" using loop2_cyclic(1) by (auto simp: dag_ok_def acyclic_def)
  then show ?thesis using run_validates [OF uset_iter_remdups, of counter memory_only loop2 "fresh_env 7"] by blast
qed

theorem run_results_witness:
  "\<exists>ord. topo_order single ord \<and> [''a''] = map (\<lambda>i. st_id (stages single ! i)) ord"
  using run_results [OF uset_iter_remdups run_single] by auto

theorem run_again_cached_witness:
  "\<exists>w. run_sequential remdups counter memory_only single
      \<lparr>e_cache = [(single_key, Some 7)], e_disk = blank_disk, e_world = 8\<rparr>
    = Some (Inr \<lparr>rr_status = Success, rr_errors = [],
          rr_stages = [\<lparr>sr_id = ''a'', sr_status = Cached, sr_hash = single_key, sr_error = None\<rparr>],
          rr_outputs = [(''a'', Some 7)]\<rparr>,
        \<lparr>e_cache = [(single_key, Some 7)], e_disk = blank_disk, e_world = w\<rparr>)"
proof -
  have "stable counter" "never_null counter" "use_cache memory_only"
    by (simp_all add: stable_def never_null_def counter_def memory_only_def)
  from run_again_cached [OF this run_single] show ?thesis by simp
qed

theorem dispatch_sees_upstream_witness:
  "\<exists>res env'. run_sequential remdups (logging counter) memory_only single (fresh_env (7, [])) = Some (res, env')
     \<and> (\<forall>(c, v, outs) \<in> set (snd (e_world env')). refs v \<subseteq> fst ` set outs)"
proof -
  obtain res env' where run:
    "run_sequential remdups (logging counter) memory_only single (fresh_env (7, [])) = Some (res, env')"
    using run_sequential_returns [OF uset_iter_remdups, of "logging counter" memory_only single "fresh_env (7, [])"]
    by auto
  have "stop_on_first_failure memory_only" "snd (e_world (fresh_env (7, []))) = []"
    by (simp_all add: memory_only_def fresh_env_def)
  from dispatch_sees_upstream [OF uset_iter_remdups this(1) run this(2)] run show ?thesis by blast
qed

end
