(* ===== verification/Parallel.thy ===== *)
theory Parallel
  imports Runner
begin

text \<open>
  The parallel runner (src/pipeline/parallel_runner.cpp): worker threads over a shared scheduler
  state.  Every worker carries its program counter; \<open>worker_step\<close> is its next atomic action, one
  critical section under \<open>mu\<close>, one operation of the thread-safe caches, one acquisition or release
  of a plugin lock, one dispatcher call; it is \<open>None\<close> for a worker that waits or has returned.
  Interleavings are sequences of worker numbers.
\<close>

section \<open>State\<close>

datatype 'p worker =
    Waiting
  | Taken nat
  | Keyed nat hash
  | Hit nat hash 'p
  | Missed nat hash
  | Snapped nat hash "'p outputs"
  | Dispatching nat hash "'p outputs"
  | Returned nat hash "'p dispatch_result"
  | Stored nat hash "'p option"
  | Exited

fun busy :: "'p worker \<Rightarrow> nat option" where
  "busy (Taken i) = Some i"
| "busy (Keyed i _) = Some i"
| "busy (Hit i _ _) = Some i"
| "busy (Missed i _) = Some i"
| "busy (Snapped i _ _) = Some i"
| "busy (Dispatching i _ _) = Some i"
| "busy (Returned i _ _) = Some i"
| "busy (Stored i _ _) = Some i"
| "busy _ = None"

record ('p, 'w) plan =
  su_stages :: "stage list"
  su_dispatcher :: "('p, 'w) dispatcher"
  su_options :: "'p run_options"
  su_ids :: "string \<rightharpoonup> nat"
  su_upstream :: "string list list"
  su_dependents :: "nat list list"

record ('p, 'w) shared =
  ps_ready :: "nat list"
  ps_degree :: "nat list"
  ps_results :: "stage_result option list"
  ps_hashes :: "hash list"
  ps_outputs :: "'p outputs"
  ps_completed :: nat
  ps_in_flight :: nat
  ps_stop :: bool
  ps_locks :: "string list"
  ps_workers :: "'p worker list"
  ps_env :: "('p, 'w) env"

section \<open>Setup\<close>

definition index_ids :: "stage list \<Rightarrow> (string \<rightharpoonup> nat)" where
  "index_ids ss =
     foldl (\<lambda>ids (i, s). if ids (st_id s) = None then ids(st_id s \<mapsto> i) else ids)
       Map.empty (enumerate 0 ss)"

type_synonym wiring = "string list list \<times> nat list list \<times> nat list"

definition wire_ref :: "(string \<rightharpoonup> nat) \<Rightarrow> nat \<Rightarrow> wiring \<Rightarrow> string \<Rightarrow> wiring" where
  "wire_ref ids i wr r =
     (case wr of (upstream, dependents, degree) \<Rightarrow>
        case ids r of
          None \<Rightarrow> wr
        | Some j \<Rightarrow>
            (upstream[i := upstream ! i @ [r]], dependents[j := dependents ! j @ [i]],
             degree[i := degree ! i + 1]))"

definition wire_stage ::
  "(string list \<Rightarrow> string list) \<Rightarrow> (string \<rightharpoonup> nat) \<Rightarrow> wiring \<Rightarrow> nat \<times> stage \<Rightarrow> wiring" where
  "wire_stage iter ids wr e =
     (case e of (i, s) \<Rightarrow> foldl (wire_ref ids i) wr (iter (collect_stage_refs (st_input s))))"

definition wire :: "(string list \<Rightarrow> string list) \<Rightarrow> stage list \<Rightarrow> wiring" where
  "wire iter ss =
     foldl (wire_stage iter (index_ids ss))
       (replicate (length ss) [], replicate (length ss) [], replicate (length ss) 0) (enumerate 0 ss)"

definition make_plan ::
  "(string list \<Rightarrow> string list) \<Rightarrow> ('p, 'w) dispatcher \<Rightarrow> 'p run_options \<Rightarrow> pipeline \<Rightarrow> ('p, 'w) plan" where
  "make_plan iter d opts p =
     (case wire iter (stages p) of (upstream, dependents, degree) \<Rightarrow>
        \<lparr>su_stages = stages p, su_dispatcher = d, su_options = opts, su_ids = index_ids (stages p),
         su_upstream = upstream, su_dependents = dependents\<rparr>)"

definition worker_count :: "nat \<Rightarrow> nat \<Rightarrow> 'p run_options \<Rightarrow> nat" where
  "worker_count hardware n opts =
     min (if 0 < max_workers opts then max_workers opts else max 1 hardware) n"

definition start_state ::
  "(string list \<Rightarrow> string list) \<Rightarrow> nat \<Rightarrow> 'p run_options \<Rightarrow> pipeline \<Rightarrow> ('p, 'w) env \<Rightarrow> ('p, 'w) shared" where
  "start_state iter hardware opts p env =
     (case wire iter (stages p) of (upstream, dependents, degree) \<Rightarrow>
        \<lparr>ps_ready = filter (\<lambda>i. degree ! i = 0) [0..<length (stages p)], ps_degree = degree,
         ps_results = replicate (length (stages p)) None,
         ps_hashes = replicate (length (stages p)) empty_hash, ps_outputs = [], ps_completed = 0,
         ps_in_flight = 0, ps_stop = False, ps_locks = [],
         ps_workers = replicate (worker_count hardware (length (stages p)) opts) Waiting, ps_env = env\<rparr>)"

section \<open>The critical sections\<close>

definition unblock :: "nat list \<times> nat list \<Rightarrow> nat \<Rightarrow> nat list \<times> nat list" where
  "unblock q dep =
     (case q of (ready, degree) \<Rightarrow>
        let d = decrement (degree ! dep); degree = degree[dep := d]
        in (if d = 0 then ready @ [dep] else ready, degree))"

definition complete ::
  "('p, 'w) plan \<Rightarrow> nat \<Rightarrow> stage_result \<Rightarrow> ('p, 'w) shared \<Rightarrow> ('p, 'w) shared" where
  "complete S i sr s =
     (case foldl unblock (ps_ready s, ps_degree s) (su_dependents S ! i) of (ready, degree) \<Rightarrow>
        s\<lparr>ps_ready := ready, ps_degree := degree, ps_results := (ps_results s)[i := Some sr],
          ps_completed := ps_completed s + 1\<rparr>)"

text \<open>What \<open>process_stage\<close> publishes when the stage is settled.\<close>

definition publish ::
  "('p, 'w) plan \<Rightarrow> nat \<Rightarrow> nat \<Rightarrow> stage_result \<Rightarrow> 'p outputs \<Rightarrow> bool \<Rightarrow> ('p, 'w) shared \<Rightarrow> ('p, 'w) shared" where
  "publish S w i sr outs stop s =
     complete S i sr
       (s\<lparr>ps_hashes := (ps_hashes s)[i := sr_hash sr], ps_outputs := outs,
          ps_in_flight := ps_in_flight s - 1, ps_stop := stop,
          ps_workers := (ps_workers s)[w := Waiting]\<rparr>)"

definition wake_up :: "('p, 'w) shared \<Rightarrow> bool" where
  "wake_up s = (ps_ready s \<noteq> [] \<or> ps_completed s = length (ps_results s)
     \<or> ps_stop s \<and> ps_in_flight s = 0)"

definition go :: "nat \<Rightarrow> 'p worker \<Rightarrow> ('p, 'w) shared \<Rightarrow> ('p, 'w) shared" where
  "go w pc s = s\<lparr>ps_workers := (ps_workers s)[w := pc]\<rparr>"

definition skipped_result :: "string \<Rightarrow> stage_result" where
  "skipped_result i = \<lparr>sr_id = i, sr_status = Skipped, sr_hash = empty_hash, sr_error = None\<rparr>"

definition pick :: "('p, 'w) plan \<Rightarrow> nat \<Rightarrow> ('p, 'w) shared \<Rightarrow> ('p, 'w) shared option" where
  "pick S w s =
     (if \<not> wake_up s then None
      else if ps_completed s = length (ps_results s) then Some (go w Exited s)
      else if ps_stop s \<and> ps_in_flight s = 0 then Some (go w Exited s)
      else case ps_ready s of
             [] \<Rightarrow> None
           | i # rest \<Rightarrow>
               if ps_stop s
               then Some (complete S i (skipped_result (st_id (su_stages S ! i))) (s\<lparr>ps_ready := rest\<rparr>))
               else Some (go w (Taken i) (s\<lparr>ps_ready := rest, ps_in_flight := ps_in_flight s + 1\<rparr>)))"

section \<open>Processing a stage\<close>

definition upstream_hashes_for ::
  "('p, 'w) plan \<Rightarrow> ('p, 'w) shared \<Rightarrow> nat \<Rightarrow> upstream" where
  "upstream_hashes_for S s i =
     concat (map (\<lambda>r. case su_ids S r of None \<Rightarrow> [] | Some j \<Rightarrow> [(r, ps_hashes s ! j)])
       (su_upstream S ! i))"

definition compute_key :: "('p, 'w) plan \<Rightarrow> nat \<Rightarrow> nat \<Rightarrow> ('p, 'w) shared \<Rightarrow> ('p, 'w) shared" where
  "compute_key S w i s =
     (let stage = su_stages S ! i; env = ps_env s;
          (ctx, world) = stage_context (su_dispatcher S) (st_plugin stage) (st_input stage) (e_world env);
          key = hash_inputs ctx (st_input stage) (upstream_hashes_for S s i)
      in go w (Keyed i key) (s\<lparr>ps_env := env\<lparr>e_world := world\<rparr>\<rparr>))"

definition look_up :: "('p, 'w) plan \<Rightarrow> nat \<Rightarrow> nat \<Rightarrow> hash \<Rightarrow> ('p, 'w) shared \<Rightarrow> ('p, 'w) shared" where
  "look_up S w i key s =
     (case cache_lookup (su_options S) key (ps_env s) of
        (None, env) \<Rightarrow> go w (Missed i key) (s\<lparr>ps_env := env\<rparr>)
      | (Some p, env) \<Rightarrow> go w (Hit i key p) (s\<lparr>ps_env := env\<rparr>))"

text \<open>\<open>ReentrancyGuard::acquire\<close>: no lock for a reentrant plugin, else the plugin's own mutex.\<close>

definition plugin_lock :: "('p, 'w) plan \<Rightarrow> nat \<Rightarrow> string option" where
  "plugin_lock S i =
     (let c = st_plugin (su_stages S ! i); d = su_dispatcher S
      in if d_threading d c = Reentrant then None else Some (d_plugin_id d c))"

definition acquire ::
  "('p, 'w) plan \<Rightarrow> nat \<Rightarrow> nat \<Rightarrow> hash \<Rightarrow> 'p outputs \<Rightarrow> ('p, 'w) shared \<Rightarrow> ('p, 'w) shared option" where
  "acquire S w i key outs s =
     (case plugin_lock S i of
        None \<Rightarrow> Some (go w (Dispatching i key outs) s)
      | Some l \<Rightarrow>
          if l \<in> set (ps_locks s) then None
          else Some (go w (Dispatching i key outs) (s\<lparr>ps_locks := l # ps_locks s\<rparr>)))"

definition thrown_error :: "string option \<Rightarrow> string" where
  "thrown_error e =
     (case e of Some what \<Rightarrow> ''dispatcher threw: '' @ what
      | None \<Rightarrow> ''dispatcher threw an unknown exception'')"

text \<open>The call returns, an exception becomes an error, and the lock is released.\<close>

definition finish_dispatch ::
  "('p, 'w) plan \<Rightarrow> nat \<Rightarrow> nat \<Rightarrow> hash \<Rightarrow> 'p outputs \<Rightarrow> ('p, 'w) shared \<Rightarrow> ('p, 'w) shared" where
  "finish_dispatch S w i key outs s =
     (let stage = su_stages S ! i; env = ps_env s;
          (dr, world) = d_dispatch (su_dispatcher S) (st_plugin stage) (st_input stage) outs (e_world env);
          dr = (case dr of Thrown e \<Rightarrow> Dispatch_error (thrown_error e) | _ \<Rightarrow> dr);
          locks = (case plugin_lock S i of None \<Rightarrow> ps_locks s | Some l \<Rightarrow> removeAll l (ps_locks s))
      in go w (Returned i key dr) (s\<lparr>ps_env := env\<lparr>e_world := world\<rparr>, ps_locks := locks\<rparr>))"

definition worker_step :: "('p, 'w) plan \<Rightarrow> nat \<Rightarrow> ('p, 'w) shared \<Rightarrow> ('p, 'w) shared option" where
  "worker_step S w s =
     (if length (ps_workers s) \<le> w then None
      else case ps_workers s ! w of
        Waiting \<Rightarrow> pick S w s
      | Taken i \<Rightarrow> Some (compute_key S w i s)
      | Keyed i key \<Rightarrow> Some (look_up S w i key s)
      | Hit i key p \<Rightarrow>
          let id = st_id (su_stages S ! i) in
          Some (publish S w i \<lparr>sr_id = id, sr_status = Cached, sr_hash = key, sr_error = None\<rparr>
                  (smap_emplace id (Some p) (ps_outputs s)) (ps_stop s) s)
      | Missed i key \<Rightarrow> Some (go w (Snapped i key (ps_outputs s)) s)
      | Snapped i key outs \<Rightarrow> acquire S w i key outs s
      | Dispatching i key outs \<Rightarrow> Some (finish_dispatch S w i key outs s)
      | Returned i key dr \<Rightarrow>
          let id = st_id (su_stages S ! i) in
          (case dr of
             Dispatched payload \<Rightarrow>
               Some (go w (Stored i key payload)
                 (s\<lparr>ps_env := store_payload (su_options S) key payload (ps_env s)\<rparr>))
           | Dispatch_error m \<Rightarrow>
               Some (publish S w i \<lparr>sr_id = id, sr_status = Failed, sr_hash = key, sr_error = Some m\<rparr>
                 (ps_outputs s) (ps_stop s \<or> stop_on_first_failure (su_options S)) s)
           | Thrown e \<Rightarrow> None)
      | Stored i key payload \<Rightarrow>
          let id = st_id (su_stages S ! i) in
          Some (publish S w i \<lparr>sr_id = id, sr_status = Executed, sr_hash = key, sr_error = None\<rparr>
                  (smap_emplace id payload (ps_outputs s)) (ps_stop s) s)
      | Exited \<Rightarrow> None)"

inductive parallel_step :: "('p, 'w) plan \<Rightarrow> ('p, 'w) shared \<Rightarrow> ('p, 'w) shared \<Rightarrow> bool" for S where
  step: "worker_step S w s = Some s' \<Longrightarrow> parallel_step S s s'"

text \<open>An interleaving as the list of workers that move.\<close>

fun run_schedule :: "('p, 'w) plan \<Rightarrow> nat list \<Rightarrow> ('p, 'w) shared \<Rightarrow> ('p, 'w) shared option" where
  "run_schedule S [] s = Some s"
| "run_schedule S (w # ws) s =
     (case worker_step S w s of None \<Rightarrow> None | Some s' \<Rightarrow> run_schedule S ws s')"

section \<open>The result\<close>

definition sweep :: "('p, 'w) plan \<Rightarrow> ('p, 'w) shared \<Rightarrow> stage_result list" where
  "sweep S s =
     map (\<lambda>i. case ps_results s ! i of
              Some sr \<Rightarrow> sr
            | None \<Rightarrow> skipped_result (st_id (su_stages S ! i)))
       [0..<length (su_stages S)]"

definition pack :: "('p, 'w) plan \<Rightarrow> ('p, 'w) shared \<Rightarrow> 'p run_result" where
  "pack S s =
     \<lparr>rr_status = (if list_ex (\<lambda>r. sr_status r = Failed) (sweep S s) then Stage_failed else Success),
      rr_errors = [], rr_stages = sweep S s, rr_outputs = ps_outputs s\<rparr>"

definition all_exited :: "('p, 'w) shared \<Rightarrow> bool" where
  "all_exited s = (\<forall>pc \<in> set (ps_workers s). pc = Exited)"

text \<open>The results a parallel run can return, one for every interleaving that joins all threads.\<close>

definition run_parallel ::
  "(string list \<Rightarrow> string list) \<Rightarrow> (string list \<Rightarrow> string list) \<Rightarrow> nat \<Rightarrow> ('p, 'w) dispatcher \<Rightarrow>
     'p run_options \<Rightarrow> pipeline \<Rightarrow> ('p, 'w) env \<Rightarrow> nat list \<Rightarrow> ('p run_result \<times> ('p, 'w) env) option" where
  "run_parallel iter iter' hardware d opts p env schedule =
     (case validate iter p of
        None \<Rightarrow> None
      | Some (Inl es) \<Rightarrow> Some (validation_failure es, env)
      | Some (Inr _) \<Rightarrow>
          if stages p = []
          then Some (\<lparr>rr_status = Success, rr_errors = [], rr_stages = [], rr_outputs = []\<rparr>, env)
          else
            let S = make_plan iter' d opts p
            in case run_schedule S schedule (start_state iter' hardware opts p env) of
                 None \<Rightarrow> None
               | Some s \<Rightarrow> if all_exited s then Some (pack S s, ps_env s) else None)"

section \<open>The wiring is the dependency graph\<close>

lemma index_ids_stages:
  assumes "fst (index_stages i ss errors ids) = []"
  shows "foldl (\<lambda>ids (i, s). if ids (st_id s) = None then ids(st_id s \<mapsto> i) else ids) ids (enumerate i ss)
    = snd (index_stages i ss errors ids)"
  using assms
proof (induction i ss errors ids rule: index_stages.induct)
  case (2 i s ss errors ids)
  have s: "st_id s \<noteq> []" "ids (st_id s) = None"
    using "2.prems" unfolding index_stages_errors by auto
  show ?case using "2.IH"(2) [OF s] "2.prems" s by (simp del: fun_upd_apply)
qed simp

lemma wire_ref_link:
  assumes "fst (link_ref ids i s (errs, c, d) r) = []"
  shows "\<exists>u'. wire_ref ids i (u, c, d) r = (u', snd (link_ref ids i s (errs, c, d) r))"
  using assms by (auto simp: link_ref_def wire_ref_def split: if_splits option.splits)

lemma foldl_wire_ref_link:
  assumes "fst (foldl (link_ref ids i s) (errs, c, d) rs) = []"
  shows "\<exists>u'. foldl (wire_ref ids i) (u, c, d) rs = (u', snd (foldl (link_ref ids i s) (errs, c, d) rs))"
  using assms
proof (induction rs arbitrary: errs c d u)
  case (Cons r rs)
  obtain errs' c' d' where l: "link_ref ids i s (errs, c, d) r = (errs', c', d')"
    by (cases "link_ref ids i s (errs, c, d) r")
  have "errs' = []"
    using Cons.prems foldl_link_ref_errors [of ids i s "(errs', c', d')" rs] by (auto simp: l)
  with wire_ref_link [of ids i s errs c d r u] l obtain u' where
    "wire_ref ids i (u, c, d) r = (u', c', d')" by auto
  then show ?case using Cons.IH [of errs' c' d' u'] Cons.prems by (simp add: l)
qed simp

lemma foldl_wire_link:
  assumes "fst (foldl (link_stage iter ids) (errs, c, d) es) = []" "uset_iter iter"
  shows "\<exists>u'. foldl (wire_stage iter ids) (u, c, d) es
    = (u', snd (foldl (link_stage iter ids) (errs, c, d) es))"
  using assms(1)
proof (induction es arbitrary: errs c d u)
  case (Cons e es)
  obtain i s where e: "e = (i, s)" by (cases e)
  obtain errs' c' d' where l: "link_stage iter ids (errs, c, d) e = (errs', c', d')"
    by (cases "link_stage iter ids (errs, c, d) e")
  have "errs' = []"
    using Cons.prems foldl_link_stage_errors [OF assms(2), of ids "(errs', c', d')" es] by (auto simp: l)
  with foldl_wire_ref_link [of ids i s errs c d "iter (collect_stage_refs (st_input s))" u] l e
  obtain u' where "wire_stage iter ids (u, c, d) e = (u', c', d')"
    by (auto simp: wire_stage_def link_stage_def)
  then show ?case using Cons.IH [of errs' c' d' u'] Cons.prems by (simp add: l)
qed simp

lemma foldl_wire_ref_upstream:
  "i < length u \<Longrightarrow> fst (foldl (wire_ref ids i) (u, c, d) rs)
     = u[i := u ! i @ filter (\<lambda>r. ids r \<noteq> None) rs]"
proof (induction rs arbitrary: u c d)
  case (Cons r rs)
  then show ?case by (cases "ids r") (simp_all add: wire_ref_def)
qed simp

lemma foldl_wire_upstream:
  assumes "k + length ss \<le> length u" "\<forall>i. k \<le> i \<longrightarrow> i < length u \<longrightarrow> u ! i = []"
  shows "length (fst (foldl (wire_stage iter ids) (u, c, d) (enumerate k ss))) = length u
    \<and> (\<forall>i < length u. fst (foldl (wire_stage iter ids) (u, c, d) (enumerate k ss)) ! i
         = (if k \<le> i \<and> i < k + length ss
            then filter (\<lambda>r. ids r \<noteq> None) (iter (collect_stage_refs (st_input (ss ! (i - k)))))
            else u ! i))"
  using assms
proof (induction ss arbitrary: k u c d)
  case (Cons s ss)
  obtain u' c' d' where w: "wire_stage iter ids (u, c, d) (k, s) = (u', c', d')"
    by (cases "wire_stage iter ids (u, c, d) (k, s)")
  have k: "k < length u" using Cons.prems(1) by simp
  have u': "u' = u[k := filter (\<lambda>r. ids r \<noteq> None) (iter (collect_stage_refs (st_input s)))]"
    using foldl_wire_ref_upstream [OF k, of ids c d "iter (collect_stage_refs (st_input s))"] w
      Cons.prems(2) k by (simp add: wire_stage_def)
  show ?case
    using Cons.IH [of "k + 1" u' c' d'] Cons.prems u' k
    by (auto simp: w nth_list_update nth_Cons' split: if_splits)
next
  case (Nil k)
  show ?case by simp (meson leD)
qed

definition plan_ok :: "('p, 'w) plan \<Rightarrow> pipeline \<Rightarrow> bool" where
  "plan_ok S p \<longleftrightarrow>
     su_stages S = stages p \<and> dag_ok p \<and> length (su_dependents S) = length (stages p) \<and>
     (\<forall>j < length (stages p). distinct (su_dependents S ! j)
        \<and> set (su_dependents S ! j) = {i. i < length (stages p) \<and> j \<in> deps p i}) \<and>
     (\<forall>i < length (stages p). set (su_upstream S ! i) = refs (st_input (stages p ! i))) \<and>
     index_good (stages p) (su_ids S)"

lemma wire_plan:
  assumes it: "uset_iter iter" and ok: "dag_ok p"
  shows "plan_ok (make_plan iter d opts p) p"
    and "case wire iter (stages p) of (u, c, deg) \<Rightarrow>
      length deg = length (stages p) \<and> (\<forall>i < length (stages p). deg ! i = card (deps p i))"
proof -
  let ?n = "length (stages p)"
  have io: "ids_ok p" "refs_ok p" using ok by (simp_all add: dag_ok_def)
  obtain ids where idx: "index_stages 0 (stages p) [] Map.empty = ([], ids)"
    and good: "index_good (stages p) ids" using ids_ok_index [OF io(1)] by blast
  have ids: "index_ids (stages p) = ids"
    using index_ids_stages [of 0 "stages p" "[]" Map.empty] idx by (simp add: index_ids_def)
  have dist: "distinct (map st_id (stages p))" using io(1) by (simp add: ids_ok_def)
  have res: "\<forall>s \<in> set (stages p). st_id s \<notin> refs (st_input s) \<and> (\<forall>r \<in> refs (st_input s). ids r \<noteq> None)"
    using io(2) index_good_None [OF good] unfolding refs_ok_def by blast
  from foldl_link_stage_linked [OF it good dist res, of "deps p"] deps_producers [OF good]
  obtain c deg where lnk: "foldl (link_stage iter ids) ([], replicate ?n [], replicate ?n 0)
      (enumerate 0 (stages p)) = ([], c, deg)" and linked: "linked (deps p) ?n ?n {} ([], c, deg)"
    by auto
  from foldl_wire_link [OF _ it, of ids "[]" "replicate ?n []" "replicate ?n 0" "enumerate 0 (stages p)"
      "replicate ?n []"] lnk ids obtain u where w: "wire iter (stages p) = (u, c, deg)"
    by (auto simp: wire_def)
  have up: "set (u ! i) = refs (st_input (stages p ! i))" if "i < ?n" for i
  proof -
    have "u ! i = filter (\<lambda>r. ids r \<noteq> None) (iter (collect_stage_refs (st_input (stages p ! i))))"
      using foldl_wire_upstream [of 0 "stages p" "replicate ?n []" iter ids "replicate ?n []" "replicate ?n 0"]
        that w ids by (simp add: wire_def)
    moreover have "set (iter (collect_stage_refs (st_input (stages p ! i)))) = refs (st_input (stages p ! i))"
      using it by (simp add: uset_iter_def)
    moreover have "\<forall>r \<in> refs (st_input (stages p ! i)). ids r \<noteq> None"
      using res nth_mem [OF that] by blast
    ultimately show ?thesis by auto
  qed
  show "plan_ok (make_plan iter d opts p) p"
    using linked up good ok by (auto simp: plan_ok_def make_plan_def w ids linked_def)
  show "case wire iter (stages p) of (u, c, deg) \<Rightarrow>
      length deg = length (stages p) \<and> (\<forall>i < length (stages p). deg ! i = card (deps p i))"
    using linked by (simp add: w linked_def)
qed

section \<open>The scheduler's invariant\<close>

definition busy_at :: "('p, 'w) shared \<Rightarrow> nat \<Rightarrow> nat \<Rightarrow> bool" where
  "busy_at s w i = (w < length (ps_workers s) \<and> busy (ps_workers s ! w) = Some i)"

definition unsettled :: "('p, 'w) shared \<Rightarrow> nat set \<Rightarrow> nat set" where
  "unsettled s A = {j \<in> A. ps_results s ! j = None}"

definition busy_workers :: "('p, 'w) shared \<Rightarrow> nat set" where
  "busy_workers s = {w. w < length (ps_workers s) \<and> busy (ps_workers s ! w) \<noteq> None}"

definition settled :: "('p, 'w) shared \<Rightarrow> nat set" where
  "settled s = {i. i < length (ps_results s) \<and> ps_results s ! i \<noteq> None}"

text \<open>Every stage waits for an upstream stage, is queued once, is held by one worker, or is settled.\<close>

definition sched_ok :: "pipeline \<Rightarrow> ('p, 'w) shared \<Rightarrow> bool" where
  "sched_ok p s \<longleftrightarrow> (let n = length (stages p) in
     length (ps_degree s) = n \<and> length (ps_results s) = n \<and> length (ps_hashes s) = n \<and>
     (\<forall>i < n. ps_degree s ! i = card (unsettled s (deps p i))) \<and>
     distinct (ps_ready s) \<and> set (ps_ready s) \<subseteq> {..<n} \<and>
     (\<forall>w i. busy_at s w i \<longrightarrow> i < n \<and> i \<notin> set (ps_ready s)) \<and>
     (\<forall>i < n. ps_results s ! i = None \<and> ps_degree s ! i = 0
        \<longleftrightarrow> i \<in> set (ps_ready s) \<or> (\<exists>w. busy_at s w i)) \<and>
     (\<forall>i < n. ps_results s ! i \<noteq> None \<longrightarrow> ps_degree s ! i = 0) \<and>
     (\<forall>w w' i. busy_at s w i \<longrightarrow> busy_at s w' i \<longrightarrow> w = w'))"

definition counts_ok :: "('p, 'w) shared \<Rightarrow> bool" where
  "counts_ok s \<longleftrightarrow>
     ps_completed s = card (settled s) \<and> ps_in_flight s = card (busy_workers s) \<and>
     (Exited \<in> set (ps_workers s) \<longrightarrow>
        ps_completed s = length (ps_results s) \<or> ps_stop s \<and> ps_in_flight s = 0)"

lemma sched_okD:
  assumes "sched_ok p s"
  shows "length (ps_degree s) = length (stages p)" "length (ps_results s) = length (stages p)"
    "length (ps_hashes s) = length (stages p)"
    "\<And>i. i < length (stages p) \<Longrightarrow> ps_degree s ! i = card (unsettled s (deps p i))"
    "distinct (ps_ready s)" "\<And>i. i \<in> set (ps_ready s) \<Longrightarrow> i < length (stages p)"
    "\<And>w i. busy_at s w i \<Longrightarrow> i < length (stages p)" "\<And>w i. busy_at s w i \<Longrightarrow> i \<notin> set (ps_ready s)"
    "\<And>i. i < length (stages p) \<Longrightarrow> ps_results s ! i = None \<and> ps_degree s ! i = 0
        \<longleftrightarrow> i \<in> set (ps_ready s) \<or> (\<exists>w. busy_at s w i)"
    "\<And>i. i < length (stages p) \<Longrightarrow> ps_results s ! i \<noteq> None \<Longrightarrow> ps_degree s ! i = 0"
    "\<And>w w' i. busy_at s w i \<Longrightarrow> busy_at s w' i \<Longrightarrow> w = w'"
  using assms unfolding sched_ok_def Let_def by blast+

lemma sched_okI:
  assumes "length (ps_degree s) = length (stages p)" "length (ps_results s) = length (stages p)"
    "length (ps_hashes s) = length (stages p)"
    "\<And>i. i < length (stages p) \<Longrightarrow> ps_degree s ! i = card (unsettled s (deps p i))"
    "distinct (ps_ready s)" "\<And>i. i \<in> set (ps_ready s) \<Longrightarrow> i < length (stages p)"
    "\<And>w i. busy_at s w i \<Longrightarrow> i < length (stages p)" "\<And>w i. busy_at s w i \<Longrightarrow> i \<notin> set (ps_ready s)"
    "\<And>i. i < length (stages p) \<Longrightarrow> ps_results s ! i = None \<and> ps_degree s ! i = 0
        \<longleftrightarrow> i \<in> set (ps_ready s) \<or> (\<exists>w. busy_at s w i)"
    "\<And>i. i < length (stages p) \<Longrightarrow> ps_results s ! i \<noteq> None \<Longrightarrow> ps_degree s ! i = 0"
    "\<And>w w' i. busy_at s w i \<Longrightarrow> busy_at s w' i \<Longrightarrow> w = w'"
  shows "sched_ok p s"
  unfolding sched_ok_def Let_def using assms by blast

lemma finite_deps [simp]: "finite (deps p i)"
  unfolding deps_def by simp

lemma finite_unsettled [simp]: "finite (unsettled s (deps p i))"
  unfolding unsettled_def by simp

lemma foldl_unblock:
  assumes "distinct cs" "\<forall>c \<in> set cs. c < length deg \<and> 0 < deg ! c"
  shows "\<exists>deg'. foldl unblock (ready, deg) cs = (ready @ filter (\<lambda>c. deg ! c = 1) cs, deg')
    \<and> length deg' = length deg
    \<and> (\<forall>i < length deg. deg' ! i = (if i \<in> set cs then deg ! i - 1 else deg ! i))"
  using assms
proof (induction cs arbitrary: ready deg)
  case (Cons c cs)
  define deg1 where "deg1 = deg[c := deg ! c - 1]"
  have step: "unblock (ready, deg) c = (if deg ! c = 1 then ready @ [c] else ready, deg1)"
    using Cons.prems by (simp add: unblock_def decrement_def Let_def deg1_def)
  have pre: "\<forall>x \<in> set cs. x < length deg1 \<and> 0 < deg1 ! x"
    using Cons.prems by (auto simp: deg1_def nth_list_update)
  have f: "filter (\<lambda>c. deg1 ! c = 1) cs = filter (\<lambda>c. deg ! c = 1) cs"
    using Cons.prems by (auto simp: deg1_def nth_list_update intro!: filter_cong)
  from Cons.IH [OF _ pre, of "if deg ! c = 1 then ready @ [c] else ready"] Cons.prems f obtain deg' where
    d': "foldl unblock (if deg ! c = 1 then ready @ [c] else ready, deg1) cs
        = ((if deg ! c = 1 then ready @ [c] else ready) @ filter (\<lambda>c. deg ! c = 1) cs, deg')"
      "length deg' = length deg1"
      "\<forall>i < length deg1. deg' ! i = (if i \<in> set cs then deg1 ! i - 1 else deg1 ! i)" by auto
  have "\<forall>i < length deg. deg' ! i = (if i \<in> set (c # cs) then deg ! i - 1 else deg ! i)"
    using d'(3) Cons.prems by (auto simp: deg1_def nth_list_update)
  then show ?case using d'(1,2) step by (auto simp: deg1_def)
qed simp

text \<open>Settling stage \<open>i\<close>, which no queue holds any more.\<close>

lemma complete_effect:
  assumes plan: "plan_ok S p"
    and len: "length (ps_degree s) = length (stages p)" "length (ps_results s) = length (stages p)"
    and deg: "\<forall>i < length (stages p). ps_degree s ! i = card (unsettled s (deps p i))"
    and i: "i < length (stages p)" "ps_results s ! i = None"
  defines "new \<equiv> filter (\<lambda>c. ps_degree s ! c = 1) (su_dependents S ! i)"
  shows "ps_ready (complete S i sr s) = ps_ready s @ new"
    and "ps_results (complete S i sr s) = (ps_results s)[i := Some sr]"
    and "length (ps_degree (complete S i sr s)) = length (stages p)"
    and "\<forall>k < length (stages p). ps_degree (complete S i sr s) ! k
        = card (unsettled (complete S i sr s) (deps p k))"
    and "distinct new" "set new = {k. k < length (stages p) \<and> unsettled s (deps p k) = {i}}"
    and "ps_completed (complete S i sr s) = ps_completed s + 1"
proof -
  let ?n = "length (stages p)" and ?cs = "su_dependents S ! i"
  have cs: "distinct ?cs" "set ?cs = {k. k < ?n \<and> i \<in> deps p k}"
    using plan i(1) by (simp_all add: plan_ok_def)
  have mem: "i \<in> unsettled s (deps p k)" if "k \<in> set ?cs" for k
    using that cs(2) i(2) by (simp add: unsettled_def)
  have pos: "\<forall>c \<in> set ?cs. c < length (ps_degree s) \<and> 0 < ps_degree s ! c"
    using mem cs(2) deg len by (auto simp: card_gt_0_iff)
  from foldl_unblock [OF cs(1) pos, of "ps_ready s"] obtain deg' where
    f: "foldl unblock (ps_ready s, ps_degree s) ?cs = (ps_ready s @ new, deg')"
      "length deg' = length (ps_degree s)"
      "\<forall>k < length (ps_degree s). deg' ! k = (if k \<in> set ?cs then ps_degree s ! k - 1 else ps_degree s ! k)"
    unfolding new_def by blast
  show res: "ps_results (complete S i sr s) = (ps_results s)[i := Some sr]"
    and "ps_ready (complete S i sr s) = ps_ready s @ new"
    and "length (ps_degree (complete S i sr s)) = length (stages p)"
    and "ps_completed (complete S i sr s) = ps_completed s + 1"
    using f len by (simp_all add: complete_def)
  have uns: "unsettled (complete S i sr s) (deps p k) = unsettled s (deps p k) - {i}" for k
    using i len(2) by (auto simp: unsettled_def res nth_list_update)
  show "\<forall>k < ?n. ps_degree (complete S i sr s) ! k = card (unsettled (complete S i sr s) (deps p k))"
  proof (intro allI impI)
    fix k assume k: "k < ?n"
    have "i \<in> unsettled s (deps p k) \<longleftrightarrow> k \<in> set ?cs"
      using k cs(2) i(2) by (auto simp: unsettled_def)
    then show "ps_degree (complete S i sr s) ! k = card (unsettled (complete S i sr s) (deps p k))"
      unfolding uns using f len deg k by (simp add: complete_def card_Diff_singleton_if)
  qed
  show "distinct new" using cs(1) by (simp add: new_def)
  show "set new = {k. k < ?n \<and> unsettled s (deps p k) = {i}}"
  proof (intro set_eqI iffI)
    fix k assume "k \<in> set new"
    then have k: "k \<in> set ?cs" "k < ?n" "card (unsettled s (deps p k)) = 1"
      using deg cs(2) by (auto simp: new_def)
    then show "k \<in> {k. k < ?n \<and> unsettled s (deps p k) = {i}}"
      using mem [OF k(1)] by (auto simp: card_1_singleton_iff)
  next
    fix k assume "k \<in> {k. k < ?n \<and> unsettled s (deps p k) = {i}}"
    then have k: "k < ?n" "unsettled s (deps p k) = {i}" by auto
    then have "i \<in> deps p k" by (auto simp: unsettled_def)
    then show "k \<in> set new" using k cs(2) deg by (simp add: new_def)
  qed
qed

lemma busy_at_complete [simp]: "busy_at (complete S i sr s) w k = busy_at s w k"
  by (simp add: busy_at_def complete_def split: prod.splits)

lemma complete_workers [simp]:
  "ps_workers (complete S i sr s) = ps_workers s" "ps_in_flight (complete S i sr s) = ps_in_flight s"
  "ps_stop (complete S i sr s) = ps_stop s" "ps_hashes (complete S i sr s) = ps_hashes s"
  "ps_outputs (complete S i sr s) = ps_outputs s" "ps_locks (complete S i sr s) = ps_locks s"
  "ps_env (complete S i sr s) = ps_env s"
  by (simp_all add: complete_def split: prod.splits)

lemma not_own_dep: "dag_ok p \<Longrightarrow> i \<notin> deps p i"
  unfolding dag_ok_def acyclic_def dep_rel_def deps_def by (auto intro: trancl.intros)

text \<open>Stage \<open>i\<close> is in limbo: taken out of the queue or off its worker, not settled yet.\<close>

lemma complete_sched:
  assumes plan: "plan_ok S p" and i: "i < length (stages p)" "ps_results s ! i = None" "ps_degree s ! i = 0"
    and limbo: "i \<notin> set (ps_ready s)" "\<And>w. \<not> busy_at s w i"
    and ok: "length (ps_degree s) = length (stages p)" "length (ps_results s) = length (stages p)"
      "length (ps_hashes s) = length (stages p)"
      "\<And>k. k < length (stages p) \<Longrightarrow> ps_degree s ! k = card (unsettled s (deps p k))"
      "distinct (ps_ready s)" "\<And>k. k \<in> set (ps_ready s) \<Longrightarrow> k < length (stages p)"
      "\<And>w k. busy_at s w k \<Longrightarrow> k < length (stages p)" "\<And>w k. busy_at s w k \<Longrightarrow> k \<notin> set (ps_ready s)"
      "\<And>k. k < length (stages p) \<Longrightarrow> k \<noteq> i \<Longrightarrow> ps_results s ! k = None \<and> ps_degree s ! k = 0
          \<longleftrightarrow> k \<in> set (ps_ready s) \<or> (\<exists>w. busy_at s w k)"
      "\<And>k. k < length (stages p) \<Longrightarrow> ps_results s ! k \<noteq> None \<Longrightarrow> ps_degree s ! k = 0"
      "\<And>w w' k. busy_at s w k \<Longrightarrow> busy_at s w' k \<Longrightarrow> w = w'"
  shows "sched_ok p (complete S i sr s)"
proof -
  let ?n = "length (stages p)" and ?t = "complete S i sr s"
  define new where "new = filter (\<lambda>c. ps_degree s ! c = 1) (su_dependents S ! i)"
  have degs: "\<forall>k < ?n. ps_degree s ! k = card (unsettled s (deps p k))" using ok(4) by blast
  note E = complete_effect [OF plan ok(1,2) degs i(1,2), folded new_def]
  have res: "ps_results ?t ! k = (if k = i then Some sr else ps_results s ! k)" if "k < ?n" for k
    using E(2) i(1) ok(2) that by (simp add: nth_list_update)
  have deg1: "ps_degree s ! k \<noteq> 0" if "k \<in> set new" for k
    using that E(6) ok(4) by auto
  have fresh: "k \<notin> set (ps_ready s)" "\<not> busy_at s w k" "ps_results s ! k = None" if "k \<in> set new" for k w
  proof -
    have k: "k < ?n" "k \<noteq> i" using that E(6) deg1 [OF that] i(3) by auto
    show "ps_results s ! k = None" using ok(10) [OF k(1)] deg1 [OF that] by blast
    show "k \<notin> set (ps_ready s)" "\<not> busy_at s w k"
      using ok(9) [OF k] deg1 [OF that] by auto
  qed
  have uns: "unsettled ?t (deps p k) = unsettled s (deps p k) - {i}" for k
    using E(2) i ok(2) by (auto simp: unsettled_def nth_list_update)
  have cls: "ps_results ?t ! k = None \<and> ps_degree ?t ! k = 0
      \<longleftrightarrow> k \<in> set (ps_ready ?t) \<or> (\<exists>w. busy_at ?t w k)" if k: "k < ?n" for k
  proof (cases "k = i")
    case True
    have "i \<notin> set new" using deg1 [of i] i(3) by auto
    then show ?thesis using True res [OF k] limbo E(1) by simp
  next
    case False
    have "ps_degree ?t ! k = 0 \<longleftrightarrow> unsettled s (deps p k) = {} \<or> unsettled s (deps p k) = {i}"
      using E(4) k uns [of k] finite_unsettled [of s p k] by auto
    moreover have "ps_degree s ! k = 0 \<longleftrightarrow> unsettled s (deps p k) = {}" using ok(4) k by simp
    moreover have "k \<in> set new \<longleftrightarrow> unsettled s (deps p k) = {i}" using E(6) k by auto
    ultimately show ?thesis
      using res [OF k] False ok(9) [OF k False] E(1) fresh(3) [of k] by auto
  qed
  have dg: "ps_degree ?t ! k = 0" if k: "k < ?n" and r: "ps_results ?t ! k \<noteq> None" for k
  proof -
    have "unsettled s (deps p k) = {}"
      using ok(10) [OF k] res [OF k] r ok(4) [OF k] i(3) by (cases "k = i") auto
    then show ?thesis using E(4) k uns by simp
  qed
  show ?thesis
  proof (rule sched_okI)
    show "distinct (ps_ready ?t)" using E(1,5) ok(5) fresh(1) by auto
    show "k < ?n" if "k \<in> set (ps_ready ?t)" for k using that E(1,6) ok(6) by auto
    show "k \<notin> set (ps_ready ?t)" if "busy_at ?t w k" for w k
      using that E(1) ok(8) fresh(2) by auto
    show "w = w'" if "busy_at ?t w k" "busy_at ?t w' k" for w w' k
      using that ok(11) by simp
    show "ps_degree ?t ! k = card (unsettled ?t (deps p k))" if "k < ?n" for k
      using that E(4) by blast
  qed (use E(2,3) ok(2,3,7) cls dg in simp_all)
qed

section \<open>Every step keeps the invariant\<close>

lemma go_simps [simp]:
  "ps_ready (go w pc s) = ps_ready s" "ps_degree (go w pc s) = ps_degree s"
  "ps_results (go w pc s) = ps_results s" "ps_hashes (go w pc s) = ps_hashes s"
  "ps_outputs (go w pc s) = ps_outputs s" "ps_completed (go w pc s) = ps_completed s"
  "ps_in_flight (go w pc s) = ps_in_flight s" "ps_stop (go w pc s) = ps_stop s"
  "ps_locks (go w pc s) = ps_locks s" "ps_env (go w pc s) = ps_env s"
  "ps_workers (go w pc s) = (ps_workers s)[w := pc]"
  by (simp_all add: go_def)

lemma busy_at_update:
  "w < length (ps_workers s) \<Longrightarrow> ps_workers s' = (ps_workers s)[w := pc] \<Longrightarrow>
     busy_at s' v i \<longleftrightarrow> (if v = w then busy pc = Some i else busy_at s v i)"
  by (auto simp: busy_at_def)

lemma busy_workers_update:
  "w < length (ps_workers s) \<Longrightarrow> ps_workers s' = (ps_workers s)[w := pc] \<Longrightarrow>
     busy_workers s' = (if busy pc = None then busy_workers s - {w} else insert w (busy_workers s))"
  by (auto simp: busy_workers_def nth_list_update)

lemma finite_busy_workers [simp]: "finite (busy_workers s)"
  by (simp add: busy_workers_def)

text \<open>A worker that only moves its program counter within a stage.\<close>

fun rank :: "'p worker \<Rightarrow> nat" where
  "rank (Taken _) = 9"
| "rank (Keyed _ _) = 8"
| "rank (Hit _ _ _) = 7"
| "rank (Missed _ _) = 7"
| "rank (Snapped _ _ _) = 6"
| "rank (Dispatching _ _ _) = 5"
| "rank (Returned _ _ _) = 4"
| "rank (Stored _ _ _) = 3"
| "rank Waiting = 1"
| "rank Exited = 0"

definition inner :: "nat \<Rightarrow> ('p, 'w) shared \<Rightarrow> ('p, 'w) shared \<Rightarrow> bool" where
  "inner w s s' = (w < length (ps_workers s) \<and> ps_ready s' = ps_ready s \<and> ps_degree s' = ps_degree s \<and>
     ps_results s' = ps_results s \<and> ps_hashes s' = ps_hashes s \<and> ps_outputs s' = ps_outputs s \<and>
     ps_completed s' = ps_completed s \<and> ps_in_flight s' = ps_in_flight s \<and> ps_stop s' = ps_stop s \<and>
     (\<exists>pc. ps_workers s' = (ps_workers s)[w := pc] \<and> busy (ps_workers s ! w) \<noteq> None \<and>
        busy pc = busy (ps_workers s ! w) \<and> rank pc < rank (ps_workers s ! w)))"

lemma inner_go:
  assumes "w < length (ps_workers s)" "busy (ps_workers s ! w) = Some i" "busy pc = Some i"
    "rank pc < rank (ps_workers s ! w)"
  shows "inner w s (go w pc s)" "inner w s (go w pc (s\<lparr>ps_env := e\<rparr>))"
    "inner w s (go w pc (s\<lparr>ps_locks := l\<rparr>))" "inner w s (go w pc (s\<lparr>ps_env := e, ps_locks := l\<rparr>))"
  using assms by (auto simp: inner_def)

lemma inner_busy: "inner w s s' \<Longrightarrow> busy_at s' v i \<longleftrightarrow> busy_at s v i"
  by (auto simp: inner_def busy_at_def nth_list_update split: if_splits)

lemma inner_sched: "inner w s s' \<Longrightarrow> sched_ok p s \<Longrightarrow> sched_ok p s'"
  using inner_busy [of w s s'] unfolding sched_ok_def unsettled_def by (simp add: inner_def)

lemma exited_update: "Exited \<in> set (xs[w := pc]) \<Longrightarrow> pc \<noteq> Exited \<Longrightarrow> Exited \<in> set xs"
  using set_update_subset_insert [of xs w pc] by blast

lemma busy_not_exited: "busy pc \<noteq> None \<Longrightarrow> pc \<noteq> Exited"
  by auto

lemma inner_counts: "inner w s s' \<Longrightarrow> counts_ok s \<Longrightarrow> counts_ok s'"
proof -
  assume i: "inner w s s'" and c: "counts_ok s"
  then obtain pc where pc: "ps_workers s' = (ps_workers s)[w := pc]" "busy pc \<noteq> None"
      "busy (ps_workers s ! w) \<noteq> None" and w: "w < length (ps_workers s)"
    by (auto simp: inner_def)
  have "w \<in> busy_workers s" using pc(3) w by (simp add: busy_workers_def)
  then have "busy_workers s' = busy_workers s"
    using busy_workers_update [OF w pc(1)] pc(2) by auto
  moreover have "Exited \<in> set (ps_workers s') \<Longrightarrow> Exited \<in> set (ps_workers s)"
    using exited_update [OF _ busy_not_exited [OF pc(2)], of "ps_workers s" w] pc(1) by simp
  ultimately show ?thesis using i c by (auto simp: counts_ok_def settled_def inner_def)
qed

lemma settled_complete:
  assumes "plan_ok S p" "sched_ok p s'" "s' = complete S i sr s" "i < length (stages p)"
    "ps_results s ! i = None" "length (ps_degree s) = length (stages p)"
    "length (ps_results s) = length (stages p)"
    "\<forall>k < length (stages p). ps_degree s ! k = card (unsettled s (deps p k))"
  shows "card (settled s') = card (settled s) + 1" "ps_completed s' = ps_completed s + 1"
    "settled s' = insert i (settled s)"
proof -
  note E = complete_effect [OF assms(1,6,7,8,4,5)]
  show "settled s' = insert i (settled s)"
    using E(2) assms(3,4,7) by (auto simp: settled_def nth_list_update)
  moreover have "finite (settled s)" "i \<notin> settled s" using assms(5) by (simp_all add: settled_def)
  ultimately show "card (settled s') = card (settled s) + 1" by simp
  show "ps_completed s' = ps_completed s + 1" using E(7) assms(3) by simp
qed

lemma take_keeps:
  assumes ok: "sched_ok p s" "counts_ok s" and w: "w < length (ps_workers s)" "ps_workers s ! w = Waiting"
    and ready: "ps_ready s = i # rest" and run: "ps_completed s \<noteq> length (ps_results s)" "\<not> ps_stop s"
  defines "s' \<equiv> go w (Taken i) (s\<lparr>ps_ready := rest, ps_in_flight := ps_in_flight s + 1\<rparr>)"
  shows "sched_ok p s'" "counts_ok s'"
proof -
  note K = sched_okD [OF ok(1)]
  have b: "busy_at s' v k \<longleftrightarrow> (if v = w then k = i else busy_at s v k)" for v k
    using w by (auto simp: s'_def busy_at_def)
  have idle: "\<not> busy_at s w k" for k using w by (simp add: busy_at_def)
  have i: "i \<notin> set rest" "i < length (stages p)" "\<not> busy_at s v i" for v
    using K(5) K(6) [of i] K(8) [of v i] ready by auto
  show "sched_ok p s'"
  proof (rule sched_okI)
    show "ps_results s' ! k = None \<and> ps_degree s' ! k = 0 \<longleftrightarrow> k \<in> set (ps_ready s') \<or> (\<exists>v. busy_at s' v k)"
      if "k < length (stages p)" for k
    proof -
      have "(\<exists>v. busy_at s' v k) \<longleftrightarrow> k = i \<or> (\<exists>v. busy_at s v k)" using b idle by metis
      then show ?thesis using K(9) [OF that] by (auto simp: s'_def ready)
    qed
    show "v = v'" if "busy_at s' v k" "busy_at s' v' k" for v v' k
      using that b i(3) K(11) by (auto split: if_splits)
    show "k < length (stages p)" if "busy_at s' v k" for v k
      using that b i(2) K(7) by (auto split: if_splits)
    show "k \<notin> set (ps_ready s')" if "busy_at s' v k" for v k
      using that b i(1) K(8) [of v k] by (auto simp: s'_def ready split: if_splits)
  qed (use K(1-6,10) ready in \<open>simp_all add: s'_def unsettled_def\<close>)
  have "Exited \<notin> set (ps_workers s)" using ok(2) run by (auto simp: counts_ok_def)
  then have "Exited \<notin> set (ps_workers s')"
    using exited_update [of "ps_workers s" w "Taken i"] by (auto simp: s'_def)
  moreover have "busy_workers s' = insert w (busy_workers s)" "w \<notin> busy_workers s"
    using busy_workers_update [of w s s' "Taken i"] w by (auto simp: s'_def busy_workers_def)
  ultimately show "counts_ok s'" using ok(2) by (simp add: counts_ok_def s'_def settled_def)
qed

lemma drain_keeps:
  assumes plan: "plan_ok S p" and ok: "sched_ok p s" "counts_ok s" and ready: "ps_ready s = i # rest"
    and run: "ps_completed s \<noteq> length (ps_results s)" "\<not> (ps_stop s \<and> ps_in_flight s = 0)"
    and s': "s' = complete S i sr (s\<lparr>ps_ready := rest\<rparr>)"
  shows "sched_ok p s'" "counts_ok s'"
proof -
  note K = sched_okD [OF ok(1)]
  let ?s0 = "s\<lparr>ps_ready := rest\<rparr>"
  have i: "i < length (stages p)" "i \<notin> set rest" "\<And>v. \<not> busy_at s v i"
      "ps_results s ! i = None" "ps_degree s ! i = 0"
    using K(5,6,8) K(9) [of i] ready by auto
  have b: "busy_at ?s0 v k = busy_at s v k" for v k by (simp add: busy_at_def)
  have u: "unsettled ?s0 A = unsettled s A" for A by (simp add: unsettled_def)
  show sched: "sched_ok p s'"
    unfolding s'
  proof (rule complete_sched [OF plan i(1)], goal_cases)
    case (13 k)
    then show ?case using K(9) [of k] by (simp add: b ready)
  next
    case (12 w k)
    then show ?case using K(8) [of w k] by (simp add: b ready)
  next
    case (15 w w' k)
    then show ?case using K(11) by (simp add: b)
  next
    case (10 k)
    then show ?case using K(6) ready by simp
  qed (use i K(1-5,7,10) ready in \<open>simp_all add: b u\<close>)
  have degs: "\<forall>k < length (stages p). ps_degree ?s0 ! k = card (unsettled ?s0 (deps p k))"
    using K(4) by (simp add: u)
  have "settled ?s0 = settled s" by (simp add: settled_def)
  with settled_complete [OF plan sched s' i(1) _ _ _ degs] i(4) K(1,2) ok(2)
  have "ps_completed s' = card (settled s')" by (simp add: counts_ok_def)
  moreover have "Exited \<notin> set (ps_workers s')" using ok(2) run by (auto simp: counts_ok_def s')
  moreover have "busy_workers s' = busy_workers s" by (simp add: busy_workers_def s')
  ultimately show "counts_ok s'" using ok(2) by (simp add: counts_ok_def s')
qed

lemma publish_keeps:
  assumes plan: "plan_ok S p" and ok: "sched_ok p s" "counts_ok s" and w: "busy_at s w i"
    and s': "s' = publish S w i sr outs stop s"
  shows "sched_ok p s'" "counts_ok s'"
proof -
  note K = sched_okD [OF ok(1)]
  define s0 where "s0 = s\<lparr>ps_hashes := (ps_hashes s)[i := sr_hash sr], ps_outputs := outs,
      ps_in_flight := ps_in_flight s - 1, ps_stop := stop, ps_workers := (ps_workers s)[w := Waiting]\<rparr>"
  have eq: "s' = complete S i sr s0" by (simp add: s' publish_def s0_def)
  have wl: "w < length (ps_workers s)" "busy (ps_workers s ! w) = Some i" using w by (simp_all add: busy_at_def)
  have b: "busy_at s0 v k \<longleftrightarrow> v \<noteq> w \<and> busy_at s v k" for v k
    using wl by (auto simp: s0_def busy_at_def nth_list_update)
  have u: "unsettled s0 A = unsettled s A" for A by (simp add: unsettled_def s0_def)
  have i: "i < length (stages p)" "i \<notin> set (ps_ready s)" "ps_results s ! i = None" "ps_degree s ! i = 0"
    using K(7,8) [OF w] K(9) [of i] w by auto
  have gone: "\<not> busy_at s0 v i" for v using b K(11) [OF w] by auto
  have other: "(\<exists>v. busy_at s0 v k) \<longleftrightarrow> (\<exists>v. busy_at s v k)" if "k \<noteq> i" for k
    using b w that by (metis busy_at_def option.inject)
  show sched: "sched_ok p s'"
    unfolding eq
  proof (rule complete_sched [OF plan i(1)], goal_cases)
    case (13 k)
    then show ?case using K(9) [of k] other [of k] by (simp add: s0_def)
  next
    case (11 v k)
    then show ?case using K(7) [of v k] by (simp add: b)
  next
    case (12 v k)
    moreover have "ps_ready s0 = ps_ready s" by (simp add: s0_def)
    ultimately show ?case using K(8) [of v k] by (simp add: b)
  next
    case (15 v v' k)
    then have "busy_at s v k" "busy_at s v' k" by (simp_all add: b)
    then show ?case by (rule K(11))
  qed (use i gone K(1-6,10) in \<open>simp_all add: u, simp_all add: s0_def\<close>)
  have degs: "\<forall>k < length (stages p). ps_degree s0 ! k = card (unsettled s0 (deps p k))"
    using K(4) by (simp add: u) (simp add: s0_def)
  have "settled s0 = settled s" "ps_completed s0 = ps_completed s" by (simp_all add: settled_def s0_def)
  with settled_complete [OF plan sched eq i(1) _ _ _ degs] i(3) K(1,2) ok(2)
  have fin: "ps_completed s' = card (settled s')" by (simp add: counts_ok_def s0_def)
  have bw: "busy_workers s' = busy_workers s - {w}" "w \<in> busy_workers s"
    using wl busy_workers_update [OF wl(1), of s' Waiting]
    by (simp_all add: eq s0_def busy_workers_def)
  have "ps_in_flight s \<noteq> 0" using ok(2) bw(2) by (auto simp: counts_ok_def)
  moreover have "ps_completed s \<noteq> length (ps_results s)"
  proof -
    have "settled s \<subseteq> {..<length (ps_results s)} - {i}" using i(3) by (auto simp: settled_def)
    then have "card (settled s) \<le> card ({..<length (ps_results s)} - {i})" by (intro card_mono) auto
    also have "\<dots> < length (ps_results s)" using i(1) K(2) by simp
    finally show ?thesis using ok(2) by (simp add: counts_ok_def)
  qed
  ultimately have "Exited \<notin> set (ps_workers s)" using ok(2) by (auto simp: counts_ok_def)
  then have "Exited \<notin> set (ps_workers s')"
    using exited_update [of "ps_workers s" w Waiting] by (auto simp: eq s0_def)
  moreover have "ps_in_flight s' = card (busy_workers s')"
    using ok(2) bw by (simp add: eq s0_def counts_ok_def)
  ultimately show "counts_ok s'" using fin by (simp add: counts_ok_def)
qed

lemma exit_keeps:
  assumes ok: "sched_ok p s" "counts_ok s" and w: "w < length (ps_workers s)" "ps_workers s ! w = Waiting"
    and over: "ps_completed s = length (ps_results s) \<or> ps_stop s \<and> ps_in_flight s = 0"
  shows "sched_ok p (go w Exited s)" "counts_ok (go w Exited s)"
proof -
  have b: "busy_at (go w Exited s) v k = busy_at s v k" for v k
    using w by (auto simp: busy_at_def nth_list_update)
  show "sched_ok p (go w Exited s)"
    using ok(1) unfolding sched_ok_def unsettled_def b by simp
  have "busy_workers (go w Exited s) = busy_workers s"
    using w by (auto simp: busy_workers_def nth_list_update split: if_splits)
  then show "counts_ok (go w Exited s)" using ok(2) over by (auto simp: counts_ok_def settled_def)
qed

section \<open>The steps of a worker\<close>

lemma pickE:
  assumes "pick S w s = Some s'"
  obtains (exited) "ps_completed s = length (ps_results s) \<or> ps_stop s \<and> ps_in_flight s = 0"
      "s' = go w Exited s"
  | (drained) i rest where "ps_ready s = i # rest" "ps_completed s \<noteq> length (ps_results s)"
      "\<not> (ps_stop s \<and> ps_in_flight s = 0)" "ps_stop s"
      "s' = complete S i (skipped_result (st_id (su_stages S ! i))) (s\<lparr>ps_ready := rest\<rparr>)"
  | (taken) i rest where "ps_ready s = i # rest" "ps_completed s \<noteq> length (ps_results s)" "\<not> ps_stop s"
      "s' = go w (Taken i) (s\<lparr>ps_ready := rest, ps_in_flight := ps_in_flight s + 1\<rparr>)"
  using assms unfolding pick_def by (auto split: if_splits list.splits)

text \<open>What a stage publishes: its status is settled by the program counter it is published from.\<close>

definition publishes ::
  "('p, 'w) plan \<Rightarrow> nat \<Rightarrow> ('p, 'w) shared \<Rightarrow> nat \<Rightarrow> stage_result \<Rightarrow> 'p outputs \<Rightarrow> bool \<Rightarrow> bool" where
  "publishes S w s i sr outs stop = (busy_at s w i \<and> sr_id sr = st_id (su_stages S ! i) \<and>
     sr_status sr \<noteq> Skipped \<and> (sr_error sr \<noteq> None \<longleftrightarrow> sr_status sr = Failed) \<and>
     (if sr_status sr = Failed then outs = ps_outputs s \<and> stop = (ps_stop s \<or> stop_on_first_failure (su_options S))
      else stop = ps_stop s \<and> (\<exists>pl. outs = smap_emplace (st_id (su_stages S ! i)) pl (ps_outputs s))))"

lemma worker_stepE:
  assumes "worker_step S w s = Some s'"
  obtains (exited) "w < length (ps_workers s)" "ps_workers s ! w = Waiting"
      "ps_completed s = length (ps_results s) \<or> ps_stop s \<and> ps_in_flight s = 0" "s' = go w Exited s"
  | (drained) i rest where "w < length (ps_workers s)" "ps_workers s ! w = Waiting"
      "ps_ready s = i # rest" "ps_completed s \<noteq> length (ps_results s)"
      "\<not> (ps_stop s \<and> ps_in_flight s = 0)" "ps_stop s"
      "s' = complete S i (skipped_result (st_id (su_stages S ! i))) (s\<lparr>ps_ready := rest\<rparr>)"
  | (taken) i rest where "w < length (ps_workers s)" "ps_workers s ! w = Waiting"
      "ps_ready s = i # rest" "ps_completed s \<noteq> length (ps_results s)" "\<not> ps_stop s"
      "s' = go w (Taken i) (s\<lparr>ps_ready := rest, ps_in_flight := ps_in_flight s + 1\<rparr>)"
  | (inner) "inner w s s'"
  | (published) i sr outs stop where "publishes S w s i sr outs stop" "s' = publish S w i sr outs stop s"
proof (cases "ps_workers s ! w")
  case Waiting
  have w: "w < length (ps_workers s)" "pick S w s = Some s'"
    using assms Waiting by (auto simp: worker_step_def split: if_splits)
  from w(2) show ?thesis
    by (cases rule: pickE) (use that(1-3) w(1) Waiting in blast)+
next
  case (Snapped i key outs)
  then show ?thesis using assms
    by (intro that(4)) (auto simp: worker_step_def inner_def acquire_def split: if_splits option.splits)
next
  case (Returned i key dr)
  have w: "w < length (ps_workers s)" using assms by (auto simp: worker_step_def split: if_splits)
  show ?thesis
  proof (cases dr)
    case (Dispatched x1)
    then show ?thesis using assms Returned w
      by (intro that(4)) (auto simp: worker_step_def inner_def Let_def)
  next
    case (Dispatch_error m)
    then have "s' = publish S w i \<lparr>sr_id = st_id (su_stages S ! i), sr_status = Failed, sr_hash = key,
        sr_error = Some m\<rparr> (ps_outputs s) (ps_stop s \<or> stop_on_first_failure (su_options S)) s"
      using assms Returned w by (simp add: worker_step_def Let_def)
    then show ?thesis by (rule that(5) [rotated]) (use Returned w in \<open>simp add: publishes_def busy_at_def\<close>)
  next
    case (Thrown e)
    then show ?thesis using assms Returned w by (simp add: worker_step_def Let_def)
  qed
next
  case (Hit i key q)
  then have "s' = publish S w i \<lparr>sr_id = st_id (su_stages S ! i), sr_status = Cached, sr_hash = key,
      sr_error = None\<rparr> (smap_emplace (st_id (su_stages S ! i)) (Some q) (ps_outputs s)) (ps_stop s) s"
    (is ?eq) and w: "w < length (ps_workers s)"
    using assms by (auto simp: worker_step_def Let_def split: if_splits)
  from \<open>?eq\<close> show ?thesis
    by (rule that(5) [rotated]) (use Hit w in \<open>auto simp: publishes_def busy_at_def\<close>)
next
  case (Stored i key payload)
  then have "s' = publish S w i \<lparr>sr_id = st_id (su_stages S ! i), sr_status = Executed, sr_hash = key,
      sr_error = None\<rparr> (smap_emplace (st_id (su_stages S ! i)) payload (ps_outputs s)) (ps_stop s) s"
    (is ?eq) and w: "w < length (ps_workers s)"
    using assms by (auto simp: worker_step_def Let_def split: if_splits)
  from \<open>?eq\<close> show ?thesis
    by (rule that(5) [rotated]) (use Stored w in \<open>auto simp: publishes_def busy_at_def\<close>)
next
  case (Taken i)
  then have "inner w s s'"
    using assms by (auto simp: worker_step_def compute_key_def Let_def intro!: inner_go
        split: if_splits prod.splits)
  then show ?thesis by (rule that(4))
next
  case (Keyed i key)
  then have "inner w s s'"
    using assms by (auto simp: worker_step_def look_up_def intro!: inner_go
        split: if_splits prod.splits option.splits)
  then show ?thesis by (rule that(4))
next
  case (Missed i key)
  then have "inner w s s'"
    using assms by (auto simp: worker_step_def intro!: inner_go split: if_splits)
  then show ?thesis by (rule that(4))
next
  case (Dispatching i key outs)
  then have "inner w s s'"
    using assms by (auto simp: worker_step_def finish_dispatch_def Let_def intro!: inner_go
        split: if_splits prod.splits)
  then show ?thesis by (rule that(4))
next
  case Exited
  then show ?thesis using assms by (simp add: worker_step_def split: if_splits)
qed

definition run_ok :: "pipeline \<Rightarrow> ('p, 'w) shared \<Rightarrow> bool" where
  "run_ok p s = (sched_ok p s \<and> counts_ok s)"

lemma run_ok_step:
  assumes plan: "plan_ok S p" and ok: "run_ok p s" and st: "worker_step S w s = Some s'"
  shows "run_ok p s'"
proof -
  have ok2: "sched_ok p s" "counts_ok s" using ok by (simp_all add: run_ok_def)
  show ?thesis using st
  proof (cases rule: worker_stepE)
    case exited
    from exit_keeps [OF ok2 exited(1-3)] show ?thesis by (simp add: run_ok_def exited(4))
  next
    case (drained i rest)
    from drain_keeps [OF plan ok2 drained(3-5) drained(7)] show ?thesis by (simp add: run_ok_def)
  next
    case (taken i rest)
    from take_keeps [OF ok2 taken(1-5)] show ?thesis by (simp add: run_ok_def taken(6))
  next
    case inner
    from inner_sched [OF inner ok2(1)] inner_counts [OF inner ok2(2)] show ?thesis by (simp add: run_ok_def)
  next
    case (published i sr outs stop)
    then have "busy_at s w i" by (simp add: publishes_def)
    from publish_keeps [OF plan ok2 this published(2)] show ?thesis by (simp add: run_ok_def)
  qed
qed

section \<open>Plugin locks\<close>

definition holds_lock :: "('p, 'w) plan \<Rightarrow> ('p, 'w) shared \<Rightarrow> nat \<Rightarrow> string \<Rightarrow> bool" where
  "holds_lock S s w l = (w < length (ps_workers s) \<and>
     (\<exists>i key outs. ps_workers s ! w = Dispatching i key outs \<and> plugin_lock S i = Some l))"

definition lock_ok :: "('p, 'w) plan \<Rightarrow> ('p, 'w) shared \<Rightarrow> bool" where
  "lock_ok S s \<longleftrightarrow>
     (\<forall>l. l \<in> set (ps_locks s) \<longleftrightarrow> (\<exists>w. holds_lock S s w l)) \<and>
     (\<forall>w w' l. holds_lock S s w l \<longrightarrow> holds_lock S s w' l \<longrightarrow> w = w') \<and>
     (\<forall>i key e. Returned i key (Thrown e) \<notin> set (ps_workers s))"

lemma lock_ok_frame:
  assumes ok: "lock_ok S s" and locks: "ps_locks s' = ps_locks s"
    and ws: "ps_workers s' = (ps_workers s)[w := pc]"
    and pc: "\<And>i k outs. ps_workers s ! w \<noteq> Dispatching i k outs" "\<And>i k outs. pc \<noteq> Dispatching i k outs"
      "\<And>i k e. pc \<noteq> Returned i k (Thrown e)"
  shows "lock_ok S s'"
proof -
  have "holds_lock S s' v l = holds_lock S s v l" for v l
    using pc(1,2) by (cases "v = w") (auto simp: holds_lock_def ws)
  moreover have "Returned i k (Thrown e) \<notin> set (ps_workers s')" for i k e
    using ok pc(3) set_update_subset_insert [of "ps_workers s" w pc] unfolding lock_ok_def ws by blast
  ultimately show ?thesis using ok unfolding lock_ok_def locks by simp
qed

lemma lock_ok_acquire:
  assumes ok: "lock_ok S s" and w: "w < length (ps_workers s)" "ps_workers s ! w = Snapped i key outs"
    and st: "acquire S w i key outs s = Some s'"
  shows "lock_ok S s'"
proof -
  have h: "holds_lock S s' v l \<longleftrightarrow> (if v = w then plugin_lock S i = Some l else holds_lock S s v l)" for v l
    using st w by (auto simp: holds_lock_def acquire_def nth_list_update split: option.splits if_splits)
  have n: "\<not> holds_lock S s w l" for l using w by (simp add: holds_lock_def)
  have r: "Returned j k (Thrown e) \<notin> set (ps_workers s')" for j k e
    using ok st set_update_subset_insert [of "ps_workers s" w "Dispatching i key outs"]
    by (auto simp: lock_ok_def acquire_def split: option.splits if_splits)
  show ?thesis
  proof (cases "plugin_lock S i")
    case None
    have "holds_lock S s' v l = holds_lock S s v l" for v l using h n None by simp
    moreover have "ps_locks s' = ps_locks s" using st None by (auto simp: acquire_def)
    ultimately show ?thesis using ok r unfolding lock_ok_def by simp
  next
    case (Some m)
    then have "m \<notin> set (ps_locks s)" and l': "ps_locks s' = m # ps_locks s"
      using st by (auto simp: acquire_def split: if_splits)
    then have free: "\<not> holds_lock S s v m" for v using ok unfolding lock_ok_def by blast
    have h': "holds_lock S s' v l \<longleftrightarrow> v = w \<and> l = m \<or> holds_lock S s v l" for v l
      using h n Some by auto
    have "l \<in> set (ps_locks s') \<longleftrightarrow> (\<exists>v. holds_lock S s' v l)" for l
      using ok unfolding lock_ok_def h' l' by auto
    moreover have "v = v'" if "holds_lock S s' v l" "holds_lock S s' v' l" for v v' l
      using that ok free unfolding h' lock_ok_def by blast
    ultimately show ?thesis using r unfolding lock_ok_def by blast
  qed
qed

lemma finish_dispatch_simps:
  "ps_workers (finish_dispatch S w i key outs s)
     = (ps_workers s)[w := Returned i key (case fst (d_dispatch (su_dispatcher S) (st_plugin (su_stages S ! i))
          (st_input (su_stages S ! i)) outs (e_world (ps_env s))) of
         Thrown e \<Rightarrow> Dispatch_error (thrown_error e) | r \<Rightarrow> r)]"
  "ps_locks (finish_dispatch S w i key outs s)
     = (case plugin_lock S i of None \<Rightarrow> ps_locks s | Some l \<Rightarrow> removeAll l (ps_locks s))"
  by (simp_all add: finish_dispatch_def Let_def split: prod.splits dispatch_result.split)

lemma lock_ok_finish:
  assumes ok: "lock_ok S s" and w: "w < length (ps_workers s)" "ps_workers s ! w = Dispatching i key outs"
  shows "lock_ok S (finish_dispatch S w i key outs s)"
proof -
  let ?t = "finish_dispatch S w i key outs s"
  note F = finish_dispatch_simps [of S w i key outs s]
  have h: "holds_lock S ?t v l \<longleftrightarrow> v \<noteq> w \<and> holds_lock S s v l" for v l
    using w by (auto simp: holds_lock_def F nth_list_update)
  have own: "holds_lock S s w l \<longleftrightarrow> plugin_lock S i = Some l" for l
    using w by (simp add: holds_lock_def)
  have "l \<in> set (ps_locks ?t) \<longleftrightarrow> (\<exists>v. holds_lock S ?t v l)" for l
  proof (cases "plugin_lock S i = Some l")
    case True
    then have "v = w" if "holds_lock S s v l" for v
      using that own ok unfolding lock_ok_def by blast
    then show ?thesis using True by (auto simp: F h)
  next
    case False
    then have "l \<in> set (ps_locks ?t) \<longleftrightarrow> l \<in> set (ps_locks s)" by (auto simp: F split: option.splits)
    also have "\<dots> \<longleftrightarrow> (\<exists>v. holds_lock S s v l)" using ok unfolding lock_ok_def by blast
    finally show ?thesis using False own h by metis
  qed
  moreover have "v = v'" if "holds_lock S ?t v l" "holds_lock S ?t v' l" for v v' l
    using that ok unfolding h lock_ok_def by blast
  moreover have "Returned j k (Thrown e) \<notin> set (ps_workers ?t)" for j k e
  proof
    assume "Returned j k (Thrown e) \<in> set (ps_workers ?t)"
    then have "Returned j k (Thrown e) \<in> set (ps_workers s)"
      using set_update_subset_insert [of "ps_workers s" w] unfolding F(1)
      by (fastforce split: dispatch_result.splits)
    then show False using ok unfolding lock_ok_def by blast
  qed
  ultimately show ?thesis unfolding lock_ok_def by blast
qed

lemma publish_simps [simp]:
  "ps_workers (publish S w i sr outs stop s) = (ps_workers s)[w := Waiting]"
  "ps_locks (publish S w i sr outs stop s) = ps_locks s"
  "ps_stop (publish S w i sr outs stop s) = stop"
  "ps_outputs (publish S w i sr outs stop s) = outs"
  "ps_hashes (publish S w i sr outs stop s) = (ps_hashes s)[i := sr_hash sr]"
  by (simp_all add: publish_def)

lemma lock_ok_step:
  assumes ok: "lock_ok S s" and st: "worker_step S w s = Some s'"
  shows "lock_ok S s'"
proof -
  have w: "w < length (ps_workers s)" using st by (auto simp: worker_step_def split: if_splits)
  show ?thesis
  proof (cases "ps_workers s ! w")
    case Waiting
    then have "pick S w s = Some s'" using st w by (simp add: worker_step_def)
    then show ?thesis
    proof (cases rule: pickE)
      case exited
      then show ?thesis using lock_ok_frame [OF ok, of _ w Exited] Waiting by simp
    next
      case (drained i rest)
      have "(ps_workers s)[w := Waiting] = ps_workers s" using Waiting by (metis list_update_id)
      then show ?thesis using lock_ok_frame [OF ok, of s' w Waiting] Waiting drained(5) by simp
    next
      case (taken i rest)
      then show ?thesis using lock_ok_frame [OF ok, of _ w "Taken i"] Waiting by simp
    qed
  next
    case (Snapped i key outs)
    then show ?thesis using lock_ok_acquire [OF ok w] st w by (simp add: worker_step_def)
  next
    case (Dispatching i key outs)
    then show ?thesis using lock_ok_finish [OF ok w] st w by (simp add: worker_step_def)
  next
    case (Taken i)
    then show ?thesis using st w lock_ok_frame [OF ok]
      by (auto simp: worker_step_def compute_key_def Let_def split: prod.splits)
  next
    case (Keyed i key)
    then show ?thesis using st w lock_ok_frame [OF ok]
      by (auto simp: worker_step_def look_up_def split: prod.splits option.splits)
  next
    case (Returned i key dr)
    then show ?thesis using st w lock_ok_frame [OF ok]
      by (auto simp: worker_step_def Let_def split: dispatch_result.splits)
  qed (use st w lock_ok_frame [OF ok] in \<open>auto simp: worker_step_def Let_def\<close>)
qed

section \<open>Progress and termination\<close>

lemma all_settled:
  assumes plan: "plan_ok S p" and ok: "sched_ok p s"
    and none: "ps_ready s = []" "\<And>w i. \<not> busy_at s w i"
  shows "settled s = {..<length (stages p)}"
proof (rule ccontr)
  note K = sched_okD [OF ok]
  let ?U = "{i. i < length (stages p) \<and> ps_results s ! i = None}"
  assume "settled s \<noteq> {..<length (stages p)}"
  then obtain u where "u < length (stages p)" "u \<notin> settled s"
    using K(2) by (auto simp: settled_def)
  then have "u \<in> ?U" using K(2) by (simp add: settled_def)
  have "dep_rel p \<subseteq> {..<length (stages p)} \<times> {..<length (stages p)}"
    by (auto simp: dep_rel_def deps_def)
  then have "finite (dep_rel p)" by (rule finite_subset) simp
  then have "wf (dep_rel p)"
    using plan finite_acyclic_wf by (auto simp: plan_ok_def dag_ok_def)
  from wfE_min [OF this \<open>u \<in> ?U\<close>] obtain z where z: "z \<in> ?U"
      "\<And>y. (y, z) \<in> dep_rel p \<Longrightarrow> y \<notin> ?U" by blast
  have "j \<notin> ?U" if "j \<in> deps p z" for j using z that by (simp add: dep_rel_def)
  then have "unsettled s (deps p z) = {}" by (auto simp: unsettled_def deps_def)
  then have "ps_degree s ! z = 0" using K(4) z(1) by simp
  then show False using K(9) [of z] z(1) none by simp
qed

lemma not_busy: "busy pc = None \<Longrightarrow> pc = Waiting \<or> pc = Exited"
  by (cases pc) simp_all

lemma progress:
  assumes plan: "plan_ok S p" and ok: "run_ok p s" "lock_ok S s" and alive: "\<not> all_exited s"
  shows "\<exists>w s'. worker_step S w s = Some s'"
proof -
  note K = sched_okD [OF ok(1) [unfolded run_ok_def, THEN conjunct1]]
  have C: "counts_ok s" using ok(1) by (simp add: run_ok_def)
  show ?thesis
  proof (cases "\<exists>w i. busy_at s w i")
    case True
    then obtain w i where w: "w < length (ps_workers s)" "busy (ps_workers s ! w) = Some i"
      by (auto simp: busy_at_def)
    show ?thesis
    proof (cases "worker_step S w s")
      case None
      have "\<exists>key outs. ps_workers s ! w = Snapped i key outs \<and> acquire S w i key outs s = None"
      proof (cases "ps_workers s ! w")
        case (Returned j key dr)
        have "Returned j key dr \<in> set (ps_workers s)" using Returned w(1) by (metis nth_mem)
        then have "dr \<noteq> Thrown e" for e using ok(2) by (auto simp: lock_ok_def)
        then show ?thesis using None w Returned
          by (auto simp: worker_step_def Let_def split: dispatch_result.splits)
      qed (use None w in \<open>auto simp: worker_step_def Let_def\<close>)
      then obtain l where "l \<in> set (ps_locks s)" by (auto simp: acquire_def split: option.splits if_splits)
      then obtain v where "holds_lock S s v l" using ok(2) unfolding lock_ok_def by blast
      then obtain j key outs where "worker_step S v s = Some (finish_dispatch S v j key outs s)"
        by (auto simp: holds_lock_def worker_step_def)
      then show ?thesis by blast
    qed blast
  next
    case False
    obtain pc where "pc \<in> set (ps_workers s)" "pc \<noteq> Exited" using alive by (auto simp: all_exited_def)
    then obtain w where w: "w < length (ps_workers s)" "ps_workers s ! w \<noteq> Exited"
      by (metis in_set_conv_nth)
    then have wait: "ps_workers s ! w = Waiting"
      using False not_busy [of "ps_workers s ! w"] by (auto simp: busy_at_def)
    have "wake_up s"
    proof (cases "ps_ready s = []")
      case True
      then have "settled s = {..<length (stages p)}"
        using all_settled [OF plan, of s] ok(1) False by (simp add: run_ok_def)
      then show ?thesis using C K(2) by (simp add: wake_up_def counts_ok_def)
    qed (simp add: wake_up_def)
    then have "pick S w s \<noteq> None" by (auto simp: pick_def wake_up_def split: list.splits)
    moreover have "worker_step S w s = pick S w s" using w(1) wait by (simp add: worker_step_def)
    ultimately show ?thesis by (metis not_None_eq)
  qed
qed

text \<open>Every step uses up some of a budget that the number of stages and workers bounds.\<close>

definition budget :: "('p, 'w) shared \<Rightarrow> nat" where
  "budget s = 20 * (length (ps_results s) - ps_completed s - ps_in_flight s) + sum_list (map rank (ps_workers s))"

lemma stage_count:
  assumes "run_ok p s"
  shows "ps_completed s + ps_in_flight s \<le> length (ps_results s)"
proof -
  have ok: "sched_ok p s" "counts_ok s" using assms by (simp_all add: run_ok_def)
  note K = sched_okD [OF ok(1)]
  define st where "st w = the (busy (ps_workers s ! w))" for w
  have at: "busy_at s w (st w)" if "w \<in> busy_workers s" for w
    using that by (auto simp: busy_workers_def busy_at_def st_def)
  then have inj: "inj_on st (busy_workers s)" using K(11) by (metis inj_onI)
  have "st ` busy_workers s \<inter> settled s = {}"
    using at K(7,9) by (fastforce simp: settled_def)
  moreover have "finite (settled s)" by (simp add: settled_def)
  ultimately have "card (settled s) + card (busy_workers s) = card (settled s \<union> st ` busy_workers s)"
    using inj by (simp add: card_Un_disjoint card_image Int_commute)
  also have "\<dots> \<le> card {..<length (ps_results s)}"
    using at K(2,7) by (intro card_mono) (auto simp: settled_def)
  finally show ?thesis using ok(2) by (simp add: counts_ok_def)
qed

lemma rank_busy: "busy pc \<noteq> None \<Longrightarrow> 3 \<le> rank pc" "rank pc \<le> 9"
  by (cases pc; simp)+

lemma rank_update:
  "w < length ws \<Longrightarrow> sum_list (map rank (ws[w := pc])) + rank (ws ! w) = sum_list (map rank ws) + rank pc"
proof (induction ws arbitrary: w)
  case (Cons a ws)
  then show ?case by (cases w) auto
qed simp

lemma budget_decreases:
  assumes plan: "plan_ok S p" and ok: "run_ok p s" and st: "worker_step S w s = Some s'"
  shows "budget s' < budget s"
proof -
  have b: "ps_completed s' + ps_in_flight s' \<le> length (ps_results s')" "ps_completed s + ps_in_flight s \<le> length (ps_results s)"
    using stage_count run_ok_step [OF plan ok st] ok by blast+
  have C: "counts_ok s" using ok by (simp add: run_ok_def)
  note K = sched_okD [OF ok [unfolded run_ok_def, THEN conjunct1]]
  have effect: "ps_completed (complete S i sr t) = ps_completed t + 1"
    "length (ps_results (complete S i sr t)) = length (ps_results t)" for i sr t
    by (simp_all add: complete_def split: prod.splits)
  from st show ?thesis
  proof (cases rule: worker_stepE)
    case exited
    then show ?thesis using rank_update [OF exited(1), of Exited] by (simp add: budget_def)
  next
    case (drained i rest)
    then show ?thesis using b by (simp add: budget_def effect)
  next
    case (taken i rest)
    then show ?thesis using b rank_update [OF taken(1), of "Taken i"] by (simp add: budget_def)
  next
    case inner
    then obtain pc where "ps_workers s' = (ps_workers s)[w := pc]" "rank pc < rank (ps_workers s ! w)"
      "w < length (ps_workers s)" by (auto simp: inner_def)
    then show ?thesis using inner rank_update [of w "ps_workers s" pc] by (simp add: budget_def inner_def)
  next
    case (published i sr outs stop)
    then have w: "w < length (ps_workers s)" "busy (ps_workers s ! w) \<noteq> None"
      by (auto simp: publishes_def busy_at_def)
    then have "w \<in> busy_workers s" by (simp add: busy_workers_def)
    then have "0 < ps_in_flight s" using C by (auto simp: counts_ok_def card_gt_0_iff)
    moreover have "ps_completed s' = ps_completed s + 1" "ps_in_flight s' = ps_in_flight s - 1"
      "length (ps_results s') = length (ps_results s)"
      by (simp_all add: published(2) publish_def effect)
    ultimately show ?thesis
      using rank_update [OF w(1), of Waiting] rank_busy(1) [OF w(2)] b
      by (simp add: budget_def published(2))
  qed
qed

section \<open>Outcomes\<close>

definition finished :: "('p, 'w) shared \<Rightarrow> nat \<Rightarrow> stage_result \<Rightarrow> bool" where
  "finished s i sr = (i < length (ps_results s) \<and> ps_results s ! i = Some sr)"

definition outcome_ok :: "('p, 'w) plan \<Rightarrow> pipeline \<Rightarrow> ('p, 'w) shared \<Rightarrow> bool" where
  "outcome_ok S p s \<longleftrightarrow>
     (\<forall>i sr. finished s i sr \<longrightarrow> sr_id sr = st_id (stages p ! i) \<and>
        (sr_error sr \<noteq> None \<longleftrightarrow> sr_status sr = Failed) \<and> (sr_status sr = Skipped \<longrightarrow> ps_stop s)) \<and>
     smap_ok (ps_outputs s) \<and>
     (\<forall>k. k \<in> fst ` set (ps_outputs s) \<longleftrightarrow> (\<exists>i sr. finished s i sr \<and> delivers sr \<and> sr_id sr = k)) \<and>
     (ps_stop s \<longleftrightarrow> stop_on_first_failure (su_options S) \<and> (\<exists>i sr. finished s i sr \<and> sr_status sr = Failed)) \<and>
     (\<forall>w i j. busy_at s w i \<longrightarrow> j \<in> deps p i \<longrightarrow> (\<exists>sr. finished s j sr \<and> sr_status sr \<noteq> Skipped))"

lemma outcome_okI:
  assumes "\<And>i sr. finished s i sr \<Longrightarrow> sr_id sr = st_id (stages p ! i) \<and>
      (sr_error sr \<noteq> None \<longleftrightarrow> sr_status sr = Failed) \<and> (sr_status sr = Skipped \<longrightarrow> ps_stop s)"
    "smap_ok (ps_outputs s)"
    "\<And>k. k \<in> fst ` set (ps_outputs s) \<longleftrightarrow> (\<exists>i sr. finished s i sr \<and> delivers sr \<and> sr_id sr = k)"
    "ps_stop s \<longleftrightarrow> stop_on_first_failure (su_options S) \<and> (\<exists>i sr. finished s i sr \<and> sr_status sr = Failed)"
    "\<And>w i j. busy_at s w i \<Longrightarrow> j \<in> deps p i \<Longrightarrow> \<exists>sr. finished s j sr \<and> sr_status sr \<noteq> Skipped"
  shows "outcome_ok S p s"
  unfolding outcome_ok_def by (intro conjI allI impI) (fact assms(1) [THEN conjunct1] assms(1) [THEN conjunct2, THEN conjunct1]
    assms(2-5) | use assms(1) in blast)+

lemma outcome_okD:
  assumes "outcome_ok S p s"
  shows "\<And>i sr. finished s i sr \<Longrightarrow> sr_id sr = st_id (stages p ! i) \<and>
      (sr_error sr \<noteq> None \<longleftrightarrow> sr_status sr = Failed) \<and> (sr_status sr = Skipped \<longrightarrow> ps_stop s)"
    "smap_ok (ps_outputs s)"
    "\<And>k. k \<in> fst ` set (ps_outputs s) \<longleftrightarrow> (\<exists>i sr. finished s i sr \<and> delivers sr \<and> sr_id sr = k)"
    "ps_stop s \<longleftrightarrow> stop_on_first_failure (su_options S) \<and> (\<exists>i sr. finished s i sr \<and> sr_status sr = Failed)"
    "\<And>w i j. busy_at s w i \<Longrightarrow> j \<in> deps p i \<Longrightarrow> \<exists>sr. finished s j sr \<and> sr_status sr \<noteq> Skipped"
  using assms unfolding outcome_ok_def by blast+

lemma outcome_frame:
  assumes "outcome_ok S p s" "ps_results s' = ps_results s" "ps_outputs s' = ps_outputs s"
    "ps_stop s' = ps_stop s" "\<And>w i. busy_at s' w i = busy_at s w i"
  shows "outcome_ok S p s'"
proof -
  have f: "finished s' = finished s" using assms(2) by (simp add: finished_def fun_eq_iff)
  from assms(1) show ?thesis unfolding outcome_ok_def assms(3-5) f by assumption
qed

lemma outcome_inner: "inner w s s' \<Longrightarrow> outcome_ok S p s \<Longrightarrow> outcome_ok S p s'"
  by (rule outcome_frame) (simp_all add: inner_busy, simp_all add: inner_def)

lemma finished_complete:
  assumes "i < length (ps_results s)" "ps_results s ! i = None"
  shows "finished (complete S i sr s) k r \<longleftrightarrow> (if k = i then r = sr else finished s k r)"
  using assms by (auto simp: finished_def complete_def nth_list_update split: prod.splits)

lemma outcome_step:
  assumes plan: "plan_ok S p" and ok: "run_ok p s" "outcome_ok S p s" and st: "worker_step S w s = Some s'"
  shows "outcome_ok S p s'"
proof -
  note K = sched_okD [OF ok(1) [unfolded run_ok_def, THEN conjunct1]]
  note O = outcome_okD [OF ok(2)]
  have stg: "su_stages S = stages p" using plan by (simp add: plan_ok_def)
  from st show ?thesis
  proof (cases rule: worker_stepE)
    case exited
    have "busy_at (go w Exited s) v i = busy_at s v i" for v i
      using exited by (auto simp: busy_at_def nth_list_update)
    then show ?thesis using outcome_frame [OF ok(2), of s'] exited(4) by simp
  next
    case (drained i rest)
    have i: "i < length (ps_results s)" "ps_results s ! i = None"
      using K(2,6) K(9) [of i] drained(3) by auto
    let ?sr = "skipped_result (st_id (su_stages S ! i))" and ?t = "s\<lparr>ps_ready := rest\<rparr>"
    have f: "finished s' k r \<longleftrightarrow> (if k = i then r = ?sr else finished s k r)" for k r
      unfolding drained(7) using finished_complete [of i ?t S ?sr k r] i by (simp add: finished_def)
    have new: "\<not> finished s i r" for r using i(2) by (simp add: finished_def)
    have ds: "ps_outputs s' = ps_outputs s" "ps_stop s' = ps_stop s" "busy_at s' v k = busy_at s v k" for v k
      by (simp_all add: drained(7) busy_at_def)
    have sk: "sr_status ?sr = Skipped" "sr_error ?sr = None" "sr_id ?sr = st_id (stages p ! i)" "\<not> delivers ?sr"
      by (simp_all add: skipped_result_def delivers_def stg)
    have ex: "(\<exists>k r. finished s' k r \<and> P r) \<longleftrightarrow> (\<exists>k r. finished s k r \<and> P r)" if "\<not> P ?sr" for P
      using that f new by metis
    show ?thesis
    proof (rule outcome_okI, goal_cases)
      case (1 k r)
      then show ?case using O(1) [of k r] sk f [of k r] drained(6) unfolding ds by (auto split: if_splits)
    next
      case (3 x)
      then show ?case using O(3) using ex [of "\<lambda>r. delivers r \<and> sr_id r = x"] sk(4) unfolding ds by simp
    next
      case 4
      then show ?case using O(4) ex [of "\<lambda>r. sr_status r = Failed"] sk(1) unfolding ds by simp
    next
      case (5 v k j)
      then obtain r where "finished s j r" "sr_status r \<noteq> Skipped" using O(5) unfolding ds by blast
      then show ?case using f new by metis
    qed (simp add: ds O(2))
  next
    case (taken i rest)
    have i: "i < length (stages p)" "ps_degree s ! i = 0" using K(6) K(9) [of i] taken(3) by auto
    have b: "busy_at s' v k \<longleftrightarrow> (if v = w then k = i else busy_at s v k)" for v k
      using taken by (auto simp: busy_at_def)
    have "\<exists>sr. finished s j sr \<and> sr_status sr \<noteq> Skipped" if "j \<in> deps p i" for j
    proof -
      have "unsettled s (deps p i) = {}" using K(4) [OF i(1)] i(2) by simp
      then have "ps_results s ! j \<noteq> None" "j < length (stages p)"
        using that by (auto simp: unsettled_def deps_def)
      then obtain sr where "finished s j sr" using K(2) by (auto simp: finished_def)
      then show ?thesis using O taken(5) by blast
    qed
    moreover have f: "finished s' = finished s" by (simp add: taken(6) finished_def fun_eq_iff)
    moreover have ds: "ps_outputs s' = ps_outputs s" "ps_stop s' = ps_stop s" by (simp_all add: taken(6))
    ultimately show ?thesis
    proof (intro outcome_okI, goal_cases)
      case (5 v k j)
      then show ?case using b [of v k] O(5) [of v k j] by (auto split: if_splits)
    qed (use O(1-4) in \<open>simp_all add: f ds\<close>)
  next
    case inner
    then show ?thesis using outcome_inner ok(2) by blast
  next
    case (published i sr outs stop)
    note P = published(1) [unfolded publishes_def]
    have failed: "outs = ps_outputs s" "stop = (ps_stop s \<or> stop_on_first_failure (su_options S))"
      if "sr_status sr = Failed" using P that by simp_all
    have passed: "stop = ps_stop s" "\<exists>pl. outs = smap_emplace (sr_id sr) pl (ps_outputs s)"
      if "sr_status sr \<noteq> Failed" using P that by simp_all
    have w: "w < length (ps_workers s)" "busy_at s w i" using P by (auto simp: busy_at_def)
    have i: "i < length (ps_results s)" "ps_results s ! i = None" using K(2,7) K(9) [of i] w(2) by auto
    have f: "finished s' k r \<longleftrightarrow> (if k = i then r = sr else finished s k r)" for k r
      unfolding published(2) publish_def by (subst finished_complete) (use i in \<open>auto simp: finished_def\<close>)
    have new: "\<not> finished s i r" for r using i(2) by (simp add: finished_def)
    have ds: "ps_outputs s' = outs" "ps_stop s' = stop" by (simp_all add: published(2))
    have b: "busy_at s v k" if "busy_at s' v k" for v k
      using that busy_at_update [OF w(1), of s' Waiting v k] by (simp add: published(2) split: if_splits)
    have ex: "(\<exists>k r. finished s' k r \<and> Q r) \<longleftrightarrow> Q sr \<or> (\<exists>k r. finished s k r \<and> Q r)" for Q
      using f new by metis
    show ?thesis
    proof (rule outcome_okI, goal_cases)
      case (1 k r)
      have stop: "ps_stop s \<Longrightarrow> stop" using failed(2) passed(1) by blast
      show ?case
      proof (cases "k = i")
        case True
        then have "r = sr" using 1 f by simp
        then show ?thesis using P True by (simp add: stg)
      next
        case False
        then have "finished s k r" using 1 f by simp
        then show ?thesis using O(1) [of k r] stop unfolding ds by blast
      qed
    next
      case 2
      have "outs = ps_outputs s \<or> (\<exists>k pl. outs = smap_emplace k pl (ps_outputs s))"
        using failed(1) passed(2) by blast
      then show ?case using O(2) unfolding ds by (metis smap_ok_emplace)
    next
      case (3 x)
      note y = ex [of "\<lambda>r. delivers r \<and> sr_id r = x"]
      show ?case
      proof (cases "sr_status sr = Failed")
        case True
        then have "outs = ps_outputs s" "\<not> delivers sr" using failed(1) by (simp_all add: delivers_def)
        then show ?thesis using O(3) [of x] y by (simp only: ds simp_thms)
      next
        case False
        then obtain pl where "outs = smap_emplace (sr_id sr) pl (ps_outputs s)"
          using passed(2) by blast
        then have "fst ` set outs = insert (sr_id sr) (fst ` set (ps_outputs s))"
          by (simp only: keys_smap_emplace)
        moreover have "delivers sr" using P False by (cases "sr_status sr") (auto simp: delivers_def)
        ultimately show ?thesis using O(3) [of x] y
          by (simp only: ds insert_iff simp_thms) (simp only: eq_commute [of x])
      qed
    next
      case 4
      show ?case
      proof (cases "sr_status sr = Failed")
        case True
        then have "stop = (ps_stop s \<or> stop_on_first_failure (su_options S))" by (rule failed(2))
        then show ?thesis using O(4) True ex [of "\<lambda>r. sr_status r = Failed"] unfolding ds by blast
      next
        case False
        then have "stop = ps_stop s" by (rule passed(1))
        then show ?thesis using O(4) False ex [of "\<lambda>r. sr_status r = Failed"] unfolding ds by blast
      qed
    next
      case (5 v k j)
      then obtain r where "finished s j r" "sr_status r \<noteq> Skipped" using O(5) [OF b [OF 5(1)]] by blast
      then show ?case using f new by metis
    qed
  qed
qed

end
