(* ===== verification/Parallel_Run.thy ===== *)
theory Parallel_Run
  imports Parallel
begin

text \<open>
  What a run of the parallel runner (src/pipeline/parallel_runner.cpp) guarantees under every
  interleaving of its workers: the scheduler's invariant holds in every reachable state, every
  run ends, and the result that \<open>run_parallel\<close> packs accounts for every stage.
\<close>

section \<open>Reachable states\<close>

definition invariant :: "('p, 'w) plan \<Rightarrow> pipeline \<Rightarrow> ('p, 'w) shared \<Rightarrow> bool" where
  "invariant S p s = (run_ok p s \<and> lock_ok S s \<and> outcome_ok S p s)"

lemma invariant_step:
  "plan_ok S p \<Longrightarrow> invariant S p s \<Longrightarrow> worker_step S w s = Some s' \<Longrightarrow> invariant S p s'"
  unfolding invariant_def using run_ok_step lock_ok_step outcome_step by blast

lemma invariant_start:
  fixes d :: "('p, 'w) dispatcher"
  assumes it: "uset_iter iter" and ok: "dag_ok p"
  shows "invariant (make_plan iter d opts p) p (start_state iter hardware opts p env)" (is "invariant ?S p ?s")
proof -
  let ?n = "length (stages p)"
  obtain u c deg where w: "wire iter (stages p) = (u, c, deg)" by (cases "wire iter (stages p)")
  with wire_plan(2) [OF it ok] have deg: "length deg = ?n" "\<And>i. i < ?n \<Longrightarrow> deg ! i = card (deps p i)"
    by simp_all
  have s: "ps_ready ?s = filter (\<lambda>i. deg ! i = 0) [0..<?n]" "ps_degree ?s = deg"
      "ps_results ?s = replicate ?n None" "length (ps_hashes ?s) = ?n" "ps_outputs ?s = []"
      "ps_completed ?s = 0" "ps_in_flight ?s = 0" "\<not> ps_stop ?s" "ps_locks ?s = []"
      "ps_workers ?s = replicate (worker_count hardware ?n opts) Waiting"
    by (simp_all add: start_state_def w)
  have idle: "\<not> busy_at ?s v i" for v i by (simp add: busy_at_def s(10))
  have "unsettled ?s (deps p i) = deps p i" for i by (auto simp: unsettled_def s(3) deps_def)
  then have "sched_ok p ?s"
    by (intro sched_okI) (use deg idle in \<open>auto simp: s\<close>)
  moreover have "busy_workers ?s = {}" "settled ?s = {}"
    by (auto simp: busy_workers_def settled_def s(3,10))
  then have "counts_ok ?s" by (simp add: counts_ok_def s(6,7,10))
  moreover have "lock_ok ?S ?s" by (auto simp: lock_ok_def holds_lock_def s(9,10))
  moreover have "\<not> finished ?s i sr" for i sr by (simp add: finished_def s(3))
  then have "outcome_ok ?S p ?s" by (intro outcome_okI) (simp_all add: s(5,8) idle)
  ultimately show ?thesis by (simp add: invariant_def run_ok_def)
qed

lemma run_schedule_step:
  "run_schedule S (w # ws) s = Some t \<longleftrightarrow> (\<exists>s'. worker_step S w s = Some s' \<and> run_schedule S ws s' = Some t)"
  by (auto split: option.splits)

lemma run_schedule_append:
  "run_schedule S ws s = Some t \<Longrightarrow> run_schedule S (ws @ ws') s = run_schedule S ws' t"
  by (induction ws arbitrary: s) (auto split: option.splits)

lemma run_schedule_invariant:
  "plan_ok S p \<Longrightarrow> invariant S p s \<Longrightarrow> run_schedule S ws s = Some t \<Longrightarrow> invariant S p t"
proof (induction ws arbitrary: s)
  case (Cons w ws)
  then show ?case using invariant_step by (metis run_schedule_step)
qed simp

lemma run_schedule_budget:
  "plan_ok S p \<Longrightarrow> invariant S p s \<Longrightarrow> run_schedule S ws s = Some t \<Longrightarrow> length ws + budget t \<le> budget s"
proof (induction ws arbitrary: s)
  case (Cons w ws)
  then obtain s' where s': "worker_step S w s = Some s'" "run_schedule S ws s' = Some t"
    by (auto simp: run_schedule_step simp del: run_schedule.simps)
  then have "budget s' < budget s" "invariant S p s'"
    using budget_decreases [OF Cons.prems(1) _ s'(1)] invariant_step [OF Cons.prems(1,2) s'(1)] Cons.prems(2)
    by (simp_all add: invariant_def)
  with Cons.IH [OF Cons.prems(1) _ s'(2)] show ?case by simp
qed simp

lemma runs_to_exit:
  assumes plan: "plan_ok S p"
  shows "invariant S p s \<Longrightarrow> \<exists>ws t. run_schedule S ws s = Some t \<and> all_exited t"
proof (induction "budget s" arbitrary: s rule: less_induct)
  case less
  show ?case
  proof (cases "all_exited s")
    case True
    then show ?thesis by (intro exI [of _ "[]"]) simp
  next
    case False
    then obtain w s' where s': "worker_step S w s = Some s'"
      using progress [OF plan, of s] less.prems unfolding invariant_def by blast
    have "budget s' < budget s" using budget_decreases [OF plan _ s'] less.prems by (simp add: invariant_def)
    then obtain ws t where "run_schedule S ws s' = Some t" "all_exited t"
      using less.hyps invariant_step [OF plan less.prems s'] by blast
    then show ?thesis using s' by (intro exI [of _ "w # ws"]) (simp add: run_schedule_step)
  qed
qed

lemma steps_schedule:
  "(parallel_step S)\<^sup>*\<^sup>* s t \<longleftrightarrow> (\<exists>ws. run_schedule S ws s = Some t)"
proof
  assume "(parallel_step S)\<^sup>*\<^sup>* s t"
  then show "\<exists>ws. run_schedule S ws s = Some t"
  proof (induction rule: converse_rtranclp_induct)
    case base
    show ?case by (intro exI [of _ "[]"]) simp
  next
    case (step s s')
    then obtain w ws where "worker_step S w s = Some s'" "run_schedule S ws s' = Some t"
      by (auto elim: parallel_step.cases)
    then have "run_schedule S (w # ws) s = Some t" by simp
    then show ?case by blast
  qed
next
  assume "\<exists>ws. run_schedule S ws s = Some t"
  then obtain ws where "run_schedule S ws s = Some t" ..
  then show "(parallel_step S)\<^sup>*\<^sup>* s t"
  proof (induction ws arbitrary: s)
    case (Cons w ws)
    then obtain s' where "worker_step S w s = Some s'" "(parallel_step S)\<^sup>*\<^sup>* s' t"
      by (auto split: option.splits)
    then show ?case by (meson converse_rtranclp_into_rtranclp parallel_step.intros)
  qed simp
qed

lemma budget_start:
  "budget (start_state iter hardware opts p env)
     = 20 * length (stages p) + worker_count hardware (length (stages p)) opts"
  by (simp add: budget_def start_state_def sum_list_replicate split: prod.splits)

section \<open>The packed result\<close>

lemma sweep_finished:
  assumes "plan_ok S p" "invariant S p s" "r \<in> set (sweep S s)"
  shows "(\<exists>i. finished s i r) \<or> (\<exists>i < length (stages p). ps_results s ! i = None
    \<and> r = skipped_result (st_id (stages p ! i)))"
proof -
  have stg: "su_stages S = stages p" using assms(1) by (simp add: plan_ok_def)
  have len: "length (ps_results s) = length (stages p)"
    using assms(2) sched_okD(2) by (auto simp: invariant_def run_ok_def)
  show ?thesis
    using assms(3) len by (auto simp: sweep_def stg finished_def split: option.splits)
qed

lemma finished_sweep:
  assumes "plan_ok S p" "invariant S p s" "finished s i r"
  shows "r \<in> set (sweep S s)" "i < length (stages p)"
proof -
  have stg: "su_stages S = stages p" using assms(1) by (simp add: plan_ok_def)
  have len: "length (ps_results s) = length (stages p)"
    using assms(2) sched_okD(2) by (auto simp: invariant_def run_ok_def)
  then show i: "i < length (stages p)" using assms(3) by (simp add: finished_def)
  have "sweep S s ! i = r" "i < length (sweep S s)"
    using assms(3) i by (simp_all add: sweep_def stg finished_def)
  then show "r \<in> set (sweep S s)" using nth_mem by metis
qed

lemma sweep_ids:
  assumes "plan_ok S p" "invariant S p s"
  shows "map sr_id (sweep S s) = map st_id (stages p)"
proof (rule nth_equalityI)
  have stg: "su_stages S = stages p" using assms(1) by (simp add: plan_ok_def)
  show "length (map sr_id (sweep S s)) = length (map st_id (stages p))" by (simp add: sweep_def stg)
  fix i assume "i < length (map sr_id (sweep S s))"
  then have i: "i < length (stages p)" by (simp add: sweep_def stg)
  have "outcome_ok S p s" using assms(2) by (simp add: invariant_def)
  note O = outcome_okD(1) [OF this]
  have len: "length (ps_results s) = length (stages p)"
    using assms(2) sched_okD(2) by (auto simp: invariant_def run_ok_def)
  show "map sr_id (sweep S s) ! i = map st_id (stages p) ! i"
  proof (cases "ps_results s ! i")
    case None
    then show ?thesis using i by (simp add: sweep_def stg skipped_result_def)
  next
    case (Some sr)
    then have "finished s i sr" using i len by (simp add: finished_def)
    then show ?thesis using O Some i by (simp add: sweep_def stg)
  qed
qed

lemma unsettled_stopped:
  assumes "plan_ok S p" "invariant S p s" "all_exited s" "ps_workers s \<noteq> []"
    and "i < length (stages p)" "ps_results s ! i = None"
  shows "ps_stop s"
proof (rule ccontr)
  assume run: "\<not> ps_stop s"
  have ok: "sched_ok p s" "counts_ok s" using assms(2) by (simp_all add: invariant_def run_ok_def)
  have "Exited \<in> set (ps_workers s)" using assms(3,4) by (cases "ps_workers s") (auto simp: all_exited_def)
  then have "card (settled s) = length (stages p)"
    using ok run sched_okD(2) [OF ok(1)] by (auto simp: counts_ok_def)
  moreover have "settled s \<subseteq> {..<length (stages p)} - {i}"
    using assms(6) sched_okD(2) [OF ok(1)] by (auto simp: settled_def)
  then have "card (settled s) \<le> card ({..<length (stages p)} - {i})" by (intro card_mono) auto
  ultimately show False using assms(5) by simp
qed

lemma run_schedule_workers:
  "run_schedule S ws s = Some t \<Longrightarrow> length (ps_workers t) = length (ps_workers s)"
proof (induction ws arbitrary: s)
  case (Cons w ws)
  then obtain s' where s': "worker_step S w s = Some s'" "run_schedule S ws s' = Some t"
    by (auto split: option.splits)
  from s'(1) have "length (ps_workers s') = length (ps_workers s)"
    by (cases rule: worker_stepE) (auto simp: inner_def)
  then show ?case using Cons.IH [OF s'(2)] by simp
qed simp

lemma workers_start:
  "p \<noteq> [] \<Longrightarrow> 0 < worker_count hardware (length p) opts"
  by (simp add: worker_count_def max_def)

section \<open>Properties\<close>

text \<open>C4: Exclusion.  In every state that any interleaving of the workers reaches, no two workers process
  the same stage, no two workers are inside the dispatcher under the same plugin lock, and every stage that
  a worker processes refers only to stages that are settled and were not skipped.\<close>

theorem parallel_exclusion:
  fixes d :: "('p, 'w) dispatcher"
  assumes it: "uset_iter iter" and ok: "dag_ok p"
    and reach: "(parallel_step (make_plan iter d opts p))\<^sup>*\<^sup>* (start_state iter hardware opts p env) s"
  shows "(\<forall>w w' i. busy_at s w i \<and> busy_at s w' i \<longrightarrow> w = w')
    \<and> (\<forall>w w' l. holds_lock (make_plan iter d opts p) s w l \<and> holds_lock (make_plan iter d opts p) s w' l
         \<longrightarrow> w = w')
    \<and> (\<forall>w i j. busy_at s w i \<and> j \<in> deps p i
         \<longrightarrow> (\<exists>sr. ps_results s ! j = Some sr \<and> sr_status sr \<noteq> Skipped))"
proof -
  let ?S = "make_plan iter d opts p"
  obtain ws where "run_schedule ?S ws (start_state iter hardware opts p env) = Some s"
    using reach steps_schedule by blast
  then have inv: "invariant ?S p s"
    using run_schedule_invariant [OF wire_plan(1) [OF it ok] invariant_start [OF it ok]] by blast
  have ok3: "sched_ok p s" "lock_ok ?S s" "outcome_ok ?S p s" using inv by (simp_all add: invariant_def run_ok_def)
  have "\<exists>sr. ps_results s ! j = Some sr \<and> sr_status sr \<noteq> Skipped" if "busy_at s w i" "j \<in> deps p i" for w i j
    using outcome_okD(5) [OF ok3(3) that] by (auto simp: finished_def)
  moreover have "\<forall>w w' l. holds_lock ?S s w l \<and> holds_lock ?S s w' l \<longrightarrow> w = w'"
    using ok3(2) unfolding lock_ok_def by blast
  ultimately show ?thesis using sched_okD(11) [OF ok3(1)] by blast
qed



section \<open>Witnesses\<close>

lemma single_plan:
  "make_plan remdups counter memory_only single
     = \<lparr>su_stages = stages single, su_dispatcher = counter, su_options = memory_only,
        su_ids = [''a'' \<mapsto> 0], su_upstream = [[]], su_dependents = [[]]\<rparr>"
  by (simp add: make_plan_def wire_def index_ids_def single_def wire_stage_def collect_stage_refs_def)

lemma single_start:
  "start_state remdups 4 memory_only single (fresh_env 7)
     = \<lparr>ps_ready = [0], ps_degree = [0], ps_results = [None], ps_hashes = [empty_hash], ps_outputs = [],
        ps_completed = 0, ps_in_flight = 0, ps_stop = False, ps_locks = [], ps_workers = [Waiting],
        ps_env = fresh_env 7\<rparr>"
  by (simp add: start_state_def wire_def index_ids_def single_def wire_stage_def collect_stage_refs_def
      worker_count_def memory_only_def)

lemma dag_ok_single: "dag_ok single"
  using dag.sorter_InrD [OF uset_iter_remdups validate_single] by blast

lemma run_single_parallel:
  "run_parallel remdups remdups 4 counter memory_only single (fresh_env 7) (replicate 9 0)
     = Some (\<lparr>rr_status = Success, rr_errors = [],
          rr_stages = [\<lparr>sr_id = ''a'', sr_status = Executed, sr_hash = single_key, sr_error = None\<rparr>],
          rr_outputs = [(''a'', Some 7)]\<rparr>,
        \<lparr>e_cache = [(single_key, Some 7)], e_disk = blank_disk, e_world = 8\<rparr>)"
proof -
  have n: "replicate 9 (0::nat) = [0, 0, 0, 0, 0, 0, 0, 0, 0]" by (simp add: eval_nat_numeral)
  have m: "stages single \<noteq> []" "length (stages single) = 1" by (simp_all add: single_def)
  show ?thesis
    unfolding run_parallel_def validate_single single_plan single_start n
    by (simp add: m single_stage Let_def worker_step_def pick_def wake_up_def go_def compute_key_def
        stage_context_def upstream_hashes_for_def counter_def look_up_def cache_lookup_def memory_only_def
        fresh_env_def disk_lookup_def cache_get_def acquire_def plugin_lock_def finish_dispatch_def
        store_payload_def disk_store_def cache_put_def publish_def complete_def all_exited_def pack_def
        sweep_def single_key_def)
qed

theorem parallel_exclusion_witness:
  "\<exists>s. busy_at s 0 0 \<and> run_schedule (make_plan remdups counter memory_only single) [0]
       (start_state remdups 4 memory_only single (fresh_env 7)) = Some s
     \<and> (\<forall>w w' i. busy_at s w i \<and> busy_at s w' i \<longrightarrow> w = w')"
proof -
  let ?S = "make_plan remdups counter memory_only single"
  let ?s = "start_state remdups 4 memory_only single (fresh_env (7::nat))"
  obtain s where s: "run_schedule ?S [0] ?s = Some s" "busy_at s 0 0"
    unfolding single_plan single_start
    by (simp add: worker_step_def pick_def wake_up_def busy_at_def go_def)
  then have "(parallel_step ?S)\<^sup>*\<^sup>* ?s s" using steps_schedule by blast
  from parallel_exclusion [OF uset_iter_remdups dag_ok_single this] s show ?thesis by blast
qed



end
