(* ===== verification/Version.thy ===== *)
theory Version
  imports Prelude "HOL-Library.Monad_Syntax"
begin

text \<open>
  Release versions (src/updater/state_machine.cpp): the strict MAJOR.MINOR.PATCH grammar with its
  32-bit components, and the comparison the apply gate rests on, which is shown to be the
  lexicographic order of the three numbers.
\<close>

section \<open>Parsing\<close>

fun parse_u32_loop :: "64 word \<Rightarrow> string \<Rightarrow> 32 word option" where
  "parse_u32_loop v [] = Some (ucast v)"
| "parse_u32_loop v (c # cs) =
     (if \<not> is_digit c then None
      else let v = v * 10 + of_nat (digit_value c)
           in if 0xFFFFFFFF < v then None else parse_u32_loop v cs)"

definition parse_u32 :: "string \<Rightarrow> 32 word option" where
  "parse_u32 s = (if s = [] then None else parse_u32_loop 0 s)"

definition cut_at :: "char \<Rightarrow> string \<Rightarrow> (string \<times> string) option" where
  "cut_at c s = (case dropWhile (\<lambda>x. x \<noteq> c) s of
     [] \<Rightarrow> None | _ # rest \<Rightarrow> Some (takeWhile (\<lambda>x. x \<noteq> c) s, rest))"

datatype release = Release (major: "32 word") (minor: "32 word") (patch: "32 word")

definition split_version :: "string \<Rightarrow> release option" where
  "split_version v = do {
     (p0, rest) \<leftarrow> cut_at CHR ''.'' v;
     (p1, p2) \<leftarrow> cut_at CHR ''.'' rest;
     if list_all is_digit p2
     then do { x \<leftarrow> parse_u32 p0; y \<leftarrow> parse_u32 p1; z \<leftarrow> parse_u32 p2; Some (Release x y z) }
     else None
   }"

section \<open>Comparison\<close>

fun compare_parts :: "(32 word \<times> 32 word) list \<Rightarrow> int" where
  "compare_parts [] = 0"
| "compare_parts ((a, b) # ps) = (if a < b then -1 else if b < a then 1 else compare_parts ps)"

definition compare_versions :: "string \<Rightarrow> string \<Rightarrow> int option" where
  "compare_versions a b =
     (case (split_version a, split_version b) of
        (Some x, Some y) \<Rightarrow>
          Some (compare_parts [(major x, major y), (minor x, minor y), (patch x, patch y)])
      | _ \<Rightarrow> None)"

section \<open>The grammar\<close>

text \<open>The number a string of digits denotes.\<close>

fun decimal :: "string \<Rightarrow> nat" where
  "decimal s = foldl (\<lambda>v c. v * 10 + digit_value c) 0 s"

lemma foldl_decimal_mono: "v \<le> foldl (\<lambda>v c. v * 10 + digit_value c) v s"
proof (induction s arbitrary: v)
  case (Cons c s)
  have "v \<le> v * 10 + digit_value c" by simp
  also have "\<dots> \<le> foldl (\<lambda>v c. v * 10 + digit_value c) (v * 10 + digit_value c) s" by (rule Cons.IH)
  finally show ?case by simp
qed simp

lemma parse_u32_loop:
  assumes "unat v < 2 ^ 32"
  shows "parse_u32_loop v s =
    (if list_all is_digit s \<and> foldl (\<lambda>v c. v * 10 + digit_value c) (unat v) s < 2 ^ 32
     then Some (of_nat (foldl (\<lambda>v c. v * 10 + digit_value c) (unat v) s)) else None)"
  using assms
proof (induction s arbitrary: v)
  case Nil
  have "ucast v = (of_nat (unat v) :: 32 word)" by (simp add: unsigned_of_nat word_unat_eq_iff unsigned_ucast_eq take_bit_nat_def)
  then show ?case using Nil by simp
next
  case (Cons c s)
  show ?case
  proof (cases "is_digit c")
    case True
    let ?w = "v * 10 + of_nat (digit_value c)"
    have d: "digit_value c < 10" using True by (rule digit_value_less)
    have u: "unat ?w = unat v * 10 + digit_value c"
    proof -
      have "unat v * 10 + digit_value c < 2 ^ 64" using Cons.prems d by simp
      then show ?thesis by (simp add: unat_word_ariths unsigned_of_nat take_bit_nat_def)
    qed
    have big: "0xFFFFFFFF < ?w \<longleftrightarrow> 2 ^ 32 \<le> unat v * 10 + digit_value c"
      unfolding word_less_nat_alt u by (simp, arith)
    show ?thesis
    proof (cases "0xFFFFFFFF < ?w")
      case True
      then have "2 ^ 32 \<le> foldl (\<lambda>v c. v * 10 + digit_value c) (unat v * 10 + digit_value c) s"
        using big foldl_decimal_mono le_trans by blast
      then show ?thesis using True \<open>is_digit c\<close> by (simp add: Let_def)
    next
      case False
      then have "unat ?w < 2 ^ 32" using big u by simp
      from Cons.IH [OF this] show ?thesis using False \<open>is_digit c\<close> by (simp add: Let_def u)
    qed
  qed simp
qed

lemma parse_u32_eq:
  "parse_u32 s = (if s \<noteq> [] \<and> list_all is_digit s \<and> decimal s < 2 ^ 32 then Some (of_nat (decimal s)) else None)"
  using parse_u32_loop [of 0 s] by (simp add: parse_u32_def)

lemma cut_at_eq: "cut_at c s = Some (a, b) \<longleftrightarrow> s = a @ c # b \<and> c \<notin> set a"
proof
  assume "cut_at c s = Some (a, b)"
  then have a: "a = takeWhile (\<lambda>x. x \<noteq> c) s" and d: "\<exists>x. dropWhile (\<lambda>x. x \<noteq> c) s = x # b"
    by (auto simp: cut_at_def split: list.splits)
  from d obtain x where x: "dropWhile (\<lambda>x. x \<noteq> c) s = x # b" ..
  then have "x = c" using hd_dropWhile [of "\<lambda>x. x \<noteq> c" s] by simp
  then show "s = a @ c # b \<and> c \<notin> set a"
    using takeWhile_dropWhile_id [of "\<lambda>x. x \<noteq> c" s] x by (auto simp: a dest: set_takeWhileD)
next
  assume "s = a @ c # b \<and> c \<notin> set a"
  then show "cut_at c s = Some (a, b)"
    by (auto simp: cut_at_def takeWhile_append dropWhile_append)
qed

definition component :: "string \<Rightarrow> 32 word \<Rightarrow> bool" where
  "component s n = (s \<noteq> [] \<and> list_all is_digit s \<and> decimal s = unat n)"

lemma parse_u32_component: "parse_u32 s = Some n \<longleftrightarrow> component s n"
proof -
  have "unat (of_nat (decimal s) :: 32 word) = decimal s" if "decimal s < 2 ^ 32"
    using that by (simp add: unsigned_of_nat take_bit_nat_def del: decimal.simps)
  moreover have "decimal s < 2 ^ 32" if "decimal s = unat n"
    using that unsigned_less [of n, where 'a = nat] by simp
  ultimately show ?thesis
    unfolding parse_u32_eq component_def by (auto simp: word_unat_eq_iff simp del: decimal.simps)
qed

lemma digits_no_dot: "list_all is_digit s \<Longrightarrow> CHR ''.'' \<notin> set s"
proof
  assume "list_all is_digit s" "CHR ''.'' \<in> set s"
  then have "is_digit CHR ''.''" by (auto simp: list_all_iff)
  then show False by (simp add: is_digit_def)
qed

lemma split_version_eq:
  "split_version v = Some r \<longleftrightarrow>
     (\<exists>a b c. v = a @ ''.'' @ b @ ''.'' @ c \<and> component a (major r) \<and> component b (minor r) \<and> component c (patch r))"
proof
  assume "split_version v = Some r"
  then obtain a rest b c x y z where p: "cut_at CHR ''.'' v = Some (a, rest)" "cut_at CHR ''.'' rest = Some (b, c)"
      "parse_u32 a = Some x" "parse_u32 b = Some y" "parse_u32 c = Some z" "r = Release x y z"
    by (auto simp: split_version_def split: Option.bind_splits prod.splits if_splits)
  then show "\<exists>a b c. v = a @ ''.'' @ b @ ''.'' @ c \<and> component a (major r) \<and> component b (minor r) \<and> component c (patch r)"
    by (intro exI [of _ a] exI [of _ b] exI [of _ c]) (simp add: cut_at_eq parse_u32_component)
next
  assume "\<exists>a b c. v = a @ ''.'' @ b @ ''.'' @ c \<and> component a (major r) \<and> component b (minor r) \<and> component c (patch r)"
  then obtain a b c where v: "v = a @ CHR ''.'' # b @ CHR ''.'' # c" and
      n: "component a (major r)" "component b (minor r)" "component c (patch r)" by auto
  have "CHR ''.'' \<notin> set a" "CHR ''.'' \<notin> set b" "list_all is_digit c"
    using n digits_no_dot by (auto simp: component_def)
  then have "cut_at CHR ''.'' v = Some (a, b @ CHR ''.'' # c)" "cut_at CHR ''.'' (b @ CHR ''.'' # c) = Some (b, c)"
    using v by (simp_all add: cut_at_eq)
  then show "split_version v = Some r"
    using n \<open>list_all is_digit c\<close> by (simp add: split_version_def flip: parse_u32_component)
qed

section \<open>The order\<close>

instantiation release :: linorder
begin

definition less_release :: "release \<Rightarrow> release \<Rightarrow> bool" where
  "less_release x y \<longleftrightarrow> major x < major y \<or> major x = major y \<and>
     (minor x < minor y \<or> minor x = minor y \<and> patch x < patch y)"

definition less_eq_release :: "release \<Rightarrow> release \<Rightarrow> bool" where
  "less_eq_release x y \<longleftrightarrow> x = y \<or> x < y"

instance
proof
  fix x y z :: release
  show "x < y \<longleftrightarrow> x \<le> y \<and> \<not> y \<le> x" by (auto simp: less_release_def less_eq_release_def)
  show "x \<le> x" by (simp add: less_eq_release_def)
  show "x \<le> y \<Longrightarrow> y \<le> z \<Longrightarrow> x \<le> z" by (auto simp: less_release_def less_eq_release_def)
  show "x \<le> y \<Longrightarrow> y \<le> x \<Longrightarrow> x = y" by (auto simp: less_release_def less_eq_release_def)
  show "x \<le> y \<or> y \<le> x"
    using less_linear [of "major x" "major y"] less_linear [of "minor x" "minor y"]
      less_linear [of "patch x" "patch y"]
    by (auto simp: less_release_def less_eq_release_def release.expand)
qed

end

definition sign_of :: "'a::linorder \<Rightarrow> 'a \<Rightarrow> int" where
  "sign_of x y = (if x < y then -1 else if y < x then 1 else 0)"

lemma compare_parts_release:
  "compare_parts [(major x, major y), (minor x, minor y), (patch x, patch y)] = sign_of x y"
  by (cases "major x" "major y" rule: linorder_cases; cases "minor x" "minor y" rule: linorder_cases;
      cases "patch x" "patch y" rule: linorder_cases; simp add: sign_of_def less_release_def)

lemma compare_versions_eq:
  "compare_versions a b =
     (case (split_version a, split_version b) of (Some x, Some y) \<Rightarrow> Some (sign_of x y) | _ \<Rightarrow> None)"
  unfolding compare_versions_def compare_parts_release ..

lemma sign_of_zero [simp]: "sign_of x y = 0 \<longleftrightarrow> x = y"
  unfolding sign_of_def by (metis less_irrefl linorder_neqE zero_neq_neg_one zero_neq_one)

lemma sign_of_neg [simp]: "sign_of x y < 0 \<longleftrightarrow> x < y"
  unfolding sign_of_def by simp

lemma sign_of_nonneg [simp]: "0 \<le> sign_of x y \<longleftrightarrow> y \<le> x"
  unfolding sign_of_def by auto

lemma sign_of_swap: "sign_of y x = - sign_of x y"
  by (cases x y rule: linorder_cases) (simp_all add: sign_of_def)

text \<open>C17: Version comparison.  Two version strings compare exactly when both are MAJOR.MINOR.PATCH with
  32-bit components, and the result is then the sign of their order as triples of numbers: it is zero exactly
  for equal triples (so leading zeros do not matter), and it is antisymmetric and transitive.\<close>

theorem compare_versions_order:
  "(compare_versions a b \<noteq> None \<longleftrightarrow> split_version a \<noteq> None \<and> split_version b \<noteq> None)
    \<and> (\<forall>x y. split_version a = Some x \<and> split_version b = Some y
         \<longrightarrow> compare_versions a b = Some (if x < y then -1 else if y < x then 1 else 0)
           \<and> compare_versions b a = Some (if y < x then -1 else if x < y then 1 else 0))
    \<and> (\<forall>x. split_version a = Some x \<longleftrightarrow> (\<exists>p q r. a = p @ ''.'' @ q @ ''.'' @ r
         \<and> component p (major x) \<and> component q (minor x) \<and> component r (patch x)))"
  unfolding split_version_eq [symmetric]
  by (auto simp: compare_versions_eq sign_of_def split: option.splits)

theorem compare_versions_order_witness:
  "compare_versions ''1.10.0'' ''1.9.3'' = Some 1 \<and> compare_versions ''1.9.3'' ''1.10.0'' = Some (-1)"
proof -
  have r: "split_version ''1.10.0'' = Some (Release 1 10 0)" "split_version ''1.9.3'' = Some (Release 1 9 3)"
    by code_simp+
  have "Release 1 9 3 < Release 1 10 0" "\<not> Release 1 10 0 < Release 1 9 3"
    by (simp_all add: less_release_def)
  with compare_versions_order [of "''1.10.0''" "''1.9.3''", THEN conjunct2, THEN conjunct1, rule_format,
      OF conjI [OF r]]
  show ?thesis by (simp only: if_True if_False simp_thms)
qed

end
