(* ===== verification/Clock.thy ===== *)
theory Clock
  imports Prelude "HOL-Library.Signed_Division"
begin

text \<open>
  Time stamps of the updater (src/updater/state_machine.cpp): the strict
  \<open>YYYY-MM-DDTHH:MM:SSZ\<close> form, read with \<open>timegm\<close> and written with \<open>gmtime_r\<close>.  A
  \<open>system_clock::time_point\<close> is a signed 64-bit count of ticks; how many ticks a second has is
  left to the standard library (10^9 in libstdc++, 10^6 in libc++, 10^7 in Microsoft's), so it is
  an argument.
\<close>

section \<open>The calendar of the C library\<close>

definition leap :: "int \<Rightarrow> bool" where
  "leap y = (y mod 4 = 0 \<and> y mod 100 \<noteq> 0 \<or> y mod 400 = 0)"

definition year_length :: "int \<Rightarrow> int" where
  "year_length y = (if leap y then 366 else 365)"

definition month_lengths :: "int \<Rightarrow> int list" where
  "month_lengths y = [31, if leap y then 29 else 28, 31, 30, 31, 30, 31, 31, 30, 31, 30, 31]"

text \<open>\<open>std::tm\<close>, with \<open>tm_year\<close> counted from 1900 and \<open>tm_mon\<close> from 0.\<close>

record tm =
  tm_year :: int
  tm_mon :: int
  tm_mday :: int
  tm_hour :: int
  tm_min :: int
  tm_sec :: int

definition days_before_year :: "int \<Rightarrow> int" where
  "days_before_year y = sum_list (map year_length [1970..y - 1])"

text \<open>\<open>timegm\<close> for years from 1970 and months in range; the other fields may exceed their range.\<close>

definition timegm :: "tm \<Rightarrow> int" where
  "timegm tm =
     (let y = tm_year tm + 1900;
          days = days_before_year y + sum_list (take (nat (tm_mon tm)) (month_lengths y)) + (tm_mday tm - 1)
      in ((days * 24 + tm_hour tm) * 60 + tm_min tm) * 60 + tm_sec tm)"

function year_of :: "int \<Rightarrow> int \<Rightarrow> int \<times> int" where
  "year_of y d =
     (if d < 0 then year_of (y - 1) (d + year_length (y - 1))
      else if year_length y \<le> d then year_of (y + 1) (d - year_length y)
      else (y, d))"
  by auto
termination
  by (relation "measure (\<lambda>(y, d). if d < 0 then nat (- d) + 400 else nat d)")
    (auto simp: year_length_def split: if_splits)

declare year_of.simps [simp del]

fun month_of :: "int list \<Rightarrow> int \<Rightarrow> int \<times> int" where
  "month_of (l # ls) d = (if d < l then (0, d) else case month_of ls (d - l) of (m, r) \<Rightarrow> (m + 1, r))"
| "month_of [] d = (0, d)"

text \<open>\<open>gmtime_r\<close>\<close>

definition gmtime :: "int \<Rightarrow> tm" where
  "gmtime t =
     (let (y, yday) = year_of 1970 (t div 86400); (m, mday) = month_of (month_lengths y) yday;
          s = t mod 86400
      in \<lparr>tm_year = y - 1900, tm_mon = m, tm_mday = mday + 1,
          tm_hour = s div 3600, tm_min = s mod 3600 div 60, tm_sec = s mod 60\<rparr>)"

section \<open>Points in time\<close>

type_synonym time_point = "64 word"

definition from_time_t :: "int \<Rightarrow> int \<Rightarrow> time_point" where
  "from_time_t tick secs = word_of_int (secs * tick)"

definition to_time_t :: "int \<Rightarrow> time_point \<Rightarrow> int" where
  "to_time_t tick t = sint t sdiv tick"

definition not_before :: "time_point \<Rightarrow> time_point \<Rightarrow> bool" where
  "not_before a b = (sint b \<le> sint a)"

section \<open>Reading a time stamp\<close>

fun shape_char :: "nat \<Rightarrow> char \<Rightarrow> bool" where
  "shape_char i c =
     (if i = 4 \<or> i = 7 then c = CHR ''-''
      else if i = 10 then c = CHR ''T''
      else if i = 13 \<or> i = 16 then c = CHR '':''
      else if i = 19 then c = CHR ''Z''
      else is_digit c)"

declare shape_char.simps [simp del]

definition digit_at :: "string \<Rightarrow> nat \<Rightarrow> int" where
  "digit_at s i = int (digit_value (s ! i))"

definition two_digits :: "string \<Rightarrow> nat \<Rightarrow> int" where
  "two_digits s off = digit_at s off * 10 + digit_at s (off + 1)"

definition broken_down :: "string \<Rightarrow> tm" where
  "broken_down s =
     (let year = digit_at s 0 * 1000 + digit_at s 1 * 100 + digit_at s 2 * 10 + digit_at s 3
      in \<lparr>tm_year = year - 1900, tm_mon = two_digits s 5 - 1, tm_mday = two_digits s 8,
          tm_hour = two_digits s 11, tm_min = two_digits s 14, tm_sec = two_digits s 17\<rparr>)"

definition parse_rfc3339_utc :: "int \<Rightarrow> string \<Rightarrow> time_point option" where
  "parse_rfc3339_utc tick s =
     (if length s \<noteq> 20 then None
      else if \<not> list_all (\<lambda>(i, c). shape_char i c) (enumerate 0 s) then None
      else let tm = broken_down s; year = tm_year tm + 1900; month = tm_mon tm + 1
        in if year < 1970 \<or> 9999 < year then None
           else if month < 1 \<or> 12 < month then None
           else if tm_mday tm < 1 \<or> 31 < tm_mday tm then None
           else if 23 < tm_hour tm then None
           else if 59 < tm_min tm then None
           else if 60 < tm_sec tm then None
           else let epoch_secs = timegm tm
             in if epoch_secs = -1 then None else Some (from_time_t tick epoch_secs))"

section \<open>Writing a time stamp\<close>

text \<open>\<open>'0' + v\<close> narrowed to \<open>char\<close>; C++ divides towards zero.\<close>

definition put_digit :: "int \<Rightarrow> char" where
  "put_digit v = char_of (nat ((48 + v smod 10) mod 256))"

definition put2 :: "int \<Rightarrow> string" where
  "put2 v = [put_digit (v sdiv 10), put_digit v]"

definition format_rfc3339_utc :: "int \<Rightarrow> time_point \<Rightarrow> string" where
  "format_rfc3339_utc tick t =
     (let tm = gmtime (to_time_t tick t); year = tm_year tm + 1900
      in [put_digit (year sdiv 1000), put_digit (year sdiv 100), put_digit (year sdiv 10), put_digit year]
         @ ''-'' @ put2 (tm_mon tm + 1) @ ''-'' @ put2 (tm_mday tm) @ ''T'' @ put2 (tm_hour tm)
         @ '':'' @ put2 (tm_min tm) @ '':'' @ put2 (tm_sec tm) @ ''Z'')"

section \<open>The calendar is a bijection\<close>

definition valid_tm :: "tm \<Rightarrow> bool" where
  "valid_tm tm = (let y = tm_year tm + 1900 in
     1970 \<le> y \<and> 0 \<le> tm_mon tm \<and> tm_mon tm < 12 \<and>
     1 \<le> tm_mday tm \<and> tm_mday tm \<le> month_lengths y ! nat (tm_mon tm) \<and>
     0 \<le> tm_hour tm \<and> tm_hour tm < 24 \<and> 0 \<le> tm_min tm \<and> tm_min tm < 60 \<and>
     0 \<le> tm_sec tm \<and> tm_sec tm < 60)"

lemma year_length_pos [simp]: "0 < year_length y"
  by (simp add: year_length_def)

lemma sum_month_lengths: "sum_list (month_lengths y) = year_length y"
  by (simp add: month_lengths_def year_length_def)

lemma length_month_lengths [simp]: "length (month_lengths y) = 12"
  by (simp add: month_lengths_def)

lemma month_lengths_pos: "\<forall>l \<in> set (month_lengths y). 0 < l"
  by (simp add: month_lengths_def)

lemma month_of_take:
  assumes "\<forall>l \<in> set ls. 0 < l" "k < length ls" "0 \<le> r" "r < ls ! k"
  shows "month_of ls (sum_list (take k ls) + r) = (int k, r)"
  using assms
proof (induction ls arbitrary: k)
  case (Cons l ls)
  show ?case
  proof (cases k)
    case (Suc k')
    have "0 \<le> sum_list (take k' ls)"
      using Cons.prems(1) by (intro sum_list_nonneg) (auto dest!: in_set_takeD intro: less_imp_le)
    then show ?thesis using Cons.IH [of k'] Cons.prems Suc by simp
  qed (use Cons.prems in simp)
qed simp

lemma month_of_bounds:
  assumes "\<forall>l \<in> set ls. 0 < l" "0 \<le> d" "d < sum_list ls" "month_of ls d = (m, r)"
  shows "0 \<le> m \<and> m < int (length ls) \<and> 0 \<le> r \<and> r < ls ! nat m \<and> sum_list (take (nat m) ls) + r = d"
  using assms
proof (induction ls arbitrary: d m)
  case (Cons l ls)
  show ?case
  proof (cases "d < l")
    case True
    then show ?thesis using Cons.prems by auto
  next
    case False
    obtain m' where m: "month_of ls (d - l) = (m', r)" "m = m' + 1"
      using Cons.prems False by (auto split: prod.splits)
    then have "0 \<le> m' \<and> m' < int (length ls) \<and> 0 \<le> r \<and> r < ls ! nat m' \<and> sum_list (take (nat m') ls) + r = d - l"
      using Cons.IH [of "d - l" m'] Cons.prems False by simp
    then show ?thesis using m(2) by (auto simp: nat_add_distrib)
  qed
qed simp

lemma days_before_year_Suc: "1970 \<le> y \<Longrightarrow> days_before_year (y + 1) = days_before_year y + year_length y"
proof -
  assume "1970 \<le> y"
  then have "[1970..y] = [1970..y - 1] @ [y]" using upto_rec2 [of 1970 y] by simp
  then show ?thesis by (simp add: days_before_year_def)
qed

lemma year_of_forward:
  assumes "1970 \<le> y" "0 \<le> r" "r < year_length y"
  shows "year_of 1970 (days_before_year y + r) = (y, r)"
proof -
  have "year_of (1970 + int n) (days_before_year y - days_before_year (1970 + int n) + r) = (y, r)"
    if "1970 + int n \<le> y" for n
    using that
  proof (induction "nat (y - (1970 + int n))" arbitrary: n)
    case 0
    then have "y = 1970 + int n" by simp
    then show ?case using assms by (subst year_of.simps) simp
  next
    case (Suc k)
    let ?z = "1970 + int n"
    have next_year: "year_of (1970 + int (n + 1)) (days_before_year y - days_before_year (1970 + int (n + 1)) + r) = (y, r)"
      using Suc.hyps(1) [of "n + 1"] Suc.hyps(2) Suc.prems by simp
    have step: "days_before_year (?z + 1) = days_before_year ?z + year_length ?z"
      by (rule days_before_year_Suc) simp
    have "days_before_year (?z + 1) \<le> days_before_year y"
    proof -
      have "[1970..y - 1] = [1970..?z] @ [?z + 1..y - 1]"
        using Suc.hyps(2) upto_split2 [of 1970 "?z" "y - 1"] by simp
      moreover have "0 \<le> sum_list (map year_length [?z + 1..y - 1])"
        by (intro sum_list_nonneg) (auto intro: less_imp_le)
      ultimately show ?thesis by (simp add: days_before_year_def)
    qed
    then have big: "year_length ?z \<le> days_before_year y - days_before_year ?z + r"
      using step assms(2) by simp
    then have "\<not> days_before_year y - days_before_year ?z + r < 0"
      using year_length_pos [of ?z] by linarith
    with big have "year_of ?z (days_before_year y - days_before_year ?z + r)
        = year_of (?z + 1) (days_before_year y - days_before_year ?z + r - year_length ?z)"
      by (subst year_of.simps) simp
    also have "\<dots> = year_of (1970 + int (n + 1)) (days_before_year y - days_before_year (1970 + int (n + 1)) + r)"
      using step by (simp add: algebra_simps)
    finally show ?case using next_year by simp
  qed
  from this [of 0] assms(1) show ?thesis by (simp add: days_before_year_def)
qed

lemma year_of_bounds:
  assumes "0 \<le> d" "1970 \<le> z" "year_of z d = (y, r)"
  shows "z \<le> y \<and> 0 \<le> r \<and> r < year_length y \<and> days_before_year y + r = days_before_year z + d"
  using assms
proof (induction z d rule: year_of.induct)
  case (1 z d)
  show ?case
  proof (cases "year_length z \<le> d")
    case True
    then have "year_of (z + 1) (d - year_length z) = (y, r)"
      using "1.prems" by (subst (asm) year_of.simps) simp
    then show ?thesis
      using "1.IH"(2) "1.prems" True days_before_year_Suc [of z] by simp
  next
    case False
    then show ?thesis using "1.prems" by (subst (asm) year_of.simps) (auto split: if_splits)
  qed
qed

lemma clock_parts: "((s::int) div 3600 * 60 + s mod 3600 div 60) * 60 + s mod 60 = s"
proof -
  have "s mod 3600 mod 60 = s mod 60" by (rule mod_mod_cancel) simp
  then have "s mod 3600 div 60 * 60 + s mod 60 = s mod 3600" using div_mult_mod_eq [of "s mod 3600" 60] by simp
  moreover have "(a * 60 + b) * 60 + c = a * 3600 + (b * 60 + c)" for a b c :: int by simp
  ultimately show ?thesis using div_mult_mod_eq [of s 3600] by metis
qed

lemma clock_bounds:
  assumes "0 \<le> (s::int)" "s < 86400"
  shows "s div 3600 < 24 \<and> 0 \<le> s div 3600 \<and> s mod 3600 div 60 < 60 \<and> 0 \<le> s mod 3600 div 60
    \<and> 0 \<le> s mod 60 \<and> s mod 60 < 60"
proof -
  have "0 \<le> s mod 3600" "s mod 3600 \<le> 3599" using pos_mod_bound [of 3600 s] by simp_all
  moreover have "s div 3600 \<le> 23" using zdiv_mono1 [of s 86399 3600] assms by simp
  moreover have "s mod 3600 div 60 \<le> 59" using zdiv_mono1 [of "s mod 3600" 3599 60] calculation(2) by simp
  ultimately show ?thesis using assms by (simp add: pos_imp_zdiv_nonneg_iff)
qed

lemma clock_of:
  fixes h m s :: int
  assumes "0 \<le> m" "m < 60" "0 \<le> s" "s < 60"
  shows "((h * 60 + m) * 60 + s) div 3600 = h \<and> ((h * 60 + m) * 60 + s) mod 3600 div 60 = m
    \<and> ((h * 60 + m) * 60 + s) mod 60 = s"
proof -
  have e: "(h * 60 + m) * 60 + s = h * 3600 + (m * 60 + s)" by simp
  have "0 \<le> m * 60 + s" "m * 60 + s < 3600" using assms by simp_all
  then have "(h * 3600 + (m * 60 + s)) div 3600 = h" "(h * 3600 + (m * 60 + s)) mod 3600 = m * 60 + s" by simp_all
  moreover have "(m * 60 + s) div 60 = m" using assms by simp
  moreover have "((h * 60 + m) * 60 + s) mod 60 = s mod 60" by (rule mod_mult_self3)
  then have "(h * 3600 + (m * 60 + s)) mod 60 = s" using assms unfolding e by simp
  ultimately show ?thesis unfolding e by metis
qed

lemma split_days: "0 \<le> s \<Longrightarrow> s < 86400 \<Longrightarrow> (d * 86400 + s) div 86400 = d \<and> (d * 86400 + s) mod 86400 = (s::int)"
  by simp

lemma gmtime_timegm:
  assumes "valid_tm tm"
  shows "gmtime (timegm tm) = tm" "0 \<le> timegm tm"
proof -
  let ?y = "tm_year tm + 1900" and ?m = "nat (tm_mon tm)"
  let ?ls = "month_lengths ?y"
  have v: "1970 \<le> ?y" "?m < 12" "0 \<le> tm_mday tm - 1" "tm_mday tm - 1 < ?ls ! ?m"
    using assms by (auto simp: valid_tm_def Let_def)
  let ?d = "sum_list (take ?m ?ls) + (tm_mday tm - 1)"
  have mon: "month_of ?ls ?d = (tm_mon tm, tm_mday tm - 1)"
    using month_of_take [OF month_lengths_pos, of ?m ?y "tm_mday tm - 1"] v assms
    by (simp add: valid_tm_def Let_def)
  have "0 \<le> sum_list (take ?m ?ls)"
    using month_lengths_pos [of ?y] by (intro sum_list_nonneg) (auto dest!: in_set_takeD intro: less_imp_le)
  then have d0: "0 \<le> ?d" using v by simp
  have "?d < sum_list ?ls"
  proof -
    have "sum_list ?ls = sum_list (take ?m ?ls) + sum_list (drop ?m ?ls)"
      by (metis append_take_drop_id sum_list_append)
    moreover have "drop ?m ?ls = ?ls ! ?m # drop (Suc ?m) ?ls" using v by (simp add: Cons_nth_drop_Suc)
    moreover have "0 \<le> sum_list (drop (Suc ?m) ?ls)"
      using month_lengths_pos [of ?y] by (intro sum_list_nonneg) (auto dest!: in_set_dropD intro: less_imp_le)
    ultimately show ?thesis using v by simp
  qed
  then have year: "year_of 1970 (days_before_year ?y + ?d) = (?y, ?d)"
    using year_of_forward v d0 by (simp add: sum_month_lengths)
  let ?days = "days_before_year ?y + ?d"
  let ?s = "(tm_hour tm * 60 + tm_min tm) * 60 + tm_sec tm"
  have t: "timegm tm = ?days * 86400 + ?s"
    by (simp add: timegm_def Let_def algebra_simps)
  have h: "0 \<le> tm_hour tm" "tm_hour tm < 24" "0 \<le> tm_min tm" "tm_min tm < 60" "0 \<le> tm_sec tm" "tm_sec tm < 60"
    using assms by (simp_all add: valid_tm_def Let_def)
  then have s: "0 \<le> ?s" "?s < 86400" by (simp_all add: algebra_simps)
  then have dm: "timegm tm div 86400 = ?days" "timegm tm mod 86400 = ?s"
    using split_days [of ?s ?days] unfolding t by blast+
  have "?s div 3600 = tm_hour tm" "?s mod 3600 div 60 = tm_min tm" "?s mod 60 = tm_sec tm"
    using clock_of [OF h(3-6)] by blast+
  then show "gmtime (timegm tm) = tm"
    by (simp add: gmtime_def dm year mon)
  have "0 \<le> days_before_year ?y"
    unfolding days_before_year_def by (intro sum_list_nonneg) (auto intro: less_imp_le)
  then show "0 \<le> timegm tm" using d0 s by (simp add: t)
qed

lemma timegm_gmtime:
  assumes "0 \<le> t"
  shows "timegm (gmtime t) = t" "valid_tm (gmtime t)"
proof -
  obtain y yd where y: "year_of 1970 (t div 86400) = (y, yd)" by (cases "year_of 1970 (t div 86400)")
  obtain m md where m: "month_of (month_lengths y) yd = (m, md)" by (cases "month_of (month_lengths y) yd")
  have Y: "1970 \<le> y" "0 \<le> yd" "yd < year_length y" "days_before_year y + yd = t div 86400"
    using year_of_bounds [OF _ _ y] assms by (simp_all add: days_before_year_def pos_imp_zdiv_nonneg_iff)
  have M: "0 \<le> m" "m < 12" "0 \<le> md" "md < month_lengths y ! nat m"
      "sum_list (take (nat m) (month_lengths y)) + md = yd"
    using month_of_bounds [OF month_lengths_pos _ _ m] Y by (simp_all add: sum_month_lengths)
  define s where "s = t mod 86400"
  have s: "0 \<le> s" "s < 86400" by (simp_all add: s_def)
  have g: "gmtime t = \<lparr>tm_year = y - 1900, tm_mon = m, tm_mday = md + 1, tm_hour = s div 3600,
      tm_min = s mod 3600 div 60, tm_sec = s mod 60\<rparr>"
    by (simp only: gmtime_def y m s_def Let_def prod.case)
  have "timegm (gmtime t) = (days_before_year y + (sum_list (take (nat m) (month_lengths y)) + md)) * 86400
      + ((s div 3600 * 60 + s mod 3600 div 60) * 60 + s mod 60)"
    unfolding g by (simp add: timegm_def Let_def algebra_simps)
  also have "\<dots> = t div 86400 * 86400 + s" unfolding M(5) Y(4) clock_parts ..
  finally show "timegm (gmtime t) = t" by (simp add: s_def)
  show "valid_tm (gmtime t)"
    unfolding g valid_tm_def Let_def tm.simps using clock_bounds [OF s] Y(1) M by auto
qed

section \<open>Round trips\<close>

lemma sdiv_nonneg: "0 \<le> a \<Longrightarrow> 0 < b \<Longrightarrow> (a::int) sdiv b = a div b"
  by (cases "a = 0") (simp_all add: signed_divide_int_def)

lemma smod_nonneg: "0 \<le> a \<Longrightarrow> 0 < b \<Longrightarrow> (a::int) smod b = a mod b"
  by (cases "a = 0") (simp_all add: signed_modulo_int_def)

lemma put_digit_char: "0 \<le> v \<Longrightarrow> put_digit v = digit_char (nat (v mod 10))"
proof -
  assume "0 \<le> v"
  moreover have "0 \<le> v mod 10" "v mod 10 < 10" by simp_all
  then have "(48 + v mod 10) mod 256 = 48 + v mod 10" by simp
  ultimately show ?thesis
    by (simp add: put_digit_def digit_char_def smod_nonneg nat_add_distrib del: of_nat_nat)
qed

lemma put_digit_is_digit: "0 \<le> v \<Longrightarrow> is_digit (put_digit v)"
  by (simp add: put_digit_char nat_less_iff)

lemma digit_value_put_digit: "0 \<le> v \<Longrightarrow> int (digit_value (put_digit v)) = v mod 10"
  by (simp add: put_digit_char nat_less_iff)

lemma put_digit_value: "is_digit c \<Longrightarrow> v mod 10 = int (digit_value c) \<Longrightarrow> 0 \<le> v \<Longrightarrow> put_digit v = c"
  by (simp add: put_digit_char digit_char_digit_value)

lemma sint_word_of_int: "0 \<le> x \<Longrightarrow> x < 2 ^ 63 \<Longrightarrow> sint (word_of_int x :: time_point) = x"
  by (simp add: signed_of_int signed_take_bit_int_eq_self)

lemma to_from_time_t:
  assumes "0 < tick" "0 \<le> secs" "secs * tick < 2 ^ 63"
  shows "sint (from_time_t tick secs) = secs * tick" "to_time_t tick (from_time_t tick secs) = secs"
proof -
  have "0 \<le> secs * tick" using assms by simp
  then show "sint (from_time_t tick secs) = secs * tick"
    using assms(3) unfolding from_time_t_def by (rule sint_word_of_int)
  then show "to_time_t tick (from_time_t tick secs) = secs"
    using assms by (simp add: to_time_t_def sdiv_nonneg)
qed

definition stamp :: "tm \<Rightarrow> string" where
  "stamp tm = (let year = tm_year tm + 1900 in
      [put_digit (year sdiv 1000), put_digit (year sdiv 100), put_digit (year sdiv 10), put_digit year]
         @ ''-'' @ put2 (tm_mon tm + 1) @ ''-'' @ put2 (tm_mday tm) @ ''T'' @ put2 (tm_hour tm)
         @ '':'' @ put2 (tm_min tm) @ '':'' @ put2 (tm_sec tm) @ ''Z'')"

lemma format_stamp: "format_rfc3339_utc tick t = stamp (gmtime (to_time_t tick t))"
  unfolding format_rfc3339_utc_def stamp_def Let_def ..

lemma stamp_list:
  "stamp tm = [put_digit ((tm_year tm + 1900) sdiv 1000), put_digit ((tm_year tm + 1900) sdiv 100),
     put_digit ((tm_year tm + 1900) sdiv 10), put_digit (tm_year tm + 1900), CHR ''-'',
     put_digit ((tm_mon tm + 1) sdiv 10), put_digit (tm_mon tm + 1), CHR ''-'',
     put_digit (tm_mday tm sdiv 10), put_digit (tm_mday tm), CHR ''T'',
     put_digit (tm_hour tm sdiv 10), put_digit (tm_hour tm), CHR '':'',
     put_digit (tm_min tm sdiv 10), put_digit (tm_min tm), CHR '':'',
     put_digit (tm_sec tm sdiv 10), put_digit (tm_sec tm), CHR ''Z'']"
  unfolding stamp_def put2_def Let_def append.simps ..

lemma valid_tm_ranges:
  assumes "valid_tm tm"
  shows "1970 \<le> tm_year tm + 1900" "0 \<le> tm_mon tm" "tm_mon tm < 12" "1 \<le> tm_mday tm" "tm_mday tm \<le> 31"
    "0 \<le> tm_hour tm" "tm_hour tm < 24" "0 \<le> tm_min tm" "tm_min tm < 60" "0 \<le> tm_sec tm" "tm_sec tm < 60"
proof -
  have "l \<le> 31" if "l \<in> set (month_lengths y)" for l y
    using that by (auto simp: month_lengths_def split: if_splits)
  then have "month_lengths y ! nat (tm_mon tm) \<le> 31" if "0 \<le> tm_mon tm" "tm_mon tm < 12" for y
  proof -
    have "nat (tm_mon tm) < length (month_lengths y)" using that by simp
    then show ?thesis using nth_mem \<open>\<And>y l. l \<in> set (month_lengths y) \<Longrightarrow> l \<le> 31\<close> by blast
  qed
  then show "tm_mday tm \<le> 31" using assms unfolding valid_tm_def Let_def by (meson order_trans)
qed (use assms in \<open>simp_all add: valid_tm_def Let_def\<close>)

lemma broken_down_stamp:
  assumes "valid_tm tm" "tm_year tm + 1900 \<le> 9999"
  shows "broken_down (stamp tm) = tm" "length (stamp tm) = 20"
    "list_all (\<lambda>(i, c). shape_char i c) (enumerate 0 (stamp tm))"
proof -
  note V = valid_tm_ranges [OF assms(1)]
  have two: "int (digit_value (put_digit (v sdiv 10))) * 10 + int (digit_value (put_digit v)) = v"
    if "0 \<le> v" "v < 100" for v
  proof -
    have "v div 10 < 10" "0 \<le> v div 10" using that by simp_all
    then show ?thesis using that by (simp add: digit_value_put_digit sdiv_nonneg)
  qed
  have four: "int (digit_value (put_digit (v sdiv 1000))) * 1000 + int (digit_value (put_digit (v sdiv 100))) * 100
      + int (digit_value (put_digit (v sdiv 10))) * 10 + int (digit_value (put_digit v)) = v"
    if "0 \<le> v" "v \<le> 9999" for v
  proof -
    have d: "v div 100 = v div 10 div 10" "v div 1000 = v div 10 div 10 div 10"
      by (simp_all flip: zdiv_zmult2_eq)
    have "v div 1000 \<le> 9" "0 \<le> v div 1000" using that zdiv_mono1 [of v 9999 1000] by simp_all
    then have "v div 1000 mod 10 = v div 1000" by simp
    then have "v div 1000 mod 10 * 1000 + v div 100 mod 10 * 100 + v div 10 mod 10 * 10 + v mod 10 = v"
      using div_mult_mod_eq [of v 10] div_mult_mod_eq [of "v div 10" 10] div_mult_mod_eq [of "v div 10 div 10" 10]
      unfolding d by linarith
    moreover have "int (digit_value (put_digit (v sdiv 1000))) = v div 1000 mod 10"
      "int (digit_value (put_digit (v sdiv 100))) = v div 100 mod 10"
      "int (digit_value (put_digit (v sdiv 10))) = v div 10 mod 10" "int (digit_value (put_digit v)) = v mod 10"
      using that(1) by (simp_all add: digit_value_put_digit sdiv_nonneg pos_imp_zdiv_nonneg_iff)
    ultimately show ?thesis by (simp only:)
  qed
  show "length (stamp tm) = 20" by (simp add: stamp_def put2_def Let_def)
  let ?d = "\<lambda>v. int (digit_value (put_digit v))" and ?y = "tm_year tm + 1900"
  have at: "digit_at (stamp tm) 0 = ?d (?y sdiv 1000)" "digit_at (stamp tm) 1 = ?d (?y sdiv 100)"
    "digit_at (stamp tm) 2 = ?d (?y sdiv 10)" "digit_at (stamp tm) 3 = ?d ?y"
    "digit_at (stamp tm) 5 = ?d ((tm_mon tm + 1) sdiv 10)" "digit_at (stamp tm) 6 = ?d (tm_mon tm + 1)"
    "digit_at (stamp tm) 8 = ?d (tm_mday tm sdiv 10)" "digit_at (stamp tm) 9 = ?d (tm_mday tm)"
    "digit_at (stamp tm) 11 = ?d (tm_hour tm sdiv 10)" "digit_at (stamp tm) 12 = ?d (tm_hour tm)"
    "digit_at (stamp tm) 14 = ?d (tm_min tm sdiv 10)" "digit_at (stamp tm) 15 = ?d (tm_min tm)"
    "digit_at (stamp tm) 17 = ?d (tm_sec tm sdiv 10)" "digit_at (stamp tm) 18 = ?d (tm_sec tm)"
    by (simp_all add: digit_at_def stamp_list)
  have "two_digits (stamp tm) 5 = tm_mon tm + 1" "two_digits (stamp tm) 8 = tm_mday tm"
    "two_digits (stamp tm) 11 = tm_hour tm" "two_digits (stamp tm) 14 = tm_min tm"
    "two_digits (stamp tm) 17 = tm_sec tm"
    unfolding two_digits_def using V by (simp_all add: at two)
  moreover have "digit_at (stamp tm) 0 * 1000 + digit_at (stamp tm) 1 * 100 + digit_at (stamp tm) 2 * 10
      + digit_at (stamp tm) 3 = ?y"
    unfolding at using V(1) assms(2) by (intro four) simp_all
  ultimately show "broken_down (stamp tm) = tm" by (simp add: broken_down_def Let_def)
  show "list_all (\<lambda>(i, c). shape_char i c) (enumerate 0 (stamp tm))"
    using V by (simp add: stamp_def put2_def Let_def put_digit_is_digit sdiv_nonneg shape_char.simps)
qed

lemma string20:
  assumes "length s = 20"
  obtains a b c d e f g h i j k l m n p q r t u v where "s = [a, b, c, d, e, f, g, h, i, j, k, l, m, n, p, q, r, t, u, v]"
  using assms by (auto simp: eval_nat_numeral length_Suc_conv)

lemma stamp_broken_down:
  assumes "length s = 20" "list_all (\<lambda>(i, c). shape_char i c) (enumerate 0 s)"
  shows "stamp (broken_down s) = s"
proof -
  obtain a b c d e f g h i j k l m n p q r t u v where
    s: "s = [a, b, c, d, e, f, g, h, i, j, k, l, m, n, p, q, r, t, u, v]" using string20 [OF assms(1)] .
  have D: "is_digit a" "is_digit b" "is_digit c" "is_digit d" "e = CHR ''-''" "is_digit f" "is_digit g"
    "h = CHR ''-''" "is_digit i" "is_digit j" "k = CHR ''T''" "is_digit l" "is_digit m" "n = CHR '':''"
    "is_digit p" "is_digit q" "r = CHR '':''" "is_digit t" "is_digit u" "v = CHR ''Z''"
    using assms(2) by (simp_all add: s shape_char.simps)
  have two: "put_digit ((int (digit_value x) * 10 + int (digit_value y)) sdiv 10) = x"
    "put_digit (int (digit_value x) * 10 + int (digit_value y)) = y" if "is_digit x" "is_digit y" for x y
    using digit_value_less [OF that(1)] digit_value_less [OF that(2)] that
    by (simp_all add: sdiv_nonneg put_digit_value)
  define Y where "Y = int (digit_value a) * 1000 + int (digit_value b) * 100 + int (digit_value c) * 10
      + int (digit_value d)"
  have "put_digit (Y sdiv 1000) = a" "put_digit (Y sdiv 100) = b" "put_digit (Y sdiv 10) = c" "put_digit Y = d"
  proof -
    have u: "digit_value a < 10" "digit_value b < 10" "digit_value c < 10" "digit_value d < 10" "0 \<le> Y"
      using D digit_value_less by (simp_all add: Y_def)
    have "Y div 1000 = int (digit_value a)"
      "Y div 100 = int (digit_value a) * 10 + int (digit_value b)"
      "Y div 10 = (int (digit_value a) * 10 + int (digit_value b)) * 10 + int (digit_value c)"
      "Y = ((int (digit_value a) * 10 + int (digit_value b)) * 10 + int (digit_value c)) * 10 + int (digit_value d)"
      using u(1-4) by (simp_all add: Y_def)
    moreover have "(x * 10 + int (digit_value z)) mod 10 = int (digit_value z)" if "digit_value z < 10" for x z
      using that by (subst mod_mult_self3) simp
    ultimately have "Y div 1000 mod 10 = int (digit_value a)" "Y div 100 mod 10 = int (digit_value b)"
      "Y div 10 mod 10 = int (digit_value c)" "Y mod 10 = int (digit_value d)"
      using u(1-4) by (simp, metis, metis, metis)
    note digit = this
    have "Y sdiv 1000 = Y div 1000" "Y sdiv 100 = Y div 100" "Y sdiv 10 = Y div 10"
      "0 \<le> Y div 1000" "0 \<le> Y div 100" "0 \<le> Y div 10"
      using u(5) by (simp_all add: sdiv_nonneg pos_imp_zdiv_nonneg_iff)
    then show "put_digit (Y sdiv 1000) = a" "put_digit (Y sdiv 100) = b" "put_digit (Y sdiv 10) = c"
      "put_digit Y = d"
      using put_digit_value [OF D(1) digit(1)] put_digit_value [OF D(2) digit(2)]
        put_digit_value [OF D(3) digit(3)] put_digit_value [OF D(4) digit(4) u(5)] by argo+
  qed
  note year = this
  have at: "digit_at s 0 = int (digit_value a)" "digit_at s 1 = int (digit_value b)"
    "digit_at s 2 = int (digit_value c)" "digit_at s 3 = int (digit_value d)"
    "digit_at s 5 = int (digit_value f)" "digit_at s 6 = int (digit_value g)"
    "digit_at s 8 = int (digit_value i)" "digit_at s 9 = int (digit_value j)"
    "digit_at s 11 = int (digit_value l)" "digit_at s 12 = int (digit_value m)"
    "digit_at s 14 = int (digit_value p)" "digit_at s 15 = int (digit_value q)"
    "digit_at s 17 = int (digit_value t)" "digit_at s 18 = int (digit_value u)"
    by (simp_all add: digit_at_def s)
  have "tm_year (broken_down s) + 1900 = Y" by (simp add: broken_down_def Let_def at [unfolded One_nat_def] Y_def)
  moreover have "tm_mon (broken_down s) + 1 = int (digit_value f) * 10 + int (digit_value g)"
    "tm_mday (broken_down s) = int (digit_value i) * 10 + int (digit_value j)"
    "tm_hour (broken_down s) = int (digit_value l) * 10 + int (digit_value m)"
    "tm_min (broken_down s) = int (digit_value p) * 10 + int (digit_value q)"
    "tm_sec (broken_down s) = int (digit_value t) * 10 + int (digit_value u)"
    by (simp_all add: broken_down_def Let_def two_digits_def at)
  ultimately show ?thesis
    unfolding stamp_list s by (simp only: year two D)
qed

text \<open>Time stamps written are read back.  Every whole second from 1970 to the end of 9999 that the clock
  can represent is formatted to a string that parses to the same point in time, whatever the clock's tick.\<close>

theorem time_stamp_read_back:
  assumes "0 < tick" "0 \<le> secs" "secs * tick < 2 ^ 63" "tm_year (gmtime secs) + 1900 \<le> 9999"
  shows "parse_rfc3339_utc tick (format_rfc3339_utc tick (from_time_t tick secs)) = Some (from_time_t tick secs)"
proof -
  note V = timegm_gmtime [OF assms(2)]
  note B = broken_down_stamp [OF V(2) assms(4)] and R = valid_tm_ranges [OF V(2)]
  show ?thesis
    unfolding format_stamp to_from_time_t(2) [OF assms(1-3)] parse_rfc3339_utc_def
    using B R assms(2,4) V(1) by (simp add: Let_def)
qed

text \<open>Time stamps read are canonical.  A string that is accepted and names a real calendar second within
  the clock's range is exactly what formatting the parsed point in time gives back, so no two such strings
  denote the same instant.\<close>

theorem time_stamp_canonical:
  assumes "parse_rfc3339_utc tick s = Some t" "valid_tm (broken_down s)"
    and "0 < tick" "timegm (broken_down s) * tick < 2 ^ 63"
  shows "format_rfc3339_utc tick t = s"
proof -
  have s: "length s = 20" "list_all (\<lambda>(i, c). shape_char i c) (enumerate 0 s)"
    "t = from_time_t tick (timegm (broken_down s))"
    using assms(1) by (auto simp: parse_rfc3339_utc_def Let_def split: if_splits)
  note G = gmtime_timegm [OF assms(2)]
  show ?thesis
    unfolding format_stamp s(3) to_from_time_t(2) [OF assms(3) G(2) assms(4)] G(1)
    by (rule stamp_broken_down [OF s(1,2)])
qed

theorem time_stamp_read_back_witness:
  "parse_rfc3339_utc 1000000000 (format_rfc3339_utc 1000000000 (from_time_t 1000000000 951782400))
     = Some (from_time_t 1000000000 951782400)"
proof -
  have "gmtime 951782400 = \<lparr>tm_year = 100, tm_mon = 1, tm_mday = 29, tm_hour = 0, tm_min = 0, tm_sec = 0\<rparr>"
    by code_simp
  then show ?thesis using time_stamp_read_back [of 1000000000 951782400] by simp
qed

theorem time_stamp_canonical_witness:
  "format_rfc3339_utc 1000000000 (from_time_t 1000000000 951782400) = ''2000-02-29T00:00:00Z''"
proof -
  have p: "parse_rfc3339_utc 1000000000 ''2000-02-29T00:00:00Z'' = Some (from_time_t 1000000000 951782400)"
    "valid_tm (broken_down ''2000-02-29T00:00:00Z'')" "timegm (broken_down ''2000-02-29T00:00:00Z'') = 951782400"
    by code_simp+
  show ?thesis by (rule time_stamp_canonical [OF p(1,2)]) (simp_all add: p(3))
qed

text \<open>
  The accepted years reach 9999, the clock of libstdc++ only to April 2262: there a later time
  stamp, read with a tick of a nanosecond, is a point in time long past.
\<close>

lemma far_future_wraps:
  "parse_rfc3339_utc 1000000000 ''2263-01-01T00:00:00Z'' = Some (from_time_t 1000000000 9246182400)"
  "sint (from_time_t 1000000000 9246182400) < 0"
proof -
  show "parse_rfc3339_utc 1000000000 ''2263-01-01T00:00:00Z'' = Some (from_time_t 1000000000 9246182400)"
    by code_simp
  show "sint (from_time_t 1000000000 9246182400) < 0" by code_simp
qed

text \<open>29 February of a common year is accepted and means 1 March.\<close>

lemma february_29_normalised:
  "parse_rfc3339_utc tick ''2023-02-29T00:00:00Z'' = parse_rfc3339_utc tick ''2023-03-01T00:00:00Z''"
  "parse_rfc3339_utc tick ''2023-02-29T00:00:00Z'' \<noteq> None"
proof -
  have "timegm (broken_down ''2023-02-29T00:00:00Z'') = 1677628800" "timegm (broken_down ''2023-03-01T00:00:00Z'') = 1677628800"
    by code_simp+
  moreover have "broken_down ''2023-02-29T00:00:00Z'' = \<lparr>tm_year = 123, tm_mon = 1, tm_mday = 29, tm_hour = 0, tm_min = 0, tm_sec = 0\<rparr>"
    "broken_down ''2023-03-01T00:00:00Z'' = \<lparr>tm_year = 123, tm_mon = 2, tm_mday = 1, tm_hour = 0, tm_min = 0, tm_sec = 0\<rparr>"
    by code_simp+
  moreover have "list_all (\<lambda>(i, c). shape_char i c) (enumerate 0 ''2023-02-29T00:00:00Z'')"
    "list_all (\<lambda>(i, c). shape_char i c) (enumerate 0 ''2023-03-01T00:00:00Z'')" by code_simp+
  ultimately show "parse_rfc3339_utc tick ''2023-02-29T00:00:00Z'' = parse_rfc3339_utc tick ''2023-03-01T00:00:00Z''"
    "parse_rfc3339_utc tick ''2023-02-29T00:00:00Z'' \<noteq> None"
    by (simp_all add: parse_rfc3339_utc_def Let_def)
qed

end
