(* ===== verification/Toml.thy ===== *)
theory Toml
  imports Prelude
begin

text \<open>
  The TOML reader as the updater uses it.  toml++ is not part of the repository: a document node is
  a type parameter and the library's accessors are the fields of a record, an argument of every
  definition that reads a document.  Exceptions are the left side of a sum.
\<close>

section \<open>The accessors\<close>

text \<open>
  \<open>toml_get\<close> is \<open>table::get\<close>; \<open>toml_string\<close>, \<open>toml_integer\<close> and \<open>toml_boolean\<close> are
  \<open>node::value<T>\<close>; \<open>toml_is_table\<close> and \<open>toml_array\<close> are \<open>node::as_table\<close> and \<open>node::as_array\<close>;
  \<open>toml_parse\<close> gives the description of the \<open>parse_error\<close> it throws, or the root table; \<open>toml_unreadable\<close> is the description
  when \<open>parse_file\<close> cannot open its file.
\<close>

record 'n toml =
  toml_get :: "'n \<Rightarrow> string \<Rightarrow> 'n option"
  toml_string :: "'n \<Rightarrow> string option"
  toml_integer :: "'n \<Rightarrow> int option"
  toml_boolean :: "'n \<Rightarrow> bool option"
  toml_is_table :: "'n \<Rightarrow> bool"
  toml_array :: "'n \<Rightarrow> 'n list option"
  toml_parse :: "string \<Rightarrow> string + 'n"
  toml_unreadable :: string

definition get_table :: "('n, 'x) toml_scheme \<Rightarrow> 'n \<Rightarrow> string \<Rightarrow> 'n option" where
  "get_table api t k =
     (case toml_get api t k of None \<Rightarrow> None | Some n \<Rightarrow> if toml_is_table api n then Some n else None)"

definition get_array :: "('n, 'x) toml_scheme \<Rightarrow> 'n \<Rightarrow> string \<Rightarrow> 'n list option" where
  "get_array api t k = (case toml_get api t k of None \<Rightarrow> None | Some n \<Rightarrow> toml_array api n)"

definition em_dash :: string where
  "em_dash = [CHR 0x20, CHR 0xE2, CHR 0x80, CHR 0x94, CHR 0x20]"

section \<open>Computations that may throw\<close>

definition attempt :: "'e + 'a \<Rightarrow> ('a \<Rightarrow> 'e + 'b) \<Rightarrow> 'e + 'b" where
  "attempt r k = (case r of Inl e \<Rightarrow> Inl e | Inr x \<Rightarrow> k x)"

lemma attempt_simps [simp]: "attempt (Inl e) k = Inl e" "attempt (Inr x) k = k x"
  by (simp_all add: attempt_def)

lemma attempt_Inr: "attempt r k = Inr y \<longleftrightarrow> (\<exists>x. r = Inr x \<and> k x = Inr y)"
  by (cases r) simp_all

lemma attempt_Inl: "attempt r k = Inl e \<longleftrightarrow> r = Inl e \<or> (\<exists>x. r = Inr x \<and> k x = Inl e)"
  by (cases r) simp_all

definition guard_that :: "bool \<Rightarrow> 'e \<Rightarrow> 'e + unit" where
  "guard_that b e = (if b then Inr () else Inl e)"

lemma guard_that_simps [simp]: "guard_that True e = Inr ()" "guard_that False e = Inl e"
  by (simp_all add: guard_that_def)

lemma guard_that_Inr [simp]: "guard_that b e = Inr u \<longleftrightarrow> b"
  by (simp add: guard_that_def)

lemma guard_that_Inl [simp]: "guard_that b e = Inl e' \<longleftrightarrow> \<not> b \<and> e = e'"
  by (auto simp: guard_that_def)

definition required :: "'a option \<Rightarrow> 'e \<Rightarrow> 'e + 'a" where
  "required x e = (case x of None \<Rightarrow> Inl e | Some y \<Rightarrow> Inr y)"

lemma required_simps [simp]: "required None e = Inl e" "required (Some y) e = Inr y"
  by (simp_all add: required_def)

lemma required_Inr [simp]: "required x e = Inr y \<longleftrightarrow> x = Some y"
  by (cases x) simp_all

lemma required_Inl [simp]: "required x e = Inl e' \<longleftrightarrow> x = None \<and> e = e'"
  by (cases x) auto

text \<open>The loop over a container whose body may throw.\<close>

fun attempt_map :: "('a \<Rightarrow> 'e + 'b) \<Rightarrow> 'a list \<Rightarrow> 'e + 'b list" where
  "attempt_map f [] = Inr []"
| "attempt_map f (x # xs) = attempt (f x) (\<lambda>y. attempt (attempt_map f xs) (\<lambda>ys. Inr (y # ys)))"

lemma attempt_map_Inr: "attempt_map f xs = Inr ys \<longleftrightarrow> list_all2 (\<lambda>x y. f x = Inr y) xs ys"
  by (induction xs arbitrary: ys) (auto simp: attempt_Inr list_all2_Cons1)

section \<open>A document type\<close>

text \<open>A concrete instance of the accessors, for the witnesses.\<close>

datatype toml_doc =
    Toml_string string
  | Toml_integer int
  | Toml_boolean bool
  | Toml_array "toml_doc list"
  | Toml_table "(string \<times> toml_doc) list"

definition toml_of :: "(string \<Rightarrow> string + toml_doc) \<Rightarrow> toml_doc toml" where
  "toml_of parse =
     \<lparr>toml_get = (\<lambda>n k. case n of Toml_table fs \<Rightarrow> map_of fs k | _ \<Rightarrow> None),
      toml_string = (\<lambda>n. case n of Toml_string s \<Rightarrow> Some s | _ \<Rightarrow> None),
      toml_integer = (\<lambda>n. case n of Toml_integer i \<Rightarrow> Some i | _ \<Rightarrow> None),
      toml_boolean = (\<lambda>n. case n of Toml_boolean b \<Rightarrow> Some b | _ \<Rightarrow> None),
      toml_is_table = (\<lambda>n. case n of Toml_table _ \<Rightarrow> True | _ \<Rightarrow> False),
      toml_array = (\<lambda>n. case n of Toml_array ns \<Rightarrow> Some ns | _ \<Rightarrow> None),
      toml_parse = parse,
      toml_unreadable = ''File could not be opened for reading''\<rparr>"

end
