(* ===== verification/Update_Manifest.thy ===== *)
theory Update_Manifest
  imports Toml
begin

text \<open>
  The signed update manifest (src/updater/manifest.cpp, include/souxmar/update/manifest.h): its
  fields, the parser over a TOML document, and the validator that reports every publishability
  issue.  The lemmas show which manifests parse and what exactly passes validation.
\<close>

section \<open>Data\<close>

datatype channel_name = Stable | Beta | Nightly

datatype os = Linux_os | Macos | Windows_os

datatype arch = X86_64 | Aarch64

record artifact =
  a_os :: os
  a_arch :: arch
  a_url :: string
  a_sha256 :: string
  a_size :: u64

record signing_block =
  algorithm :: string
  public_key_id :: string

record release_block =
  rel_version :: string
  released_at :: string
  min_previous_version :: string
  rollback_target :: string
  notes_url :: string
  mandatory :: bool

record channel_block =
  ch_name :: channel_name
  expires_at :: string

record manifest =
  mf_schema :: u32
  generated_at :: string
  mf_channel :: channel_block
  mf_release :: release_block
  mf_artifacts :: "artifact list"
  mf_signing :: signing_block

definition parse_channel :: "string \<Rightarrow> channel_name option" where
  "parse_channel s =
     (if s = ''stable'' then Some Stable else if s = ''beta'' then Some Beta
      else if s = ''nightly'' then Some Nightly else None)"

definition parse_os :: "string \<Rightarrow> os option" where
  "parse_os s =
     (if s = ''linux'' then Some Linux_os else if s = ''macos'' then Some Macos
      else if s = ''windows'' then Some Windows_os else None)"

definition parse_arch :: "string \<Rightarrow> arch option" where
  "parse_arch s =
     (if s = ''x86_64'' then Some X86_64 else if s = ''aarch64'' then Some Aarch64 else None)"

fun channel_str :: "channel_name \<Rightarrow> string" where
  "channel_str Stable = ''stable''"
| "channel_str Beta = ''beta''"
| "channel_str Nightly = ''nightly''"

fun os_str :: "os \<Rightarrow> string" where
  "os_str Linux_os = ''linux''"
| "os_str Macos = ''macos''"
| "os_str Windows_os = ''windows''"

fun arch_str :: "arch \<Rightarrow> string" where
  "arch_str X86_64 = ''x86_64''"
| "arch_str Aarch64 = ''aarch64''"

section \<open>Parsing\<close>

definition required_string :: "('n, 'x) toml_scheme \<Rightarrow> 'n \<Rightarrow> string \<Rightarrow> string \<Rightarrow> string + string" where
  "required_string api t key scope =
     attempt (required (toml_get api t key) (scope @ '': missing required field '' @ [CHR 0x27] @ key @ [CHR 0x27]))
       (\<lambda>v. required (toml_string api v) (scope @ '': field '' @ [CHR 0x27] @ key @ [CHR 0x27] @ '' must be a string''))"

definition optional_string :: "('n, 'x) toml_scheme \<Rightarrow> 'n \<Rightarrow> string \<Rightarrow> string" where
  "optional_string api t key =
     (case toml_get api t key of
        None \<Rightarrow> []
      | Some v \<Rightarrow> (case toml_string api v of Some s \<Rightarrow> s | None \<Rightarrow> []))"

definition optional_bool :: "('n, 'x) toml_scheme \<Rightarrow> 'n \<Rightarrow> string \<Rightarrow> bool \<Rightarrow> bool" where
  "optional_bool api t key dv =
     (case toml_get api t key of
        None \<Rightarrow> dv
      | Some v \<Rightarrow> (case toml_boolean api v of Some b \<Rightarrow> b | None \<Rightarrow> dv))"

definition required_uint :: "('n, 'x) toml_scheme \<Rightarrow> 'n \<Rightarrow> string \<Rightarrow> string \<Rightarrow> string + u64" where
  "required_uint api t key scope =
     attempt (required (toml_get api t key) (scope @ '': missing required field '' @ [CHR 0x27] @ key @ [CHR 0x27]))
       (\<lambda>v. attempt (required (toml_integer api v)
               (scope @ '': field '' @ [CHR 0x27] @ key @ [CHR 0x27] @ '' must be a positive integer''))
         (\<lambda>iv. if iv < 0
               then Inl (scope @ '': field '' @ [CHR 0x27] @ key @ [CHR 0x27] @ '' must be non-negative (got ''
                         @ int_str iv @ '')'')
               else Inr (word_of_int iv)))"

definition kManifestSchemaV1 :: u32 where
  "kManifestSchemaV1 = 1"

definition parse_schema :: "('n, 'x) toml_scheme \<Rightarrow> 'n \<Rightarrow> string + unit" where
  "parse_schema api root =
     attempt (required (toml_get api root ''schema'') (''missing required field '' @ [CHR 0x27] @ ''schema'' @ [CHR 0x27]))
       (\<lambda>n. attempt (required (toml_integer api n) ([CHR 0x27] @ ''schema'' @ [CHR 0x27] @ '' must be an integer''))
         (\<lambda>v. guard_that (v = uint kManifestSchemaV1)
                (''unsupported manifest schema '' @ int_str v @ '' (this parser supports schema=''
                 @ nat_str (unat kManifestSchemaV1) @ '')'')))"

definition parse_channel_block :: "('n, 'x) toml_scheme \<Rightarrow> 'n \<Rightarrow> string + channel_block" where
  "parse_channel_block api root =
     attempt (required (get_table api root ''channel'') ''missing required table [channel]'')
       (\<lambda>t. attempt (required_string api t ''name'' ''[channel]'')
         (\<lambda>name. attempt (required (parse_channel name)
               (''[channel]: unknown channel name '' @ [CHR 0x27] @ name @ [CHR 0x27]
                @ '' (expected stable, beta, or nightly)''))
           (\<lambda>c. Inr \<lparr>ch_name = c, expires_at = optional_string api t ''expires_at''\<rparr>)))"

definition parse_release_block :: "('n, 'x) toml_scheme \<Rightarrow> 'n \<Rightarrow> string + release_block" where
  "parse_release_block api root =
     attempt (required (get_table api root ''release'') ''missing required table [release]'')
       (\<lambda>t. attempt (required_string api t ''version'' ''[release]'')
         (\<lambda>v. Inr \<lparr>rel_version = v, released_at = optional_string api t ''released_at'',
                   min_previous_version = optional_string api t ''min_previous_version'',
                   rollback_target = optional_string api t ''rollback_target'',
                   notes_url = optional_string api t ''notes_url'',
                   mandatory = optional_bool api t ''mandatory'' False\<rparr>))"

definition parse_artifact :: "('n, 'x) toml_scheme \<Rightarrow> nat \<times> 'n \<Rightarrow> string + artifact" where
  "parse_artifact api e =
     (case e of (idx, t) \<Rightarrow>
        attempt (guard_that (toml_is_table api t) (''[[artifact]] entry #'' @ nat_str idx @ '' is not a table''))
          (\<lambda>_. let scope = ''[[artifact]] #'' @ nat_str idx in
            attempt (required_string api t ''os'' scope) (\<lambda>os_s.
            attempt (required_string api t ''arch'' scope) (\<lambda>arch_s.
            attempt (required (parse_os os_s) (scope @ '': unknown os '' @ [CHR 0x27] @ os_s @ [CHR 0x27]
                      @ '' (expected linux, macos, or windows)'')) (\<lambda>o_v.
            attempt (required (parse_arch arch_s) (scope @ '': unknown arch '' @ [CHR 0x27] @ arch_s @ [CHR 0x27]
                      @ '' (expected x86_64 or aarch64)'')) (\<lambda>a_v.
            attempt (required_string api t ''url'' scope) (\<lambda>url.
            attempt (required_string api t ''sha256'' scope) (\<lambda>sha.
            attempt (required_uint api t ''size'' scope) (\<lambda>sz.
              Inr \<lparr>a_os = o_v, a_arch = a_v, a_url = url, a_sha256 = sha, a_size = sz\<rparr>)))))))))"

definition parse_artifacts :: "('n, 'x) toml_scheme \<Rightarrow> 'n \<Rightarrow> string + artifact list" where
  "parse_artifacts api root =
     attempt (required (get_array api root ''artifact'') ''missing required table-array [[artifact]]'')
       (\<lambda>ns. attempt (guard_that (ns \<noteq> []) ''[[artifact]] must contain at least one entry'')
         (\<lambda>_. attempt_map (parse_artifact api) (enumerate 0 ns)))"

definition parse_signing_block :: "('n, 'x) toml_scheme \<Rightarrow> 'n \<Rightarrow> string + signing_block" where
  "parse_signing_block api root =
     attempt (required (get_table api root ''signing'') ''missing required table [signing]'')
       (\<lambda>t. attempt (required_string api t ''algorithm'' ''[signing]'')
         (\<lambda>alg. attempt (required_string api t ''public_key_id'' ''[signing]'')
           (\<lambda>key. Inr \<lparr>algorithm = alg, public_key_id = key\<rparr>)))"

definition parse_root :: "('n, 'x) toml_scheme \<Rightarrow> 'n \<Rightarrow> string + manifest" where
  "parse_root api root =
     attempt (parse_schema api root) (\<lambda>_.
     attempt (parse_channel_block api root) (\<lambda>ch.
     attempt (parse_release_block api root) (\<lambda>rel.
     attempt (parse_artifacts api root) (\<lambda>arts.
     attempt (parse_signing_block api root) (\<lambda>sig.
       Inr \<lparr>mf_schema = kManifestSchemaV1, generated_at = optional_string api root ''generated_at'',
            mf_channel = ch, mf_release = rel, mf_artifacts = arts, mf_signing = sig\<rparr>)))))"

definition wrap_parse :: "('n, 'x) toml_scheme \<Rightarrow> 'n \<Rightarrow> string \<Rightarrow> string + manifest" where
  "wrap_parse api root ctx =
     (case parse_root api root of Inl e \<Rightarrow> Inl (ctx @ '': '' @ e) | Inr m \<Rightarrow> Inr m)"

definition parse_manifest_string :: "('n, 'x) toml_scheme \<Rightarrow> string \<Rightarrow> string + manifest" where
  "parse_manifest_string api text =
     (case toml_parse api text of
        Inl e \<Rightarrow> Inl (''<string>: '' @ e)
      | Inr root \<Rightarrow> wrap_parse api root ''<string>'')"

section \<open>Validation\<close>

datatype severity = Error | Warning

fun severity_str :: "severity \<Rightarrow> string" where
  "severity_str Error = ''error''"
| "severity_str Warning = ''warning''"

record issue =
  i_severity :: severity
  i_field :: string
  i_message :: string

definition issue :: "severity \<Rightarrow> string \<Rightarrow> string \<Rightarrow> issue" where
  "issue s f m = \<lparr>i_severity = s, i_field = f, i_message = m\<rparr>"

definition looks_like_http_url :: "string \<Rightarrow> bool" where
  "looks_like_http_url s =
     (if length s < 8 then False
      else let https = starts_with ''https://'' s; http = starts_with ''http://'' s
        in if \<not> https \<and> \<not> http then False
           else let prefix_len = (if https then 8 else 7)
             in if length s \<le> prefix_len then False else s ! prefix_len \<noteq> CHR ''/'')"

definition is_lowercase_hex_64 :: "string \<Rightarrow> bool" where
  "is_lowercase_hex_64 s =
     (length s = 64 \<and> list_all (\<lambda>c. is_digit c \<or> CHR ''a'' \<le> c \<and> c \<le> CHR ''f'') s)"

fun semverish_loop :: "nat \<Rightarrow> string \<Rightarrow> bool" where
  "semverish_loop dots [] = (dots = 2)"
| "semverish_loop dots (c # cs) =
     (if c = CHR ''.'' then (if 2 < dots + 1 then False else semverish_loop (dots + 1) cs)
      else if \<not> is_digit c then False else semverish_loop dots cs)"

definition looks_semverish :: "string \<Rightarrow> bool" where
  "looks_semverish v = (if v = [] then False else semverish_loop 0 v)"

definition artifact_field :: "nat \<Rightarrow> string \<Rightarrow> string" where
  "artifact_field i f = ''artifacts['' @ nat_str i @ ''].'' @ f"

definition report_if :: "bool \<Rightarrow> 'a \<Rightarrow> 'a list" where
  "report_if b x = (if b then [x] else [])"

definition signing_issues :: "signing_block \<Rightarrow> issue list" where
  "signing_issues sg =
     report_if (algorithm sg \<noteq> ''ed25519'') (issue Error ''signing.algorithm''
       (''unsupported signing algorithm '' @ quoted (algorithm sg) @ '' (v1 manifest must be '' @ quoted ''ed25519'' @ '')''))
     @ report_if (public_key_id sg = []) (issue Error ''signing.public_key_id''
       (''public_key_id must not be empty'' @ em_dash @ ''the verifier needs an id to look up the trust-store key''))"

definition release_issues :: "release_block \<Rightarrow> issue list" where
  "release_issues r =
     report_if (\<not> looks_semverish (rel_version r)) (issue Error ''release.version''
       (''version must look like MAJOR.MINOR.PATCH (got: '' @ quoted (rel_version r) @ '')''))
     @ report_if (rollback_target r = []) (issue Warning ''release.rollback_target''
       (''rollback_target is empty'' @ em_dash @ ''rollback will be disabled for this release; confirm this is intentional''))
     @ report_if (min_previous_version r = []) (issue Warning ''release.min_previous_version''
       (''min_previous_version is empty'' @ em_dash @ ''clients at any earlier version may apply this update''))"

definition channel_issues :: "channel_block \<Rightarrow> issue list" where
  "channel_issues c =
     report_if (expires_at c = []) (issue Warning ''channel.expires_at''
       (''channel.expires_at is empty'' @ em_dash @ ''the freshness check loses its grip on this manifest''))"

fun os_code :: "os \<Rightarrow> 16 word" where
  "os_code Linux_os = 0"
| "os_code Macos = 1"
| "os_code Windows_os = 2"

fun arch_code :: "arch \<Rightarrow> 16 word" where
  "arch_code X86_64 = 0"
| "arch_code Aarch64 = 1"

definition pair_code :: "artifact \<Rightarrow> 16 word" where
  "pair_code a = or (push_bit 8 (os_code (a_os a))) (arch_code (a_arch a))"

definition artifact_issues :: "nat \<Rightarrow> bool \<Rightarrow> artifact \<Rightarrow> issue list" where
  "artifact_issues i seen a =
     report_if seen (issue Error (artifact_field i ''os+arch'')
       (''duplicate (os, arch) pair ('' @ os_str (a_os a) @ '', '' @ arch_str (a_arch a) @ '')'' @ em_dash
        @ ''each platform tuple must appear exactly once''))
     @ report_if (\<not> looks_like_http_url (a_url a)) (issue Error (artifact_field i ''url'')
       (''url must start with http:// or https:// (got: '' @ quoted (a_url a) @ '')''))
     @ report_if (\<not> is_lowercase_hex_64 (a_sha256 a)) (issue Error (artifact_field i ''sha256'')
       (''sha256 must be exactly 64 lowercase hex characters (got: '' @ quoted (a_sha256 a) @ '', ''
        @ nat_str (length (a_sha256 a)) @ '' chars)''))
     @ report_if (a_size a = 0) (issue Error (artifact_field i ''size'')
       (''size must be > 0 (got 0)'' @ em_dash
        @ ''the pre-flight disk-space check cannot proceed against a zero-byte artifact declaration''))"

fun artifacts_issues :: "nat \<Rightarrow> 16 word list \<Rightarrow> artifact list \<Rightarrow> issue list" where
  "artifacts_issues i seen [] = []"
| "artifacts_issues i seen (a # as) =
     artifact_issues i (pair_code a \<in> set seen) a
     @ artifacts_issues (i + 1) (if pair_code a \<in> set seen then seen else pair_code a # seen) as"

definition validate_manifest :: "manifest \<Rightarrow> issue list" where
  "validate_manifest m =
     signing_issues (mf_signing m) @ release_issues (mf_release m) @ channel_issues (mf_channel m)
     @ artifacts_issues 0 [] (mf_artifacts m)"

section \<open>What is publishable\<close>

definition publishable :: "manifest \<Rightarrow> bool" where
  "publishable m = (\<forall>i \<in> set (validate_manifest m). i_severity i \<noteq> Error)"

lemma set_report_if [simp]: "set (report_if b x) = (if b then {x} else {})"
  unfolding report_if_def by (cases b) simp_all

lemma issue_simps [simp]:
  "i_severity (issue s f m) = s" "i_field (issue s f m) = f" "i_message (issue s f m) = m"
  by (simp_all add: issue_def)

lemma pair_code_eq: "pair_code a = pair_code b \<longleftrightarrow> a_os a = a_os b \<and> a_arch a = a_arch b"
proof -
  have v: "or (push_bit 8 (os_code Linux_os)) (arch_code X86_64) = 0"
    "or (push_bit 8 (os_code Linux_os)) (arch_code Aarch64) = 1"
    "or (push_bit 8 (os_code Macos)) (arch_code X86_64) = 256"
    "or (push_bit 8 (os_code Macos)) (arch_code Aarch64) = 257"
    "or (push_bit 8 (os_code Windows_os)) (arch_code X86_64) = 512"
    "or (push_bit 8 (os_code Windows_os)) (arch_code Aarch64) = 513"
    by code_simp+
  have "or (push_bit 8 (os_code x)) (arch_code y) = or (push_bit 8 (os_code x')) (arch_code y') \<longleftrightarrow> x = x' \<and> y = y'"
    for x x' y y'
    by (cases x; cases y; cases x'; cases y'; simp add: v del: os_code.simps arch_code.simps)
  then show ?thesis by (simp add: pair_code_def)
qed

definition artifact_good :: "artifact \<Rightarrow> bool" where
  "artifact_good a = (looks_like_http_url (a_url a) \<and> is_lowercase_hex_64 (a_sha256 a) \<and> 0 < a_size a)"

lemma artifact_issues_good:
  "(\<forall>x \<in> set (artifact_issues i seen a). i_severity x \<noteq> Error) \<longleftrightarrow> \<not> seen \<and> artifact_good a"
  by (auto simp: artifact_issues_def artifact_good_def word_gt_0)

lemma artifacts_issues_good:
  "(\<forall>x \<in> set (artifacts_issues i seen as). i_severity x \<noteq> Error) \<longleftrightarrow>
     (\<forall>a \<in> set as. artifact_good a \<and> pair_code a \<notin> set seen) \<and> distinct (map pair_code as)"
proof (induction as arbitrary: i seen)
  case (Cons a as)
  show ?case
    unfolding artifacts_issues.simps set_append ball_Un artifact_issues_good Cons.IH
    by (auto simp: image_iff)
qed simp

lemma semverish_loop_split:
  "semverish_loop d v \<longleftrightarrow> list_all (\<lambda>c. c = CHR ''.'' \<or> is_digit c) v \<and> d + length (filter (\<lambda>c. c = CHR ''.'') v) = 2
     \<or> v = [] \<and> d = 2"
proof (induction d v rule: semverish_loop.induct)
  case (2 d c cs)
  have "\<not> is_digit CHR ''.''" by (simp add: is_digit_def)
  then show ?case using 2 by auto
qed auto

lemma looks_semverish_eq:
  "looks_semverish v \<longleftrightarrow> list_all (\<lambda>c. c = CHR ''.'' \<or> is_digit c) v \<and> length (filter (\<lambda>c. c = CHR ''.'') v) = 2"
  by (cases "v = []") (auto simp: looks_semverish_def semverish_loop_split)

lemma looks_like_http_url_eq:
  "looks_like_http_url s \<longleftrightarrow> (\<exists>h r. (s = ''http://'' @ h # r \<or> s = ''https://'' @ h # r) \<and> h \<noteq> CHR ''/'')"
proof
  assume l: "looks_like_http_url s"
  let ?n = "if starts_with ''https://'' s then 8 else 7 :: nat"
  have p: "starts_with ''https://'' s \<or> starts_with ''http://'' s" "?n < length s" "s ! ?n \<noteq> CHR ''/''"
    using l by (auto simp: looks_like_http_url_def Let_def split: if_splits)
  have "starts_with ''https://'' s \<longleftrightarrow> take 8 s = ''https://''" "starts_with ''http://'' s \<longleftrightarrow> take 7 s = ''http://''"
    by (simp_all add: starts_with_def numeral_eq_Suc)
  then have "take ?n s = ''http://'' \<or> take ?n s = ''https://''" using p(1) by auto
  moreover have "s = take ?n s @ s ! ?n # drop (Suc ?n) s" using p(2) by (rule id_take_nth_drop)
  ultimately show "\<exists>h r. (s = ''http://'' @ h # r \<or> s = ''https://'' @ h # r) \<and> h \<noteq> CHR ''/''"
    using p(3) by metis
next
  assume "\<exists>h r. (s = ''http://'' @ h # r \<or> s = ''https://'' @ h # r) \<and> h \<noteq> CHR ''/''"
  then show "looks_like_http_url s"
    by (auto simp: looks_like_http_url_def starts_with_def Let_def)
qed

text \<open>What validation lets pass.  A manifest is reported without an error exactly when it is signed with
  ed25519 under a named key, its version is digits with two dots, no two artifacts are for the same operating
  system and architecture, and every artifact has an http or https URL with a host, a digest of 64 lowercase
  hex digits and a positive size; the remaining issues are the warnings for an empty rollback target, an empty
  version floor and an empty expiry.\<close>

theorem validate_manifest_errors:
  "(\<forall>i \<in> set (validate_manifest m). i_severity i \<noteq> Error) \<longleftrightarrow>
     algorithm (mf_signing m) = ''ed25519'' \<and> public_key_id (mf_signing m) \<noteq> []
     \<and> list_all (\<lambda>c. c = CHR ''.'' \<or> is_digit c) (rel_version (mf_release m))
     \<and> length (filter (\<lambda>c. c = CHR ''.'') (rel_version (mf_release m))) = 2
     \<and> distinct (map (\<lambda>a. (a_os a, a_arch a)) (mf_artifacts m))
     \<and> (\<forall>a \<in> set (mf_artifacts m).
          (\<exists>h r. (a_url a = ''http://'' @ h # r \<or> a_url a = ''https://'' @ h # r) \<and> h \<noteq> CHR ''/'')
          \<and> is_lowercase_hex_64 (a_sha256 a) \<and> 0 < a_size a)"
proof -
  have "distinct (map pair_code as) \<longleftrightarrow> distinct (map (\<lambda>a. (a_os a, a_arch a)) as)" for as
    by (induction as) (auto simp: pair_code_eq image_iff)
  then show ?thesis
    unfolding validate_manifest_def set_append ball_Un artifacts_issues_good looks_like_http_url_eq [symmetric]
    by (auto simp: signing_issues_def release_issues_def channel_issues_def looks_semverish_eq artifact_good_def)
qed

definition sample_manifest :: manifest where
  "sample_manifest =
     \<lparr>mf_schema = 1, generated_at = [],
      mf_channel = \<lparr>ch_name = Stable, expires_at = ''2030-01-01T00:00:00Z''\<rparr>,
      mf_release = \<lparr>rel_version = ''1.2.0'', released_at = [], min_previous_version = ''1.0.0'',
        rollback_target = ''1.1.0'', notes_url = [], mandatory = False\<rparr>,
      mf_artifacts = [\<lparr>a_os = Linux_os, a_arch = X86_64, a_url = ''https://x/a'',
        a_sha256 = replicate 64 CHR ''0'', a_size = 3\<rparr>],
      mf_signing = \<lparr>algorithm = ''ed25519'', public_key_id = ''k1''\<rparr>\<rparr>"

theorem validate_manifest_errors_witness: "publishable sample_manifest"
proof -
  have "is_lowercase_hex_64 (replicate 64 CHR ''0'')"
    by (simp add: is_lowercase_hex_64_def is_digit_def list_all_iff)
  then show ?thesis
    unfolding publishable_def
    using validate_manifest_errors [of sample_manifest] by (simp add: sample_manifest_def is_digit_def)
qed

section \<open>What parses\<close>

lemma required_string_Inr [simp]:
  "required_string api t k sc = Inr s \<longleftrightarrow> (\<exists>v. toml_get api t k = Some v \<and> toml_string api v = Some s)"
  by (auto simp: required_string_def attempt_Inr)

lemma required_uint_Inr [simp]:
  "required_uint api t k sc = Inr n \<longleftrightarrow>
     (\<exists>v i. toml_get api t k = Some v \<and> toml_integer api v = Some i \<and> 0 \<le> i \<and> n = word_of_int i)"
  by (auto simp: required_uint_def attempt_def required_def split: option.splits if_splits)

text \<open>The string and the number stored under a key.\<close>

definition string_at :: "('n, 'x) toml_scheme \<Rightarrow> 'n \<Rightarrow> string \<Rightarrow> string \<Rightarrow> bool" where
  "string_at api t k s = (\<exists>v. toml_get api t k = Some v \<and> toml_string api v = Some s)"

definition artifact_at :: "('n, 'x) toml_scheme \<Rightarrow> 'n \<Rightarrow> artifact \<Rightarrow> bool" where
  "artifact_at api t a = (toml_is_table api t \<and> string_at api t ''os'' (os_str (a_os a))
     \<and> string_at api t ''arch'' (arch_str (a_arch a)) \<and> string_at api t ''url'' (a_url a)
     \<and> string_at api t ''sha256'' (a_sha256 a)
     \<and> (\<exists>v i. toml_get api t ''size'' = Some v \<and> toml_integer api v = Some i \<and> 0 \<le> i \<and> a_size a = word_of_int i))"

lemma parse_os_str: "parse_os s = Some x \<longleftrightarrow> s = os_str x"
  by (cases x) (auto simp: parse_os_def)

lemma parse_arch_str: "parse_arch s = Some x \<longleftrightarrow> s = arch_str x"
  by (cases x) (auto simp: parse_arch_def)

lemma parse_channel_str: "parse_channel s = Some x \<longleftrightarrow> s = channel_str x"
  by (cases x) (auto simp: parse_channel_def)

lemma parse_artifact_Inr: "parse_artifact api (i, t) = Inr a \<longleftrightarrow> artifact_at api t a"
  by (cases a) (auto simp: parse_artifact_def attempt_Inr Let_def artifact_at_def string_at_def parse_os_str
      parse_arch_str)

lemma list_all2_enumerate: "list_all2 P (enumerate k xs) ys \<longleftrightarrow>
    list_all2 (\<lambda>x y. P x y) (zip [k..<k + length xs] xs) ys"
  by (simp add: enumerate_eq_zip)

lemma parse_artifacts_Inr:
  "attempt_map (parse_artifact api) (enumerate k ns) = Inr as \<longleftrightarrow> list_all2 (artifact_at api) ns as"
  unfolding attempt_map_Inr
proof (induction ns arbitrary: k as)
  case (Cons n ns)
  then show ?case by (auto simp: list_all2_Cons1 parse_artifact_Inr)
qed simp

text \<open>What parses.  A document gives a manifest exactly when its schema is 1, it has a channel table with
  a known name, a release table with a version, a non-empty array of artifact tables that each name an
  operating system, an architecture, a URL, a digest and a non-negative size, and a signing table with
  algorithm and key; the manifest then holds just these values, and the empty string for every optional string
  that is missing or of another type.\<close>

theorem parse_root_fields:
  "parse_root api root = Inr m \<longleftrightarrow>
     (\<exists>sn ct rt sg ns. toml_get api root ''schema'' = Some sn \<and> toml_integer api sn = Some 1
       \<and> get_table api root ''channel'' = Some ct \<and> string_at api ct ''name'' (channel_str (ch_name (mf_channel m)))
       \<and> get_table api root ''release'' = Some rt \<and> string_at api rt ''version'' (rel_version (mf_release m))
       \<and> get_array api root ''artifact'' = Some ns \<and> ns \<noteq> [] \<and> list_all2 (artifact_at api) ns (mf_artifacts m)
       \<and> get_table api root ''signing'' = Some sg \<and> string_at api sg ''algorithm'' (algorithm (mf_signing m))
       \<and> string_at api sg ''public_key_id'' (public_key_id (mf_signing m))
       \<and> mf_schema m = 1 \<and> generated_at m = optional_string api root ''generated_at''
       \<and> expires_at (mf_channel m) = optional_string api ct ''expires_at''
       \<and> released_at (mf_release m) = optional_string api rt ''released_at''
       \<and> min_previous_version (mf_release m) = optional_string api rt ''min_previous_version''
       \<and> rollback_target (mf_release m) = optional_string api rt ''rollback_target''
       \<and> notes_url (mf_release m) = optional_string api rt ''notes_url''
       \<and> mandatory (mf_release m) = optional_bool api rt ''mandatory'' False)"
proof -
  have s: "parse_schema api root = Inr u \<longleftrightarrow>
      (\<exists>sn. toml_get api root ''schema'' = Some sn \<and> toml_integer api sn = Some 1)" for u
    by (auto simp: parse_schema_def attempt_Inr kManifestSchemaV1_def)
  have c: "parse_channel_block api root = Inr b \<longleftrightarrow> (\<exists>ct. get_table api root ''channel'' = Some ct
      \<and> string_at api ct ''name'' (channel_str (ch_name b)) \<and> expires_at b = optional_string api ct ''expires_at'')" for b
    by (cases b) (auto simp: parse_channel_block_def attempt_Inr string_at_def parse_channel_str)
  have r: "parse_release_block api root = Inr b \<longleftrightarrow> (\<exists>rt. get_table api root ''release'' = Some rt
      \<and> string_at api rt ''version'' (rel_version b) \<and> released_at b = optional_string api rt ''released_at''
      \<and> min_previous_version b = optional_string api rt ''min_previous_version''
      \<and> rollback_target b = optional_string api rt ''rollback_target''
      \<and> notes_url b = optional_string api rt ''notes_url''
      \<and> mandatory b = optional_bool api rt ''mandatory'' False)" for b
    by (cases b) (auto simp: parse_release_block_def attempt_Inr string_at_def)
  have a: "parse_artifacts api root = Inr as \<longleftrightarrow>
      (\<exists>ns. get_array api root ''artifact'' = Some ns \<and> ns \<noteq> [] \<and> list_all2 (artifact_at api) ns as)" for as
    by (auto simp: parse_artifacts_def attempt_Inr parse_artifacts_Inr)
  have g: "parse_signing_block api root = Inr b \<longleftrightarrow> (\<exists>sg. get_table api root ''signing'' = Some sg
      \<and> string_at api sg ''algorithm'' (algorithm b) \<and> string_at api sg ''public_key_id'' (public_key_id b))" for b
    by (cases b) (auto simp: parse_signing_block_def attempt_Inr string_at_def)
  have "parse_root api root = Inr m \<longleftrightarrow>
      (\<exists>u. parse_schema api root = Inr u) \<and> parse_channel_block api root = Inr (mf_channel m)
      \<and> parse_release_block api root = Inr (mf_release m) \<and> parse_artifacts api root = Inr (mf_artifacts m)
      \<and> parse_signing_block api root = Inr (mf_signing m) \<and> mf_schema m = kManifestSchemaV1
      \<and> generated_at m = optional_string api root ''generated_at''"
    by (cases m) (auto simp: parse_root_def attempt_Inr)
  then show ?thesis unfolding s c r a g kManifestSchemaV1_def by blast
qed

end
