(* ===== verification/Gate.thy ===== *)
theory Gate
  imports Version Clock Update_Manifest
begin

text \<open>
  The apply gate of the updater (src/updater/state_machine.cpp, include/souxmar/update/state_machine.h):
  host platforms, refusal reasons and the decision whether an offered manifest may be applied to an
  install at a given time.
\<close>

section \<open>Data\<close>

record host_platform =
  h_os :: os
  h_arch :: arch

definition parse_host_platform :: "string \<Rightarrow> host_platform option" where
  "parse_host_platform os_arch =
     (case cut_at CHR ''/'' os_arch of
        None \<Rightarrow> None
      | Some (os_s, arch_s) \<Rightarrow>
          (case (if os_s = ''linux'' then Some Linux_os else if os_s = ''macos'' then Some Macos
                 else if os_s = ''windows'' then Some Windows_os else None) of
             None \<Rightarrow> None
           | Some x \<Rightarrow>
               if arch_s = ''x86_64'' then Some \<lparr>h_os = x, h_arch = X86_64\<rparr>
               else if arch_s = ''aarch64'' then Some \<lparr>h_os = x, h_arch = Aarch64\<rparr>
               else None))"

record current_install =
  current_version :: string
  max_seen :: string
  host :: host_platform

datatype refusal_reason =
    Already_on_or_ahead
  | Expired
  | Expired_invalid_time
  | Below_min_previous
  | Replay_downgrade
  | No_artifact_for_platform
  | Malformed_offered
  | Malformed_current
  | Malformed_replay_floor

fun refusal_str :: "refusal_reason \<Rightarrow> string" where
  "refusal_str Already_on_or_ahead = ''already-on-or-ahead-of-offered''"
| "refusal_str Expired = ''expired''"
| "refusal_str Expired_invalid_time = ''expired-invalid-time''"
| "refusal_str Below_min_previous = ''below-min-previous''"
| "refusal_str Replay_downgrade = ''replay-downgrade''"
| "refusal_str No_artifact_for_platform = ''no-artifact-for-platform''"
| "refusal_str Malformed_offered = ''malformed-offered-version''"
| "refusal_str Malformed_current = ''malformed-current-version''"
| "refusal_str Malformed_replay_floor = ''malformed-replay-floor''"

datatype decision =
    Apply string artifact bool
  | Refuse refusal_reason string

section \<open>The gate\<close>

definition not_numeric :: "string \<Rightarrow> string \<Rightarrow> string" where
  "not_numeric field v = field @ '' '' @ quoted v @ '' is not MAJOR.MINOR.PATCH numeric''"

definition pick_artifact :: "manifest \<Rightarrow> current_install \<Rightarrow> decision" where
  "pick_artifact m install =
     (case find (\<lambda>a. a_os a = h_os (host install) \<and> a_arch a = h_arch (host install)) (mf_artifacts m) of
        Some a \<Rightarrow> Apply (rel_version (mf_release m)) a (mandatory (mf_release m))
      | None \<Rightarrow> Refuse No_artifact_for_platform
          (''no artifact for '' @ os_str (h_os (host install)) @ ''/'' @ arch_str (h_arch (host install))
           @ '' in '' @ nat_str (length (mf_artifacts m)) @ '' manifest entries''))"

definition replay_gate :: "manifest \<Rightarrow> current_install \<Rightarrow> decision" where
  "replay_gate m install =
     (let offered = rel_version (mf_release m); floor = max_seen install
      in if floor \<noteq> [] \<and> (case compare_versions offered floor of Some c \<Rightarrow> c < 0 | None \<Rightarrow> False)
         then Refuse Replay_downgrade (''offered '' @ offered @ '' < highest-seen '' @ floor)
         else pick_artifact m install)"

definition floor_gate :: "manifest \<Rightarrow> current_install \<Rightarrow> decision" where
  "floor_gate m install =
     (let least = min_previous_version (mf_release m); cur = current_version install
      in if least \<noteq> [] \<and> cur \<noteq> []
         then (case compare_versions cur least of
                 None \<Rightarrow> Refuse Malformed_offered (not_numeric ''release.min_previous_version'' least)
               | Some c \<Rightarrow>
                   if c < 0
                   then Refuse Below_min_previous (''current '' @ cur @ '' < min_previous_version '' @ least)
                   else replay_gate m install)
         else replay_gate m install)"

definition freshness_gate :: "int \<Rightarrow> time_point \<Rightarrow> manifest \<Rightarrow> current_install \<Rightarrow> decision" where
  "freshness_gate tick now m install =
     (let until = expires_at (mf_channel m)
      in if until \<noteq> []
         then (case parse_rfc3339_utc tick until of
                 None \<Rightarrow> Refuse Expired_invalid_time
                   (''channel.expires_at '' @ quoted until @ '' is not in canonical RFC-3339 UTC form'')
               | Some t \<Rightarrow>
                   if not_before now t
                   then Refuse Expired
                     (''channel.expires_at '' @ until @ '' is in the past relative to wall clock'')
                   else floor_gate m install)
         else floor_gate m install)"

definition ahead_gate :: "int \<Rightarrow> time_point \<Rightarrow> manifest \<Rightarrow> current_install \<Rightarrow> decision" where
  "ahead_gate tick now m install =
     (let offered = rel_version (mf_release m); cur = current_version install
      in if cur \<noteq> [] \<and> (case compare_versions cur offered of Some c \<Rightarrow> 0 \<le> c | None \<Rightarrow> False)
         then Refuse Already_on_or_ahead (''current '' @ cur @ '' >= offered '' @ offered)
         else freshness_gate tick now m install)"

definition apply_gate :: "int \<Rightarrow> time_point \<Rightarrow> manifest \<Rightarrow> current_install \<Rightarrow> decision" where
  "apply_gate tick now m install =
     (let offered = rel_version (mf_release m)
      in if split_version offered = None then Refuse Malformed_offered (not_numeric ''release.version'' offered)
         else if current_version install \<noteq> [] \<and> split_version (current_version install) = None
         then Refuse Malformed_current (not_numeric ''current_version'' (current_version install))
         else if max_seen install \<noteq> [] \<and> split_version (max_seen install) = None
         then Refuse Malformed_replay_floor (not_numeric ''max_version_ever_seen'' (max_seen install))
         else ahead_gate tick now m install)"

section \<open>What the gate decides\<close>

text \<open>An empty version text bounds nothing; any other one must be a release.\<close>

definition bounded_by :: "(release \<Rightarrow> bool) \<Rightarrow> string \<Rightarrow> bool" where
  "bounded_by P v = (v = [] \<or> (\<exists>r. split_version v = Some r \<and> P r))"

definition fresh :: "int \<Rightarrow> time_point \<Rightarrow> manifest \<Rightarrow> bool" where
  "fresh tick now m = (expires_at (mf_channel m) = [] \<or>
     (\<exists>t. parse_rfc3339_utc tick (expires_at (mf_channel m)) = Some t \<and> \<not> not_before now t))"

definition host_artifact :: "manifest \<Rightarrow> host_platform \<Rightarrow> artifact option" where
  "host_artifact m p = find (\<lambda>a. a_os a = h_os p \<and> a_arch a = h_arch p) (mf_artifacts m)"

lemma bounded_by_Nil [simp]: "bounded_by P []"
  by (simp add: bounded_by_def)

lemma bounded_by_mono: "bounded_by P v \<Longrightarrow> (\<And>r. P r \<Longrightarrow> Q r) \<Longrightarrow> bounded_by Q v"
  by (auto simp: bounded_by_def)

lemma compare_versions_None:
  "compare_versions a b = None \<longleftrightarrow> split_version a = None \<or> split_version b = None"
  by (auto simp: compare_versions_def split: option.splits)

lemma pick_artifact_Apply:
  "pick_artifact m i = Apply v a b \<longleftrightarrow>
     v = rel_version (mf_release m) \<and> b = mandatory (mf_release m) \<and> host_artifact m (host i) = Some a"
  by (auto simp: pick_artifact_def host_artifact_def split: option.splits)

lemma replay_gate_Apply:
  "split_version (rel_version (mf_release m)) = Some r \<Longrightarrow> bounded_by (\<lambda>_. True) (max_seen i) \<Longrightarrow>
   replay_gate m i = Apply v a b \<longleftrightarrow> bounded_by (\<lambda>x. x \<le> r) (max_seen i) \<and> pick_artifact m i = Apply v a b"
  by (auto simp: replay_gate_def compare_versions_eq bounded_by_def Let_def)

lemma floor_gate_Apply:
  "bounded_by (\<lambda>_. True) (current_version i) \<Longrightarrow>
   floor_gate m i = Apply v a b \<longleftrightarrow>
     (current_version i = [] \<or> min_previous_version (mf_release m) = [] \<or>
       (\<exists>c l. split_version (current_version i) = Some c \<and>
          split_version (min_previous_version (mf_release m)) = Some l \<and> l \<le> c))
     \<and> replay_gate m i = Apply v a b"
  by (auto simp: floor_gate_def compare_versions_eq bounded_by_def Let_def split: option.splits)

lemma freshness_gate_Apply:
  "freshness_gate tick now m i = Apply v a b \<longleftrightarrow> fresh tick now m \<and> floor_gate m i = Apply v a b"
  by (auto simp: freshness_gate_def fresh_def Let_def split: option.splits)

lemma ahead_gate_Apply:
  "split_version (rel_version (mf_release m)) = Some r \<Longrightarrow> bounded_by (\<lambda>_. True) (current_version i) \<Longrightarrow>
   ahead_gate tick now m i = Apply v a b \<longleftrightarrow>
     bounded_by (\<lambda>x. x < r) (current_version i) \<and> freshness_gate tick now m i = Apply v a b"
  by (auto simp: ahead_gate_def compare_versions_eq bounded_by_def Let_def)

lemma apply_gate_Apply:
  "apply_gate tick now m i = Apply v a b \<longleftrightarrow>
     v = rel_version (mf_release m) \<and> b = mandatory (mf_release m) \<and>
     host_artifact m (host i) = Some a \<and> fresh tick now m \<and>
     (\<exists>r. split_version v = Some r \<and> bounded_by (\<lambda>x. x < r) (current_version i) \<and>
        bounded_by (\<lambda>x. x \<le> r) (max_seen i)) \<and>
     (current_version i = [] \<or> min_previous_version (mf_release m) = [] \<or>
       (\<exists>c l. split_version (current_version i) = Some c \<and>
          split_version (min_previous_version (mf_release m)) = Some l \<and> l \<le> c))"
proof (cases "split_version (rel_version (mf_release m))")
  case None
  then show ?thesis by (auto simp: apply_gate_def)
next
  case (Some r)
  have b: "bounded_by (\<lambda>_. True) s \<longleftrightarrow> s = [] \<or> split_version s \<noteq> None" for s
    by (auto simp: bounded_by_def)
  show ?thesis
  proof (cases "bounded_by (\<lambda>_. True) (current_version i) \<and> bounded_by (\<lambda>_. True) (max_seen i)")
    case True
    then have "apply_gate tick now m i = ahead_gate tick now m i"
      using Some unfolding apply_gate_def b by (auto simp: Let_def)
    then show ?thesis
      using True Some by (auto simp: ahead_gate_Apply freshness_gate_Apply floor_gate_Apply
          replay_gate_Apply pick_artifact_Apply)
  next
    case False
    then have "apply_gate tick now m i \<noteq> Apply v a b"
      using Some by (auto simp: apply_gate_def Let_def b)
    moreover have "\<not> (bounded_by (\<lambda>x. x < r) (current_version i) \<and> bounded_by (\<lambda>x. x \<le> r) (max_seen i))"
      using False by (auto simp: bounded_by_def)
    ultimately show ?thesis using Some by auto
  qed
qed

section \<open>Properties\<close>

text \<open>C22: When the gate lets an update through.  It applies exactly the first artifact for the host, and
  exactly when the offered version is a release strictly above the current one and not below the highest one
  ever seen, the manifest has not expired, and the current version reaches the required previous one; absent
  versions and an absent expiry bound nothing.\<close>

theorem apply_gate_applies:
  "apply_gate tick now m i = Apply v a b \<longleftrightarrow>
     v = rel_version (mf_release m) \<and> b = mandatory (mf_release m) \<and>
     host_artifact m (host i) = Some a \<and> fresh tick now m \<and>
     (\<exists>r. split_version v = Some r \<and> bounded_by (\<lambda>x. x < r) (current_version i) \<and>
        bounded_by (\<lambda>x. x \<le> r) (max_seen i)) \<and>
     (current_version i = [] \<or> min_previous_version (mf_release m) = [] \<or>
       (\<exists>c l. split_version (current_version i) = Some c \<and>
          split_version (min_previous_version (mf_release m)) = Some l \<and> l \<le> c))"
  by (rule apply_gate_Apply)

text \<open>The conditions under which each check of the gate fails, in the order of the code, over the releases
  the texts denote.\<close>

definition failing :: "(release \<Rightarrow> release \<Rightarrow> bool) \<Rightarrow> string \<Rightarrow> string \<Rightarrow> bool" where
  "failing R v w = (v \<noteq> [] \<and> w \<noteq> [] \<and>
     (case (split_version v, split_version w) of (Some x, Some y) \<Rightarrow> R x y | _ \<Rightarrow> False))"

definition gate_checks :: "int \<Rightarrow> time_point \<Rightarrow> manifest \<Rightarrow> current_install \<Rightarrow> (refusal_reason \<times> bool) list" where
  "gate_checks tick now m i =
     (let offered = rel_version (mf_release m); cur = current_version i; seen = max_seen i;
          least = min_previous_version (mf_release m); until = expires_at (mf_channel m)
      in [(Malformed_offered, split_version offered = None),
          (Malformed_current, cur \<noteq> [] \<and> split_version cur = None),
          (Malformed_replay_floor, seen \<noteq> [] \<and> split_version seen = None),
          (Already_on_or_ahead, failing (\<ge>) cur offered),
          (Expired_invalid_time, until \<noteq> [] \<and> parse_rfc3339_utc tick until = None),
          (Expired, until \<noteq> [] \<and> \<not> fresh tick now m),
          (Malformed_offered, cur \<noteq> [] \<and> least \<noteq> [] \<and> split_version least = None),
          (Below_min_previous, failing (<) cur least),
          (Replay_downgrade, failing (<) offered seen),
          (No_artifact_for_platform, host_artifact m (host i) = None)])"

fun refused_for :: "decision \<Rightarrow> refusal_reason option" where
  "refused_for (Apply _ _ _) = None"
| "refused_for (Refuse reason _) = Some reason"

lemma split_version_Nil [simp]: "split_version [] = None"
  by (simp add: split_version_def cut_at_def)

lemma refused_pick:
  "refused_for (pick_artifact m i) = (if host_artifact m (host i) = None then Some No_artifact_for_platform else None)"
  by (auto simp: pick_artifact_def host_artifact_def split: option.splits)

lemma refused_replay:
  "refused_for (replay_gate m i) =
     (if failing (<) (rel_version (mf_release m)) (max_seen i) then Some Replay_downgrade
      else refused_for (pick_artifact m i))"
  by (auto simp: replay_gate_def failing_def compare_versions_eq Let_def split: option.splits)

lemma refused_floor:
  "split_version (current_version i) \<noteq> None \<or> current_version i = [] \<Longrightarrow>
   refused_for (floor_gate m i) =
     (let cur = current_version i; least = min_previous_version (mf_release m)
      in if cur \<noteq> [] \<and> least \<noteq> [] \<and> split_version least = None then Some Malformed_offered
         else if failing (<) cur least then Some Below_min_previous else refused_for (replay_gate m i))"
  by (auto simp: floor_gate_def failing_def compare_versions_eq Let_def split: option.splits)

lemma refused_freshness:
  "refused_for (freshness_gate tick now m i) =
     (let until = expires_at (mf_channel m)
      in if until \<noteq> [] \<and> parse_rfc3339_utc tick until = None then Some Expired_invalid_time
         else if until \<noteq> [] \<and> \<not> fresh tick now m then Some Expired else refused_for (floor_gate m i))"
  by (auto simp: freshness_gate_def fresh_def Let_def split: option.splits)

lemma refused_ahead:
  "refused_for (ahead_gate tick now m i) =
     (if failing (\<ge>) (current_version i) (rel_version (mf_release m)) then Some Already_on_or_ahead
      else refused_for (freshness_gate tick now m i))"
  by (auto simp: ahead_gate_def failing_def compare_versions_eq Let_def split: option.splits)

lemma drop3: "drop 3 (a # b # c # xs) = xs"
  by (simp add: numeral_3_eq_3)

lemma first_check:
  "map_option fst (find snd ((r, b) # xs)) = (if b then Some r else map_option fst (find snd xs))"
  "map_option fst (find snd []) = None"
  by simp_all

text \<open>Why the gate refuses.  The reported reason is that of the first check, in the documented order,
  that fails on the releases the texts denote; no reason is reported exactly when no check fails.\<close>

theorem apply_gate_reason:
  "refused_for (apply_gate tick now m i) = map_option fst (find snd (gate_checks tick now m i))"
proof -
  have "refused_for (apply_gate tick now m i) =
     (let cur = current_version i; seen = max_seen i
      in if split_version (rel_version (mf_release m)) = None then Some Malformed_offered
         else if cur \<noteq> [] \<and> split_version cur = None then Some Malformed_current
         else if seen \<noteq> [] \<and> split_version seen = None then Some Malformed_replay_floor
         else refused_for (ahead_gate tick now m i))"
    by (simp add: apply_gate_def Let_def)
  moreover have "refused_for (ahead_gate tick now m i)
      = map_option fst (find snd (drop 3 (gate_checks tick now m i)))"
    if "split_version (current_version i) \<noteq> None \<or> current_version i = []"
    unfolding gate_checks_def Let_def drop3 first_check refused_ahead refused_freshness
      refused_floor [OF that] refused_replay refused_pick
    by simp
  ultimately show ?thesis
    unfolding gate_checks_def Let_def drop3 first_check by simp
qed

text \<open>Versions the gate accepts also pass the publisher's looser test; the converse fails.\<close>

lemma release_is_semverish:
  assumes "split_version v = Some r"
  shows "looks_semverish v"
proof -
  obtain p q t where v: "v = p @ CHR ''.'' # q @ CHR ''.'' # t"
    and d: "list_all is_digit p" "list_all is_digit q" "list_all is_digit t"
    using assms by (cases r) (auto simp: split_version_eq component_def)
  have "filter (\<lambda>c. c = CHR ''.'') s = []" "list_all (\<lambda>c. c = CHR ''.'' \<or> is_digit c) s"
    if "list_all is_digit s" for s
    using that digits_no_dot [OF that] by (auto simp: filter_empty_conv list_all_iff)
  then show ?thesis using v d by (simp add: looks_semverish_eq)
qed

lemma semverish_not_release: "looks_semverish ''..'' \<and> split_version ''..'' = None"
  by code_simp

end
