(* ===== verification/Verifier.thy ===== *)
theory Verifier
  imports Prelude
begin

text \<open>
  Signatures and hex (src/crypto/primitives.cpp, src/updater/verifier.cpp): the hex codec, the trust
  store and the verification of a detached ed25519 signature.  libsodium is a record of functions.
\<close>

section \<open>Hex\<close>

text \<open>The nibbles are below 16, so \<open>(hi << 4) | lo\<close> is \<open>hi * 16 + lo\<close>.\<close>

definition kHex :: string where
  "kHex = ''0123456789abcdef''"

definition hex_nibble :: "char \<Rightarrow> nat" where
  "hex_nibble c =
     (if is_digit c then digit_value c
      else if CHR ''a'' \<le> c \<and> c \<le> CHR ''f'' then of_char c - of_char CHR ''a'' + 10
      else 16)"

fun hex_pairs :: "string \<Rightarrow> byte list \<Rightarrow> byte list option" where
  "hex_pairs (c # d # cs) out =
     (let hi = hex_nibble c; lo = hex_nibble d
      in if hi = 16 \<or> lo = 16 then None else hex_pairs cs (out @ [of_nat (hi * 16 + lo)]))"
| "hex_pairs _ out = Some out"

definition hex_decode :: "string \<Rightarrow> byte list option" where
  "hex_decode hex = (if length hex mod 2 \<noteq> 0 then None else hex_pairs hex [])"

definition hex_encode :: "byte list \<Rightarrow> string" where
  "hex_encode bs = concat (map (\<lambda>b. [kHex ! (unat b div 16), kHex ! (unat b mod 16)]) bs)"

section \<open>Signatures\<close>

record sodium =
  sodium_init :: bool
  sign_verify_detached :: "byte list \<Rightarrow> byte list \<Rightarrow> byte list \<Rightarrow> bool"
  hash_sha256 :: "byte list \<Rightarrow> byte list"

datatype signature_status =
    Sig_ok
  | Bad_signature
  | Unknown_key_id
  | Malformed_signature
  | Malformed_public_key
  | Empty_message
  | Crypto_library_unavailable

fun signature_status_str :: "signature_status \<Rightarrow> string" where
  "signature_status_str Sig_ok = ''ok''"
| "signature_status_str Bad_signature = ''bad-signature''"
| "signature_status_str Unknown_key_id = ''unknown-key-id''"
| "signature_status_str Malformed_signature = ''malformed-signature''"
| "signature_status_str Malformed_public_key = ''malformed-public-key''"
| "signature_status_str Empty_message = ''empty-message''"
| "signature_status_str Crypto_library_unavailable = ''crypto-library-unavailable''"

definition kEd25519PublicKeyBytes :: nat where
  "kEd25519PublicKeyBytes = 32"

definition kEd25519SignatureBytes :: nat where
  "kEd25519SignatureBytes = 64"

definition ed25519_verify :: "sodium \<Rightarrow> byte list \<Rightarrow> byte list \<Rightarrow> byte list \<Rightarrow> signature_status" where
  "ed25519_verify lib message signature public_key =
     (if length signature \<noteq> kEd25519SignatureBytes then Malformed_signature
      else if length public_key \<noteq> kEd25519PublicKeyBytes then Malformed_public_key
      else if message = [] then Empty_message
      else if \<not> sodium_init lib then Crypto_library_unavailable
      else if sign_verify_detached lib signature message public_key then Sig_ok else Bad_signature)"

definition sha256_hex :: "sodium \<Rightarrow> byte list \<Rightarrow> string" where
  "sha256_hex lib bs = hex_encode (hash_sha256 lib bs)"

section \<open>The trust store\<close>

record trusted_key =
  key_id :: string
  key_bytes :: "byte list"

type_synonym trust_store = "trusted_key list"

definition trust_add :: "string \<Rightarrow> byte list \<Rightarrow> trust_store \<Rightarrow> bool \<times> trust_store" where
  "trust_add i public_key ts =
     (if i = [] then (False, ts)
      else if length public_key \<noteq> kEd25519PublicKeyBytes then (False, ts)
      else (True, ts @ [\<lparr>key_id = i, key_bytes = public_key\<rparr>]))"

definition trust_add_hex :: "string \<Rightarrow> string \<Rightarrow> trust_store \<Rightarrow> bool \<times> trust_store" where
  "trust_add_hex i hex_pubkey ts =
     (case hex_decode hex_pubkey of
        None \<Rightarrow> (False, ts)
      | Some decoded \<Rightarrow>
          if length decoded \<noteq> kEd25519PublicKeyBytes then (False, ts) else trust_add i decoded ts)"

definition trust_find :: "string \<Rightarrow> trust_store \<Rightarrow> trusted_key option" where
  "trust_find i ts = find (\<lambda>k. key_id k = i) ts"

definition verify_manifest_signature ::
  "sodium \<Rightarrow> byte list \<Rightarrow> byte list \<Rightarrow> string \<Rightarrow> trust_store \<Rightarrow> signature_status" where
  "verify_manifest_signature lib manifest_bytes signature_bytes i trust =
     (case trust_find i trust of
        None \<Rightarrow> Unknown_key_id
      | Some k \<Rightarrow> ed25519_verify lib manifest_bytes signature_bytes (key_bytes k))"

definition kDevKeyId :: string where
  "kDevKeyId = ''souxmar-dev-key''"

definition build_uses_dev_key :: "string \<Rightarrow> bool" where
  "build_uses_dev_key embedded_id = (embedded_id = kDevKeyId)"

definition embedded_trust_store :: "string \<Rightarrow> string \<Rightarrow> trust_store" where
  "embedded_trust_store embedded_id embedded_hex = snd (trust_add_hex embedded_id embedded_hex [])"

section \<open>The hex codec is a bijection onto lowercase hex\<close>

lemma hex_nibble_bound: "hex_nibble c \<le> 16"
  using digit_value_less [of c] by (auto simp: hex_nibble_def less_eq_char_def)

lemma below_16: "n < 16 \<longleftrightarrow> n \<in> {0, 1, 2, 3, 4, 5, 6, 7, 8, 9, 10, 11, 12, 13, 14, 15 :: nat}"
  by (simp, presburger)

lemma hex_nibble_digit: "n < 16 \<Longrightarrow> hex_nibble (kHex ! n) = n"
  unfolding below_16
  by (elim insertE) (simp_all add: kHex_def hex_nibble_def is_digit_iff digit_value_def less_eq_char_def)

lemma hex_digit_chars:
  "(of_char c :: nat) \<in> {48, 49, 50, 51, 52, 53, 54, 55, 56, 57, 97, 98, 99, 100, 101, 102} \<Longrightarrow> c \<in> set kHex"
proof -
  have "{48, 49, 50, 51, 52, 53, 54, 55, 56, 57, 97, 98, 99, 100, 101, 102 :: nat} = of_char ` set kHex"
    by (simp add: kHex_def)
  then show "(of_char c :: nat) \<in> {48, 49, 50, 51, 52, 53, 54, 55, 56, 57, 97, 98, 99, 100, 101, 102} \<Longrightarrow> c \<in> set kHex"
    by (simp only: image_iff of_char_eq_iff) blast
qed

lemma kHex_set_nibble: "c \<in> set kHex \<Longrightarrow> kHex ! hex_nibble c = c"
  unfolding kHex_def list.set
  by (elim insertE) (simp_all add: hex_nibble_def is_digit_iff digit_value_def less_eq_char_def)

lemma kHex_nibble: "hex_nibble c \<noteq> 16 \<Longrightarrow> kHex ! hex_nibble c = c"
proof -
  assume h: "hex_nibble c \<noteq> 16"
  have c: "c = char_of (of_char c :: nat)" by simp
  show ?thesis
  proof (cases "is_digit c")
    case True
    moreover have "48 \<le> n \<and> n \<le> 57 \<Longrightarrow> n \<in> {48, 49, 50, 51, 52, 53, 54, 55, 56, 57 :: nat}" for n
      by (simp, presburger)
    ultimately have "of_char c \<in> {48, 49, 50, 51, 52, 53, 54, 55, 56, 57 :: nat}" by (simp only: is_digit_iff)
    then show ?thesis by (intro kHex_set_nibble hex_digit_chars) blast
  next
    case False
    then have "97 \<le> (of_char c :: nat)" "(of_char c :: nat) \<le> 102"
      using h by (auto simp: hex_nibble_def less_eq_char_def split: if_splits)
    moreover have "97 \<le> n \<Longrightarrow> n \<le> 102 \<Longrightarrow> n \<in> {97, 98, 99, 100, 101, 102 :: nat}" for n
      by (simp, presburger)
    ultimately have "of_char c \<in> {97, 98, 99, 100, 101, 102 :: nat}" by blast
    then show ?thesis by (intro kHex_set_nibble hex_digit_chars) blast
  qed
qed

lemma hex_pairs_encode: "hex_pairs (hex_encode bs) out = Some (out @ bs)"
proof (induction bs arbitrary: out)
  case (Cons b bs)
  have "unat b div 16 < 16" using unsigned_less [of b, where 'a = nat] by (simp add: less_mult_imp_div_less)
  moreover have "unat b mod 16 < 16" "unat b mod 16 \<noteq> 16" using mod_less_divisor [of 16 "unat b"] by simp_all
  moreover have "(of_nat (unat b div 16 * 16 + unat b mod 16) :: byte) = b"
    by (simp only: div_mult_mod_eq) simp
  ultimately show ?case using Cons.IH by (simp add: hex_encode_def hex_nibble_digit Let_def)
qed (simp add: hex_encode_def)

lemma length_hex_encode [simp]: "length (hex_encode bs) = 2 * length bs"
  by (induction bs) (simp_all add: hex_encode_def)

lemma hex_pairs_Some:
  "length s mod 2 = 0 \<Longrightarrow> hex_pairs s out = Some bs \<Longrightarrow> \<exists>cs. bs = out @ cs \<and> s = hex_encode cs"
proof (induction s out rule: hex_pairs.induct)
  case (1 c d cs out)
  let ?hi = "hex_nibble c" and ?lo = "hex_nibble d"
  have n: "?hi \<noteq> 16" "?lo \<noteq> 16" using "1.prems"(2) by (auto simp: Let_def split: if_splits)
  have "length cs mod 2 = 0" using "1.prems"(1) by simp
  then obtain ds where ds: "bs = (out @ [of_nat (?hi * 16 + ?lo)]) @ ds" "cs = hex_encode ds"
    using "1.IH" [OF refl refl] "1.prems"(2) n by (auto simp: Let_def)
  have less: "?hi < 16" "?lo < 16" using n hex_nibble_bound le_neq_implies_less by blast+
  moreover have "unat (of_nat k :: byte) = k" if "k < 256" for k
    using that by (simp add: unsigned_of_nat take_bit_nat_def)
  moreover have "?hi * 16 + ?lo < 256" using less by simp
  ultimately have unat: "unat (of_nat (?hi * 16 + ?lo) :: byte) = ?hi * 16 + ?lo" by blast
  have "hex_encode (of_nat (?hi * 16 + ?lo) # ds) = c # d # cs"
    unfolding hex_encode_def list.map concat.simps unat
    using ds(2) n less by (simp add: hex_encode_def kHex_nibble)
  then show ?case using ds(1) by (intro exI [of _ "of_nat (?hi * 16 + ?lo) # ds"]) simp
qed (simp_all add: hex_encode_def)

text \<open>The hex codec.  Decoding succeeds exactly on the strings that encoding produces, and the two are
  inverse to each other; in particular uppercase digits and odd lengths are refused.\<close>

theorem hex_round_trip: "hex_decode s = Some bs \<longleftrightarrow> s = hex_encode bs"
proof
  assume "hex_decode s = Some bs"
  then show "s = hex_encode bs"
    using hex_pairs_Some [of s "[]" bs] by (auto simp: hex_decode_def split: if_splits)
next
  assume "s = hex_encode bs"
  then show "hex_decode s = Some bs" using hex_pairs_encode [of bs "[]"] by (simp add: hex_decode_def)
qed

section \<open>The trust store\<close>

definition trust_ok :: "trust_store \<Rightarrow> bool" where
  "trust_ok ts = list_all (\<lambda>k. key_id k \<noteq> [] \<and> length (key_bytes k) = kEd25519PublicKeyBytes) ts"

lemma trust_add_ok: "trust_ok ts \<Longrightarrow> trust_ok (snd (trust_add i k ts))"
  by (simp add: trust_add_def trust_ok_def)

lemma trust_add_hex_ok: "trust_ok ts \<Longrightarrow> trust_ok (snd (trust_add_hex i h ts))"
  by (auto simp: trust_add_hex_def intro: trust_add_ok split: option.split)

lemma trust_find_Some: "trust_find i ts = Some k \<Longrightarrow> k \<in> set ts \<and> key_id k = i"
  unfolding trust_find_def by (rule find_SomeD)

text \<open>C27: What a verified signature means.  Over a trust store built by adding keys, a manifest verifies
  exactly when its key is in the store, the signature has 64 bytes, the manifest is not empty, the crypto
  library is up and accepts the signature under the first key with that id; a stored key is never reported
  as malformed.\<close>

theorem verify_manifest_ok:
  assumes "trust_ok ts"
  shows "(verify_manifest_signature lib m sg i ts = Sig_ok \<longleftrightarrow>
      (\<exists>k. trust_find i ts = Some k \<and> length sg = 64 \<and> m \<noteq> [] \<and> sodium_init lib
         \<and> sign_verify_detached lib sg m (key_bytes k)))
    \<and> (verify_manifest_signature lib m sg i ts = Unknown_key_id \<longleftrightarrow> i \<notin> key_id ` set ts)
    \<and> verify_manifest_signature lib m sg i ts \<noteq> Malformed_public_key"
proof -
  have k: "length (key_bytes k) = kEd25519PublicKeyBytes" if "trust_find i ts = Some k" for k
    using trust_find_Some [OF that] assms by (auto simp: trust_ok_def list_all_iff)
  have n: "trust_find i ts = None \<longleftrightarrow> i \<notin> key_id ` set ts"
    unfolding trust_find_def find_None_set by auto
  show ?thesis
  proof (cases "trust_find i ts")
    case None
    then show ?thesis using n by (simp add: verify_manifest_signature_def)
  next
    case (Some k')
    then have "i \<in> key_id ` set ts" using n by (metis option.distinct(1))
    then show ?thesis
      using Some k [OF Some] by (simp add: verify_manifest_signature_def ed25519_verify_def kEd25519SignatureBytes_def)
  qed
qed

definition sample_sodium :: sodium where
  "sample_sodium = \<lparr>sodium_init = True, sign_verify_detached = (\<lambda>s m k. s = replicate 64 (hd k)),
     hash_sha256 = (\<lambda>bs. replicate 32 (of_nat (length bs)))\<rparr>"

theorem verify_manifest_ok_witness:
  "verify_manifest_signature sample_sodium [1] (replicate 64 5) ''k'' (snd (trust_add ''k'' (replicate 32 5) [])) = Sig_ok"
proof -
  have t: "trust_ok (snd (trust_add ''k'' (replicate 32 5) []))"
    by (rule trust_add_ok) (simp add: trust_ok_def)
  show ?thesis
    using verify_manifest_ok [OF t, of sample_sodium "[1]" "replicate 64 5" "''k''"]
    by (simp add: trust_add_def trust_find_def sample_sodium_def kEd25519PublicKeyBytes_def)
qed

end
