(* ===== verification/Install_Layout.thy ===== *)
theory Install_Layout
  imports Atomic_Write
begin

text \<open>
  The install root of the updater (src/updater/install_layout.cpp): marker files, versioned payload
  directories, staging, the switch between versions and garbage collection, over the file system
  with faults.  A layout is its root path.
\<close>

section \<open>Markers and payloads\<close>

definition is_blank :: "char \<Rightarrow> bool" where
  "is_blank c = (c \<in> {CHR '' '', CHR 0x09, CHR 0x0A, CHR 0x0D})"

definition strip :: "string \<Rightarrow> string" where
  "strip s = rev (dropWhile is_blank (rev (dropWhile is_blank s)))"

definition read_one_line :: "path \<Rightarrow> string io" where
  "read_one_line p = do {
     bs \<leftarrow> read_file p;
     return_io (case bs of None \<Rightarrow> [] | Some bs \<Rightarrow> strip (string_of_bytes bs))
   }"

definition write_marker_atomic :: "path \<Rightarrow> string \<Rightarrow> bool io" where
  "write_marker_atomic p content = write_file_atomic p (bytes_of (content @ newline))"

definition move_payload :: "path \<Rightarrow> path \<Rightarrow> bool io" where
  "move_payload scratch final_dir = do {
     _ \<leftarrow> create_directories (butlast final_dir);
     there \<leftarrow> file_exists final_dir;
     cleared \<leftarrow> (if there then remove_all final_dir else return_io True);
     if \<not> cleared then do { _ \<leftarrow> remove_all scratch; return_io False }
     else do {
       moved \<leftarrow> rename scratch final_dir;
       if moved then return_io True else do { _ \<leftarrow> remove_all scratch; return_io False }
     }
   }"

definition fill_scratch :: "path \<Rightarrow> path \<Rightarrow> byte list \<Rightarrow> bool io" where
  "fill_scratch scratch final_dir bs = do {
     opened \<leftarrow> open_trunc (scratch @ [''payload'']);
     if \<not> opened then do { _ \<leftarrow> remove_all scratch; return_io False }
     else do {
       good \<leftarrow> (if bs = [] then return_io True else stream_write (scratch @ [''payload'']) bs);
       if \<not> good then do { _ \<leftarrow> remove_all scratch; return_io False }
       else do { stream_close (scratch @ [''payload'']) bs; move_payload scratch final_dir }
     }
   }"

definition write_payload_atomic :: "path \<Rightarrow> path \<Rightarrow> byte list \<Rightarrow> bool io" where
  "write_payload_atomic final_dir staging bs = do {
     made \<leftarrow> create_directories staging;
     there \<leftarrow> is_directory staging;
     if \<not> made \<and> \<not> there then return_io False
     else do {
       r \<leftarrow> random;
       let scratch = staging @ [last final_dir @ ''.'' @ nat_str (unat r)];
       made \<leftarrow> create_directories scratch;
       if \<not> made then return_io False else fill_scratch scratch final_dir bs
     }
   }"

section \<open>The layout\<close>

definition current_marker_path :: "path \<Rightarrow> path" where
  "current_marker_path root = root @ [''current.txt'']"

definition previous_marker_path :: "path \<Rightarrow> path" where
  "previous_marker_path root = root @ [''previous.txt'']"

definition versions_dir :: "path \<Rightarrow> path" where
  "versions_dir root = root @ [''versions'']"

definition staging_dir :: "path \<Rightarrow> path" where
  "staging_dir root = root @ [''staging'']"

definition payload_path :: "path \<Rightarrow> string \<Rightarrow> path" where
  "payload_path root v = versions_dir root @ [v, ''payload'']"

definition rollback_log_path :: "path \<Rightarrow> path" where
  "rollback_log_path root = root @ [''rollback.log'']"

definition read_current_version :: "path \<Rightarrow> string io" where
  "read_current_version root = read_one_line (current_marker_path root)"

definition read_previous_version :: "path \<Rightarrow> string io" where
  "read_previous_version root = read_one_line (previous_marker_path root)"

definition has_current :: "path \<Rightarrow> bool io" where
  "has_current root = do { v \<leftarrow> read_current_version root; return_io (v \<noteq> []) }"

definition has_previous :: "path \<Rightarrow> bool io" where
  "has_previous root = do { v \<leftarrow> read_previous_version root; return_io (v \<noteq> []) }"

definition list_versions :: "path \<Rightarrow> string list io" where
  "list_versions root = do {
     there \<leftarrow> is_directory (versions_dir root);
     if there then list_directories (versions_dir root) else return_io []
   }"

definition has_version_payload :: "path \<Rightarrow> string \<Rightarrow> bool io" where
  "has_version_payload root v = do {
     there \<leftarrow> file_exists (payload_path root v);
     if \<not> there then return_io False
     else do { n \<leftarrow> file_size (payload_path root v); return_io (0 < n) }
   }"

definition stage_version :: "path \<Rightarrow> string \<Rightarrow> byte list \<Rightarrow> bool io" where
  "stage_version root v payload =
     (if v = [] then return_io False
      else write_payload_atomic (versions_dir root @ [v]) (staging_dir root) payload)"

definition atomic_switch_to :: "path \<Rightarrow> string \<Rightarrow> string \<Rightarrow> bool io" where
  "atomic_switch_to root from_version to_version =
     (if to_version = [] then return_io False
      else do {
        has \<leftarrow> has_version_payload root to_version;
        if \<not> has then return_io False
        else do {
          noted \<leftarrow> (if from_version = [] then return_io True
                    else write_marker_atomic (previous_marker_path root) from_version);
          if \<not> noted then return_io False
          else write_marker_atomic (current_marker_path root) to_version
        }
      })"

definition remove_version :: "path \<Rightarrow> string \<Rightarrow> bool io" where
  "remove_version root v =
     (if v = [] then return_io False
      else do {
        cur \<leftarrow> read_current_version root;
        if v = cur then return_io False
        else do {
          prev \<leftarrow> read_previous_version root;
          if v = prev then return_io False
          else remove_all (versions_dir root @ [v])
        }
      })"

fun reap :: "path \<Rightarrow> string list \<Rightarrow> string list \<Rightarrow> string list io" where
  "reap root keep [] = return_io []"
| "reap root keep (v # vs) =
     (if v \<in> set keep then reap root keep vs
      else do {
        removed \<leftarrow> remove_version root v;
        rest \<leftarrow> reap root keep vs;
        return_io (if removed then v # rest else rest)
      })"

definition gc_unreferenced :: "path \<Rightarrow> string list \<Rightarrow> string list io" where
  "gc_unreferenced root protect_versions = do {
     cur \<leftarrow> read_current_version root;
     prev \<leftarrow> read_previous_version root;
     vs \<leftarrow> list_versions root;
     reap root (cur # prev # protect_versions) vs
   }"

section \<open>The switch\<close>

lemma marker_not_temporary: "root @ [x] \<notin> range (tmp_sibling (root @ [y]))" if "hd x \<noteq> hd y" "y \<noteq> []"
  using that by (auto simp: tmp_sibling_def)

lemma markers_apart:
  "current_marker_path root \<noteq> previous_marker_path root" "current_marker_path root \<noteq> []"
  "previous_marker_path root \<noteq> []"
  "current_marker_path root \<notin> range (tmp_sibling (previous_marker_path root))"
  "previous_marker_path root \<notin> range (tmp_sibling (current_marker_path root))"
  using marker_not_temporary [of "''current.txt''" "''previous.txt''" root]
    marker_not_temporary [of "''previous.txt''" "''current.txt''" root]
  by (simp_all add: current_marker_path_def previous_marker_path_def)

lemma wp_has_version_payload:
  "(\<And>b. (b \<longrightarrow> look (tree s) (payload_path root v) \<noteq> None) \<Longrightarrow> Q b s) \<Longrightarrow> wp (has_version_payload root v) Q s"
  by (simp add: has_version_payload_def file_exists_def file_size_def)

text \<open>From \<open>s\<close> to \<open>s'\<close> the file at \<open>p\<close> is always the old one or \<open>n\<close>.\<close>

definition flips :: "path \<Rightarrow> node \<Rightarrow> fs \<Rightarrow> bool \<Rightarrow> fs \<Rightarrow> bool" where
  "flips p n s b s' = (steps (\<lambda>t. look t p = look (tree s) p \<or> look t p = Some n) s s'
     \<and> look (tree s') p = (if b then Some n else look (tree s) p))"

text \<open>What a switch may touch, and what it leaves in the markers.\<close>

definition marker_area :: "path \<Rightarrow> path set" where
  "marker_area root = {current_marker_path root, previous_marker_path root}
     \<union> range (tmp_sibling (current_marker_path root)) \<union> range (tmp_sibling (previous_marker_path root))"

definition noted :: "path \<Rightarrow> string \<Rightarrow> fs \<Rightarrow> fs \<Rightarrow> bool" where
  "noted root from_v s s' = (tree_ok (tree s') \<and> (\<forall>q. q \<notin> marker_area root \<longrightarrow> look (tree s') q = look (tree s) q)
     \<and> (look (tree s) (previous_marker_path root) \<noteq> Some Dir \<longrightarrow>
        look (tree s') (previous_marker_path root) = (if from_v = [] then look (tree s) (previous_marker_path root)
          else Some (File (bytes_of (from_v @ newline))))))"

definition switched :: "path \<Rightarrow> string \<Rightarrow> string \<Rightarrow> fs \<Rightarrow> bool \<Rightarrow> fs \<Rightarrow> bool" where
  "switched root from_v to_v s b s' = (flips (current_marker_path root) (File (bytes_of (to_v @ newline))) s b s'
     \<and> tree_ok (tree s') \<and> (\<forall>q. q \<notin> marker_area root \<longrightarrow> look (tree s') q = look (tree s) q)
     \<and> (b \<longrightarrow> noted root from_v s s'))"

lemma wp_note_previous:
  assumes ok: "tree_ok (tree s)" and calm_disk: "faults s PClose = []" "faults s PRename = []"
    and Q: "\<And>b s'. steps (\<lambda>t. look t (current_marker_path root) = look (tree s) (current_marker_path root)) s s' \<Longrightarrow>
      tree_ok (tree s') \<Longrightarrow> (\<forall>q. q \<notin> marker_area root \<longrightarrow> look (tree s') q = look (tree s) q) \<Longrightarrow>
      (b \<longrightarrow> noted root from_v s s') \<Longrightarrow> Q b s'"
  shows "wp (if from_v = [] then return_io True else write_marker_atomic (previous_marker_path root) from_v) Q s"
proof (cases "from_v = []")
  case True
  have "noted root from_v s s" using True ok by (simp add: noted_def)
  then show ?thesis using True ok by (simp add: Q steps_def)
next
  case False
  let ?p = "previous_marker_path root"
  have "wp (write_marker_atomic ?p from_v) Q s"
    unfolding write_marker_atomic_def
  proof (rule copying.wp_write [OF ok markers_apart(3)])
    fix b s'
    assume rep: "replaced ?p (bytes_of (from_v @ newline)) s b s'"
    then have r: "steps (touches ?p (prefixes_of (bytes_of (from_v @ newline))) (tree s)) s s'"
      by (simp add: replaced_def)
    have "steps (\<lambda>t. look t (current_marker_path root) = look (tree s) (current_marker_path root)) s s'"
      by (rule steps_mono [OF r]) (use markers_apart in \<open>auto simp: touches_def\<close>)
    moreover have o: "tree_ok (tree s')" "\<forall>q. q \<notin> marker_area root \<longrightarrow> look (tree s') q = look (tree s) q"
      using stepsD(2) [OF r] ok by (auto simp: touches_def marker_area_def)
    moreover have "b \<longrightarrow> noted root from_v s s'"
      using rep calm_disk o False by (simp add: replaced_def noted_def)
    ultimately show "Q b s'" by (rule Q)
  qed
  then show ?thesis using False by simp
qed

lemma wp_switch:
  assumes ok: "tree_ok (tree s)" and cur: "look (tree s) (current_marker_path root) \<noteq> Some Dir"
    and calm_disk: "faults s PClose = []" "faults s PRename = []"
    and Q: "\<And>b s'. switched root from_v to_v s b s' \<Longrightarrow>
      (b \<longrightarrow> look (tree s) (payload_path root to_v) \<noteq> None) \<Longrightarrow> Q b s'"
  shows "wp (atomic_switch_to root from_v to_v) Q s"
proof -
  let ?p = "current_marker_path root" and ?n = "File (bytes_of (to_v @ newline))"
  let ?same = "\<lambda>s'. \<forall>q. q \<notin> marker_area root \<longrightarrow> look (tree s') q = look (tree s) q"
  have stay: "Q False s'" if "steps (\<lambda>t. look t ?p = look (tree s) ?p) s s'" "tree_ok (tree s')" "?same s'" for s'
  proof (rule Q)
    have "steps (\<lambda>t. look t ?p = look (tree s) ?p \<or> look t ?p = Some ?n) s s'"
      by (rule steps_mono [OF that(1)]) simp
    then have "flips ?p ?n s False s'" using stepsD(2) [OF that(1)] by (simp add: flips_def)
    then show "switched root from_v to_v s False s'" using that(2,3) by (simp add: switched_def)
  qed simp
  have to_current: "wp (write_marker_atomic ?p to_v) Q s1"
    if s1: "steps (\<lambda>t. look t ?p = look (tree s) ?p) s s1" "tree_ok (tree s1)" "?same s1"
      and n: "noted root from_v s s1" and has: "look (tree s) (payload_path root to_v) \<noteq> None" for s1
    unfolding write_marker_atomic_def
  proof (rule copying.wp_write [OF s1(2) markers_apart(2)])
    fix b s'
    assume r: "replaced ?p (bytes_of (to_v @ newline)) s1 b s'"
    have same: "look (tree s1) ?p = look (tree s) ?p" and c: "calm s s1" using stepsD [OF s1(1)] by blast+
    then have r2: "steps (touches ?p {?n} (tree s1)) s1 s'"
        "look (tree s') ?p = (if b then Some ?n else look (tree s1) ?p)"
      using r cur calm_disk unfolding replaced_def calm_def by simp_all
    have "steps (\<lambda>t. look t ?p = look (tree s) ?p \<or> look t ?p = Some ?n) s s'"
      by (rule steps_trans [OF steps_mono [OF s1(1)] steps_mono [OF r2(1)]]) (auto simp: touches_def same)
    then have "flips ?p ?n s b s'" using r2(2) same by (simp add: flips_def)
    moreover have t: "tree_ok (tree s')" "\<And>q. q \<noteq> ?p \<Longrightarrow> q \<notin> range (tmp_sibling ?p) \<Longrightarrow> look (tree s') q = look (tree s1) q"
      using stepsD(2) [OF r2(1)] s1(2) by (auto simp: touches_def)
    moreover have o: "?same s'"
    proof (intro allI impI)
      fix q assume q: "q \<notin> marker_area root"
      then have "look (tree s') q = look (tree s1) q" by (intro t(2)) (simp_all add: marker_area_def)
      then show "look (tree s') q = look (tree s) q" using s1(3) q by simp
    qed
    moreover have "look (tree s') (previous_marker_path root) = look (tree s1) (previous_marker_path root)"
      by (rule t(2)) (rule markers_apart(1) [symmetric], rule markers_apart(5))
    then have "noted root from_v s s'" using n t(1) o by (simp add: noted_def)
    ultimately have "switched root from_v to_v s b s'" by (simp add: switched_def)
    then show "Q b s'" using has by (intro Q) simp_all
  qed
  have idle: "steps (\<lambda>t. look t ?p = look (tree s) ?p) s s" by (simp add: steps_def)
  have go: "wp (if from_v = [] then return_io True else write_marker_atomic (previous_marker_path root) from_v)
      (\<lambda>noted. wp (if \<not> noted then return_io False else write_marker_atomic ?p to_v) Q) s"
    if has: "look (tree s) (payload_path root to_v) \<noteq> None"
  proof (rule wp_note_previous [OF ok calm_disk])
    fix b s1
    assume s1: "steps (\<lambda>t. look t ?p = look (tree s) ?p) s s1" "tree_ok (tree s1)" "?same s1"
      and n: "b \<longrightarrow> noted root from_v s s1"
    show "wp (if \<not> b then return_io False else write_marker_atomic ?p to_v) Q s1"
      using stay [OF s1] to_current [OF s1 _ has] n by (cases b) simp_all
  qed
  show ?thesis
  proof (cases "to_v = []")
    case True
    then show ?thesis using stay [OF idle ok] by (simp add: atomic_switch_to_def)
  next
    case False
    show ?thesis
      unfolding atomic_switch_to_def if_not_P [OF False] wp_bind
    proof (rule wp_has_version_payload)
      fix b assume "b \<longrightarrow> look (tree s) (payload_path root to_v) \<noteq> None"
      then show "wp (if \<not> b then return_io False
          else (if from_v = [] then return_io True else write_marker_atomic (previous_marker_path root) from_v) \<bind>
            (\<lambda>noted. if \<not> noted then return_io False else write_marker_atomic ?p to_v)) Q s"
        using stay [OF idle ok] go by (cases b) simp_all
    qed
  qed
qed

section \<open>Garbage collection\<close>

text \<open>Below the paths of \<open>A\<close> entries may disappear, everything else stays.\<close>

definition spares :: "path set \<Rightarrow> tree \<Rightarrow> tree \<Rightarrow> bool" where
  "spares A m t = ((tree_ok m \<longrightarrow> tree_ok t) \<and> 
     (\<forall>q. look t q = look m q \<or> (\<exists>p \<in> A. prefix p q) \<and> look t q = None))"

lemma spares_refl [simp]: "spares A m m"
  by (simp add: spares_def)

lemma spares_trans: "spares A m t \<Longrightarrow> spares A t u \<Longrightarrow> spares A m u"
  unfolding spares_def by metis

lemma spares_mono: "spares A m t \<Longrightarrow> A \<subseteq> B \<Longrightarrow> spares B m t"
  unfolding spares_def by blast

lemma spares_remove: "p \<noteq> [] \<Longrightarrow> p \<in> A \<Longrightarrow> spares A m (remove_tree p m)"
  by (auto simp: spares_def tree_ok_remove_tree)

lemma spares_remove_part:
  assumes "p \<noteq> []" "p \<in> A"
  shows "spares A m (filter (\<lambda>e. \<not> prefix p (fst e) \<or> (\<exists>k \<in> set ks. prefix (fst e) k)) m)"
proof -
  let ?P = "\<lambda>q. \<not> prefix p q \<or> (\<exists>k \<in> set ks. prefix q k)"
  have "tree_ok (filter (\<lambda>e. ?P (fst e)) m)" if "tree_ok m"
  proof (rule tree_ok_remove [OF that assms(1)])
    show "?P (butlast q)" if "?P q" for q
      using that not_prefix_butlast prefix_order.order_trans [OF prefixeq_butlast] by blast
    show "?P []" using assms(1) by simp
  qed
  moreover have "look (filter (\<lambda>e. ?P (fst e)) m) q = look m q
      \<or> prefix p q \<and> look (filter (\<lambda>e. ?P (fst e)) m) q = None" for q
    unfolding look_filter [of ?P m q] by simp
  ultimately show ?thesis using assms(2) unfolding spares_def by blast
qed

lemma wp_remove_all_spares:
  assumes "p \<noteq> []" "p \<in> A" "\<And>b s'. steps (spares A (tree s)) s s' \<Longrightarrow> (b \<longrightarrow> (\<forall>q. prefix p q \<longrightarrow> look (tree s') q = None)) \<Longrightarrow> Q b s'"
  shows "wp (remove_all p) Q s"
proof (rule wp_remove_all, goal_cases)
  case (2 s')
  have "steps (spares A (tree s)) s s'"
    by (rule steps_moved [OF 2(2)]) (rule spares_remove [OF assms(1,2)])
  then show ?case using 2(2) by (intro assms(3)) (auto simp: moved_def)
next
  case (3 s' ks)
  have "steps (spares A (tree s)) s s'"
    by (rule steps_moved [OF 3(3)]) (rule spares_remove_part [OF assms(1,2)])
  then show ?case by (rule assms(3)) simp
qed (use assms(1) in simp)

lemma wp_read_one_line:
  assumes "\<And>v s'. idle s s' \<Longrightarrow>
    (faults s PRead = [] \<longrightarrow> v = (case look (tree s) p of Some (File bs) \<Rightarrow> strip (string_of_bytes bs) | _ \<Rightarrow> [])) \<Longrightarrow> Q v s'"
  shows "wp (read_one_line p) Q s"
  unfolding read_one_line_def wp_bind
  by (rule wp_read_file) (auto intro!: assms simp: is_file_def split: option.splits node.splits)

lemma steps_idle_left: "idle s s1 \<Longrightarrow> steps R s1 s' \<Longrightarrow> steps R s s'"
  unfolding steps_def idle_def by (auto intro: calm_trans)

text \<open>Removing a version touches nothing outside its directory, and never the directory of the version
  that the markers name.\<close>

definition marked :: "path \<Rightarrow> tree \<Rightarrow> string" where
  "marked p m = (case look m p of Some (File bs) \<Rightarrow> strip (string_of_bytes bs) | _ \<Rightarrow> [])"

definition version_dir :: "path \<Rightarrow> string \<Rightarrow> path" where
  "version_dir root v = versions_dir root @ [v]"

lemma wp_remove_version:
  assumes Q: "\<And>b s'. steps (spares {version_dir root v} (tree s)) s s' \<Longrightarrow>
      (faults s PRead = [] \<longrightarrow> v = marked (current_marker_path root) (tree s)
          \<or> v = marked (previous_marker_path root) (tree s) \<or> v = [] \<longrightarrow>
        \<not> b \<and> tree s' = tree s \<and> trace s' = trace s) \<Longrightarrow>
      (b \<longrightarrow> (\<forall>q. prefix (version_dir root v) q \<longrightarrow> look (tree s') q = None)) \<Longrightarrow> Q b s'"
  shows "wp (remove_version root v) Q s"
proof (cases "v = []")
  case True
  then show ?thesis by (simp add: remove_version_def) (rule Q, simp_all add: steps_def)
next
  case False
  have same: "Q False s'" if "idle s s'" for s'
    using that by (intro Q) (auto intro: steps_idle simp: idle_def)
  have gone: "wp (remove_all (version_dir root v)) Q s2"
    if i: "idle s s1" "idle s1 s2"
      and n: "faults s PRead = [] \<longrightarrow> v \<noteq> marked (current_marker_path root) (tree s)"
        "faults s PRead = [] \<longrightarrow> v \<noteq> marked (previous_marker_path root) (tree s)" for s1 s2
  proof (rule wp_remove_all_spares [of _ "{version_dir root v}"])
    fix b s'
    assume st: "steps (spares {version_dir root v} (tree s2)) s2 s'"
      and d: "b \<longrightarrow> (\<forall>q. prefix (version_dir root v) q \<longrightarrow> look (tree s') q = None)"
    have i2: "idle s s2" using idle_trans [OF i] .
    then have "tree s2 = tree s" by (simp add: idle_def)
    then show "Q b s'" using steps_idle_left [OF i2] st d n False by (intro Q) auto
  qed (simp_all add: version_dir_def)
  have second: "wp (read_previous_version root)
      (\<lambda>p. wp (if v = p then return_io False else remove_all (versions_dir root @ [v])) Q) s1"
    if i: "idle s s1" and n: "faults s PRead = [] \<longrightarrow> v \<noteq> marked (current_marker_path root) (tree s)" for s1
    unfolding read_previous_version_def
  proof (rule wp_read_one_line)
    fix p s2
    assume i2: "idle s1 s2" and p: "faults s1 PRead = [] \<longrightarrow> p = (case look (tree s1) (previous_marker_path root) of
        Some (File bs) \<Rightarrow> strip (string_of_bytes bs) | _ \<Rightarrow> [])"
    have "faults s PRead = [] \<longrightarrow> p = marked (previous_marker_path root) (tree s)"
      using p i by (simp add: marked_def idle_def calm_def)
    then show "wp (if v = p then return_io False else remove_all (versions_dir root @ [v])) Q s2"
      using same [OF idle_trans [OF i i2]] gone [OF i i2 n] by (auto simp: version_dir_def)
  qed
  show ?thesis
    unfolding remove_version_def read_current_version_def if_not_P [OF False] wp_bind
  proof (rule wp_read_one_line)
    fix c s1
    assume i: "idle s s1" and c: "faults s PRead = [] \<longrightarrow> c = (case look (tree s) (current_marker_path root) of
        Some (File bs) \<Rightarrow> strip (string_of_bytes bs) | _ \<Rightarrow> [])"
    then show "wp (if v = c then return_io False else read_previous_version root \<bind>
        (\<lambda>prev. if v = prev then return_io False else remove_all (versions_dir root @ [v]))) Q s1"
      using same [OF i] second [OF i] by (auto simp: marked_def)
  qed
qed

text \<open>The versions that are reaped are gone; nothing outside their directories changed.\<close>

definition reaped_ok :: "path \<Rightarrow> string list \<Rightarrow> string list \<Rightarrow> fs \<Rightarrow> string list \<Rightarrow> fs \<Rightarrow> bool" where
  "reaped_ok root keep vs s out s' = (set out \<subseteq> set vs - set keep \<and>
     steps (spares (version_dir root ` (set vs - set keep)) (tree s)) s s' \<and>
     (\<forall>v \<in> set out. \<forall>q. prefix (version_dir root v) q \<longrightarrow> look (tree s') q = None))"

lemma wp_reap:
  assumes "\<And>out s'. reaped_ok root keep vs s out s' \<Longrightarrow> Q out s'"
  shows "wp (reap root keep vs) Q s"
  using assms
proof (induction vs arbitrary: Q s)
  case Nil
  show ?case unfolding reap.simps wp_return by (rule Nil) (simp add: reaped_ok_def steps_def)
next
  case (Cons v vs)
  let ?A = "version_dir root ` (set (v # vs) - set keep)"
  show ?case
  proof (cases "v \<in> set keep")
    case True
    then have "set (v # vs) - set keep = set vs - set keep" by auto
    then have "wp (reap root keep vs) Q s" by (intro Cons.IH Cons.prems) (auto simp: reaped_ok_def)
    then show ?thesis using True by simp
  next
    case False
    have "wp (remove_version root v) (\<lambda>removed. wp (reap root keep vs \<bind>
        (\<lambda>rest. return_io (if removed then v # rest else rest))) Q) s"
    proof (rule wp_remove_version)
      fix b s1
      assume st: "steps (spares {version_dir root v} (tree s)) s s1"
        and gone: "b \<longrightarrow> (\<forall>q. prefix (version_dir root v) q \<longrightarrow> look (tree s1) q = None)"
      have "wp (reap root keep vs) (\<lambda>rest. Q (if b then v # rest else rest)) s1"
      proof (rule Cons.IH)
        fix out s2
        assume r: "reaped_ok root keep vs s1 out s2"
        then have st2: "steps (spares (version_dir root ` (set vs - set keep)) (tree s1)) s1 s2"
          by (simp add: reaped_ok_def)
        have "steps (spares ?A (tree s)) s s2"
        proof (rule steps_trans [OF steps_mono [OF st] steps_mono [OF st2]])
          show "spares ?A (tree s) t" if "spares {version_dir root v} (tree s) t" for t
            by (rule spares_mono [OF that]) (use False in auto)
          show "spares ?A (tree s) t" if "spares (version_dir root ` (set vs - set keep)) (tree s1) t" for t
          proof (rule spares_trans)
            show "spares ?A (tree s) (tree s1)"
              by (rule spares_mono [OF stepsD(2) [OF st]]) (use False in auto)
            show "spares ?A (tree s1) t" by (rule spares_mono [OF that]) auto
          qed
        qed
        moreover have "look (tree s2) q = None" if "b" "prefix (version_dir root v) q" for q
        proof -
          have "look (tree s1) q = None" using gone that by simp
          then show ?thesis using stepsD(2) [OF st2] unfolding spares_def by metis
        qed
        ultimately show "Q (if b then v # out else out) s2"
          using r False by (intro Cons.prems) (auto simp: reaped_ok_def)
      qed
      then show "wp (reap root keep vs \<bind> (\<lambda>rest. return_io (if b then v # rest else rest))) Q s1" by simp
    qed
    then show ?thesis using False by simp
  qed
qed

lemma wp_gc:
  assumes "faults s PRead = []"
    and Q: "\<And>vs out s'. reaped_ok root (marked (current_marker_path root) (tree s)
      # marked (previous_marker_path root) (tree s) # protect) vs s out s' \<Longrightarrow> Q out s'"
  shows "wp (gc_unreferenced root protect) Q s"
proof -
  have reaping: "wp (reap root (c # p # protect) vs) Q s3"
    if i: "idle s s3" and c: "c = marked (current_marker_path root) (tree s)"
      and p: "p = marked (previous_marker_path root) (tree s)" for c p vs s3
  proof (rule wp_reap)
    fix out s'
    assume "reaped_ok root (c # p # protect) vs s3 out s'"
    then have "reaped_ok root (c # p # protect) vs s out s'"
      using steps_idle_left [OF i] i by (simp add: reaped_ok_def idle_def)
    then show "Q out s'" using Q c p by simp
  qed
  have listing: "wp (list_versions root) (\<lambda>vs. wp (reap root (c # p # protect) vs) Q) s2"
    if i: "idle s s2" and c: "c = marked (current_marker_path root) (tree s)"
      and p: "p = marked (previous_marker_path root) (tree s)" for c p s2
    unfolding list_versions_def wp_bind is_directory_def wp_query
    using reaping [OF _ c p] reaping [OF i c p, of "[]"] i
    by (auto intro!: wp_list_directories intro: idle_trans)
  have second: "wp (read_previous_version root)
      (\<lambda>p. wp (list_versions root) (\<lambda>vs. wp (reap root (c # p # protect) vs) Q)) s1"
    if i: "idle s s1" and c: "c = marked (current_marker_path root) (tree s)" for c s1
    unfolding read_previous_version_def
    by (rule wp_read_one_line) (use i c assms(1) listing in
      \<open>auto simp: marked_def idle_def calm_def intro: idle_trans\<close>)
  show ?thesis
    unfolding gc_unreferenced_def read_current_version_def wp_bind
    by (rule wp_read_one_line) (use assms(1) second in \<open>auto simp: marked_def\<close>)
qed

section \<open>Staging\<close>

text \<open>Outside the version and the staging directory nothing changes but that their parents appear.\<close>

definition staged :: "path \<Rightarrow> string \<Rightarrow> tree \<Rightarrow> tree \<Rightarrow> bool" where
  "staged root v m t = ((tree_ok m \<longrightarrow> tree_ok t) \<and>
     (\<forall>q. \<not> prefix (version_dir root v) q \<longrightarrow> \<not> prefix (staging_dir root) q \<longrightarrow>
        look t q = look m q \<or> look m q = None \<and> look t q = Some Dir
          \<and> (prefix q (versions_dir root) \<or> prefix q (staging_dir root))))"

lemma staged_refl [simp]: "staged root v m m"
  by (simp add: staged_def)

lemma staged_trans: "staged root v m t \<Longrightarrow> staged root v t u \<Longrightarrow> staged root v m u"
  unfolding staged_def by (metis option.distinct(1))

lemma staged_grown:
  assumes "grown p m t" "prefix (staging_dir root) p \<or> p = versions_dir root"
  shows "staged root v m t"
proof -
  have "prefix q (versions_dir root) \<or> prefix q (staging_dir root)"
    if "prefix q p" "\<not> prefix (staging_dir root) q" for q
    using assms(2) that prefix_same_cases [of q p "staging_dir root"] by auto
  then show ?thesis using assms(1) unfolding grown_def staged_def by blast
qed

lemma staged_spares:
  assumes "spares {p} m t" "prefix (staging_dir root) p \<or> prefix (version_dir root v) p"
  shows "staged root v m t"
  using assms prefix_order.order_trans unfolding spares_def staged_def by blast

lemma staged_update:
  assumes "prefix (staging_dir root) p" "writable_at m p \<or> is_file m p" "p \<noteq> []"
  shows "staged root v m (AList.update p (File c) m)"
  using only_at_update [OF assms(2,3)] assms(1) by (auto simp: staged_def only_at_def)

lemma staged_move:
  assumes ok: "tree_ok m" and a: "prefix (staging_dir root) a" and b: "b = version_dir root v"
    and may: "may_rename m a b" "a \<noteq> b"
  shows "staged root v m (move_tree a b m)"
  using tree_ok_move_tree [OF ok may] prefix_order.order_trans [OF a]
  unfolding staged_def look_move_tree [OF ok may] by (auto simp: b)

definition steps_staged :: "path \<Rightarrow> string \<Rightarrow> fs \<Rightarrow> fs \<Rightarrow> bool" where
  "steps_staged root v s s' = (tree_ok (tree s) \<and> steps (staged root v (tree s)) s s')"

lemma steps_stagedD:
  assumes "steps_staged root v s s'"
  shows "tree_ok (tree s')" "look (tree s') [] = Some Dir" "calm s s'"
  using assms unfolding steps_staged_def by (auto simp: steps_def staged_def tree_ok_def)

lemma steps_staged_trans:
  "steps_staged root v s s1 \<Longrightarrow> steps (staged root v (tree s1)) s1 s' \<Longrightarrow> steps_staged root v s s'"
proof -
  assume a: "steps_staged root v s s1" and b: "steps (staged root v (tree s1)) s1 s'"
  have "staged root v (tree s) (tree s1)" using a stepsD(2) unfolding steps_staged_def by blast
  then have "steps (staged root v (tree s)) s1 s'" using steps_mono [OF b] staged_trans by blast
  then show ?thesis using a steps_trans unfolding steps_staged_def by blast
qed

text \<open>\<open>stored d bs s s'\<close>: the payload of \<open>d\<close> is \<open>bs\<close>, or a prefix when the flush failed unseen.\<close>

definition stored :: "path \<Rightarrow> byte list \<Rightarrow> fs \<Rightarrow> tree \<Rightarrow> bool" where
  "stored d bs s t = (\<exists>c. look t (d @ [''payload'']) = Some (File c)
     \<and> (c = bs \<or> faults s PClose \<noteq> [] \<and> (\<exists>k. c = take k bs)))"

lemma scratch_apart:
  "\<not> prefix (version_dir root v) (staging_dir root @ q)" "\<not> prefix (staging_dir root) (version_dir root v @ q)"
  by (auto simp: version_dir_def versions_dir_def staging_dir_def prefix_def)

lemma wp_move_payload:
  assumes s1: "steps_staged root v s s1" and sc: "scratch = staging_dir root @ [x]"
    and st: "stored scratch bs s (tree s1)"
    and Q: "\<And>b s'. steps_staged root v s s' \<Longrightarrow> (b \<longrightarrow> stored (version_dir root v) bs s (tree s')) \<Longrightarrow> Q b s'"
  shows "wp (move_payload scratch (version_dir root v)) Q s1"
proof -
  have drop: "wp (remove_all scratch) (\<lambda>_. wp (return_io False) Q) s2" if "steps_staged root v s s2" for s2
    by (rule wp_remove_all_spares [of _ "{scratch}"])
      (auto simp: sc staging_dir_def intro!: Q steps_staged_trans [OF that]
        elim!: steps_mono intro: staged_spares)
  have move: "wp (rename scratch (version_dir root v))
      (\<lambda>ok. wp (if ok then return_io True else remove_all scratch \<bind> (\<lambda>_. return_io False)) Q) s2"
    if s2: "steps_staged root v s s2" and st2: "stored scratch bs s (tree s2)" for s2
  proof (rule wp_rename, goal_cases)
    case (1 s3)
    have "steps_staged root v s s3" using steps_staged_trans [OF s2 steps_idle [OF 1(2)]] by simp
    then show ?case using drop by simp
  next
    case (2 s3)
    then show ?case using scratch_apart(1) [of root v "[x]"] by (simp add: sc)
  next
    case (3 s3)
    note ok2 = steps_stagedD(1) [OF s2]
    have "steps_staged root v s s3"
      by (rule steps_staged_trans [OF s2 steps_moved [OF 3(3)]])
        (rule staged_move [OF ok2 _ refl 3(2,1)], simp add: sc)
    moreover have "stored (version_dir root v) bs s (tree s3)"
      using st2 3(3) look_move_tree [OF ok2 3(2,1)] by (simp add: stored_def moved_def)
    ultimately show ?case using Q by simp
  qed
  have cleared: "wp (if there then remove_all (version_dir root v) else return_io True)
      (\<lambda>ok. wp (if \<not> ok then remove_all scratch \<bind> (\<lambda>_. return_io False)
        else rename scratch (version_dir root v) \<bind>
          (\<lambda>moved. if moved then return_io True else remove_all scratch \<bind> (\<lambda>_. return_io False))) Q) s2"
    if s2: "steps_staged root v s s2" and st2: "stored scratch bs s (tree s2)" for there s2
  proof (cases there)
    case False
    then show ?thesis using move [OF s2 st2] by simp
  next
    case True
    have "wp (remove_all (version_dir root v))
      (\<lambda>ok. wp (if \<not> ok then remove_all scratch \<bind> (\<lambda>_. return_io False)
        else rename scratch (version_dir root v) \<bind>
          (\<lambda>moved. if moved then return_io True else remove_all scratch \<bind> (\<lambda>_. return_io False))) Q) s2"
    proof (rule wp_remove_all_spares [of _ "{version_dir root v}"])
      fix b s3
      assume r: "steps (spares {version_dir root v} (tree s2)) s2 s3"
      have s3: "steps_staged root v s s3"
        by (rule steps_staged_trans [OF s2 steps_mono [OF r]]) (simp add: staged_spares)
      have "look (tree s3) (scratch @ [''payload'']) = look (tree s2) (scratch @ [''payload''])"
        using stepsD(2) [OF r] scratch_apart(1) [of root v "[x, ''payload'']"] by (auto simp: spares_def sc)
      then have "stored scratch bs s (tree s3)" using st2 by (simp add: stored_def)
      then show "wp (if \<not> b then remove_all scratch \<bind> (\<lambda>_. return_io False)
        else rename scratch (version_dir root v) \<bind>
          (\<lambda>moved. if moved then return_io True else remove_all scratch \<bind> (\<lambda>_. return_io False))) Q s3"
        using drop [OF s3] move [OF s3] by simp
    qed (simp_all add: version_dir_def)
    then show ?thesis using True by simp
  qed
  show ?thesis
    unfolding move_payload_def wp_bind
  proof (rule wp_create_directories)
    show "look (tree s1) [] = Some Dir" using steps_stagedD(2) [OF s1] .
    fix b s2
    assume g: "grew (butlast (version_dir root v)) s1 s2"
    have s2: "steps_staged root v s s2"
      by (rule steps_staged_trans [OF s1]) (use g in \<open>auto simp: grew_def version_dir_def elim!: steps_mono intro: staged_grown\<close>)
    have "stored scratch bs s (tree s2)"
      using st g by (auto simp: stored_def grew_def grown_def dest!: stepsD(2))
        (metis option.distinct(1))+
    then show "wp (file_exists (version_dir root v)) (\<lambda>there.
        wp (if there then remove_all (version_dir root v) else return_io True)
          (\<lambda>ok. wp (if \<not> ok then remove_all scratch \<bind> (\<lambda>_. return_io False)
            else rename scratch (version_dir root v) \<bind>
              (\<lambda>moved. if moved then return_io True else remove_all scratch \<bind> (\<lambda>_. return_io False))) Q)) s2"
      using cleared [OF s2] by (simp add: file_exists_def)
  qed
qed

lemma wp_fill_scratch:
  assumes s1: "steps_staged root v s s1" and sc: "scratch = staging_dir root @ [x]"
    and drop: "\<And>s2. steps_staged root v s s2 \<Longrightarrow> wp (remove_all scratch) (\<lambda>_. wp (return_io False) Q) s2"
    and go_on: "\<And>s2. steps_staged root v s s2 \<Longrightarrow> stored scratch bs s (tree s2) \<Longrightarrow>
      wp (move_payload scratch (version_dir root v)) Q s2"
  shows "wp (fill_scratch scratch (version_dir root v) bs) Q s1"
proof -
  let ?f = "scratch @ [''payload'']"
  have below: "prefix (staging_dir root) ?f" by (simp add: sc)
  have update: "steps_staged root v s s3" if "steps_staged root v s s2" "moved (AList.update ?f (File c) (tree s2)) s2 s3"
      "writable_at (tree s2) ?f \<or> is_file (tree s2) ?f" for s2 s3 c
    by (rule steps_staged_trans [OF that(1) steps_moved [OF that(2)]])
      (rule staged_update [OF below that(3)], simp)
  have idle: "steps_staged root v s s3" if "steps_staged root v s s2" "idle s2 s3" for s2 s3
    by (rule steps_staged_trans [OF that(1) steps_idle [OF that(2)]]) simp
  have close: "wp (stream_close ?f bs) (\<lambda>_. wp (move_payload scratch (version_dir root v)) Q) s3"
    if s3: "steps_staged root v s s3" and c: "look (tree s3) ?f = Some (File bs)" for s3
  proof (rule wp_stream_close, goal_cases)
    case (1 s4)
    then have "stored scratch bs s (tree s4)" using c by (auto simp: stored_def idle_def)
    then show ?case using go_on [OF idle [OF s3 1]] by simp
  next
    case (2 k s4)
    have "faults s PClose \<noteq> []" using steps_stagedD(3) [OF s3] 2(2) by (auto simp: calm_def)
    then have "stored scratch bs s (tree s4)" using 2(3) by (auto simp: stored_def moved_def)
    then show ?case using go_on [OF update [OF s3 2(3)]] 2(1) by simp
  qed
  have opened: "wp (if bs = [] then return_io True else stream_write ?f bs)
      (\<lambda>good. wp (if \<not> good then remove_all scratch \<bind> (\<lambda>_. return_io False)
        else stream_close ?f bs \<bind> (\<lambda>_. move_payload scratch (version_dir root v))) Q) s2"
    if s2: "steps_staged root v s s2" and c: "look (tree s2) ?f = Some (File [])" for s2
  proof (cases "bs = []")
    case True
    then show ?thesis using close [OF s2] c by simp
  next
    case False
    have "wp (stream_write ?f bs) (\<lambda>good. wp (if \<not> good then remove_all scratch \<bind> (\<lambda>_. return_io False)
        else stream_close ?f bs \<bind> (\<lambda>_. move_payload scratch (version_dir root v))) Q) s2"
    proof (rule wp_stream_write, goal_cases)
      case (1 s3)
      then show ?case using drop [OF idle [OF s2 1(2)]] by simp
    next
      case (2 s3)
      then have "look (tree s3) ?f = Some (File bs)" by (simp add: moved_def)
      then show ?case using close [OF update [OF s2 2(2)]] 2(1) by simp
    next
      case (3 k s3)
      then show ?case using drop [OF update [OF s2 3(3)]] by simp
    qed
    then show ?thesis using False by simp
  qed
  show ?thesis
    unfolding fill_scratch_def wp_bind
  proof (rule wp_open_trunc, goal_cases)
    case (1 s2)
    then show ?case using drop [OF idle [OF s1]] by simp
  next
    case (2 s2)
    then have "look (tree s2) ?f = Some (File [])" by (simp add: moved_def)
    then show ?case using opened [OF update [OF s1 2(2)]] 2(1) by simp
  qed
qed

lemma wp_stage_version:
  assumes ok: "tree_ok (tree s)"
    and Q: "\<And>b s'. steps_staged root v s s' \<Longrightarrow> (b \<longrightarrow> stored (version_dir root v) bs s (tree s')) \<Longrightarrow> Q b s'"
  shows "wp (stage_version root v bs) Q s"
proof (cases "v = []")
  case True
  have "steps_staged root v s s" using ok by (simp add: steps_staged_def steps_def)
  then show ?thesis using True Q by (simp add: stage_version_def)
next
  case False
  have start: "steps_staged root v s s" using ok by (simp add: steps_staged_def steps_def)
  have drop: "wp (remove_all (staging_dir root @ [x])) (\<lambda>_. wp (return_io False) Q) s2"
    if "steps_staged root v s s2" for x s2
    by (rule wp_remove_all_spares [of _ "{staging_dir root @ [x]}"])
      (auto simp: staging_dir_def intro!: Q steps_staged_trans [OF that] elim!: steps_mono intro: staged_spares)
  have grow: "steps_staged root v s s2" if "steps_staged root v s s1" "grew p s1 s2" "prefix (staging_dir root) p" for p s1 s2
    by (rule steps_staged_trans [OF that(1)])
      (use that(2,3) in \<open>auto simp: grew_def elim!: steps_mono intro: staged_grown\<close>)
  have inner: "wp (create_directories (staging_dir root @ [x]))
      (\<lambda>made. wp (if \<not> made then return_io False
         else fill_scratch (staging_dir root @ [x]) (version_dir root v) bs) Q) s1"
    if s1: "steps_staged root v s s1" for x s1
  proof (rule wp_create_directories)
    show "look (tree s1) [] = Some Dir" using steps_stagedD(2) [OF s1] .
    fix b s2
    assume g: "grew (staging_dir root @ [x]) s1 s2"
    have s2: "steps_staged root v s s2" by (rule grow [OF s1 g]) simp
    have "wp (fill_scratch (staging_dir root @ [x]) (version_dir root v) bs) Q s2"
      by (rule wp_fill_scratch [OF s2 refl drop]) (auto intro!: wp_move_payload [OF _ refl] Q)
    then show "wp (if \<not> b then return_io False
         else fill_scratch (staging_dir root @ [x]) (version_dir root v) bs) Q s2"
      using Q [OF s2, of False] by simp
  qed
  show ?thesis
    unfolding stage_version_def if_not_P [OF False] write_payload_atomic_def wp_bind
      version_dir_def [symmetric]
  proof (rule wp_create_directories)
    show "look (tree s) [] = Some Dir" using ok by (simp add: tree_ok_def)
    fix b s1
    assume g: "grew (staging_dir root) s s1"
    have s1: "steps_staged root v s s1" by (rule grow [OF start g]) simp
    have idle: "steps_staged root v s s2" if "idle s1 s2" for s2
      by (rule steps_staged_trans [OF s1 steps_idle [OF that]]) simp
    show "wp (is_directory (staging_dir root)) (\<lambda>there. wp (if \<not> b \<and> \<not> there then return_io False
        else random \<bind> (\<lambda>r. let scratch = staging_dir root @ [last (version_dir root v) @ ''.'' @ nat_str (unat r)]
          in create_directories scratch \<bind> (\<lambda>made. if \<not> made then return_io False
            else fill_scratch scratch (version_dir root v) bs))) Q) s1"
      unfolding is_directory_def wp_query Let_def
    proof (cases "\<not> b \<and> \<not> look (tree s1) (staging_dir root) = Some Dir", goal_cases)
      case 1
      then show ?case using Q [OF s1, of False] by simp
    next
      case 2
      show ?case unfolding if_not_P [OF 2] wp_bind by (rule wp_random, rule inner [OF idle])
    qed
  qed
qed

section \<open>Properties\<close>




section \<open>Witnesses\<close>

text \<open>An install with versions 1 (current), 2 (staged) and 0 (unreferenced), on a disk without faults.\<close>

definition sample_install :: fs where
  "sample_install =
     \<lparr>tree = [([], Dir), ([''current.txt''], File (bytes_of (''1'' @ newline))), ([''versions''], Dir),
        ([''versions'', ''0''], Dir), ([''versions'', ''0'', ''payload''], File [7]),
        ([''versions'', ''1''], Dir), ([''versions'', ''1'', ''payload''], File [8]),
        ([''versions'', ''2''], Dir), ([''versions'', ''2'', ''payload''], File [9])],
      faults = \<lambda>_. [], entropy = [], trace = []\<rparr>"

lemma sample_install_ok: "tree_ok (tree sample_install)" "faults sample_install p = []"
  by (simp_all add: sample_install_def tree_ok_def look_def)



lemma gc_sample: "fst (run_state (gc_unreferenced [] [''2'']) sample_install) = [''0'']"
  by code_simp


text \<open>When the marker cannot be opened it reads as empty, and the current version is reaped.\<close>

lemma gc_reaps_current_unread:
  "fst (run_state (gc_unreferenced [] [''2'', ''0''])
     (sample_install\<lparr>faults := (\<lambda>_. [])(PRead := replicate 4 (Some (Fault 0 [])))\<rparr>)) = [''1'']"
  by code_simp

end
