(* ===== verification/Toml_Text.thy ===== *)
theory Toml_Text
  imports Toml Version
begin

text \<open>
  The TOML documents that the updater writes: comments, blank lines, headers of table arrays and
  entries whose values are decimal numbers or basic strings without escapes.  \<open>reads_toml\<close> is what
  the loaders rely on of toml++ for them; a line reader shows that it can hold.
\<close>

section \<open>Lines\<close>

datatype scalar = Num nat | Txt string

datatype toml_line =
    Comment string
  | Blank
  | Header string
  | Entry string nat scalar

fun scalar_text :: "scalar \<Rightarrow> string" where
  "scalar_text (Num n) = nat_str n"
| "scalar_text (Txt s) = CHR 0x22 # s @ [CHR 0x22]"

fun line_text :: "toml_line \<Rightarrow> string" where
  "line_text (Comment s) = CHR ''#'' # s"
| "line_text Blank = []"
| "line_text (Header n) = ''[['' @ n @ '']]''"
| "line_text (Entry k pad v) = k @ replicate pad CHR '' '' @ ''= '' @ scalar_text v"

definition lines_text :: "toml_line list \<Rightarrow> string" where
  "lines_text ls = concat (map (\<lambda>l. line_text l @ newline) ls)"

lemma lines_text_simps [simp]:
  "lines_text [] = []" "lines_text (l # ls) = line_text l @ newline @ lines_text ls"
  "lines_text (ls @ ls') = lines_text ls @ lines_text ls'"
  by (simp_all add: lines_text_def)

text \<open>The entries before the first header, and those below each header.\<close>

fun group :: "toml_line list \<Rightarrow> (string \<times> scalar) list \<times> (string \<times> (string \<times> scalar) list) list" where
  "group [] = ([], [])"
| "group (Comment s # ls) = group ls"
| "group (Blank # ls) = group ls"
| "group (Header n # ls) = ([], (n, fst (group ls)) # snd (group ls))"
| "group (Entry k pad v # ls) = ((k, v) # fst (group ls), snd (group ls))"

definition printable :: "char \<Rightarrow> bool" where
  "printable c = (32 \<le> (of_char c :: nat) \<and> (of_char c :: nat) \<le> 126)"

definition basic :: "string \<Rightarrow> bool" where
  "basic s = list_all (\<lambda>c. printable c \<and> c \<noteq> CHR 0x22 \<and> c \<noteq> CHR 0x5C) s"

definition bare_key :: "string \<Rightarrow> bool" where
  "bare_key k = (k \<noteq> [] \<and> list_all (\<lambda>c. CHR ''a'' \<le> c \<and> c \<le> CHR ''z'' \<or> is_digit c \<or> c = CHR ''_'') k)"

fun plain_scalar :: "scalar \<Rightarrow> bool" where
  "plain_scalar (Num n) = (n < 2 ^ 63)"
| "plain_scalar (Txt s) = basic s"

fun plain_line :: "toml_line \<Rightarrow> bool" where
  "plain_line (Comment s) = (\<exists>ps. s = join em_dash ps \<and> list_all (list_all printable) ps)"
| "plain_line Blank = True"
| "plain_line (Header n) = bare_key n"
| "plain_line (Entry k pad v) = (bare_key k \<and> plain_scalar v)"

definition plain_doc :: "toml_line list \<Rightarrow> bool" where
  "plain_doc ls = (list_all plain_line ls \<and> distinct (map fst (fst (group ls)))
     \<and> list_all (\<lambda>t. distinct (map fst (snd t)) \<and> fst t \<notin> fst ` set (fst (group ls))) (snd (group ls)))"

section \<open>What a reader owes\<close>

definition scalar_at :: "('n, 'x) toml_scheme \<Rightarrow> 'n \<Rightarrow> scalar \<Rightarrow> bool" where
  "scalar_at api n v = (case v of Num i \<Rightarrow> toml_integer api n = Some (int i) | Txt s \<Rightarrow> toml_string api n = Some s)"

definition table_at :: "('n, 'x) toml_scheme \<Rightarrow> (string \<times> scalar) list \<Rightarrow> 'n \<Rightarrow> bool" where
  "table_at api es n = (toml_is_table api n \<and>
     (\<forall>k. case map_of es k of None \<Rightarrow> toml_get api n k = None
        | Some v \<Rightarrow> \<exists>x. toml_get api n k = Some x \<and> scalar_at api x v))"

definition root_at :: "('n, 'x) toml_scheme \<Rightarrow> toml_line list \<Rightarrow> 'n \<Rightarrow> bool" where
  "root_at api ls n =
     (\<forall>k. case map_of (fst (group ls)) k of
         Some v \<Rightarrow> \<exists>x. toml_get api n k = Some x \<and> scalar_at api x v
       | None \<Rightarrow>
           (case map snd (filter (\<lambda>t. fst t = k) (snd (group ls))) of
              [] \<Rightarrow> toml_get api n k = None
            | tables \<Rightarrow> \<exists>x ns. toml_get api n k = Some x \<and> toml_array api x = Some ns
                \<and> list_all2 (table_at api) tables ns))"

definition reads_toml :: "('n, 'x) toml_scheme \<Rightarrow> bool" where
  "reads_toml api = (\<forall>ls. plain_doc ls \<longrightarrow> (\<exists>n. toml_parse api (lines_text ls) = Inr n \<and> root_at api ls n))"

lemma reads_tomlD:
  assumes "reads_toml api" "plain_doc ls"
  obtains n where "toml_parse api (lines_text ls) = Inr n" "root_at api ls n"
  using assms unfolding reads_toml_def by blast

lemma root_entry:
  "root_at api ls n \<Longrightarrow> map_of (fst (group ls)) k = Some v \<Longrightarrow> \<exists>x. toml_get api n k = Some x \<and> scalar_at api x v"
  unfolding root_at_def by (drule spec [of _ k]) simp

lemma table_entry:
  "table_at api es n \<Longrightarrow> map_of es k = Some v \<Longrightarrow> \<exists>x. toml_get api n k = Some x \<and> scalar_at api x v"
  unfolding table_at_def by (drule conjunct2, drule spec [of _ k]) simp

section \<open>A line reader\<close>

fun split_lines :: "string \<Rightarrow> string list" where
  "split_lines [] = []"
| "split_lines (c # cs) =
     (if c = CHR 0x0A then [] # split_lines cs
      else case split_lines cs of [] \<Rightarrow> [[c]] | l # ls \<Rightarrow> (c # l) # ls)"

definition read_scalar :: "string \<Rightarrow> scalar" where
  "read_scalar s = (if starts_with [CHR 0x22] s then Txt (butlast (tl s)) else Num (decimal s))"

definition read_line :: "string \<Rightarrow> toml_line" where
  "read_line l =
     (if l = [] then Blank
      else if hd l = CHR ''#'' then Comment (tl l)
      else if starts_with ''[['' l then Header (butlast (butlast (drop 2 l)))
      else let k = takeWhile (\<lambda>c. c \<noteq> CHR '' '' \<and> c \<noteq> CHR ''='') l; r = drop (length k) l;
               sp = takeWhile (\<lambda>c. c = CHR '' '') r
           in Entry k (length sp) (read_scalar (drop (length sp + 2) r)))"

definition doc_of :: "toml_line list \<Rightarrow> toml_doc" where
  "doc_of ls =
     (let val = (\<lambda>v. case v of Num i \<Rightarrow> Toml_integer (int i) | Txt s \<Rightarrow> Toml_string s);
          fields = map (\<lambda>(k, v). (k, val v)); ts = snd (group ls)
      in Toml_table (fields (fst (group ls))
           @ map (\<lambda>t. (fst t, Toml_array (map (\<lambda>t. Toml_table (fields (snd t))) (filter (\<lambda>u. fst u = fst t) ts)))) ts))"

definition line_reader :: "toml_doc toml" where
  "line_reader = toml_of (\<lambda>text. Inr (doc_of (map read_line (split_lines text))))"

lemma split_lines_text:
  "\<forall>l \<in> set ls. CHR 0x0A \<notin> set (line_text l) \<Longrightarrow> split_lines (lines_text ls) = map line_text ls"
proof (induction ls)
  case (Cons l ls)
  have "split_lines (s @ CHR 0x0A # t) = s # split_lines t" if "CHR 0x0A \<notin> set s" for s t
    using that by (induction s) (auto split: list.split)
  then show ?case using Cons by (simp add: newline_def)
qed simp

lemma decimal_nat_str: "decimal (nat_str n) = n"
proof (induction n rule: nat_str.induct)
  case (1 n)
  show ?case
  proof (cases "n < 10")
    case False
    then have "decimal (nat_str n) = decimal (nat_str (n div 10)) * 10 + n mod 10"
      by (subst nat_str.simps) simp
    then show ?thesis using 1 False by simp
  next
    case True
    then show ?thesis by (subst nat_str.simps) simp
  qed
qed

lemma bare_key_chars:
  assumes "bare_key k" "c \<in> set k"
  shows "c \<noteq> CHR '' ''" "c \<noteq> CHR ''=''" "c \<noteq> CHR ''#''" "c \<noteq> CHR ''[''" "c \<noteq> CHR 0x0A"
  using assms by (auto simp: bare_key_def list_all_iff less_eq_char_def is_digit_iff)

lemma digits_read: "\<not> starts_with [CHR 0x22] (nat_str n)"
proof
  assume "starts_with [CHR 0x22] (nat_str n)"
  then have "CHR 0x22 \<in> set (nat_str n)" by (rule starts_withE) simp
  then have "is_digit CHR 0x22" by (rule nat_str_digits)
  then show False by (simp add: is_digit_def)
qed

lemma read_scalar_text: "read_scalar (scalar_text v) = v"
proof (cases v)
  case (Num n)
  then show ?thesis by (simp add: read_scalar_def decimal_nat_str digits_read del: decimal.simps)
next
  case (Txt s)
  then show ?thesis by (simp add: read_scalar_def starts_with_def)
qed

lemma read_line_text: "plain_line l \<Longrightarrow> read_line (line_text l) = l"
proof (cases l)
  case (Entry k pad v)
  assume "plain_line l"
  then have k: "bare_key k" using Entry by simp
  then obtain c cs where c: "k = c # cs" by (cases k) (auto simp: bare_key_def)
  have take: "takeWhile (\<lambda>c. c \<noteq> CHR '' '' \<and> c \<noteq> CHR ''='') (k @ replicate pad CHR '' '' @ ''= '' @ t) = k" for t
    using bare_key_chars(1,2) [OF k] by (cases pad) (auto simp: takeWhile_append)
  have sp: "takeWhile (\<lambda>c. c = CHR '' '') (replicate pad CHR '' '' @ ''= '' @ t) = replicate pad CHR '' ''" for t
    by (auto simp: takeWhile_append)
  have "line_text l \<noteq> []" "hd (line_text l) \<noteq> CHR ''#''" "\<not> starts_with ''[['' (line_text l)"
    using bare_key_chars(3,4) [OF k, of c] by (auto simp: Entry c starts_with_def)
  then show ?thesis
    unfolding read_line_def Entry line_text.simps Let_def
    by (simp add: take sp [simplified] take [simplified] read_scalar_text)
qed (auto simp: read_line_def starts_with_def butlast_append)

lemma not_printable_newline: "list_all printable s \<Longrightarrow> CHR 0x0A \<notin> set s"
proof -
  have "\<not> printable CHR 0x0A" by (simp add: printable_def)
  then show "list_all printable s \<Longrightarrow> CHR 0x0A \<notin> set s" unfolding list_all_iff by blast
qed

lemma scalar_no_newline: "plain_scalar v \<Longrightarrow> CHR 0x0A \<notin> set (scalar_text v)"
proof (cases v)
  case (Num n)
  have "\<not> is_digit CHR 0x0A" by (simp add: is_digit_def)
  then have "CHR 0x0A \<notin> set (nat_str n)" using nat_str_digits by blast
  then show ?thesis using Num by simp
next
  case (Txt s)
  assume "plain_scalar v"
  then have "list_all printable s" using Txt by (simp add: basic_def list_all_iff)
  then show ?thesis using Txt not_printable_newline by simp
qed

lemma plain_no_newline: "plain_line l \<Longrightarrow> CHR 0x0A \<notin> set (line_text l)"
proof (cases l)
  case (Entry k pad v)
  assume "plain_line l"
  then have "bare_key k" "plain_scalar v" using Entry by simp_all
  then show ?thesis using bare_key_chars(5) [of k] scalar_no_newline [of v] by (auto simp: Entry)
next
  case (Header n)
  then show "plain_line l \<Longrightarrow> CHR 0x0A \<notin> set (line_text l)" using bare_key_chars(5) [of n] by auto
next
  case (Comment s)
  have "CHR 0x0A \<notin> set (join em_dash ps)" if "list_all (list_all printable) ps" for ps
    using that by (induction em_dash ps rule: join.induct) (auto simp: em_dash_def dest: not_printable_newline)
  then show "plain_line l \<Longrightarrow> CHR 0x0A \<notin> set (line_text l)" using Comment by auto
qed simp

lemma map_of_fields: "map_of (map (\<lambda>(k, v). (k, f v)) es) k = map_option f (map_of es k)"
  by (simp add: map_of_map)

lemma map_of_groups: "map_of (map (\<lambda>t. (fst t, g (fst t))) ts) k = (if k \<in> fst ` set ts then Some (g k) else None)"
  by (induction ts) auto

lemma line_reader_reads: "reads_toml line_reader"
  unfolding reads_toml_def
proof (intro allI impI)
  fix ls assume "plain_doc ls"
  then have plain: "\<forall>l \<in> set ls. plain_line l" by (simp add: plain_doc_def list_all_iff)
  then have "map read_line (split_lines (lines_text ls)) = ls"
    using plain_no_newline by (subst split_lines_text) (simp_all add: read_line_text map_idI)
  then have parse: "toml_parse line_reader (lines_text ls) = Inr (doc_of ls)"
    by (simp add: line_reader_def toml_of_def)
  let ?val = "\<lambda>v. case v of Num i \<Rightarrow> Toml_integer (int i) | Txt s \<Rightarrow> Toml_string s"
  have vals: "scalar_at line_reader (?val v) v" for v
    by (cases v) (simp_all add: scalar_at_def line_reader_def toml_of_def)
  have table: "table_at line_reader es (Toml_table (map (\<lambda>(k, v). (k, ?val v)) es))" for es
    using vals by (auto simp: table_at_def line_reader_def toml_of_def map_of_fields split: option.split)
  have "root_at line_reader ls (doc_of ls)"
    unfolding root_at_def
  proof
    fix k
    let ?ts = "filter (\<lambda>t. fst t = k) (snd (group ls))"
    have get: "toml_get line_reader (doc_of ls) k = (case map_of (fst (group ls)) k of
        Some v \<Rightarrow> Some (?val v)
      | None \<Rightarrow> if k \<in> fst ` set (snd (group ls))
          then Some (Toml_array (map (\<lambda>t. Toml_table (map (\<lambda>(k, v). (k, ?val v)) (snd t))) ?ts)) else None)"
      by (simp add: line_reader_def toml_of_def doc_of_def Let_def map_of_append map_of_fields
          map_of_groups [where g = "\<lambda>n. Toml_array (map (\<lambda>t. Toml_table (map (\<lambda>(k, v). (k, ?val v)) (snd t)))
            (filter (\<lambda>u. fst u = n) (snd (group ls))))"] map_add_def split: option.split)
    have arr: "toml_array line_reader (Toml_array ns) = Some ns" for ns
      by (simp add: line_reader_def toml_of_def)
    have tabs: "list_all2 (table_at line_reader) (map snd ts)
        (map (\<lambda>t. Toml_table (map (\<lambda>(k, v). (k, ?val v)) (snd t))) ts)" for ts :: "(string \<times> (string \<times> scalar) list) list"
      using table by (simp add: list_all2_map1 list_all2_map2 list_all2_same)
    show "case map_of (fst (group ls)) k of
         Some v \<Rightarrow> \<exists>x. toml_get line_reader (doc_of ls) k = Some x \<and> scalar_at line_reader x v
       | None \<Rightarrow> (case map snd ?ts of
              [] \<Rightarrow> toml_get line_reader (doc_of ls) k = None
            | tables \<Rightarrow> \<exists>x ns. toml_get line_reader (doc_of ls) k = Some x \<and> toml_array line_reader x = Some ns
                \<and> list_all2 (table_at line_reader) tables ns)"
    proof (cases "map_of (fst (group ls)) k")
      case (Some v)
      then show ?thesis using get vals by simp
    next
      case None
      show ?thesis
      proof (cases ?ts)
        case Nil
        then have "k \<notin> fst ` set (snd (group ls))" by (auto simp: filter_empty_conv)
        then show ?thesis using get None Nil by simp
      next
        case (Cons t us)
        then have "t \<in> set ?ts" by simp
        then have "k \<in> fst ` set (snd (group ls))" by auto
        then show ?thesis using get None Cons arr tabs [of "t # us"] by simp
      qed
    qed
  qed
  then show "\<exists>n. toml_parse line_reader (lines_text ls) = Inr n \<and> root_at line_reader ls n"
    using parse by blast
qed

end
