(* ===== verification/Update_State.thy ===== *)
theory Update_State
  imports Install_Layout Toml_Text Disk_Cache
begin

text \<open>
  The per-user state file of the updater (src/updater/update_state.cpp): where it lives, how it is
  rendered, loaded and saved.  A save replaces the file or leaves it, and what was saved loads again.
\<close>

section \<open>The state\<close>

definition kUpdateStateSchemaV1 :: u32 where
  "kUpdateStateSchemaV1 = 1"

record update_state =
  us_schema :: u32
  current_installed_version :: string
  max_version_ever_seen :: string
  last_check_at :: string
  last_apply_at :: string

definition fresh_state :: update_state where
  "fresh_state = \<lparr>us_schema = kUpdateStateSchemaV1, current_installed_version = [],
     max_version_ever_seen = [], last_check_at = [], last_apply_at = []\<rparr>"

definition default_update_state_path :: "platform \<Rightarrow> (string \<Rightarrow> string option) \<Rightarrow> string \<Rightarrow> string" where
  "default_update_state_path pf env temp =
     (let fallback = append_path temp ''souxmar-update-state.toml''; h = home_dir pf env
      in case env_value env ''SOUXMAR_UPDATE_STATE'' of
           Some v \<Rightarrow> v
         | None \<Rightarrow> (case pf of
             Windows \<Rightarrow> (case env_value env ''LOCALAPPDATA'' of
                 Some v \<Rightarrow> append_paths v [''souxmar'', ''update-state.toml''] | None \<Rightarrow> fallback)
           | MacOS \<Rightarrow> if h \<noteq> [] then append_paths h
                 [''Library'', ''Application Support'', ''souxmar'', ''update-state.toml''] else fallback
           | Linux \<Rightarrow> (case env_value env ''XDG_STATE_HOME'' of
                 Some v \<Rightarrow> append_paths v [''souxmar'', ''update-state.toml'']
               | None \<Rightarrow> if h \<noteq> [] then append_paths h
                   [''.local'', ''state'', ''souxmar'', ''update-state.toml''] else fallback)))"

definition string_line :: "string \<Rightarrow> string \<Rightarrow> string" where
  "string_line label s = label @ ''= '' @ CHR 0x22 # s @ [CHR 0x22] @ newline"

definition render_update_state :: "update_state \<Rightarrow> string" where
  "render_update_state s =
     ''# souxmar auto-updater per-user state. Schema is locked by'' @ newline @
     ''# ADR-0013; do not hand-edit unless you also bump `schema`.'' @ newline @
     ''schema                    = '' @ nat_str (unat kUpdateStateSchemaV1) @ newline @
     string_line ''current_installed_version '' (current_installed_version s) @
     string_line ''max_version_ever_seen     '' (max_version_ever_seen s) @
     string_line ''last_check_at             '' (last_check_at s) @
     string_line ''last_apply_at             '' (last_apply_at s)"

section \<open>Loading\<close>

definition read_string_field :: "('n, 'x) toml_scheme \<Rightarrow> 'n \<Rightarrow> string \<Rightarrow> string" where
  "read_string_field api tbl key =
     (case toml_get api tbl key of
        None \<Rightarrow> []
      | Some v \<Rightarrow> (case toml_string api v of None \<Rightarrow> [] | Some s \<Rightarrow> s))"

definition parse_file :: "('n, 'x) toml_scheme \<Rightarrow> path \<Rightarrow> (string + 'n) io" where
  "parse_file api p = do {
     content \<leftarrow> read_file p;
     return_io (case content of
        None \<Rightarrow> Inl (toml_unreadable api)
      | Some bs \<Rightarrow> toml_parse api (string_of_bytes bs))
   }"

definition check_schema :: "('n, 'x) toml_scheme \<Rightarrow> string \<Rightarrow> u32 \<Rightarrow> 'n \<Rightarrow> string + unit" where
  "check_schema api kind known root =
     (case toml_get api root ''schema'' of
        None \<Rightarrow> Inl ('': missing required field '' @ quoted ''schema'')
      | Some n \<Rightarrow>
          (case toml_integer api n of
             None \<Rightarrow> Inl ('': '' @ quoted ''schema'' @ '' must be an integer'')
           | Some v \<Rightarrow>
               if v \<noteq> uint known
               then Inl ('': unsupported '' @ kind @ '' schema '' @ int_str v
                 @ '' (this client understands '' @ nat_str (unat known) @ '')'')
               else Inr ()))"

definition read_state :: "('n, 'x) toml_scheme \<Rightarrow> 'n \<Rightarrow> string + update_state" where
  "read_state api root =
     attempt (check_schema api ''state-file'' kUpdateStateSchemaV1 root) (\<lambda>_.
       Inr \<lparr>us_schema = kUpdateStateSchemaV1,
         current_installed_version = read_string_field api root ''current_installed_version'',
         max_version_ever_seen = read_string_field api root ''max_version_ever_seen'',
         last_check_at = read_string_field api root ''last_check_at'',
         last_apply_at = read_string_field api root ''last_apply_at''\<rparr>)"

definition in_file :: "path \<Rightarrow> string + 'a \<Rightarrow> string + 'a" where
  "in_file p r = (case r of Inl e \<Rightarrow> Inl (path_str p @ e) | Inr x \<Rightarrow> Inr x)"

definition load_update_state :: "('n, 'x) toml_scheme \<Rightarrow> path \<Rightarrow> (string + update_state) io" where
  "load_update_state api p = do {
     there \<leftarrow> file_exists p;
     if \<not> there then return_io (Inr fresh_state)
     else do {
       root \<leftarrow> parse_file api p;
       return_io (case root of
          Inl e \<Rightarrow> Inl (path_str p @ '': '' @ e)
        | Inr root \<Rightarrow> in_file p (read_state api root))
     }
   }"

section \<open>Saving\<close>

definition prepare_parent :: "path \<Rightarrow> bool io" where
  "prepare_parent p = do {
     made \<leftarrow> create_directories (butlast p);
     there \<leftarrow> is_directory (butlast p);
     return_io (made \<or> there)
   }"

definition save_text :: "path \<Rightarrow> string \<Rightarrow> bool io" where
  "save_text p text = do {
     ok \<leftarrow> prepare_parent p;
     if \<not> ok then return_io False else write_file_atomic p (bytes_of text)
   }"

definition save_update_state :: "path \<Rightarrow> update_state \<Rightarrow> bool io" where
  "save_update_state p s = save_text p (render_update_state s)"

section \<open>What a save does\<close>

definition saved :: "path \<Rightarrow> string \<Rightarrow> fs \<Rightarrow> bool \<Rightarrow> fs \<Rightarrow> bool" where
  "saved p text s b s' = (flips p (File (bytes_of text)) s b s' \<and> tree_ok (tree s') \<and>
     (\<forall>q. q = p \<or> q \<in> range (tmp_sibling p) \<or> look (tree s') q = look (tree s) q
        \<or> look (tree s) q = None \<and> look (tree s') q = Some Dir \<and> prefix q p))"

lemma grew_before:
  assumes p: "p \<noteq> []" and g: "grew (butlast p) s s1"
  shows "steps (\<lambda>t. look t p = look (tree s) p) s s1"
proof -
  have "\<not> prefix p (butlast p)" using p prefix_length_le [of p "butlast p"] by (cases p rule: rev_cases) auto
  then show ?thesis by (intro steps_mono [OF g [unfolded grew_def]]) (auto simp: grown_def)
qed

lemma wp_prepare_parent:
  assumes "tree_ok (tree s)" "\<And>b s'. grew (butlast p) s s' \<Longrightarrow> Q b s'"
  shows "wp (prepare_parent p) Q s"
proof -
  have "look (tree s) [] = Some Dir" using assms(1) by (simp add: tree_ok_def)
  then show ?thesis unfolding prepare_parent_def wp_bind
    by (intro wp_create_directories) (simp_all add: is_directory_def assms(2))
qed

lemma wp_save_text:
  assumes ok: "tree_ok (tree s)" and p: "p \<noteq> []" "look (tree s) p \<noteq> Some Dir"
    and calm_disk: "faults s PClose = []" "faults s PRename = []"
    and Q: "\<And>b s'. saved p text s b s' \<Longrightarrow> Q b s'"
  shows "wp (save_text p text) Q s"
  unfolding save_text_def wp_bind
proof (rule wp_prepare_parent [OF ok])
  fix b s1
  assume g: "grew (butlast p) s s1"
  note s1 = grew_before [OF p(1) g]
  have g1: "grown (butlast p) (tree s) (tree s1)" using g stepsD(2) by (simp add: grew_def)
  then have ok1: "tree_ok (tree s1)" and at1: "look (tree s1) q = look (tree s) q
      \<or> look (tree s) q = None \<and> look (tree s1) q = Some Dir \<and> prefix q p" for q
    using ok by (auto simp: grown_def intro: prefix_order.order_trans [OF _ prefixeq_butlast])
  have same: "look (tree s1) p = look (tree s) p" using stepsD(2) [OF s1] .
  have stay: "Q False s1" using s1 same ok1 at1
    by (intro Q) (auto simp: saved_def flips_def intro: steps_mono)
  have "wp (write_file_atomic p (bytes_of text)) Q s1"
  proof (rule copying.wp_write [OF ok1 p(1)])
    fix c s2
    assume r: "replaced p (bytes_of text) s1 c s2"
    have "faults s1 PClose = []" "faults s1 PRename = []"
      using stepsD(1) [OF s1] calm_disk by (simp_all add: calm_def)
    then have r2: "steps (touches p {File (bytes_of text)} (tree s1)) s1 s2"
        "look (tree s2) p = (if c then Some (File (bytes_of text)) else look (tree s1) p)"
      using r p(2) same by (simp_all add: replaced_def)
    have "steps (\<lambda>t. look t p = look (tree s) p \<or> look t p = Some (File (bytes_of text))) s s2"
      by (rule steps_trans [OF steps_mono [OF s1] steps_mono [OF r2(1)]]) (auto simp: touches_def same)
    then have "flips p (File (bytes_of text)) s c s2" using r2(2) same by (simp add: flips_def)
    moreover have "tree_ok (tree s2)" "q = p \<or> q \<in> range (tmp_sibling p) \<or> look (tree s2) q = look (tree s1) q" for q
      using stepsD(2) [OF r2(1)] ok1 by (auto simp: touches_def)
    ultimately show "Q c s2" using at1 by (intro Q) (unfold saved_def, metis)
  qed
  then show "wp (if \<not> b then return_io False else write_file_atomic p (bytes_of text)) Q s1"
    using stay by simp
qed

lemma run_save_text:
  assumes "tree_ok (tree s)" "p \<noteq> []" "look (tree s) p \<noteq> Some Dir" "faults s PClose = []" "faults s PRename = []"
    and "run_state (save_text p text) s = (b, s')"
  shows "saved p text s b s'"
  using wp_run [OF wp_save_text [OF assms(1-5), where Q = "saved p text s"] assms(6)] .

section \<open>What was saved loads again\<close>

definition state_lines :: "update_state \<Rightarrow> toml_line list" where
  "state_lines s =
     [Comment '' souxmar auto-updater per-user state. Schema is locked by'',
      Comment '' ADR-0013; do not hand-edit unless you also bump `schema`.'',
      Entry ''schema'' 20 (Num 1),
      Entry ''current_installed_version'' 1 (Txt (current_installed_version s)),
      Entry ''max_version_ever_seen'' 5 (Txt (max_version_ever_seen s)),
      Entry ''last_check_at'' 13 (Txt (last_check_at s)),
      Entry ''last_apply_at'' 13 (Txt (last_apply_at s))]"

lemma render_state_lines: "render_update_state s = lines_text (state_lines s)"
  by (simp add: render_update_state_def state_lines_def string_line_def kUpdateStateSchemaV1_def
      numeral_eq_Suc nat_str.simps)

text \<open>The texts of a state that needs no escapes, which the renderer does not write.\<close>

definition plain_state :: "update_state \<Rightarrow> bool" where
  "plain_state s = (us_schema s = kUpdateStateSchemaV1 \<and>
     list_all basic [current_installed_version s, max_version_ever_seen s, last_check_at s, last_apply_at s])"

lemma plain_state_lines: "plain_state s \<Longrightarrow> plain_doc (state_lines s)"
proof -
  have c: "\<exists>ps. s = join em_dash ps \<and> list_all (list_all printable) ps" if "list_all printable s" for s
    using that by (intro exI [of _ "[s]"]) simp
  show "plain_state s \<Longrightarrow> plain_doc (state_lines s)"
    by (auto simp: plain_state_def plain_doc_def state_lines_def bare_key_def less_eq_char_def is_digit_iff
        intro!: c) (simp_all add: printable_def)
qed

lemma wp_read_exact:
  "faults s PRead = [] \<Longrightarrow>
   (\<And>s'. idle s s' \<Longrightarrow> Q (case look (tree s) p of Some (File bs) \<Rightarrow> Some bs | _ \<Rightarrow> None) s') \<Longrightarrow>
   wp (read_file p) Q s"
  by (rule wp_read_file) (auto simp: is_file_def split: option.splits node.splits)

text \<open>The outcome of loading depends only on the file.\<close>

definition loaded :: "('n, 'x) toml_scheme \<Rightarrow> path \<Rightarrow> (string \<Rightarrow> 'n \<Rightarrow> string + 'a) \<Rightarrow> 'a \<Rightarrow> node option \<Rightarrow> string + 'a" where
  "loaded api p rd none n =
     (case n of
        None \<Rightarrow> Inr none
      | Some c \<Rightarrow>
          (case (case c of File bs \<Rightarrow> toml_parse api (string_of_bytes bs) | Dir \<Rightarrow> Inl (toml_unreadable api)) of
             Inl e \<Rightarrow> Inl (path_str p @ '': '' @ e)
           | Inr root \<Rightarrow> rd (path_str p) root))"

lemma wp_load_state:
  assumes "faults s PRead = []"
    and "\<And>s'. idle s s' \<Longrightarrow> Q (loaded api p (\<lambda>_ root. in_file p (read_state api root)) fresh_state (look (tree s) p)) s'"
  shows "wp (load_update_state api p) Q s"
  unfolding load_update_state_def parse_file_def file_exists_def wp_bind wp_query
  using assms
  by (cases "look (tree s) p") (auto simp: loaded_def intro!: wp_read_exact split: node.splits)

lemma run_load_state:
  "faults s PRead = [] \<Longrightarrow> fst (run_state (load_update_state api p) s)
     = loaded api p (\<lambda>_ root. in_file p (read_state api root)) fresh_state (look (tree s) p)"
  by (cases "run_state (load_update_state api p) s")
    (use wp_run [OF wp_load_state, of s "\<lambda>r _. r = loaded api p (\<lambda>_ root. in_file p (read_state api root))
        fresh_state (look (tree s) p)" api p] in simp)

lemma check_schema_ok:
  assumes "root_at api ls n" "map_of (fst (group ls)) ''schema'' = Some (Num (unat known))"
  shows "check_schema api kind known n = Inr ()"
  using root_entry [OF assms] by (auto simp: check_schema_def scalar_at_def)

lemma read_field_root:
  assumes "root_at api ls n" "map_of (fst (group ls)) k = Some (Txt v)"
  shows "read_string_field api n k = v"
  using root_entry [OF assms] by (auto simp: read_string_field_def scalar_at_def)

lemma read_field_table:
  assumes "table_at api es n" "map_of es k = Some (Txt v)"
  shows "read_string_field api n k = v"
  using table_entry [OF assms] by (auto simp: read_string_field_def scalar_at_def)

lemma loads_rendered:
  assumes "reads_toml api" "plain_state st"
  shows "loaded api p (\<lambda>_ root. in_file p (read_state api root)) fresh_state (Some (File (bytes_of (render_update_state st))))
     = Inr st"
proof -
  obtain n where n: "toml_parse api (lines_text (state_lines st)) = Inr n" "root_at api (state_lines st) n"
    using reads_tomlD [OF assms(1) plain_state_lines [OF assms(2)]] .
  have "check_schema api ''state-file'' kUpdateStateSchemaV1 n = Inr ()"
    by (rule check_schema_ok [OF n(2)]) (simp add: state_lines_def kUpdateStateSchemaV1_def)
  moreover have "read_string_field api n ''current_installed_version'' = current_installed_version st"
    "read_string_field api n ''max_version_ever_seen'' = max_version_ever_seen st"
    "read_string_field api n ''last_check_at'' = last_check_at st"
    "read_string_field api n ''last_apply_at'' = last_apply_at st"
    by (rule read_field_root [OF n(2)], simp add: state_lines_def)+
  moreover have "us_schema st = kUpdateStateSchemaV1" using assms(2) by (simp add: plain_state_def)
  ultimately show ?thesis
    by (simp add: loaded_def render_state_lines n(1) read_state_def in_file_def)
qed


definition sample_state :: update_state where
  "sample_state = \<lparr>us_schema = kUpdateStateSchemaV1, current_installed_version = ''1.2.3'',
     max_version_ever_seen = ''1.10.0'', last_check_at = ''2026-01-01T00:00:00Z'', last_apply_at = []\<rparr>"

lemma plain_sample_state: "plain_state sample_state"
  by (simp add: plain_state_def sample_state_def basic_def printable_def)


end
