(* ===== verification/Rollback_Log.thy ===== *)
theory Rollback_Log
  imports Update_State
begin

text \<open>
  The event log of the updater (src/updater/rollback_log.cpp, include/souxmar/update/rollback_log.h):
  rendering, loading, appending, and the search for the version to go back to.  An append keeps every
  earlier event, and a log that does not load is never overwritten.
\<close>

section \<open>Events\<close>

definition kRollbackLogSchemaV1 :: u32 where
  "kRollbackLogSchemaV1 = 1"

datatype event_type = Apply_event | Rollback_event

record rollback_event =
  timestamp :: string
  ev_type :: event_type
  from_version :: string
  to_version :: string
  artifact_sha256 :: string
  ev_key_id :: string

fun type_to_string :: "event_type \<Rightarrow> string" where
  "type_to_string Apply_event = ''apply''"
| "type_to_string Rollback_event = ''rollback''"

definition render_event :: "rollback_event \<Rightarrow> string" where
  "render_event e =
     ''[[event]]'' @ newline @
     string_line ''timestamp       '' (timestamp e) @
     string_line ''type            '' (type_to_string (ev_type e)) @
     string_line ''from_version    '' (from_version e) @
     string_line ''to_version      '' (to_version e) @
     string_line ''artifact_sha256 '' (artifact_sha256 e) @
     string_line ''public_key_id   '' (ev_key_id e) @ newline"

definition render_rollback_log :: "rollback_event list \<Rightarrow> string" where
  "render_rollback_log events =
     ''# souxmar auto-updater rollback / apply event log. Schema is'' @ newline @
     ''# locked by ADR-0013; append-only'' @ em_dash @ ''do not hand-edit unless'' @ newline @
     ''# you also bump `schema`.'' @ newline @
     ''schema = '' @ nat_str (unat kRollbackLogSchemaV1) @ newline @ newline @
     concat (map render_event events)"

section \<open>Loading\<close>

definition parse_event :: "('n, 'x) toml_scheme \<Rightarrow> nat \<times> 'n \<Rightarrow> string + rollback_event" where
  "parse_event api = (\<lambda>(idx, node).
     attempt (guard_that (toml_is_table api node)
         ('': [[event]] entry #'' @ nat_str idx @ '' is not a table'')) (\<lambda>_.
       let type_str = read_string_field api node ''type'';
           e = (\<lambda>t. \<lparr>timestamp = read_string_field api node ''timestamp'', ev_type = t,
                from_version = read_string_field api node ''from_version'',
                to_version = read_string_field api node ''to_version'',
                artifact_sha256 = read_string_field api node ''artifact_sha256'',
                ev_key_id = read_string_field api node ''public_key_id''\<rparr>)
       in if type_str = ''apply'' then Inr (e Apply_event)
          else if type_str = ''rollback'' then Inr (e Rollback_event)
          else Inl ('': [[event]] #'' @ nat_str idx @ '' has unknown type '' @ quoted type_str)))"

definition read_events :: "('n, 'x) toml_scheme \<Rightarrow> 'n \<Rightarrow> string + rollback_event list" where
  "read_events api root =
     attempt (check_schema api ''rollback-log'' kRollbackLogSchemaV1 root) (\<lambda>_.
       case get_array api root ''event'' of
         None \<Rightarrow> Inr []
       | Some arr \<Rightarrow> attempt_map (parse_event api) (enumerate 0 arr))"

definition load_rollback_log :: "('n, 'x) toml_scheme \<Rightarrow> path \<Rightarrow> (string + rollback_event list) io" where
  "load_rollback_log api p = do {
     there \<leftarrow> file_exists p;
     if \<not> there then return_io (Inr [])
     else do {
       root \<leftarrow> parse_file api p;
       return_io (case root of
          Inl e \<Rightarrow> Inl (path_str p @ '': '' @ e)
        | Inr root \<Rightarrow> in_file p (read_events api root))
     }
   }"

section \<open>Appending and searching\<close>

definition append_rollback_event :: "('n, 'x) toml_scheme \<Rightarrow> path \<Rightarrow> rollback_event \<Rightarrow> bool io" where
  "append_rollback_event api p e = do {
     loaded \<leftarrow> load_rollback_log api p;
     case loaded of
       Inl _ \<Rightarrow> return_io False
     | Inr events \<Rightarrow> save_text p (render_rollback_log (events @ [e]))
   }"

definition find_rollback_target :: "rollback_event list \<Rightarrow> string \<Rightarrow> string" where
  "find_rollback_target events cur =
     (if cur = [] then []
      else case find (\<lambda>e. ev_type e = Apply_event \<and> to_version e = cur \<and> from_version e \<noteq> []) (rev events) of
             None \<Rightarrow> []
           | Some e \<Rightarrow> from_version e)"

section \<open>Rendered logs load again\<close>

definition event_fields :: "rollback_event \<Rightarrow> (string \<times> scalar) list" where
  "event_fields e =
     [(''timestamp'', Txt (timestamp e)), (''type'', Txt (type_to_string (ev_type e))),
      (''from_version'', Txt (from_version e)), (''to_version'', Txt (to_version e)),
      (''artifact_sha256'', Txt (artifact_sha256 e)), (''public_key_id'', Txt (ev_key_id e))]"

definition event_lines :: "rollback_event \<Rightarrow> toml_line list" where
  "event_lines e = Header ''event'' # map (\<lambda>(k, v). Entry k (16 - length k) v) (event_fields e) @ [Blank]"

definition log_lines :: "rollback_event list \<Rightarrow> toml_line list" where
  "log_lines events =
     [Comment '' souxmar auto-updater rollback / apply event log. Schema is'',
      Comment ('' locked by ADR-0013; append-only'' @ em_dash @ ''do not hand-edit unless''),
      Comment '' you also bump `schema`.'', Entry ''schema'' 1 (Num 1), Blank]
     @ concat (map event_lines events)"

lemma render_log_lines: "render_rollback_log events = lines_text (log_lines events)"
proof -
  have "render_event e = lines_text (event_lines e)" for e
    by (simp add: render_event_def event_lines_def event_fields_def string_line_def numeral_eq_Suc)
  then have "concat (map render_event events) = lines_text (concat (map event_lines events))"
    by (induction events) simp_all
  then show ?thesis
    by (simp add: render_rollback_log_def log_lines_def kRollbackLogSchemaV1_def nat_str.simps digit_char_def)
qed

definition plain_event :: "rollback_event \<Rightarrow> bool" where
  "plain_event e = list_all basic
     [timestamp e, from_version e, to_version e, artifact_sha256 e, ev_key_id e]"

lemma group_events:
  "group (concat (map event_lines events)) = ([], map (\<lambda>e. (''event'', event_fields e)) events)"
proof (induction events)
  case (Cons e events)
  then show ?case by (simp add: event_lines_def event_fields_def)
qed simp

lemma group_log: "group (log_lines events) = ([(''schema'', Num 1)], map (\<lambda>e. (''event'', event_fields e)) events)"
  by (simp add: log_lines_def group_events)

lemma plain_event_lines:
  assumes "plain_event e" "l \<in> set (event_lines e)"
  shows "plain_line l"
proof -
  have b: "bare_key k" if "k \<in> fst ` set (event_fields e)" for k
    using that by (auto simp: event_fields_def bare_key_def less_eq_char_def is_digit_iff)
  have v: "plain_scalar v" if "v \<in> snd ` set (event_fields e)" for v
    using that assms(1) by (cases "ev_type e") (auto simp: event_fields_def plain_event_def basic_def printable_def)
  have "plain_line l" if "l = (\<lambda>(k, v). Entry k (16 - length k) v) x" "x \<in> set (event_fields e)" for x
    using that b v by (auto simp: image_iff split: prod.splits) force+
  moreover have "bare_key ''event''" by (simp add: bare_key_def less_eq_char_def)
  ultimately show ?thesis using assms(2) by (auto simp: event_lines_def)
qed

lemma plain_log_lines:
  assumes "list_all plain_event events"
  shows "plain_doc (log_lines events)"
proof -
  have "\<exists>ps. s = join em_dash ps \<and> list_all (list_all printable) ps"
    if "s \<in> {'' souxmar auto-updater rollback / apply event log. Schema is'', '' you also bump `schema`.''}" for s
    using that by (intro exI [of _ "[s]"]) (auto simp: printable_def)
  moreover have "\<exists>ps. '' locked by ADR-0013; append-only'' @ em_dash @ ''do not hand-edit unless''
      = join em_dash ps \<and> list_all (list_all printable) ps"
    by (rule exI [of _ "['' locked by ADR-0013; append-only'', ''do not hand-edit unless'']"]) (simp add: printable_def)
  moreover have "bare_key ''schema''" by (simp add: bare_key_def less_eq_char_def)
  moreover have "plain_line l" if "e \<in> set events" "l \<in> set (event_lines e)" for e l
    using plain_event_lines that assms by (auto simp: list_all_iff)
  ultimately have "list_all plain_line (log_lines events)"
    by (simp add: log_lines_def list_all_iff)
  moreover have "distinct (map fst (event_fields e))" for e by (simp add: event_fields_def)
  ultimately show ?thesis by (auto simp: plain_doc_def group_log list_all_iff)
qed

lemma parse_event_table:
  assumes "table_at api (event_fields e) n"
  shows "parse_event api (i, n) = Inr e"
proof -
  have "read_string_field api n ''timestamp'' = timestamp e" "read_string_field api n ''type'' = type_to_string (ev_type e)"
    "read_string_field api n ''from_version'' = from_version e" "read_string_field api n ''to_version'' = to_version e"
    "read_string_field api n ''artifact_sha256'' = artifact_sha256 e" "read_string_field api n ''public_key_id'' = ev_key_id e"
    by (rule read_field_table [OF assms], simp add: event_fields_def)+
  moreover have "toml_is_table api n" using assms by (simp add: table_at_def)
  ultimately show ?thesis by (cases "ev_type e") (simp_all add: parse_event_def Let_def)
qed

lemma read_events_root:
  assumes "root_at api (log_lines events) n"
  shows "read_events api n = Inr events"
proof -
  have "check_schema api ''rollback-log'' kRollbackLogSchemaV1 n = Inr ()"
    by (rule check_schema_ok [OF assms]) (simp add: group_log kRollbackLogSchemaV1_def)
  moreover have "(case get_array api n ''event'' of None \<Rightarrow> Inr []
      | Some arr \<Rightarrow> attempt_map (parse_event api) (enumerate 0 arr)) = Inr events"
  proof (cases events)
    case Nil
    then have "toml_get api n ''event'' = None"
      using spec [OF assms [unfolded root_at_def], of "''event''"] by (simp add: group_log)
    then show ?thesis using Nil by (simp add: get_array_def)
  next
    case (Cons e es)
    have "filter (\<lambda>t. fst t = ''event'') (map (\<lambda>e. (''event'', event_fields e)) events)
        = map (\<lambda>e. (''event'', event_fields e)) events"
      by (simp add: filter_map o_def)
    with spec [OF assms [unfolded root_at_def], of "''event''"]
    obtain x ns where x: "toml_get api n ''event'' = Some x" "toml_array api x = Some ns"
        "list_all2 (table_at api) (map event_fields events) ns"
      by (auto simp: group_log o_def Cons)
    have "list_all2 (\<lambda>a b. parse_event api a = Inr b) (enumerate k ns) es'"
      if "list_all2 (table_at api) (map event_fields es') ns" for k es' ns
      using that by (induction es' arbitrary: k ns) (auto simp: list_all2_Cons1 parse_event_table)
    then show ?thesis using x by (simp add: get_array_def attempt_map_Inr)
  qed
  ultimately show ?thesis by (simp add: read_events_def)
qed

lemma loads_rendered_log:
  assumes "reads_toml api" "list_all plain_event events"
  shows "loaded api p (\<lambda>_ root. in_file p (read_events api root)) [] (Some (File (bytes_of (render_rollback_log events))))
     = Inr events"
proof -
  obtain n where "toml_parse api (lines_text (log_lines events)) = Inr n" "root_at api (log_lines events) n"
    using reads_tomlD [OF assms(1) plain_log_lines [OF assms(2)]] .
  then show ?thesis by (simp add: loaded_def render_log_lines read_events_root in_file_def)
qed

abbreviation log_in :: "('n, 'x) toml_scheme \<Rightarrow> path \<Rightarrow> tree \<Rightarrow> string + rollback_event list" where
  "log_in api p m \<equiv> loaded api p (\<lambda>_ root. in_file p (read_events api root)) [] (look m p)"

lemma wp_load_log:
  assumes "faults s PRead = []" "\<And>s'. idle s s' \<Longrightarrow> Q (log_in api p (tree s)) s'"
  shows "wp (load_rollback_log api p) Q s"
  unfolding load_rollback_log_def parse_file_def file_exists_def wp_bind wp_query
  using assms
  by (cases "look (tree s) p") (auto simp: loaded_def intro!: wp_read_exact split: node.splits)

lemma run_load_log:
  "faults s PRead = [] \<Longrightarrow> fst (run_state (load_rollback_log api p) s) = log_in api p (tree s)"
  by (cases "run_state (load_rollback_log api p) s")
    (use wp_run [OF wp_load_log, of s "\<lambda>r _. r = log_in api p (tree s)" api p] in simp)

section \<open>Appending\<close>

text \<open>An append writes nothing, or saves the events of the old log and the new one.\<close>

definition appended :: "('n, 'x) toml_scheme \<Rightarrow> path \<Rightarrow> rollback_event \<Rightarrow> fs \<Rightarrow> bool \<Rightarrow> fs \<Rightarrow> bool" where
  "appended api p e s b s' =
     (case log_in api p (tree s) of
        Inl _ \<Rightarrow> \<not> b \<and> idle s s'
      | Inr events \<Rightarrow> saved p (render_rollback_log (events @ [e])) s b s')"

lemma saved_idle: "idle s s1 \<Longrightarrow> saved p text s1 b s' \<Longrightarrow> saved p text s b s'"
  unfolding saved_def flips_def by (auto simp: idle_def elim: steps_idle_left [unfolded idle_def, rotated])

lemma wp_append:
  assumes "tree_ok (tree s)" "p \<noteq> []" "look (tree s) p \<noteq> Some Dir"
    and "faults s PClose = []" "faults s PRename = []" "faults s PRead = []"
    and Q: "\<And>b s'. appended api p e s b s' \<Longrightarrow> Q b s'"
  shows "wp (append_rollback_event api p e) Q s"
  unfolding append_rollback_event_def wp_bind
proof (rule wp_load_log [OF assms(6)])
  fix s1 assume i: "idle s s1"
  show "wp (case log_in api p (tree s) of Inl _ \<Rightarrow> return_io False
      | Inr events \<Rightarrow> save_text p (render_rollback_log (events @ [e]))) Q s1"
  proof (cases "log_in api p (tree s)")
    case (Inl m)
    then show ?thesis using i by (simp add: appended_def Q)
  next
    case (Inr events)
    have "wp (save_text p (render_rollback_log (events @ [e]))) Q s1"
      by (rule wp_save_text)
        (use assms i Inr in \<open>auto simp: idle_def calm_def appended_def intro!: Q saved_idle [OF i]\<close>)
    then show ?thesis using Inr by simp
  qed
qed

lemma run_append:
  assumes "tree_ok (tree s)" "p \<noteq> []" "look (tree s) p \<noteq> Some Dir"
    and "faults s PClose = []" "faults s PRename = []" "faults s PRead = []"
    and "run_state (append_rollback_event api p e) s = (b, s')"
  shows "appended api p e s b s'"
  using wp_run [OF wp_append [OF assms(1-6), where Q = "appended api p e s"] assms(7)] .


definition sample_event :: rollback_event where
  "sample_event = \<lparr>timestamp = ''2026-01-01T00:00:00Z'', ev_type = Apply_event, from_version = ''1.0.0'',
     to_version = ''1.1.0'', artifact_sha256 = ''ab'', ev_key_id = ''k''\<rparr>"


text \<open>The rollback target is the origin of the latest recorded update to the current version.\<close>

lemma find_rollback_target_Some:
  assumes "find_rollback_target events cur = v" "v \<noteq> []"
  shows "\<exists>es e es'. events = es @ e # es' \<and> ev_type e = Apply_event \<and> to_version e = cur \<and> from_version e = v
     \<and> (\<forall>x \<in> set es'. \<not> (ev_type x = Apply_event \<and> to_version x = cur \<and> from_version x \<noteq> []))"
proof -
  let ?P = "\<lambda>e. ev_type e = Apply_event \<and> to_version e = cur \<and> from_version e \<noteq> []"
  obtain e where e: "find ?P (rev events) = Some e" "from_version e = v"
    using assms by (auto simp: find_rollback_target_def split: if_splits option.splits)
  then obtain i where i: "i < length events" "?P (rev events ! i)" "e = rev events ! i"
      "\<forall>j < i. \<not> ?P (rev events ! j)"
    unfolding find_Some_iff by auto
  have "rev events = take i (rev events) @ e # drop (Suc i) (rev events)"
    using i by (simp add: id_take_nth_drop)
  then have "events = rev (drop (Suc i) (rev events)) @ e # rev (take i (rev events))"
    by (metis rev_append rev.simps(2) rev_rev_ident append_assoc append_Cons append_Nil)
  moreover have "\<forall>x \<in> set (rev (take i (rev events))). \<not> ?P x"
    using i(4) by (auto simp: in_set_conv_nth)
  ultimately show ?thesis using e(2) i(2,3) by blast
qed

end
