(* ===== verification/Apply.thy ===== *)
theory Apply
  imports Gate Verifier Rollback_Log
begin

text \<open>
  Applying an update and going back (src/updater/apply.cpp, include/souxmar/update/apply.h): the gate,
  the artifact checks, staging, the switch, the event log, the user state and garbage collection in
  the order of the code, on the file system with faults.
\<close>

section \<open>Contexts and results\<close>

datatype apply_outcome =
    Applied
  | Refused_by_gate
  | Artifact_hash_mismatch
  | Artifact_size_mismatch
  | Stage_failed
  | Switch_failed
  | Applied_but_log_write_failed

fun apply_outcome_str :: "apply_outcome \<Rightarrow> string" where
  "apply_outcome_str Applied = ''applied''"
| "apply_outcome_str Refused_by_gate = ''refused-by-gate''"
| "apply_outcome_str Artifact_hash_mismatch = ''artifact-hash-mismatch''"
| "apply_outcome_str Artifact_size_mismatch = ''artifact-size-mismatch''"
| "apply_outcome_str Stage_failed = ''stage-failed''"
| "apply_outcome_str Switch_failed = ''switch-failed''"
| "apply_outcome_str Applied_but_log_write_failed = ''applied-but-log-write-failed''"

record apply_result =
  outcome :: apply_outcome
  refusal :: refusal_reason
  applied_version :: string
  detail :: string

definition failed_apply :: "apply_outcome \<Rightarrow> string \<Rightarrow> apply_result" where
  "failed_apply oc d = \<lparr>outcome = oc, refusal = Malformed_offered, applied_version = [], detail = d\<rparr>"

text \<open>A clock is what its calls return: the one in the gate and the one for the event.\<close>

record time_source =
  gate_now :: time_point
  event_now :: time_point

record apply_context =
  cx_manifest :: "manifest option"
  artifact_bytes :: "byte list"
  cx_layout :: "path option"
  cx_state :: "update_state option"
  cx_clock :: "time_source option"
  cx_platform :: host_platform
  cx_current_version :: string

datatype rollback_outcome =
    Rolled_back
  | No_current_install
  | No_rollback_target
  | Target_payload_missing
  | Rollback_switch_failed
  | Rolled_back_but_log_write_failed

fun rollback_outcome_str :: "rollback_outcome \<Rightarrow> string" where
  "rollback_outcome_str Rolled_back = ''rolled-back''"
| "rollback_outcome_str No_current_install = ''no-current-install''"
| "rollback_outcome_str No_rollback_target = ''no-rollback-target''"
| "rollback_outcome_str Target_payload_missing = ''target-payload-missing''"
| "rollback_outcome_str Rollback_switch_failed = ''switch-failed''"
| "rollback_outcome_str Rolled_back_but_log_write_failed = ''rolled-back-but-log-write-failed''"

record rollback_result =
  rb_outcome :: rollback_outcome
  rb_from :: string
  rb_to :: string
  rb_detail :: string

record rollback_context =
  rx_layout :: "path option"
  rx_state :: "update_state option"
  rx_clock :: "time_source option"

section \<open>Applying\<close>

definition now_string :: "int \<Rightarrow> time_source \<Rightarrow> string" where
  "now_string tick clk = format_rfc3339_utc tick (event_now clk)"

definition bump_max :: "string \<Rightarrow> string \<Rightarrow> string" where
  "bump_max v seen =
     (if seen = [] then v
      else case compare_versions v seen of
             Some c \<Rightarrow> if 0 < c then v else seen
           | None \<Rightarrow> seen)"

definition note_applied :: "string \<Rightarrow> string \<Rightarrow> update_state \<Rightarrow> update_state" where
  "note_applied v moment st = st\<lparr>current_installed_version := v,
     max_version_ever_seen := bump_max v (max_version_ever_seen st), last_apply_at := moment\<rparr>"

definition switch_and_log ::
  "('n, 'x) toml_scheme \<Rightarrow> int \<Rightarrow> manifest \<Rightarrow> path \<Rightarrow> update_state \<Rightarrow> time_source \<Rightarrow> string \<Rightarrow> artifact \<Rightarrow>
     (apply_result \<times> update_state) io" where
  "switch_and_log api tick m root st clk v a = do {
     from \<leftarrow> read_current_version root;
     switched \<leftarrow> atomic_switch_to root from v;
     if \<not> switched then return_io (failed_apply Switch_failed (''atomic_switch_to('' @ v @ '') failed''), st)
     else do {
       let moment = now_string tick clk;
       log_ok \<leftarrow> append_rollback_event api (rollback_log_path root)
         \<lparr>timestamp = moment, ev_type = Apply_event, from_version = from, to_version = v,
            artifact_sha256 = a_sha256 a, ev_key_id = public_key_id (mf_signing m)\<rparr>;
       _ \<leftarrow> gc_unreferenced root [];
       return_io (\<lparr>outcome = (if log_ok then Applied else Applied_but_log_write_failed),
           refusal = Malformed_offered, applied_version = v,
           detail = (if log_ok then ''applied'' else ''applied; rollback-log append failed (audit gap)'')\<rparr>,
         note_applied v moment st)
     }
   }"

definition install_artifact ::
  "sodium \<Rightarrow> ('n, 'x) toml_scheme \<Rightarrow> int \<Rightarrow> manifest \<Rightarrow> byte list \<Rightarrow> path \<Rightarrow> update_state \<Rightarrow> time_source \<Rightarrow>
     string \<Rightarrow> artifact \<Rightarrow> (apply_result \<times> update_state) io" where
  "install_artifact lib api tick m bytes root st clk v a =
     (let actual_sha = sha256_hex lib bytes
      in if length bytes \<noteq> unat (a_size a)
         then return_io (failed_apply Artifact_size_mismatch
           (''artifact bytes are '' @ nat_str (length bytes) @ '' bytes, manifest expects ''
             @ nat_str (unat (a_size a))), st)
         else if actual_sha \<noteq> a_sha256 a
         then return_io (failed_apply Artifact_hash_mismatch
           (''artifact sha256 '' @ actual_sha @ '' != manifest '' @ a_sha256 a), st)
         else do {
           staged \<leftarrow> stage_version root v bytes;
           if \<not> staged
           then return_io (failed_apply Stage_failed
             (''stage_version('' @ v @ '') failed; check that the install root is writable + has free space''), st)
           else switch_and_log api tick m root st clk v a
         })"

definition apply_update ::
  "sodium \<Rightarrow> ('n, 'x) toml_scheme \<Rightarrow> int \<Rightarrow> apply_context \<Rightarrow> (apply_result \<times> update_state option) io" where
  "apply_update lib api tick ctx =
     (case (cx_manifest ctx, cx_layout ctx, cx_state ctx, cx_clock ctx) of
        (Some m, Some root, Some st, Some clk) \<Rightarrow>
          (case apply_gate tick (gate_now clk) m
              \<lparr>current_version = cx_current_version ctx, max_seen = max_version_ever_seen st, host = cx_platform ctx\<rparr> of
             Refuse reason d \<Rightarrow>
               return_io (\<lparr>outcome = Refused_by_gate, refusal = reason, applied_version = [], detail = d\<rparr>, Some st)
           | Apply v a _ \<Rightarrow> do {
               (r, st') \<leftarrow> install_artifact lib api tick m (artifact_bytes ctx) root st clk v a;
               return_io (r, Some st')
             })
      | _ \<Rightarrow> return_io (failed_apply Stage_failed ''apply_update: null context member'', cx_state ctx))"

section \<open>Going back\<close>

definition note_rolled_back :: "string \<Rightarrow> string \<Rightarrow> update_state \<Rightarrow> update_state" where
  "note_rolled_back v moment st = st\<lparr>current_installed_version := v, last_apply_at := moment\<rparr>"

definition rollback_target :: "('n, 'x) toml_scheme \<Rightarrow> path \<Rightarrow> string \<Rightarrow> (string + string) io" where
  "rollback_target api root cur = do {
     prev \<leftarrow> read_previous_version root;
     if prev \<noteq> [] then return_io (Inr prev)
     else do {
       loaded \<leftarrow> load_rollback_log api (rollback_log_path root);
       return_io (case loaded of
          Inl e \<Rightarrow> Inl (''rollback-log unreadable: '' @ e)
        | Inr events \<Rightarrow>
            let target = find_rollback_target events cur
            in if target = []
               then Inl (''no Apply event in rollback log names '' @ quoted cur @ '' as to_version'')
               else Inr target)
     }
   }"

definition go_back_to ::
  "('n, 'x) toml_scheme \<Rightarrow> int \<Rightarrow> path \<Rightarrow> update_state \<Rightarrow> time_source \<Rightarrow> string \<Rightarrow> string \<Rightarrow>
     (rollback_result \<times> update_state) io" where
  "go_back_to api tick root st clk cur target = do {
     has \<leftarrow> has_version_payload root target;
     if \<not> has
     then return_io (\<lparr>rb_outcome = Target_payload_missing, rb_from = cur, rb_to = target,
       rb_detail = ''rollback target '' @ quoted target
         @ '' has no payload on disk (was it gc'' @ [CHR 0x27] @ ''d, or never staged?)''\<rparr>, st)
     else do {
       switched \<leftarrow> atomic_switch_to root cur target;
       if \<not> switched
       then return_io (\<lparr>rb_outcome = Rollback_switch_failed, rb_from = cur, rb_to = target,
         rb_detail = ''atomic_switch_to('' @ target @ '') failed''\<rparr>, st)
       else do {
         let moment = now_string tick clk;
         log_ok \<leftarrow> append_rollback_event api (rollback_log_path root)
           \<lparr>timestamp = moment, ev_type = Rollback_event, from_version = cur, to_version = target,
              artifact_sha256 = [], ev_key_id = []\<rparr>;
         return_io (\<lparr>rb_outcome = (if log_ok then Rolled_back else Rolled_back_but_log_write_failed),
             rb_from = cur, rb_to = target,
             rb_detail = (if log_ok then ''rolled back'' else ''rolled back; rollback-log append failed'')\<rparr>,
           note_rolled_back target moment st)
       }
     }
   }"

definition rollback ::
  "('n, 'x) toml_scheme \<Rightarrow> int \<Rightarrow> rollback_context \<Rightarrow> (rollback_result \<times> update_state option) io" where
  "rollback api tick ctx =
     (case (rx_layout ctx, rx_state ctx, rx_clock ctx) of
        (Some root, Some st, Some clk) \<Rightarrow> do {
          cur \<leftarrow> read_current_version root;
          if cur = []
          then return_io (\<lparr>rb_outcome = No_current_install, rb_from = [], rb_to = [],
            rb_detail = ''current.txt is empty; nothing to roll back from''\<rparr>, Some st)
          else do {
            target \<leftarrow> rollback_target api root cur;
            case target of
              Inl d \<Rightarrow> return_io (\<lparr>rb_outcome = No_rollback_target, rb_from = [], rb_to = [], rb_detail = d\<rparr>, Some st)
            | Inr target \<Rightarrow> do {
                (r, st') \<leftarrow> go_back_to api tick root st clk cur target;
                return_io (r, Some st')
              }
          }
        }
      | _ \<Rightarrow> return_io (\<lparr>rb_outcome = Rollback_switch_failed, rb_from = [], rb_to = [],
          rb_detail = ''rollback: null context member''\<rparr>, rx_state ctx))"

section \<open>The floor only rises\<close>

text \<open>The user state never forgets the highest version it saw, and what is applied reaches it.\<close>

definition floor_below :: "string \<Rightarrow> string \<Rightarrow> bool" where
  "floor_below seen v = (\<exists>r. split_version v = Some r \<and> bounded_by (\<lambda>x. x \<le> r) seen)"

lemma bump_max_above:
  assumes "split_version v = Some r" "bounded_by (\<lambda>_. True) seen"
  shows "floor_below v (bump_max v seen)" "floor_below seen (bump_max v seen)"
proof -
  have "v \<noteq> []" using assms(1) by auto
  show "floor_below v (bump_max v seen)" "floor_below seen (bump_max v seen)"
    using assms by (auto simp: floor_below_def bump_max_def bounded_by_def compare_versions_eq sign_of_def)
qed

lemma floor_below_trans: "floor_below u v \<Longrightarrow> floor_below v w \<Longrightarrow> floor_below u w"
  by (auto simp: floor_below_def bounded_by_def)

lemma run_bind: "run_state (State_Monad.bind m f) s = (case run_state m s of (a, s1) \<Rightarrow> run_state (f a) s1)"
  by (simp add: State_Monad.bind_def split: prod.split)

definition took_effect :: "apply_outcome \<Rightarrow> bool" where
  "took_effect oc = (oc \<in> {Applied, Applied_but_log_write_failed})"

section \<open>The paths of the layout are apart\<close>

lemma strip_noblank: "list_all (\<lambda>c. \<not> is_blank c) s \<Longrightarrow> strip (s @ newline) = s"
proof -
  assume "list_all (\<lambda>c. \<not> is_blank c) s"
  then have n: "\<forall>c \<in> set s. \<not> is_blank c" by (simp add: list_all_iff)
  have b: "is_blank CHR 0x0A" by (simp add: is_blank_def)
  show ?thesis
  proof (cases s)
    case Nil
    then show ?thesis using b by (simp add: strip_def newline_def)
  next
    case (Cons c cs)
    have "dropWhile is_blank (s @ newline) = s @ newline" using n Cons by simp
    moreover have "dropWhile is_blank (rev s) = rev s"
      using n by (cases "rev s") (auto simp: dropWhile_eq_self_iff)
    ultimately show ?thesis using b by (simp add: strip_def newline_def)
  qed
qed

lemma strip_strip: "strip (strip s @ newline) = strip s"
proof -
  let ?t = "rev (dropWhile is_blank s)"
  have hd: "dropWhile is_blank (strip s) = strip s"
  proof (cases "strip s")
    case (Cons c cs)
    have "\<exists>zs. dropWhile is_blank s = strip s @ zs"
      unfolding strip_def by (metis rev_append rev_rev_ident takeWhile_dropWhile_id)
    then obtain zs where d: "dropWhile is_blank s = c # cs @ zs" using Cons by auto
    have "\<not> is_blank c" using hd_dropWhile [of is_blank s] unfolding d by simp
    then show ?thesis using Cons by simp
  qed simp
  have last: "dropWhile is_blank (rev (strip s)) = rev (strip s)"
    by (simp add: strip_def)
  have b: "is_blank CHR 0x0A" by (simp add: is_blank_def)
  show ?thesis
  proof (cases "strip s = []")
    case True
    have "strip newline = []" using b by (simp add: strip_def newline_def)
    then show ?thesis using True by simp
  next
    case False
    then obtain c cs where c: "strip s = c # cs" by (cases "strip s") auto
    then have "\<not> is_blank c" using hd by (metis dropWhile_eq_self_iff list.sel(1) list.distinct(1))
    then have "dropWhile is_blank (strip s @ newline) = strip s @ newline" using c by simp
    then show ?thesis
      using last b unfolding strip_def [of "strip s @ newline"] by (simp add: newline_def)
  qed
qed

lemma release_strip: "split_version v = Some r \<Longrightarrow> strip (v @ newline) = v"
proof (rule strip_noblank)
  assume "split_version v = Some r"
  then have "looks_semverish v" by (rule release_is_semverish)
  then have "list_all (\<lambda>c. c = CHR ''.'' \<or> is_digit c) v" by (simp add: looks_semverish_eq)
  moreover have "\<not> is_blank c" if "c = CHR ''.'' \<or> is_digit c" for c
    using that by (auto simp: is_blank_def is_digit_def)
  ultimately show "list_all (\<lambda>c. \<not> is_blank c) v" by (auto simp: list_all_iff)
qed

lemma log_apart:
  "rollback_log_path root \<notin> marker_area root"
  "current_marker_path root \<noteq> rollback_log_path root" "previous_marker_path root \<noteq> rollback_log_path root"
  "current_marker_path root \<notin> range (tmp_sibling (rollback_log_path root))"
  "previous_marker_path root \<notin> range (tmp_sibling (rollback_log_path root))"
  "\<not> prefix (current_marker_path root) (rollback_log_path root)"
  "\<not> prefix (previous_marker_path root) (rollback_log_path root)" "rollback_log_path root \<noteq> []"
proof -
  show "rollback_log_path root \<notin> marker_area root"
    using marker_not_temporary [of "''rollback.log''" "''current.txt''" root]
      marker_not_temporary [of "''rollback.log''" "''previous.txt''" root]
    by (simp add: marker_area_def rollback_log_path_def current_marker_path_def previous_marker_path_def)
  show "current_marker_path root \<notin> range (tmp_sibling (rollback_log_path root))"
    "previous_marker_path root \<notin> range (tmp_sibling (rollback_log_path root))"
    using marker_not_temporary [of "''current.txt''" "''rollback.log''" root]
      marker_not_temporary [of "''previous.txt''" "''rollback.log''" root]
    by (simp_all add: rollback_log_path_def current_marker_path_def previous_marker_path_def)
qed (simp_all add: rollback_log_path_def current_marker_path_def previous_marker_path_def)

lemma versions_apart:
  assumes "prefix (version_dir root v) q"
  shows "q \<notin> marker_area root" "q \<noteq> rollback_log_path root" "q \<notin> range (tmp_sibling (rollback_log_path root))"
    "\<not> prefix q (rollback_log_path root)" "prefix (version_dir root w) q \<longleftrightarrow> w = v"
    "\<not> prefix q (versions_dir root)" "\<not> prefix q (staging_dir root)" "\<not> prefix (staging_dir root) q"
proof -
  obtain r where q: "q = root @ ''versions'' # v # r" using assms by (auto simp: prefix_def version_dir_def versions_dir_def)
  show "q \<notin> marker_area root" "q \<noteq> rollback_log_path root" "q \<notin> range (tmp_sibling (rollback_log_path root))"
    "\<not> prefix q (rollback_log_path root)" "prefix (version_dir root w) q \<longleftrightarrow> w = v"
    "\<not> prefix q (versions_dir root)" "\<not> prefix q (staging_dir root)" "\<not> prefix (staging_dir root) q"
    by (auto simp: q marker_area_def tmp_sibling_def rollback_log_path_def current_marker_path_def
        previous_marker_path_def version_dir_def versions_dir_def staging_dir_def)
qed

lemma markers_outside:
  "\<not> prefix (version_dir root v) (current_marker_path root)" "\<not> prefix (version_dir root v) (previous_marker_path root)"
  "\<not> prefix (staging_dir root) (current_marker_path root)" "\<not> prefix (staging_dir root) (previous_marker_path root)"
  "\<not> prefix (current_marker_path root) (versions_dir root)" "\<not> prefix (previous_marker_path root) (versions_dir root)"
  "\<not> prefix (current_marker_path root) (staging_dir root)" "\<not> prefix (previous_marker_path root) (staging_dir root)"
  "\<not> prefix (version_dir root v) (rollback_log_path root)" "\<not> prefix (staging_dir root) (rollback_log_path root)"
  "\<not> prefix (rollback_log_path root) (versions_dir root)" "\<not> prefix (rollback_log_path root) (staging_dir root)"
  by (simp_all add: rollback_log_path_def current_marker_path_def previous_marker_path_def version_dir_def
      versions_dir_def staging_dir_def)

section \<open>The switch, the log and the collection together\<close>

definition ready :: "path \<Rightarrow> fs \<Rightarrow> bool" where
  "ready root s = (tree_ok (tree s) \<and> look (tree s) (current_marker_path root) \<noteq> Some Dir
     \<and> look (tree s) (previous_marker_path root) \<noteq> Some Dir \<and> look (tree s) (rollback_log_path root) \<noteq> Some Dir
     \<and> faults s PClose = [] \<and> faults s PRename = [] \<and> faults s PRead = [])"

lemma readyD:
  assumes "ready root s"
  shows "tree_ok (tree s)" "look (tree s) (current_marker_path root) \<noteq> Some Dir"
    "look (tree s) (previous_marker_path root) \<noteq> Some Dir" "look (tree s) (rollback_log_path root) \<noteq> Some Dir"
    "faults s PClose = []" "faults s PRename = []" "faults s PRead = []"
  using assms by (simp_all add: ready_def)

text \<open>After the switch to \<open>v\<close>: the markers name \<open>v\<close> and the version it came from, whose payloads stand.\<close>

definition committed :: "path \<Rightarrow> string \<Rightarrow> string \<Rightarrow> fs \<Rightarrow> fs \<Rightarrow> bool" where
  "committed root from_v v s s' = (ready root s'
     \<and> look (tree s') (current_marker_path root) = Some (File (bytes_of (v @ newline)))
     \<and> (from_v \<noteq> [] \<longrightarrow> look (tree s') (previous_marker_path root) = Some (File (bytes_of (from_v @ newline))))
     \<and> (\<forall>q. prefix (version_dir root v) q \<or> from_v \<noteq> [] \<and> prefix (version_dir root from_v) q
          \<longrightarrow> look (tree s') q = look (tree s) q))"

lemma appended_elsewhere:
  assumes "appended api p e s b s'" "tree_ok (tree s)"
  shows "tree_ok (tree s')" "q \<noteq> p \<Longrightarrow> q \<notin> range (tmp_sibling p) \<Longrightarrow> \<not> prefix q p \<Longrightarrow> look (tree s') q = look (tree s) q"
    "calm s s'" "look (tree s) p \<noteq> Some Dir \<Longrightarrow> look (tree s') p \<noteq> Some Dir"
  using assms by (auto simp: appended_def saved_def flips_def idle_def dest: stepsD(1) split: sum.splits if_splits)

lemma appended_committed:
  assumes c: "committed root from_v v s s1" and a: "appended api (rollback_log_path root) e s1 b s2"
  shows "committed root from_v v s s2" "calm s1 s2"
proof -
  have r1: "ready root s1" using c by (simp add: committed_def)
  note o = appended_elsewhere [OF a readyD(1) [OF r1]]
  show "calm s1 s2" by (rule o(3))
  have "look (tree s2) q = look (tree s1) q" if "prefix (version_dir root w) q" for w q
    by (rule o(2)) (rule versions_apart [OF that])+
  moreover have m: "look (tree s2) (current_marker_path root) = look (tree s1) (current_marker_path root)"
    "look (tree s2) (previous_marker_path root) = look (tree s1) (previous_marker_path root)"
    by (rule o(2), rule log_apart, rule log_apart, rule log_apart)+
  moreover have "ready root s2"
    using readyD [OF r1] o m by (simp add: ready_def calm_def)
  ultimately show "committed root from_v v s s2" using c unfolding committed_def by (metis (no_types))
qed

lemma marked_line: "look m p = Some (File (bytes_of (v @ newline))) \<Longrightarrow> marked p m = strip (v @ newline)"
  by (simp add: marked_def del: bytes_of_append)

lemma reaped_committed:
  assumes c: "committed root from_v v s s1" and v: "strip (v @ newline) = v" "strip (from_v @ newline) = from_v"
    and r: "reaped_ok root (marked (current_marker_path root) (tree s1)
      # marked (previous_marker_path root) (tree s1) # []) vs s1 out s2"
  shows "committed root from_v v s s2"
proof -
  let ?keep = "marked (current_marker_path root) (tree s1) # marked (previous_marker_path root) (tree s1) # []"
  have m: "marked (current_marker_path root) (tree s1) = v"
    "from_v \<noteq> [] \<Longrightarrow> marked (previous_marker_path root) (tree s1) = from_v"
    using c v marked_line unfolding committed_def by metis+
  have sp: "spares (version_dir root ` (set vs - set ?keep)) (tree s1) (tree s2)"
    using r stepsD(2) by (auto simp: reaped_ok_def)
  have r1: "ready root s1" using c by (simp add: committed_def)
  have ok: "tree_ok (tree s2)" using sp readyD(1) [OF r1] by (simp add: spares_def)
  have calm: "calm s1 s2" using r stepsD(1) by (auto simp: reaped_ok_def)
  have keep: "look (tree s2) q = look (tree s1) q"
    if "prefix (version_dir root w) q" "w = v \<or> from_v \<noteq> [] \<and> w = from_v" for w q
  proof -
    have "\<not> (\<exists>p \<in> version_dir root ` (set vs - set ?keep). prefix p q)"
      using versions_apart(5) [OF that(1)] that(2) m by auto
    then show ?thesis using sp unfolding spares_def by blast
  qed
  have mk: "look (tree s2) q = look (tree s1) q" if "\<And>w. \<not> prefix (version_dir root w) q" for q
    using sp that unfolding spares_def by blast
  have mm: "look (tree s2) (current_marker_path root) = look (tree s1) (current_marker_path root)"
    "look (tree s2) (previous_marker_path root) = look (tree s1) (previous_marker_path root)"
    "look (tree s2) (rollback_log_path root) = look (tree s1) (rollback_log_path root)"
    by (rule mk, rule markers_outside)+
  then have "ready root s2" using readyD [OF r1] ok calm by (simp add: ready_def calm_def)
  then show ?thesis using c mm keep unfolding committed_def by auto
qed

lemma steps_calm: "steps R s s' \<Longrightarrow> calm s s'"
  by (simp add: steps_def)

lemma switched_calm: "switched root from_v v s b s' \<Longrightarrow> calm s s'"
  by (auto simp: switched_def flips_def dest: steps_calm)

lemma switched_committed:
  assumes sw: "switched root from_v v s True s'" and r: "ready root s"
  shows "committed root from_v v s s'"
proof -
  have "look (tree s') q = look (tree s) q" if "prefix (version_dir root w) q" for w q
    using sw versions_apart(1) [OF that] by (simp add: switched_def)
  moreover have "look (tree s') (rollback_log_path root) = look (tree s) (rollback_log_path root)"
    using sw log_apart(1) by (simp add: switched_def)
  then have "ready root s'"
    using sw readyD [OF r] switched_calm [OF sw] by (auto simp: ready_def switched_def flips_def noted_def calm_def)
  ultimately show ?thesis using sw readyD(3) [OF r] by (auto simp: committed_def switched_def flips_def noted_def)
qed

definition applying :: "path \<Rightarrow> string \<Rightarrow> string \<Rightarrow> update_state \<Rightarrow> fs \<Rightarrow> apply_result \<times> update_state \<Rightarrow> fs \<Rightarrow> bool" where
  "applying root v moment st s res s' = (let from_v = marked (current_marker_path root) (tree s) in
     if took_effect (outcome (fst res))
     then applied_version (fst res) = v \<and> snd res = note_applied v moment st \<and> committed root from_v v s s'
     else snd res = st \<and> look (tree s') (current_marker_path root) = look (tree s) (current_marker_path root))"

lemma wp_switch_and_log:
  assumes r: "ready root s" and v: "split_version v = Some rel"
    and Q: "\<And>res s'. applying root v (now_string tick clk) st s res s' \<Longrightarrow> Q res s'"
  shows "wp (switch_and_log api tick m root st clk v a) Q s"
proof -
  let ?c = "marked (current_marker_path root) (tree s)"
  have strips: "strip (v @ newline) = v" "strip (?c @ newline) = ?c"
    using release_strip [OF v] by (simp_all add: marked_def strip_strip split: option.split node.split)
      (simp_all add: strip_def newline_def is_blank_def)
  have collect: "wp (gc_unreferenced root []) (\<lambda>_. Q (\<lparr>outcome = oc, refusal = Malformed_offered,
      applied_version = v, detail = d\<rparr>, note_applied v (now_string tick clk) st)) s2"
    if "committed root ?c v s s2" "faults s2 PRead = []" "took_effect oc" for oc d s2
    by (rule wp_gc [OF that(2)]) (auto intro!: Q simp: applying_def that(3) intro: reaped_committed [OF that(1) strips])
  show ?thesis
    unfolding switch_and_log_def read_current_version_def wp_bind
  proof (rule wp_read_one_line, goal_cases)
    case (1 c s1)
    have c: "c = ?c" using 1(2) readyD(7) [OF r] by (simp add: marked_def)
    have s1: "tree s1 = tree s" "calm s s1" using 1(1) by (simp_all add: idle_def)
    have f1: "faults s1 k = []" if "faults s k = []" for k using that s1(2) by (simp add: calm_def)
    show ?case
    proof (rule wp_switch, goal_cases)
      case (5 b s2)
      then have sw: "switched root ?c v s1 b s2" using c by simp
      show ?case
      proof (cases b)
        case False
        then have "look (tree s2) (current_marker_path root) = look (tree s) (current_marker_path root)"
          using sw s1 by (simp add: switched_def flips_def)
        then show ?thesis using False by (simp add: Q applying_def took_effect_def failed_apply_def)
      next
        case True
        have "ready root s1" using readyD [OF r] s1(1) f1 by (simp add: ready_def)
        then have "committed root ?c v s1 s2" using switched_committed [of root ?c v s1 s2] sw True by simp
        then have cm: "committed root ?c v s s2" unfolding committed_def s1(1) .
        have f2: "faults s2 k = []" if "faults s k = []" for k
          using f1 [OF that] switched_calm [OF sw] by (simp add: calm_def)
        have lg: "look (tree s2) (rollback_log_path root) \<noteq> Some Dir"
          using sw s1(1) log_apart(1) readyD(4) [OF r] by (simp add: switched_def)
        have ok: "tree_ok (tree s2)" using cm readyD(1) [of root s2] by (simp add: committed_def)
        show ?thesis
          unfolding not_not if_not_P [of "\<not> b", unfolded not_not, OF True] wp_bind Let_def
        proof (rule wp_append [OF ok log_apart(8) lg])
          fix ba s3
          assume ap: "appended api (rollback_log_path root) \<lparr>timestamp = now_string tick clk,
            ev_type = Apply_event, from_version = c, to_version = v, artifact_sha256 = a_sha256 a,
            ev_key_id = public_key_id (mf_signing m)\<rparr> s2 ba s3"
          note cm3 = appended_committed [OF cm ap]
          have "faults s3 PRead = []" using cm3(2) f2 [OF readyD(7) [OF r]] by (simp add: calm_def)
          then show "wp (gc_unreferenced root []) (\<lambda>_. wp (return_io
            (\<lparr>outcome = if ba then Applied else Applied_but_log_write_failed, refusal = Malformed_offered,
              applied_version = v, detail = if ba then ''applied''
                else ''applied; rollback-log append failed (audit gap)''\<rparr>,
             note_applied v (now_string tick clk) st)) Q) s3"
            unfolding wp_return by (rule collect [OF cm3(1)]) (simp add: took_effect_def)
        qed (use f2 readyD [OF r] in simp_all)
      qed
    qed (use s1 f1 readyD [OF r] in simp_all)
  qed
qed

section \<open>The whole update\<close>

text \<open>
  What an attempt to install \<open>bs\<close> as version \<open>v\<close> leaves behind: on effect the new markers, the
  payload, the payload of the version it came from, and the bumped user state; otherwise the old
  current marker and the old user state.
\<close>

definition installed ::
  "path \<Rightarrow> string \<Rightarrow> byte list \<Rightarrow> string \<Rightarrow> update_state \<Rightarrow> fs \<Rightarrow> apply_result \<times> update_state \<Rightarrow> fs \<Rightarrow> bool" where
  "installed root v bs moment st s res s' = (let from_v = marked (current_marker_path root) (tree s) in
     if took_effect (outcome (fst res))
     then applied_version (fst res) = v \<and> snd res = note_applied v moment st
       \<and> ready root s'
       \<and> look (tree s') (current_marker_path root) = Some (File (bytes_of (v @ newline)))
       \<and> look (tree s') (payload_path root v) = Some (File bs)
       \<and> (from_v \<noteq> [] \<longrightarrow> look (tree s') (previous_marker_path root) = Some (File (bytes_of (from_v @ newline))))
       \<and> (from_v \<noteq> [] \<longrightarrow> from_v \<noteq> v \<longrightarrow>
            look (tree s') (payload_path root from_v) = look (tree s) (payload_path root from_v))
     else snd res = st \<and> look (tree s') (current_marker_path root) = look (tree s) (current_marker_path root))"

lemma payload_below: "payload_path root w = version_dir root w @ [''payload'']"
  by (simp add: payload_path_def version_dir_def)

lemma steps_staged_same:
  assumes "steps_staged root v s s1" "\<not> prefix (version_dir root v) q" "\<not> prefix (staging_dir root) q"
    "\<not> prefix q (versions_dir root)" "\<not> prefix q (staging_dir root)"
  shows "look (tree s1) q = look (tree s) q"
proof -
  have "staged root v (tree s) (tree s1)" using assms(1) stepsD(2) by (auto simp: steps_staged_def)
  then show ?thesis using assms(2-5) unfolding staged_def by blast
qed

lemma staged_ready:
  assumes r: "ready root s" and s: "steps_staged root v s s1"
  shows "ready root s1" "look (tree s1) (current_marker_path root) = look (tree s) (current_marker_path root)"
proof -
  note D = steps_stagedD [OF s]
  show m: "look (tree s1) (current_marker_path root) = look (tree s) (current_marker_path root)"
    by (rule steps_staged_same [OF s]) (rule markers_outside)+
  have "look (tree s1) (previous_marker_path root) = look (tree s) (previous_marker_path root)"
    "look (tree s1) (rollback_log_path root) = look (tree s) (rollback_log_path root)"
    by (rule steps_staged_same [OF s], rule markers_outside, rule markers_outside, rule markers_outside,
        rule markers_outside)+
  then show "ready root s1" using r D m by (simp add: ready_def calm_def)
qed

lemma applying_installed:
  assumes r: "ready root s" and s: "steps_staged root v s s1" and st: "stored (version_dir root v) bs s (tree s1)"
    and a: "applying root v moment st0 s1 res s'"
  shows "installed root v bs moment st0 s res s'"
proof -
  let ?c = "marked (current_marker_path root) (tree s)"
  note m = staged_ready(2) [OF r s]
  have c: "marked (current_marker_path root) (tree s1) = ?c" using m by (simp add: marked_def)
  show ?thesis
  proof (cases "took_effect (outcome (fst res))")
    case False
    then show ?thesis using a m by (simp add: applying_def installed_def)
  next
    case True
    then have cm: "committed root ?c v s1 s'" and x: "applied_version (fst res) = v" "snd res = note_applied v moment st0"
      using a c by (simp_all add: applying_def)
    have "look (tree s1) (payload_path root v) = Some (File bs)"
      using st readyD(5) [OF r] by (simp add: stored_def payload_below)
    then have p: "look (tree s') (payload_path root v) = Some (File bs)"
      using cm unfolding committed_def payload_below by simp
    have f: "look (tree s') (payload_path root ?c) = look (tree s) (payload_path root ?c)"
      if "?c \<noteq> []" "?c \<noteq> v"
    proof -
      have pre: "prefix (version_dir root ?c) (payload_path root ?c)" by (simp add: payload_below)
      have "look (tree s1) (payload_path root ?c) = look (tree s) (payload_path root ?c)"
        by (rule steps_staged_same [OF s])
          (use versions_apart(5) [OF pre, of v] that(2) versions_apart(6-8) [OF pre] in auto)
      moreover have "look (tree s') (payload_path root ?c) = look (tree s1) (payload_path root ?c)"
        using cm that(1) pre unfolding committed_def by blast
      ultimately show ?thesis by simp
    qed
    show ?thesis
      unfolding installed_def Let_def if_P [OF True]
      using cm x p f by (simp add: committed_def)
  qed
qed

lemma wp_install_artifact:
  assumes r: "ready root s" and v: "split_version v = Some rel"
    and Q: "\<And>res s'. installed root v bs (now_string tick clk) st s res s' \<Longrightarrow>
      (took_effect (outcome (fst res)) \<longrightarrow> length bs = unat (a_size a) \<and> sha256_hex lib bs = a_sha256 a) \<Longrightarrow> Q res s'"
  shows "wp (install_artifact lib api tick m bs root st clk v a) Q s"
proof -
  have fails: "Q (failed_apply oc d, st) s'"
    if "\<not> took_effect oc" "look (tree s') (current_marker_path root) = look (tree s) (current_marker_path root)" for oc d s'
    by (rule Q) (use that in \<open>simp_all add: installed_def failed_apply_def\<close>)
  have stage: "wp (stage_version root v bs) (\<lambda>staged. wp (if \<not> staged then return_io (failed_apply Stage_failed d, st)
      else switch_and_log api tick m root st clk v a) Q) s"
    if ok: "length bs = unat (a_size a)" "sha256_hex lib bs = a_sha256 a" for d
  proof (rule wp_stage_version [OF readyD(1) [OF r]])
    fix b s1
    assume s1: "steps_staged root v s s1" and sto: "b \<longrightarrow> stored (version_dir root v) bs s (tree s1)"
    show "wp (if \<not> b then return_io (failed_apply Stage_failed d, st)
      else switch_and_log api tick m root st clk v a) Q s1"
    proof (cases b)
      case False
      then show ?thesis using fails [OF _ staged_ready(2) [OF r s1], of Stage_failed] by (simp add: took_effect_def)
    next
      case True
      have "wp (switch_and_log api tick m root st clk v a) Q s1"
        by (rule wp_switch_and_log [OF staged_ready(1) [OF r s1] v])
          (use sto True ok in \<open>auto intro!: Q applying_installed [OF r s1]\<close>)
      then show ?thesis using True by simp
    qed
  qed
  show ?thesis
    using fails [of Artifact_size_mismatch] fails [of Artifact_hash_mismatch] stage
    by (simp add: install_artifact_def Let_def took_effect_def)
qed

section \<open>Properties of an update\<close>

lemma wp_apply_update:
  assumes cx: "cx_manifest ctx = Some m" "cx_layout ctx = Some root" "cx_state ctx = Some st" "cx_clock ctx = Some clk"
    and r: "ready root s"
    and Q: "\<And>r st' s'. (if took_effect (outcome r) then
        (\<exists>a b. apply_gate tick (gate_now clk) m \<lparr>current_version = cx_current_version ctx,
            max_seen = max_version_ever_seen st, host = cx_platform ctx\<rparr> = Apply (applied_version r) a b
          \<and> length (artifact_bytes ctx) = unat (a_size a) \<and> sha256_hex lib (artifact_bytes ctx) = a_sha256 a)
        \<and> installed root (applied_version r) (artifact_bytes ctx) (now_string tick clk) st s (r, st') s'
      else st' = st \<and> look (tree s') (current_marker_path root) = look (tree s) (current_marker_path root)) \<Longrightarrow>
      Q (r, Some st') s'"
  shows "wp (apply_update lib api tick ctx) Q s"
proof -
  let ?i = "\<lparr>current_version = cx_current_version ctx, max_seen = max_version_ever_seen st, host = cx_platform ctx\<rparr>"
  show ?thesis
  proof (cases "apply_gate tick (gate_now clk) m ?i")
    case (Refuse reason d)
    then show ?thesis using cx by (auto simp: apply_update_def took_effect_def intro: Q)
  next
    case (Apply v a b)
    then obtain rel where v: "split_version v = Some rel" by (auto simp: apply_gate_Apply)
    have "wp (install_artifact lib api tick m (artifact_bytes ctx) root st clk v a)
      (\<lambda>res. Q (fst res, Some (snd res))) s"
    proof (rule wp_install_artifact [OF r v])
      fix res s'
      assume i: "installed root v (artifact_bytes ctx) (now_string tick clk) st s res s'"
        and c: "took_effect (outcome (fst res)) \<longrightarrow>
          length (artifact_bytes ctx) = unat (a_size a) \<and> sha256_hex lib (artifact_bytes ctx) = a_sha256 a"
      show "Q (fst res, Some (snd res)) s'"
      proof (rule Q, cases "took_effect (outcome (fst res))", goal_cases)
        case 1
        then have "applied_version (fst res) = v" using i by (simp add: installed_def Let_def)
        then show ?case using 1 i c Apply by simp
      next
        case 2
        then show ?case using i by (simp add: installed_def)
      qed
    qed
    then show ?thesis using cx Apply by (simp add: apply_update_def case_prod_unfold)
  qed
qed

lemma run_apply_update:
  assumes "cx_manifest ctx = Some m" "cx_layout ctx = Some root" "cx_state ctx = Some st" "cx_clock ctx = Some clk"
    and "ready root s" "run_state (apply_update lib api tick ctx) s = ((r, st'), s')"
  obtains st'' where "st' = Some st''" "if took_effect (outcome r) then
        (\<exists>a b. apply_gate tick (gate_now clk) m \<lparr>current_version = cx_current_version ctx,
            max_seen = max_version_ever_seen st, host = cx_platform ctx\<rparr> = Apply (applied_version r) a b
          \<and> length (artifact_bytes ctx) = unat (a_size a) \<and> sha256_hex lib (artifact_bytes ctx) = a_sha256 a)
        \<and> installed root (applied_version r) (artifact_bytes ctx) (now_string tick clk) st s (r, st'') s'
      else st'' = st \<and> look (tree s') (current_marker_path root) = look (tree s) (current_marker_path root)"
proof -
  have "wp (apply_update lib api tick ctx) (\<lambda>(r, st') s'. \<exists>st''. st' = Some st'' \<and> (if took_effect (outcome r) then
        (\<exists>a b. apply_gate tick (gate_now clk) m \<lparr>current_version = cx_current_version ctx,
            max_seen = max_version_ever_seen st, host = cx_platform ctx\<rparr> = Apply (applied_version r) a b
          \<and> length (artifact_bytes ctx) = unat (a_size a) \<and> sha256_hex lib (artifact_bytes ctx) = a_sha256 a)
        \<and> installed root (applied_version r) (artifact_bytes ctx) (now_string tick clk) st s (r, st'') s'
      else st'' = st \<and> look (tree s') (current_marker_path root) = look (tree s) (current_marker_path root))) s"
    by (rule wp_apply_update [OF assms(1-5)]) simp
  from wp_run [OF this assms(6)] show ?thesis using that by auto
qed


section \<open>Histories of updates\<close>

lemma switch_and_log_state:
  "run_state (switch_and_log api tick m root st clk v a) s = ((r, st'), s') \<Longrightarrow>
   if took_effect (outcome r) then applied_version r = v \<and> st' = note_applied v (now_string tick clk) st else st' = st"
  by (auto simp: switch_and_log_def run_bind Let_def return_io_def took_effect_def failed_apply_def
      split: prod.splits if_splits)

lemma install_artifact_state:
  "run_state (install_artifact lib api tick m bs root st clk v a) s = ((r, st'), s') \<Longrightarrow>
   if took_effect (outcome r) then applied_version r = v \<and> st' = note_applied v (now_string tick clk) st else st' = st"
  by (auto simp: install_artifact_def run_bind Let_def return_io_def took_effect_def failed_apply_def
      dest: switch_and_log_state split: prod.splits if_splits)

lemma apply_update_state:
  assumes "run_state (apply_update lib api tick ctx) s = ((r, st'), s')" "cx_state ctx = Some st"
  shows "if took_effect (outcome r)
    then \<exists>moment rel. split_version (applied_version r) = Some rel
      \<and> bounded_by (\<lambda>x. x \<le> rel) (max_version_ever_seen st) \<and> st' = Some (note_applied (applied_version r) moment st)
    else st' = Some st"
proof (cases "\<exists>m root clk v a b. cx_manifest ctx = Some m \<and> cx_layout ctx = Some root \<and> cx_clock ctx = Some clk \<and>
    apply_gate tick (gate_now clk) m \<lparr>current_version = cx_current_version ctx,
      max_seen = max_version_ever_seen st, host = cx_platform ctx\<rparr> = Apply v a b")
  case True
  then obtain m root clk v a b where c: "cx_manifest ctx = Some m" "cx_layout ctx = Some root" "cx_clock ctx = Some clk"
    and g: "apply_gate tick (gate_now clk) m \<lparr>current_version = cx_current_version ctx,
      max_seen = max_version_ever_seen st, host = cx_platform ctx\<rparr> = Apply v a b" by blast
  obtain rel where rel: "split_version v = Some rel" "bounded_by (\<lambda>x. x \<le> rel) (max_version_ever_seen st)"
    using g by (auto simp: apply_gate_Apply)
  obtain st'' where i: "run_state (install_artifact lib api tick m (artifact_bytes ctx) root st clk v a) s = ((r, st''), s')"
      "st' = Some st''"
    using assms c g by (auto simp: apply_update_def run_bind return_io_def split: prod.splits)
  show ?thesis using install_artifact_state [OF i(1)] i(2) rel by auto
next
  case False
  then show ?thesis
    using assms by (auto simp: apply_update_def return_io_def took_effect_def failed_apply_def
        split: option.splits decision.splits)
qed

lemma rollback_state:
  assumes "run_state (rollback api tick ctx) s = ((r, st'), s')" "rx_state ctx = Some st"
  shows "\<exists>st''. st' = Some st'' \<and> max_version_ever_seen st'' = max_version_ever_seen st"
proof -
  have "max_version_ever_seen (snd (fst (run_state (go_back_to api tick root st clk cur v) s1))) = max_version_ever_seen st"
    for root clk cur v s1
    by (simp add: go_back_to_def run_bind return_io_def Let_def note_rolled_back_def split: prod.split)
  then show ?thesis
    using assms by (auto simp: rollback_def run_bind return_io_def split: option.splits prod.splits if_splits sum.splits)
      (metis fst_conv snd_conv)+
qed

text \<open>A client's life: updates that take effect, attempts that do not, and rollbacks, each with a manifest,
  artifact, clock and disk of its own; the list holds the applied versions.\<close>

inductive updates ::
  "sodium \<Rightarrow> ('n, 'x) toml_scheme \<Rightarrow> int \<Rightarrow> update_state \<Rightarrow> string list \<Rightarrow> update_state \<Rightarrow> bool"
  for lib :: sodium and api :: "('n, 'x) toml_scheme" and tick :: int and st0 :: update_state where
  fresh_client: "updates lib api tick st0 [] st0"
| updated: "updates lib api tick st0 vs st \<Longrightarrow> cx_state ctx = Some st \<Longrightarrow>
    run_state (apply_update lib api tick ctx) s = ((r, Some st'), s') \<Longrightarrow>
    updates lib api tick st0 (if took_effect (outcome r) then vs @ [applied_version r] else vs) st'"
| went_back: "updates lib api tick st0 vs st \<Longrightarrow> rx_state rx = Some st \<Longrightarrow>
    run_state (rollback api tick rx) s = ((rr, Some st'), s') \<Longrightarrow> updates lib api tick st0 vs st'"

lemma updates_floor:
  "updates lib api tick st0 vs st \<Longrightarrow>
   sorted_wrt floor_below vs \<and> (\<forall>v \<in> set vs. floor_below v (max_version_ever_seen st) \<and> v \<noteq> [])"
proof (induction rule: updates.induct)
  case (updated vs st ctx s r st' s')
  show ?case
  proof (cases "took_effect (outcome r)")
    case True
    let ?v = "applied_version r"
    obtain moment rel where v: "split_version ?v = Some rel" "bounded_by (\<lambda>x. x \<le> rel) (max_version_ever_seen st)"
        "st' = note_applied ?v moment st"
      using apply_update_state [OF updated(3,2)] True by auto
    have up: "floor_below (max_version_ever_seen st) ?v" using v by (auto simp: floor_below_def)
    have b: "bounded_by (\<lambda>_. True) (max_version_ever_seen st)" using v(2) by (rule bounded_by_mono) simp
    have max: "max_version_ever_seen st' = bump_max ?v (max_version_ever_seen st)"
      by (simp add: v(3) note_applied_def)
    have "floor_below u ?v \<and> floor_below u (max_version_ever_seen st')" if "u \<in> set vs" for u
      using updated(4) that up bump_max_above [OF v(1) b] floor_below_trans unfolding max by blast
    moreover have "?v \<noteq> []" using v(1) by auto
    ultimately show ?thesis
      using updated(4) True bump_max_above(1) [OF v(1) b] unfolding max by (simp add: sorted_wrt_append)
  next
    case False
    then show ?thesis using updated(4) apply_update_state [OF updated(3,2)] by simp
  qed
next
  case (went_back vs st rx s rr st' s')
  then show ?case using rollback_state [OF went_back(3,2)] by auto
qed simp

text \<open>C19: No replay, ever.  Through any history of updates, failed attempts and rollbacks, whatever the
  manifests, clocks and disks are, the versions that take effect never decrease: a rollback does not lower
  the floor, so a replayed older manifest is never applied afterwards.\<close>

theorem updates_never_downgrade:
  assumes "updates lib api tick st0 vs st" "i < j" "j < length vs"
  shows "\<exists>x y. split_version (vs ! i) = Some x \<and> split_version (vs ! j) = Some y \<and> x \<le> y"
proof -
  have s: "sorted_wrt floor_below vs" and n: "\<forall>v \<in> set vs. v \<noteq> []"
    using updates_floor [OF assms(1)] by simp_all
  have "floor_below (vs ! i) (vs ! j)" using s assms(2,3) by (simp add: sorted_wrt_iff_nth_less)
  moreover have "vs ! i \<noteq> []" using n assms(2,3) by simp
  ultimately show ?thesis by (auto simp: floor_below_def bounded_by_def)
qed

section \<open>Properties of a rollback\<close>

definition went_back_to :: "rollback_outcome \<Rightarrow> bool" where
  "went_back_to oc = (oc \<in> {Rolled_back, Rolled_back_but_log_write_failed})"

definition going_back ::
  "path \<Rightarrow> string \<Rightarrow> string \<Rightarrow> update_state \<Rightarrow> fs \<Rightarrow> rollback_result \<times> update_state \<Rightarrow> fs \<Rightarrow> bool" where
  "going_back root target moment st s res s' = (let cur = marked (current_marker_path root) (tree s) in
     if went_back_to (rb_outcome (fst res))
     then rb_from (fst res) = cur \<and> rb_to (fst res) = target \<and> snd res = note_rolled_back target moment st
       \<and> look (tree s) (payload_path root target) \<noteq> None \<and> committed root cur target s s'
     else snd res = st \<and> look (tree s') (current_marker_path root) = look (tree s) (current_marker_path root)
       \<and> rb_outcome (fst res) \<in> {Target_payload_missing, Rollback_switch_failed}
       \<and> (rb_outcome (fst res) = Target_payload_missing \<longrightarrow> look (tree s) (payload_path root target) \<in> {None, Some (File [])}))"

lemma wp_has_payload_exact:
  "wp (has_version_payload root v) Q s = Q (look (tree s) (payload_path root v) \<notin> {None, Some (File [])}) s"
  by (auto simp: has_version_payload_def file_exists_def file_size_def split: option.splits node.splits)

lemma wp_go_back:
  assumes r: "ready root s" and cur: "cur = marked (current_marker_path root) (tree s)"
    and Q: "\<And>res s'. going_back root target (now_string tick clk) st s res s' \<Longrightarrow> Q res s'"
  shows "wp (go_back_to api tick root st clk cur target) Q s"
proof (cases "look (tree s) (payload_path root target) \<in> {None, Some (File [])}")
  case True
  then show ?thesis
    unfolding go_back_to_def wp_bind wp_has_payload_exact
    by (auto intro!: Q simp: going_back_def went_back_to_def)
next
  case False
  have "wp (atomic_switch_to root cur target) (\<lambda>switched. wp (if \<not> switched
       then return_io (\<lparr>rb_outcome = Rollback_switch_failed, rb_from = cur, rb_to = target,
         rb_detail = ''atomic_switch_to('' @ target @ '') failed''\<rparr>, st)
       else do {
         let moment = now_string tick clk;
         log_ok \<leftarrow> append_rollback_event api (rollback_log_path root)
           \<lparr>timestamp = moment, ev_type = Rollback_event, from_version = cur, to_version = target,
              artifact_sha256 = [], ev_key_id = []\<rparr>;
         return_io (\<lparr>rb_outcome = (if log_ok then Rolled_back else Rolled_back_but_log_write_failed),
             rb_from = cur, rb_to = target,
             rb_detail = (if log_ok then ''rolled back'' else ''rolled back; rollback-log append failed'')\<rparr>,
           note_rolled_back target moment st)
       }) Q) s"
  proof (rule wp_switch [OF readyD(1,2,5,6) [OF r]])
    fix b s2
    assume sw: "switched root cur target s b s2"
    show "wp (if \<not> b
       then return_io (\<lparr>rb_outcome = Rollback_switch_failed, rb_from = cur, rb_to = target,
         rb_detail = ''atomic_switch_to('' @ target @ '') failed''\<rparr>, st)
       else do {
         let moment = now_string tick clk;
         log_ok \<leftarrow> append_rollback_event api (rollback_log_path root)
           \<lparr>timestamp = moment, ev_type = Rollback_event, from_version = cur, to_version = target,
              artifact_sha256 = [], ev_key_id = []\<rparr>;
         return_io (\<lparr>rb_outcome = (if log_ok then Rolled_back else Rolled_back_but_log_write_failed),
             rb_from = cur, rb_to = target,
             rb_detail = (if log_ok then ''rolled back'' else ''rolled back; rollback-log append failed'')\<rparr>,
           note_rolled_back target moment st)
       }) Q s2"
    proof (cases b)
      case False
      then have "look (tree s2) (current_marker_path root) = look (tree s) (current_marker_path root)"
        using sw by (simp add: switched_def flips_def)
      then show ?thesis using False by (auto intro!: Q simp: going_back_def went_back_to_def)
    next
      case True
      have cm: "committed root cur target s s2"
        by (rule switched_committed) (use sw True r in simp_all)
      have lg: "look (tree s2) (rollback_log_path root) \<noteq> Some Dir"
        using sw log_apart(1) readyD(4) [OF r] by (simp add: switched_def)
      have f2: "faults s2 k = []" if "faults s k = []" for k
        using that switched_calm [OF sw] by (simp add: calm_def)
      have ok: "tree_ok (tree s2)" using cm readyD(1) [of root s2] by (simp add: committed_def)
      show ?thesis
        unfolding not_not if_not_P [of "\<not> b", unfolded not_not, OF True] wp_bind Let_def
      proof (rule wp_append [OF ok log_apart(8) lg])
        fix ba s3
        assume "appended api (rollback_log_path root) \<lparr>timestamp = now_string tick clk,
          ev_type = Rollback_event, from_version = cur, to_version = target, artifact_sha256 = [],
          ev_key_id = []\<rparr> s2 ba s3"
        from appended_committed(1) [OF cm this] False
        show "wp (return_io
          (\<lparr>rb_outcome = if ba then Rolled_back else Rolled_back_but_log_write_failed, rb_from = cur, rb_to = target,
            rb_detail = if ba then ''rolled back'' else ''rolled back; rollback-log append failed''\<rparr>,
           note_rolled_back target (now_string tick clk) st)) Q s3"
          unfolding wp_return by (intro Q) (simp add: going_back_def went_back_to_def cur)
      qed (use f2 readyD [OF r] in simp_all)
    qed
  qed
  then show ?thesis
    using False unfolding go_back_to_def wp_bind wp_has_payload_exact by simp
qed

lemma wp_rollback:
  assumes cx: "rx_layout ctx = Some root" "rx_state ctx = Some st" "rx_clock ctx = Some clk"
    and r: "ready root s" and cur: "marked (current_marker_path root) (tree s) \<noteq> []"
    and prev: "marked (previous_marker_path root) (tree s) = target" "target \<noteq> []"
    and Q: "\<And>res s'. going_back root target (now_string tick clk) st s res s' \<Longrightarrow> Q (fst res, Some (snd res)) s'"
  shows "wp (rollback api tick ctx) Q s"
proof -
  let ?c = "marked (current_marker_path root) (tree s)"
  have r1: "ready root s1" if "idle s s1" for s1
    using r that by (simp add: ready_def idle_def calm_def)
  have return: "wp (go_back_to api tick root st clk ?c target) (\<lambda>res. Q (fst res, Some (snd res))) s2"
    if i: "idle s s2" for s2
  proof (rule wp_go_back [OF r1 [OF i]])
    fix res s' assume "going_back root target (now_string tick clk) st s2 res s'"
    moreover have "tree s2 = tree s" using i by (simp add: idle_def)
    ultimately have "going_back root target (now_string tick clk) st s res s'"
      by (simp only: going_back_def committed_def)
    then show "Q (fst res, Some (snd res)) s'" by (rule Q)
  qed (use i in \<open>simp add: idle_def\<close>)
  have target: "wp (rollback_target api root ?c) (\<lambda>t. wp (case t of
        Inl d \<Rightarrow> return_io (\<lparr>rb_outcome = No_rollback_target, rb_from = [], rb_to = [], rb_detail = d\<rparr>, Some st)
      | Inr t \<Rightarrow> go_back_to api tick root st clk ?c t \<bind> (\<lambda>(r, st'). return_io (r, Some st'))) Q) s1"
    if i: "idle s s1" for s1
    unfolding rollback_target_def read_previous_version_def wp_bind
  proof (rule wp_read_one_line, goal_cases)
    case (1 v s2)
    have "v = target" using 1(2) readyD(7) [OF r1 [OF i]] prev(1) i by (simp add: marked_def idle_def)
    then show ?case using prev(2) return [OF idle_trans [OF i 1(1)]] by (simp add: case_prod_unfold)
  qed
  show ?thesis
    unfolding rollback_def cx option.case prod.case read_current_version_def wp_bind
  proof (rule wp_read_one_line, goal_cases)
    case (1 v s1)
    have "v = ?c" using 1(2) readyD(7) [OF r] by (simp add: marked_def)
    then show ?case using cur target [OF 1(1)] by simp
  qed
qed


section \<open>Witnesses\<close>

definition sample_offer :: "string \<Rightarrow> manifest" where
  "sample_offer v =
     \<lparr>mf_schema = 1, generated_at = [], mf_channel = \<lparr>ch_name = Stable, expires_at = []\<rparr>,
      mf_release = \<lparr>rel_version = v, released_at = [], min_previous_version = [], rollback_target = [],
        notes_url = [], mandatory = False\<rparr>,
      mf_artifacts = [\<lparr>a_os = Linux_os, a_arch = X86_64, a_url = ''https://x'',
        a_sha256 = sha256_hex sample_sodium [1, 2], a_size = 2\<rparr>],
      mf_signing = \<lparr>algorithm = ''ed25519'', public_key_id = ''k''\<rparr>\<rparr>"

definition sample_context :: "string \<Rightarrow> update_state \<Rightarrow> apply_context" where
  "sample_context v st =
     \<lparr>cx_manifest = Some (sample_offer v), artifact_bytes = [1, 2], cx_layout = Some [''c''], cx_state = Some st,
      cx_clock = Some \<lparr>gate_now = 0, event_now = 0\<rparr>, cx_platform = \<lparr>h_os = Linux_os, h_arch = X86_64\<rparr>,
      cx_current_version = current_installed_version st\<rparr>"

abbreviation attempt_sample :: "string \<Rightarrow> update_state \<Rightarrow> (apply_result \<times> update_state option) \<times> fs" where
  "attempt_sample v st \<equiv> run_state (apply_update sample_sodium line_reader 1000000000 (sample_context v st)) blank_disk"

lemma sample_update: "fst (attempt_sample ''1.1.0'' fresh_state) =
    (\<lparr>outcome = Applied, refusal = Malformed_offered, applied_version = ''1.1.0'', detail = ''applied''\<rparr>,
     Some (note_applied ''1.1.0'' ''1970-01-01T00:00:00Z'' fresh_state))"
  by code_simp

lemma sample_context_simps [simp]:
  "cx_manifest (sample_context v st) = Some (sample_offer v)" "cx_layout (sample_context v st) = Some [''c'']"
  "cx_state (sample_context v st) = Some st" "cx_clock (sample_context v st) = Some \<lparr>gate_now = 0, event_now = 0\<rparr>"
  by (simp_all add: sample_context_def)

lemma blank_ready: "ready [''c''] blank_disk"
proof -
  have "faults blank_disk q = []" for q using healthy_blank by (rule healthy_faults)
  moreover have "look (tree blank_disk) [''c'', x] \<noteq> Some Dir" for x unfolding look_blank by simp
  ultimately show ?thesis
    by (simp add: ready_def current_marker_path_def previous_marker_path_def rollback_log_path_def del: blank_tree)
qed


theorem updates_never_downgrade_witness:
  "\<exists>st. updates sample_sodium line_reader 1000000000 fresh_state [''1.1.0'', ''1.10.0''] st
     \<and> (\<exists>x y. split_version ''1.1.0'' = Some x \<and> split_version ''1.10.0'' = Some y \<and> x \<le> y)"
proof -
  let ?st1 = "note_applied ''1.1.0'' ''1970-01-01T00:00:00Z'' fresh_state"
  have second: "fst (attempt_sample ''1.10.0'' ?st1) =
      (\<lparr>outcome = Applied, refusal = Malformed_offered, applied_version = ''1.10.0'', detail = ''applied''\<rparr>,
       Some (note_applied ''1.10.0'' ''1970-01-01T00:00:00Z'' ?st1))"
    by code_simp
  have c: "cx_state (sample_context v st) = Some st" for v st by (simp add: sample_context_def)
  have "updates sample_sodium line_reader 1000000000 fresh_state [''1.1.0''] ?st1"
    using updates.updated [OF fresh_client c, of sample_sodium line_reader 1000000000 "''1.1.0''" fresh_state blank_disk]
      sample_update by (auto simp: took_effect_def prod_eq_iff)
  from updates.updated [OF this c, of "''1.10.0''" blank_disk]
  have u: "updates sample_sodium line_reader 1000000000 fresh_state [''1.1.0'', ''1.10.0'']
      (note_applied ''1.10.0'' ''1970-01-01T00:00:00Z'' ?st1)"
    using second by (auto simp: took_effect_def prod_eq_iff)
  then show ?thesis using updates_never_downgrade [OF u, of 0 1] by auto
qed

text \<open>An install of 1.1.0, its update to 1.10.0, and the way back.\<close>

definition sample_installed :: fs where
  "sample_installed =
     \<lparr>tree = [([], Dir), ([''c''], Dir), ([''c'', ''current.txt''], File (bytes_of (''1.1.0'' @ newline))),
        ([''c'', ''versions''], Dir), ([''c'', ''versions'', ''1.1.0''], Dir),
        ([''c'', ''versions'', ''1.1.0'', ''payload''], File [8])],
      faults = \<lambda>_. [], entropy = [], trace = []\<rparr>"

lemma sample_installed_ready: "ready [''c''] sample_installed"
  by (simp add: ready_def sample_installed_def tree_ok_def look_def current_marker_path_def
      previous_marker_path_def rollback_log_path_def)

definition sample_state1 :: update_state where
  "sample_state1 = note_applied ''1.1.0'' [] fresh_state"

definition sample_return :: "update_state \<Rightarrow> rollback_context" where
  "sample_return st = \<lparr>rx_layout = Some [''c''], rx_state = Some st, rx_clock = Some \<lparr>gate_now = 0, event_now = 0\<rparr>\<rparr>"

lemma sample_second:
  "fst (run_state (apply_update sample_sodium line_reader 1000000000 (sample_context ''1.10.0'' sample_state1)) sample_installed) =
     (\<lparr>outcome = Applied, refusal = Malformed_offered, applied_version = ''1.10.0'', detail = ''applied''\<rparr>,
      Some (note_applied ''1.10.0'' ''1970-01-01T00:00:00Z'' sample_state1))"
  by code_simp


end
