(* ===== verification/Registry.thy ===== *)
theory Registry
  imports Runner
begin

text \<open>
  The capability registry of the plugin host (src/plugin-host/registry.cpp,
  include/souxmar/plugin/registry.h): registration of the five kinds of capability, lookups,
  listings, removal at unload, and the C ABI plugins call.  An \<open>std::unordered_map\<close> is an
  association list with distinct keys whose order stands for the iteration order; everything the
  registry lets out is sorted.  \<open>capability_store\<close> is the contract the loader relies on.
\<close>

section \<open>Entries\<close>

text \<open>
  The five vtable structs of include/souxmar-c differ in the type of their entry function only:
  \<open>mesh_fn\<close>, \<open>solve_fn\<close>, \<open>write_fn\<close>, \<open>compute_fn\<close> or \<open>read_fn\<close>.  A pointer is \<open>None\<close> when
  null; a non-null function pointer and a \<open>void*\<close> are addresses, a vtable pointer is the
  struct it points to, which the ABI requires to stay as it is while the plugin is loaded.
\<close>

record vtable =
  vt_abi_version :: u32
  vt_entry_fn :: "nat option"
  vt_destroy_fn :: "nat option"

datatype capability_kind = Mesher | Solver | Writer | Postproc | Reader

record plugin_entry =
  pe_vtable :: vtable
  pe_user_data :: nat

datatype payload =
    Mesher_entry plugin_entry
  | Solver_entry plugin_entry
  | Writer_entry plugin_entry
  | Postproc_entry plugin_entry
  | Reader_entry plugin_entry

record capability_entry =
  ce_id :: string
  ce_plugin_id :: string
  ce_kind :: capability_kind
  ce_abi_version :: u32
  ce_threading :: threading_model
  ce_payload :: payload

record registry =
  rg_entries :: "(string \<times> capability_entry) list"
  rg_current_plugin_id :: string
  rg_current_threading :: threading_model

definition new_registry :: registry where
  "new_registry =
     \<lparr>rg_entries = [], rg_current_plugin_id = [], rg_current_threading = Single_threaded\<rparr>"

definition abi_version_major :: u32 where
  "abi_version_major = 1"

section \<open>Registration\<close>

definition about_capability :: "string \<Rightarrow> string \<Rightarrow> string" where
  "about_capability capability_id m = quoted capability_id @ '': '' @ m"

definition abi_refusal :: "u32 \<Rightarrow> string" where
  "abi_refusal v = ''vtable.abi_version = '' @ int_str (sint v) @ '', host expects ''
     @ int_str (sint abi_version_major)"

text \<open>
  The body the five \<open>add_\<close> methods share: \<open>fn\<close> is the name of the entry function, \<open>wrap\<close>
  the constructor of the payload.
\<close>

definition add_capability ::
  "capability_kind \<Rightarrow> string \<Rightarrow> (plugin_entry \<Rightarrow> payload) \<Rightarrow> string \<Rightarrow> string \<Rightarrow> vtable option \<Rightarrow>
     nat \<Rightarrow> threading_model \<Rightarrow> registry \<Rightarrow> string + registry" where
  "add_capability kind fn wrap capability_id plugin_id vt user_data threading r =
     (if capability_id = [] then Inl ''capability_id must not be empty''
      else case vt of
        None \<Rightarrow> Inl (about_capability capability_id ''vtable pointer is null'')
      | Some v \<Rightarrow>
          if vt_abi_version v \<noteq> abi_version_major
          then Inl (about_capability capability_id (abi_refusal (vt_abi_version v)))
          else if vt_entry_fn v = None
          then Inl (about_capability capability_id (''vtable.'' @ fn @ '' is null''))
          else if map_of (rg_entries r) capability_id \<noteq> None
          then Inl (about_capability capability_id ''capability already registered'')
          else Inr (r\<lparr>rg_entries := (capability_id,
                 \<lparr>ce_id = capability_id, ce_plugin_id = plugin_id, ce_kind = kind,
                  ce_abi_version = vt_abi_version v, ce_threading = threading,
                  ce_payload = wrap \<lparr>pe_vtable = v, pe_user_data = user_data\<rparr>\<rparr>) # rg_entries r\<rparr>))"

definition add_mesher where
  "add_mesher = add_capability Mesher ''mesh_fn'' Mesher_entry"

definition add_solver where
  "add_solver = add_capability Solver ''solve_fn'' Solver_entry"

definition add_writer where
  "add_writer = add_capability Writer ''write_fn'' Writer_entry"

definition add_postproc where
  "add_postproc = add_capability Postproc ''compute_fn'' Postproc_entry"

definition add_reader where
  "add_reader = add_capability Reader ''read_fn'' Reader_entry"

section \<open>Read access\<close>

definition registry_size :: "registry \<Rightarrow> nat" where
  "registry_size r = length (rg_entries r)"

definition list_capabilities :: "registry \<Rightarrow> string list" where
  "list_capabilities r = sort (map fst (rg_entries r))"

definition trim_dots :: "string \<Rightarrow> string" where
  "trim_dots ns = rev (dropWhile (\<lambda>c. c = CHR ''.'') (rev ns))"

definition list_capabilities_in_namespace :: "registry \<Rightarrow> string \<Rightarrow> string list" where
  "list_capabilities_in_namespace r ns =
     (let prefix = trim_dots ns @ ''.''
      in sort (filter (\<lambda>id. length id > length prefix \<and> take (length prefix) id = prefix)
                 (map fst (rg_entries r))))"

definition find_capability :: "registry \<Rightarrow> string \<Rightarrow> capability_entry option" where
  "find_capability r capability_id = map_of (rg_entries r) capability_id"

definition find_mesher :: "registry \<Rightarrow> string \<Rightarrow> plugin_entry option" where
  "find_mesher r capability_id = (case find_capability r capability_id of
     None \<Rightarrow> None
   | Some e \<Rightarrow> if ce_kind e \<noteq> Mesher then None
       else case ce_payload e of Mesher_entry p \<Rightarrow> Some p | _ \<Rightarrow> None)"

definition find_solver :: "registry \<Rightarrow> string \<Rightarrow> plugin_entry option" where
  "find_solver r capability_id = (case find_capability r capability_id of
     None \<Rightarrow> None
   | Some e \<Rightarrow> if ce_kind e \<noteq> Solver then None
       else case ce_payload e of Solver_entry p \<Rightarrow> Some p | _ \<Rightarrow> None)"

definition find_writer :: "registry \<Rightarrow> string \<Rightarrow> plugin_entry option" where
  "find_writer r capability_id = (case find_capability r capability_id of
     None \<Rightarrow> None
   | Some e \<Rightarrow> if ce_kind e \<noteq> Writer then None
       else case ce_payload e of Writer_entry p \<Rightarrow> Some p | _ \<Rightarrow> None)"

definition find_postproc :: "registry \<Rightarrow> string \<Rightarrow> plugin_entry option" where
  "find_postproc r capability_id = (case find_capability r capability_id of
     None \<Rightarrow> None
   | Some e \<Rightarrow> if ce_kind e \<noteq> Postproc then None
       else case ce_payload e of Postproc_entry p \<Rightarrow> Some p | _ \<Rightarrow> None)"

definition find_reader :: "registry \<Rightarrow> string \<Rightarrow> plugin_entry option" where
  "find_reader r capability_id = (case find_capability r capability_id of
     None \<Rightarrow> None
   | Some e \<Rightarrow> if ce_kind e \<noteq> Reader then None
       else case ce_payload e of Reader_entry p \<Rightarrow> Some p | _ \<Rightarrow> None)"

definition find_threading :: "registry \<Rightarrow> string \<Rightarrow> threading_model option" where
  "find_threading r capability_id = (case map_of (rg_entries r) capability_id of
     Some e \<Rightarrow> Some (ce_threading e)
   | None \<Rightarrow> None)"

text \<open>\<open>remove_plugin\<close>: the loop erases the entries of the plugin as it passes them.\<close>

fun erase_owned :: "string \<Rightarrow> (string \<times> capability_entry) list \<Rightarrow> (string \<times> capability_entry) list"
  where
  "erase_owned plugin_id [] = []"
| "erase_owned plugin_id (it # its) =
     (if ce_plugin_id (snd it) = plugin_id then erase_owned plugin_id its
      else it # erase_owned plugin_id its)"

definition remove_plugin :: "string \<Rightarrow> registry \<Rightarrow> registry" where
  "remove_plugin plugin_id r = r\<lparr>rg_entries := erase_owned plugin_id (rg_entries r)\<rparr>"

section \<open>The C ABI\<close>

record c_status =
  cs_code :: u32
  cs_message :: "string option"

definition status_ok :: c_status where
  "status_ok = \<lparr>cs_code = 0, cs_message = None\<rparr>"

definition status_error :: "u32 \<Rightarrow> string \<Rightarrow> c_status" where
  "status_error code m = \<lparr>cs_code = code, cs_message = Some m\<rparr>"

definition e_invalid_argument :: u32 where "e_invalid_argument = 1"
definition e_internal :: u32 where "e_internal = 4"
definition e_plugin_rejected :: u32 where "e_plugin_rejected = 9"

text \<open>A \<open>std::bad_alloc\<close> or another exception of the registration is not modelled.\<close>

definition add_c_impl ::
  "string option \<Rightarrow> string \<Rightarrow> (string \<Rightarrow> string + registry) \<Rightarrow> registry \<Rightarrow> c_status \<times> registry" where
  "add_c_impl capability_id function_name registration r =
     (case capability_id of
        None \<Rightarrow> (status_error e_invalid_argument function_name, r)
      | Some cid \<Rightarrow> (case registration cid of
          Inl m \<Rightarrow> (status_error e_plugin_rejected m, r)
        | Inr r' \<Rightarrow> (status_ok, r')))"

definition add_mesher_c where
  "add_mesher_c plugin_id capability_id vt user_data r =
     add_c_impl capability_id ''souxmar_registry_add_mesher''
       (\<lambda>id. add_mesher id plugin_id vt user_data (rg_current_threading r) r) r"

definition add_solver_c where
  "add_solver_c plugin_id capability_id vt user_data r =
     add_c_impl capability_id ''souxmar_registry_add_solver''
       (\<lambda>id. add_solver id plugin_id vt user_data (rg_current_threading r) r) r"

definition add_writer_c where
  "add_writer_c plugin_id capability_id vt user_data r =
     add_c_impl capability_id ''souxmar_registry_add_writer''
       (\<lambda>id. add_writer id plugin_id vt user_data (rg_current_threading r) r) r"

definition add_postproc_c where
  "add_postproc_c plugin_id capability_id vt user_data r =
     add_c_impl capability_id ''souxmar_registry_add_postproc''
       (\<lambda>id. add_postproc id plugin_id vt user_data (rg_current_threading r) r) r"

definition add_reader_c where
  "add_reader_c plugin_id capability_id vt user_data r =
     add_c_impl capability_id ''souxmar_registry_add_reader''
       (\<lambda>id. add_reader id plugin_id vt user_data (rg_current_threading r) r) r"

text \<open>The exported functions; \<open>handle\<close> tells whether the registry pointer is not null.\<close>

definition souxmar_registry_add_mesher where
  "souxmar_registry_add_mesher handle capability_id vt user_data r =
     (if \<not> handle
      then (status_error e_invalid_argument ''souxmar_registry_add_mesher: registry is NULL'', r)
      else add_mesher_c (rg_current_plugin_id r) capability_id vt user_data r)"

definition souxmar_registry_add_solver where
  "souxmar_registry_add_solver handle capability_id vt user_data r =
     (if \<not> handle
      then (status_error e_invalid_argument ''souxmar_registry_add_solver: registry is NULL'', r)
      else add_solver_c (rg_current_plugin_id r) capability_id vt user_data r)"

definition souxmar_registry_add_writer where
  "souxmar_registry_add_writer handle capability_id vt user_data r =
     (if \<not> handle
      then (status_error e_invalid_argument ''souxmar_registry_add_writer: registry is NULL'', r)
      else add_writer_c (rg_current_plugin_id r) capability_id vt user_data r)"

definition souxmar_registry_add_postproc where
  "souxmar_registry_add_postproc handle capability_id vt user_data r =
     (if \<not> handle
      then (status_error e_invalid_argument ''souxmar_registry_add_postproc: registry is NULL'', r)
      else add_postproc_c (rg_current_plugin_id r) capability_id vt user_data r)"

definition souxmar_registry_add_reader where
  "souxmar_registry_add_reader handle capability_id vt user_data r =
     (if \<not> handle
      then (status_error e_invalid_argument ''souxmar_registry_add_reader: registry is NULL'', r)
      else add_reader_c (rg_current_plugin_id r) capability_id vt user_data r)"

section \<open>The five kinds together\<close>

definition register_with ::
  "capability_kind \<Rightarrow> string \<Rightarrow> string \<Rightarrow> vtable option \<Rightarrow> nat \<Rightarrow> threading_model \<Rightarrow> registry \<Rightarrow>
     string + registry" where
  "register_with kind = (case kind of
       Mesher \<Rightarrow> add_mesher | Solver \<Rightarrow> add_solver | Writer \<Rightarrow> add_writer
     | Postproc \<Rightarrow> add_postproc | Reader \<Rightarrow> add_reader)"

definition find_with :: "capability_kind \<Rightarrow> registry \<Rightarrow> string \<Rightarrow> plugin_entry option" where
  "find_with kind = (case kind of
       Mesher \<Rightarrow> find_mesher | Solver \<Rightarrow> find_solver | Writer \<Rightarrow> find_writer
     | Postproc \<Rightarrow> find_postproc | Reader \<Rightarrow> find_reader)"

definition c_register_with ::
  "capability_kind \<Rightarrow> bool \<Rightarrow> string option \<Rightarrow> vtable option \<Rightarrow> nat \<Rightarrow> registry \<Rightarrow>
     c_status \<times> registry" where
  "c_register_with kind = (case kind of
       Mesher \<Rightarrow> souxmar_registry_add_mesher | Solver \<Rightarrow> souxmar_registry_add_solver
     | Writer \<Rightarrow> souxmar_registry_add_writer | Postproc \<Rightarrow> souxmar_registry_add_postproc
     | Reader \<Rightarrow> souxmar_registry_add_reader)"

section \<open>The abstract catalogue\<close>

text \<open>
  What the registry promises, without its representation: a partial map from ids to entries.
  A registration is accepted when its id is not empty and free and its vtable is usable; what it
  adds is determined by the request.
\<close>

type_synonym catalogue = "string \<rightharpoonup> capability_entry"

definition catalogue_of :: "registry \<Rightarrow> catalogue" where
  "catalogue_of r = map_of (rg_entries r)"

definition usable_vtable :: "vtable option \<Rightarrow> bool" where
  "usable_vtable vt =
     (\<exists>v. vt = Some v \<and> vt_abi_version v = abi_version_major \<and> vt_entry_fn v \<noteq> None)"

definition acceptable :: "string \<Rightarrow> vtable option \<Rightarrow> catalogue \<Rightarrow> bool" where
  "acceptable capability_id vt c = (capability_id \<noteq> [] \<and> usable_vtable vt \<and> c capability_id = None)"

fun payload_for :: "capability_kind \<Rightarrow> plugin_entry \<Rightarrow> payload" where
  "payload_for Mesher = Mesher_entry"
| "payload_for Solver = Solver_entry"
| "payload_for Writer = Writer_entry"
| "payload_for Postproc = Postproc_entry"
| "payload_for Reader = Reader_entry"

definition new_entry ::
  "capability_kind \<Rightarrow> string \<Rightarrow> string \<Rightarrow> vtable \<Rightarrow> nat \<Rightarrow> threading_model \<Rightarrow> capability_entry" where
  "new_entry kind capability_id plugin_id v user_data threading =
     \<lparr>ce_id = capability_id, ce_plugin_id = plugin_id, ce_kind = kind,
      ce_abi_version = vt_abi_version v, ce_threading = threading,
      ce_payload = payload_for kind \<lparr>pe_vtable = v, pe_user_data = user_data\<rparr>\<rparr>"

definition without_plugin :: "string \<Rightarrow> catalogue \<Rightarrow> catalogue" where
  "without_plugin plugin_id c = (\<lambda>k. case c k of
     Some e \<Rightarrow> if ce_plugin_id e = plugin_id then None else Some e | None \<Rightarrow> None)"

definition in_namespace :: "string \<Rightarrow> string \<Rightarrow> bool" where
  "in_namespace ns k = (\<exists>name. name \<noteq> [] \<and> k = trim_dots ns @ ''.'' @ name)"

text \<open>The registry's invariant.\<close>

definition entry_ok :: "string \<Rightarrow> capability_entry \<Rightarrow> bool" where
  "entry_ok k e = (k \<noteq> [] \<and> ce_id e = k \<and> ce_abi_version e = abi_version_major \<and>
     (\<exists>p. ce_payload e = payload_for (ce_kind e) p \<and> usable_vtable (Some (pe_vtable p))))"

definition registry_ok :: "registry \<Rightarrow> bool" where
  "registry_ok r = (distinct (map fst (rg_entries r)) \<and> (\<forall>(k, e) \<in> set (rg_entries r). entry_ok k e))"

section \<open>Registration implements the catalogue\<close>

lemmas add_defs = add_mesher_def add_solver_def add_writer_def add_postproc_def add_reader_def

lemma register_with_capability:
  "register_with kind = add_capability kind
     (case kind of Mesher \<Rightarrow> ''mesh_fn'' | Solver \<Rightarrow> ''solve_fn'' | Writer \<Rightarrow> ''write_fn''
        | Postproc \<Rightarrow> ''compute_fn'' | Reader \<Rightarrow> ''read_fn'') (payload_for kind)"
  by (cases kind) (simp_all add: register_with_def add_defs)

lemma register_with_Inr:
  "register_with kind k p vt ud t r = Inr r' \<longleftrightarrow>
     acceptable k vt (catalogue_of r)
     \<and> r' = r\<lparr>rg_entries := (k, new_entry kind k p (the vt) ud t) # rg_entries r\<rparr>"
  by (auto simp: register_with_capability add_capability_def acceptable_def usable_vtable_def
      catalogue_of_def new_entry_def split: option.split)

lemma register_with_accepted:
  "acceptable k vt (catalogue_of r) \<Longrightarrow> register_with kind k p vt ud t r
     = Inr (r\<lparr>rg_entries := (k, new_entry kind k p (the vt) ud t) # rg_entries r\<rparr>)"
  by (simp add: register_with_Inr)

lemma register_with_refused:
  "\<not> acceptable k vt (catalogue_of r) \<Longrightarrow> \<exists>m. register_with kind k p vt ud t r = Inl m"
  by (cases "register_with kind k p vt ud t r") (auto simp: register_with_Inr)

lemma entry_ok_new_entry:
  "acceptable k vt c \<Longrightarrow> entry_ok k (new_entry kind k p (the vt) ud t)"
  by (auto simp: acceptable_def usable_vtable_def entry_ok_def new_entry_def)

lemma catalogue_of_Cons [simp]:
  "catalogue_of (r\<lparr>rg_entries := (k, e) # rg_entries r\<rparr>) = (catalogue_of r)(k \<mapsto> e)"
  by (simp add: catalogue_of_def)

lemma registry_ok_Cons:
  "registry_ok r \<Longrightarrow> catalogue_of r k = None \<Longrightarrow> entry_ok k e \<Longrightarrow>
     registry_ok (r\<lparr>rg_entries := (k, e) # rg_entries r\<rparr>)"
  by (auto simp: registry_ok_def catalogue_of_def map_of_eq_None_iff)

lemma registry_ok_new [simp]: "registry_ok new_registry"
  by (simp add: registry_ok_def new_registry_def)

lemma registry_ok_register:
  "registry_ok r \<Longrightarrow> register_with kind k p vt ud t r = Inr r' \<Longrightarrow> registry_ok r'"
  by (auto simp: register_with_Inr acceptable_def intro!: registry_ok_Cons entry_ok_new_entry)

lemma registry_ok_entry:
  "registry_ok r \<Longrightarrow> catalogue_of r k = Some e \<Longrightarrow> entry_ok k e"
  by (auto simp: registry_ok_def catalogue_of_def dest: map_of_SomeD)

section \<open>Removal and listings\<close>

lemma set_erase_owned: "set (erase_owned p es) = {e \<in> set es. ce_plugin_id (snd e) \<noteq> p}"
  by (induction es) auto

lemma distinct_erase_owned:
  "distinct (map fst es) \<Longrightarrow> distinct (map fst (erase_owned p es))"
  by (induction es) (auto simp: set_erase_owned)

lemma map_of_erase_owned:
  "distinct (map fst es) \<Longrightarrow> map_of (erase_owned p es) = without_plugin p (map_of es)"
proof (induction es)
  case (Cons e es)
  then have fresh: "map_of es (fst e) = None"
    by (simp add: map_of_eq_None_iff)
  show ?case
    using Cons fresh by (auto simp: without_plugin_def fun_eq_iff split: option.splits)
qed (simp add: without_plugin_def fun_eq_iff)

lemma catalogue_of_remove_plugin:
  "registry_ok r \<Longrightarrow> catalogue_of (remove_plugin p r) = without_plugin p (catalogue_of r)"
  by (simp add: catalogue_of_def remove_plugin_def registry_ok_def map_of_erase_owned)

lemma registry_ok_remove_plugin: "registry_ok r \<Longrightarrow> registry_ok (remove_plugin p r)"
  by (auto simp: registry_ok_def remove_plugin_def distinct_erase_owned set_erase_owned)

lemma catalogue_dom: "dom (catalogue_of r) = set (map fst (rg_entries r))"
  by (simp add: catalogue_of_def dom_map_of_conv_image_fst)

lemma finite_catalogue [simp]: "finite (dom (catalogue_of r))"
  by (simp add: catalogue_dom)

lemma registry_size_card: "registry_ok r \<Longrightarrow> registry_size r = card (dom (catalogue_of r))"
  unfolding catalogue_dom registry_ok_def registry_size_def by (metis distinct_card length_map)

lemma sort_distinct_is_sorted_list:
  "distinct (xs :: string list) \<Longrightarrow> sort xs = sorted_list_of_set (set xs)"
  by (simp add: sorted_list_of_set_sort_remdups distinct_remdups_id)

lemma list_capabilities_sorted:
  "registry_ok r \<Longrightarrow> list_capabilities r = sorted_list_of_set (dom (catalogue_of r))"
  unfolding catalogue_dom list_capabilities_def registry_ok_def
  by (intro sort_distinct_is_sorted_list) simp

lemma has_prefix_iff:
  "length k > length p \<and> take (length p) k = p \<longleftrightarrow> (\<exists>name. name \<noteq> [] \<and> k = p @ name)"
proof
  assume a: "length k > length p \<and> take (length p) k = p"
  have "p @ drop (length p) k = take (length p) k @ drop (length p) k" by (simp only: a)
  also have "\<dots> = k" by (rule append_take_drop_id)
  finally have "k = p @ drop (length p) k" by (rule sym)
  moreover have "drop (length p) k \<noteq> []" using a by (simp only: drop_eq_Nil) linarith
  ultimately show "\<exists>name. name \<noteq> [] \<and> k = p @ name" by blast
qed auto

lemma list_in_namespace_sorted:
  "registry_ok r \<Longrightarrow> list_capabilities_in_namespace r ns
     = sorted_list_of_set {k \<in> dom (catalogue_of r). in_namespace ns k}"
proof -
  assume "registry_ok r"
  then have d: "distinct (filter (in_namespace ns) (map fst (rg_entries r)))"
    by (simp only: registry_ok_def distinct_filter)
  have "list_capabilities_in_namespace r ns = sort (filter (in_namespace ns) (map fst (rg_entries r)))"
    unfolding list_capabilities_in_namespace_def Let_def has_prefix_iff in_namespace_def append_assoc ..
  also have "\<dots> = sorted_list_of_set (set (filter (in_namespace ns) (map fst (rg_entries r))))"
    by (rule sort_distinct_is_sorted_list [OF d])
  also have "set (filter (in_namespace ns) (map fst (rg_entries r)))
      = {k \<in> dom (catalogue_of r). in_namespace ns k}"
    unfolding catalogue_dom by (rule set_filter)
  finally show ?thesis .
qed

lemma find_with_Some:
  "registry_ok r \<Longrightarrow> find_with kind r k = Some p \<longleftrightarrow>
     (\<exists>e. catalogue_of r k = Some e \<and> ce_kind e = kind \<and> ce_payload e = payload_for kind p)"
  by (cases kind)
    (auto simp: find_with_def find_mesher_def find_solver_def find_writer_def find_postproc_def
      find_reader_def find_capability_def catalogue_of_def split: option.splits payload.splits)

section \<open>The C ABI\<close>

lemma c_register_with_eq:
  "c_register_with kind handle k vt ud r =
     (case (if handle then k else None) of
        None \<Rightarrow> (status_error e_invalid_argument
           (''souxmar_registry_add_''
             @ (case kind of Mesher \<Rightarrow> ''mesher'' | Solver \<Rightarrow> ''solver'' | Writer \<Rightarrow> ''writer''
                  | Postproc \<Rightarrow> ''postproc'' | Reader \<Rightarrow> ''reader'')
             @ (if handle then [] else '': registry is NULL'')), r)
      | Some k \<Rightarrow> (case register_with kind k (rg_current_plugin_id r) vt ud (rg_current_threading r) r of
          Inl m \<Rightarrow> (status_error e_plugin_rejected m, r) | Inr r' \<Rightarrow> (status_ok, r')))"
  by (cases kind; cases handle; cases k)
    (simp_all add: c_register_with_def register_with_def add_c_impl_def souxmar_registry_add_mesher_def
      souxmar_registry_add_solver_def souxmar_registry_add_writer_def
      souxmar_registry_add_postproc_def souxmar_registry_add_reader_def add_mesher_c_def
      add_solver_c_def add_writer_c_def add_postproc_c_def add_reader_c_def)

text \<open>Every call leaves the registry as it is, or adds one acceptable entry credited to the
  active plugin.\<close>

lemma c_register_with_cases:
  obtains (refused) "snd (c_register_with kind handle k vt ud r) = r"
      "cs_code (fst (c_register_with kind handle k vt ud r)) \<noteq> 0"
  | (added) id where "handle" "k = Some id" "acceptable id vt (catalogue_of r)"
      "c_register_with kind handle k vt ud r = (status_ok, r\<lparr>rg_entries :=
         (id, new_entry kind id (rg_current_plugin_id r) (the vt) ud (rg_current_threading r))
           # rg_entries r\<rparr>)"
proof (cases "if handle then k else None")
  case None
  then show ?thesis
    by (intro refused) (simp_all add: c_register_with_eq status_error_def e_invalid_argument_def)
next
  case (Some id)
  then have h: "handle" "k = Some id" by (auto split: if_splits)
  show ?thesis
  proof (cases "acceptable id vt (catalogue_of r)")
    case True
    show ?thesis
      using h True by (intro added [of id]) (simp_all add: c_register_with_eq register_with_accepted)
  next
    case False
    obtain m where "register_with kind id (rg_current_plugin_id r) vt ud (rg_current_threading r) r
        = Inl m"
      using register_with_refused [OF False] by blast
    then show ?thesis
      using h by (intro refused)
        (simp_all add: c_register_with_eq status_error_def e_plugin_rejected_def)
  qed
qed

section \<open>The store contract\<close>

text \<open>
  What a registration needs of the store: a call only adds entries, each credited to whoever is
  active.  A store from which an owner's entries can be dropped is one of these: dropping the
  active owner after any number of calls gives what dropping it before them gives.
\<close>

locale growing_store =
  fixes contents :: "'s \<Rightarrow> string \<Rightarrow> 'e option"
    and credit :: "'e \<Rightarrow> 'o"
    and active :: "'s \<Rightarrow> 'o"
    and good :: "'s \<Rightarrow> bool"
    and call :: "'c \<Rightarrow> 's \<Rightarrow> 's"
  assumes call_good: "good s \<Longrightarrow> good (call c s)"
    and call_active: "active (call c s) = active s"
    and call_keeps: "good s \<Longrightarrow> contents s k = Some e \<Longrightarrow> contents (call c s) k = Some e"
    and call_credits:
      "good s \<Longrightarrow> contents s k = None \<Longrightarrow> contents (call c s) k = Some e \<Longrightarrow> credit e = active s"
begin

definition enriched :: "'s \<Rightarrow> 's \<Rightarrow> bool" where
  "enriched s s' = (good s' \<and> active s' = active s
     \<and> (\<forall>k e. contents s k = Some e \<longrightarrow> contents s' k = Some e)
     \<and> (\<forall>k e. contents s k = None \<longrightarrow> contents s' k = Some e \<longrightarrow> credit e = active s))"

lemma enriched_refl: "good s \<Longrightarrow> enriched s s"
  by (simp add: enriched_def)

lemma enriched_call: "good s \<Longrightarrow> enriched s (call c s)"
  unfolding enriched_def using call_good call_active call_keeps call_credits by metis

lemma enriched_trans: "enriched s t \<Longrightarrow> enriched t u \<Longrightarrow> enriched s u"
  unfolding enriched_def by (metis not_None_eq)

lemma enriched_good: "enriched s t \<Longrightarrow> good t"
  by (simp add: enriched_def)

end

locale capability_store = growing_store +
  fixes owner :: "'b \<Rightarrow> string"
    and drop_owner :: "string \<Rightarrow> 'a \<Rightarrow> 'a"
  assumes drop_contents: "good s \<Longrightarrow> contents (drop_owner p s) k = Some e \<longleftrightarrow>
      contents s k = Some e \<and> owner e \<noteq> p"
begin

lemma drop_after_growth:
  assumes "good s" "enriched s s'" "\<And>e. credit e = active s \<Longrightarrow> owner e = p"
  shows "contents (drop_owner p s') = contents (drop_owner p s)"
proof
  fix k
  have "contents (drop_owner p s') k = Some e \<longleftrightarrow> contents (drop_owner p s) k = Some e" for e
    using assms unfolding enriched_def drop_contents [OF assms(1)] drop_contents [OF enriched_good [OF assms(2)]]
    by (metis not_None_eq option.inject)
  then show "contents (drop_owner p s') k = contents (drop_owner p s) k"
    by (rule option_eqI)
qed

lemma drop_stranger:
  assumes "good s" "\<And>k e. contents s k = Some e \<Longrightarrow> owner e \<noteq> p"
  shows "contents (drop_owner p s) = contents s"
proof
  fix k
  show "contents (drop_owner p s) k = contents s k"
    by (rule option_eqI) (use assms drop_contents in blast)
qed

end

type_synonym abi_call = "capability_kind \<times> bool \<times> string option \<times> vtable option \<times> nat"

fun abi_call :: "abi_call \<Rightarrow> registry \<Rightarrow> c_status \<times> registry" where
  "abi_call (kind, handle, k, vt, ud) r = c_register_with kind handle k vt ud r"

lemma abi_call_cases:
  obtains (refused) "snd (abi_call c r) = r" "cs_code (fst (abi_call c r)) \<noteq> 0"
  | (added) id e where "abi_call c r = (status_ok, r\<lparr>rg_entries := (id, e) # rg_entries r\<rparr>)"
      "catalogue_of r id = None" "entry_ok id e" "ce_plugin_id e = rg_current_plugin_id r"
      "ce_threading e = rg_current_threading r"
proof -
  obtain kind handle k vt ud where c: "c = (kind, handle, k, vt, ud)" by (cases c) auto
  show ?thesis
  proof (cases rule: c_register_with_cases [of kind handle k vt ud r])
    case refused
    then show ?thesis by (intro that(1)) (simp_all add: c)
  next
    case (added id)
    show ?thesis
    proof (rule that(2))
      show "abi_call c r = (status_ok, r\<lparr>rg_entries :=
          (id, new_entry kind id (rg_current_plugin_id r) (the vt) ud (rg_current_threading r))
            # rg_entries r\<rparr>)"
        using added(4) by (simp add: c)
      show "entry_ok id (new_entry kind id (rg_current_plugin_id r) (the vt) ud
          (rg_current_threading r))"
        by (rule entry_ok_new_entry) (fact added(3))
    qed (use added(3) in \<open>simp_all add: acceptable_def new_entry_def\<close>)
  qed
qed

definition credit_of :: "capability_entry \<Rightarrow> string \<times> threading_model" where
  "credit_of e = (ce_plugin_id e, ce_threading e)"

definition active_plugin :: "registry \<Rightarrow> string \<times> threading_model" where
  "active_plugin r = (rg_current_plugin_id r, rg_current_threading r)"

interpretation reg: capability_store catalogue_of credit_of active_plugin registry_ok
  "\<lambda>c r. snd (abi_call c r)" ce_plugin_id remove_plugin
proof (unfold_locales, goal_cases)
  case (1 r c)
  then show ?case
    by (cases rule: abi_call_cases [of c r]) (simp_all add: registry_ok_Cons)
next
  case (2 c r)
  show ?case by (cases rule: abi_call_cases [of c r]) (simp_all add: active_plugin_def)
next
  case (3 r k e c)
  then show ?case by (cases rule: abi_call_cases [of c r]) auto
next
  case (4 r k c e)
  then show ?case
    by (cases rule: abi_call_cases [of c r]) (auto simp: credit_of_def active_plugin_def split: if_splits)
next
  case (5 r p k e)
  then show ?case
    by (auto simp: catalogue_of_remove_plugin without_plugin_def split: option.splits if_splits)
qed

section \<open>The property\<close>

definition registry_example :: registry where
  "registry_example = new_registry\<lparr>rg_entries := [(''mesher.a'', new_entry Mesher ''mesher.a'' ''p''
     \<lparr>vt_abi_version = 1, vt_entry_fn = Some 7, vt_destroy_fn = None\<rparr> 0 Reentrant)]\<rparr>"

lemma registry_example_ok: "registry_ok registry_example"
  by (simp add: registry_ok_def registry_example_def entry_ok_def new_entry_def abi_version_major_def
      usable_vtable_def)

text \<open>C10: the registry implements the abstract catalogue.  A registration of any of the five
  kinds succeeds exactly when its id is not empty and free and its vtable is of this ABI and has
  an entry function; it then adds that entry and nothing else, and otherwise changes nothing.
  Removing a plugin drops exactly its entries, the invariant is kept, and the size, the listings
  and the typed lookups are those of the catalogue, the listings in ascending order.\<close>

theorem registry_implements_catalogue:
  assumes "registry_ok r"
  shows "(if acceptable k vt (catalogue_of r)
      then \<exists>r'. register_with kind k p vt ud t r = Inr r' \<and> registry_ok r'
        \<and> catalogue_of r' = (catalogue_of r)(k \<mapsto> new_entry kind k p (the vt) ud t)
      else \<exists>m. register_with kind k p vt ud t r = Inl m)
    \<and> registry_ok (remove_plugin p r)
    \<and> catalogue_of (remove_plugin p r) = without_plugin p (catalogue_of r)
    \<and> registry_size r = card (dom (catalogue_of r))
    \<and> list_capabilities r = sorted_list_of_set (dom (catalogue_of r))
    \<and> list_capabilities_in_namespace r ns
        = sorted_list_of_set {k \<in> dom (catalogue_of r). in_namespace ns k}
    \<and> (\<forall>pe. find_with kind r k = Some pe \<longleftrightarrow> (\<exists>e. catalogue_of r k = Some e
        \<and> ce_kind e = kind \<and> ce_payload e = payload_for kind pe))
    \<and> find_threading r k = map_option ce_threading (catalogue_of r k)"
proof (intro conjI allI)
  show "if acceptable k vt (catalogue_of r)
      then \<exists>r'. register_with kind k p vt ud t r = Inr r' \<and> registry_ok r'
        \<and> catalogue_of r' = (catalogue_of r)(k \<mapsto> new_entry kind k p (the vt) ud t)
      else \<exists>m. register_with kind k p vt ud t r = Inl m"
    using register_with_accepted [of k vt r kind p ud t] register_with_refused [of k vt r kind p ud t]
      registry_ok_register [OF assms] by (simp del: catalogue_of_Cons) (metis catalogue_of_Cons)
  show "find_threading r k = map_option ce_threading (catalogue_of r k)"
    by (simp add: find_threading_def catalogue_of_def split: option.split)
qed (intro registry_ok_remove_plugin catalogue_of_remove_plugin registry_size_card
    list_capabilities_sorted list_in_namespace_sorted find_with_Some assms)+

theorem registry_implements_catalogue_witness:
  "(\<exists>m. register_with Mesher ''mesher.a'' ''q''
      (Some \<lparr>vt_abi_version = 1, vt_entry_fn = Some 7, vt_destroy_fn = None\<rparr>) 0 Reentrant
      registry_example = Inl m)
   \<and> list_capabilities registry_example = sorted_list_of_set (dom (catalogue_of registry_example))"
proof -
  have "\<not> acceptable ''mesher.a'' (Some \<lparr>vt_abi_version = 1, vt_entry_fn = Some 7, vt_destroy_fn = None\<rparr>)
      (catalogue_of registry_example)"
    by (simp add: acceptable_def catalogue_of_def registry_example_def)
  then show ?thesis
    using registry_implements_catalogue [OF registry_example_ok, of "''mesher.a''"
        "Some \<lparr>vt_abi_version = 1, vt_entry_fn = Some 7, vt_destroy_fn = None\<rparr>" Mesher "''q''" 0
        Reentrant "[]"] by simp
qed

end
