(* ===== verification/Plugin_Manifest.thy ===== *)
theory Plugin_Manifest
  imports Toml Runner
begin

text \<open>
  The plugin manifest \<open>souxmar-plugin.toml\<close> (src/plugin-host/manifest.cpp,
  include/souxmar/plugin/manifest.h): the checks on ids, versions and capabilities, and the parser
  with its rejection codes.  toml++ is the record of accessors of \<open>Toml\<close>, with the position its
  parse error carries.
\<close>

section \<open>Data\<close>

datatype manifest_rejection =
    Rejection_ok | Toml_syntax | Missing_field | Wrong_type | Abi_unsupported | Empty_capabilities
  | Unknown_threading | Invalid_capability_namespace | Invalid_plugin_id | Invalid_version | File_io

fun rejection_str :: "manifest_rejection \<Rightarrow> string" where
  "rejection_str Rejection_ok = ''ok''"
| "rejection_str Toml_syntax = ''toml_syntax''"
| "rejection_str Missing_field = ''missing_field''"
| "rejection_str Wrong_type = ''wrong_type''"
| "rejection_str Abi_unsupported = ''abi_unsupported''"
| "rejection_str Empty_capabilities = ''empty_capabilities''"
| "rejection_str Unknown_threading = ''unknown_threading''"
| "rejection_str Invalid_capability_namespace = ''invalid_capability_namespace''"
| "rejection_str Invalid_plugin_id = ''invalid_plugin_id''"
| "rejection_str Invalid_version = ''invalid_version''"
| "rejection_str File_io = ''file_io''"

record manifest_error =
  me_message :: string
  me_line :: "nat option"
  me_column :: "nat option"
  me_field :: string
  me_code :: manifest_rejection

record plugin_manifest =
  pm_id :: string
  pm_name :: string
  pm_version :: string
  pm_abi :: u32
  pm_license :: string
  pm_homepage :: string
  pm_binary_file :: string
  pm_capabilities :: "string list"
  pm_threading :: threading_model
  pm_souxmar_constraint :: string
  pm_description :: string
  pm_documentation :: string
  pm_tags :: "string list"
  pm_min_abi_minor :: u32

fun threading_str :: "threading_model \<Rightarrow> string" where
  "threading_str Reentrant = ''reentrant''"
| "threading_str Single_threaded = ''single-threaded''"
| "threading_str Internal_parallel = ''internal-parallel''"

definition threading_from_string :: "string \<Rightarrow> threading_model option" where
  "threading_from_string s =
     (if s = ''reentrant'' then Some Reentrant
      else if s = ''single-threaded'' then Some Single_threaded
      else if s = ''internal-parallel'' then Some Internal_parallel else None)"

definition allowed_namespaces :: "string list" where
  "allowed_namespaces = [''reader'', ''writer'', ''mesher'', ''element'', ''solver'', ''postproc'']"

section \<open>The checks on strings\<close>

text \<open>\<open>std::isalnum\<close> in the C locale.\<close>

definition is_alnum :: "char \<Rightarrow> bool" where
  "is_alnum c = (is_digit c \<or> (of_char c :: nat) \<in> {65..90} \<or> (of_char c :: nat) \<in> {97..122})"

definition id_char_ok :: "char \<Rightarrow> bool" where
  "id_char_ok c =
     (if of_char c \<le> (0x20 :: nat) \<or> c = CHR 0x7F then False
      else if c = CHR ''/'' \<or> c = CHR 0x5C then False
      else is_alnum c \<or> c = CHR ''.'' \<or> c = CHR ''-'' \<or> c = CHR ''_'')"

definition plugin_id_looks_valid :: "string \<Rightarrow> bool" where
  "plugin_id_looks_valid s =
     (if s = [] then False
      else if CHR ''.'' \<notin> set s then False
      else if \<not> list_all id_char_ok s then False
      else \<not> (hd s = CHR ''.'' \<or> last s = CHR ''.''))"

text \<open>The loop of \<open>version_looks_valid\<close>: the rest of the string, the dots passed, and whether
  the part read so far has a digit.\<close>

fun version_loop :: "string \<Rightarrow> nat \<Rightarrow> bool \<Rightarrow> bool" where
  "version_loop [] dots seen = (dots = 2 \<and> seen)"
| "version_loop (c # cs) dots seen =
     (if c = CHR ''.'' then (if \<not> seen then False else version_loop cs (dots + 1) False)
      else if c = CHR ''-'' \<or> c = CHR ''+'' then \<not> (dots < 2 \<or> \<not> seen)
      else if \<not> is_digit c then False
      else version_loop cs dots True)"

definition version_looks_valid :: "string \<Rightarrow> bool" where
  "version_looks_valid v = (if v = [] then False else version_loop v 0 False)"

definition is_allowed_capability :: "string \<Rightarrow> bool" where
  "is_allowed_capability s =
     (let ns = takeWhile (\<lambda>c. c \<noteq> CHR ''.'') s; dot = length ns
      in if dot = length s \<or> dot = 0 \<or> dot + 1 = length s then False
         else ns \<in> set allowed_namespaces)"

section \<open>The parser\<close>

text \<open>\<open>at_path\<close> follows the keys through tables.  \<open>toml_position\<close> is the position of the parse
  error, none when another exception was caught.\<close>

record 'n located_toml = "'n toml" +
  toml_position :: "string \<Rightarrow> (nat \<times> nat) option"

fun at_path :: "('n, 'x) toml_scheme \<Rightarrow> string list \<Rightarrow> 'n \<Rightarrow> 'n option" where
  "at_path api [] n = Some n"
| "at_path api (k # ks) n =
     (if \<not> toml_is_table api n then None
      else case toml_get api n k of None \<Rightarrow> None | Some n \<Rightarrow> at_path api ks n)"

definition field_error :: "manifest_rejection \<Rightarrow> string list \<Rightarrow> string \<Rightarrow> manifest_error" where
  "field_error code path m =
     \<lparr>me_message = m, me_line = None, me_column = None, me_field = join ''.'' path, me_code = code\<rparr>"

definition missing_field :: "string list \<Rightarrow> manifest_error" where
  "missing_field path =
     field_error Missing_field path (''missing required field '' @ quoted (join ''.'' path))"

definition get_required_string ::
  "('n, 'x) toml_scheme \<Rightarrow> 'n \<Rightarrow> string list \<Rightarrow> manifest_error + string" where
  "get_required_string api tbl path =
     attempt (required (at_path api path tbl) (missing_field path))
       (\<lambda>n. required (toml_string api n)
          (field_error Wrong_type path (''field '' @ quoted (join ''.'' path) @ '' must be a string'')))"

definition get_optional_string :: "('n, 'x) toml_scheme \<Rightarrow> 'n \<Rightarrow> string list \<Rightarrow> string" where
  "get_optional_string api tbl path =
     (case at_path api path tbl of
        None \<Rightarrow> []
      | Some n \<Rightarrow> (case toml_string api n of Some s \<Rightarrow> s | None \<Rightarrow> []))"

definition p_abi :: "string list" where "p_abi = [''plugin'', ''abi'']"
definition p_provides :: "string list" where "p_provides = [''plugin'', ''capabilities'', ''provides'']"
definition p_threading :: "string list" where "p_threading = [''plugin'', ''threading'', ''model'']"
definition p_minor :: "string list" where "p_minor = [''plugin'', ''min_souxmar_abi_minor'']"
definition p_tags :: "string list" where "p_tags = [''plugin'', ''tags'']"

definition check_plugin_id :: "string \<Rightarrow> manifest_error + unit" where
  "check_plugin_id s = guard_that (plugin_id_looks_valid s)
     (field_error Invalid_plugin_id [''plugin'', ''id'']
       (quoted ''plugin.id'' @ '' = '' @ quoted s @ '' is not a valid reverse-DNS identifier ''
        @ ''(letters/digits/dots/hyphens/underscores, at least one dot, no whitespace)''))"

definition check_version :: "string \<Rightarrow> manifest_error + unit" where
  "check_version v = guard_that (version_looks_valid v)
     (field_error Invalid_version [''plugin'', ''version'']
       (quoted ''plugin.version'' @ '' = '' @ quoted v
        @ '' does not look like SemVer (expected major.minor.patch[-pre][+build])''))"

definition read_abi :: "('n, 'x) toml_scheme \<Rightarrow> 'n \<Rightarrow> manifest_error + u32" where
  "read_abi api tbl =
     attempt (required (at_path api p_abi tbl) (missing_field p_abi))
       (\<lambda>n. attempt (required (toml_integer api n)
              (field_error Wrong_type p_abi (quoted ''plugin.abi'' @ '' must be an integer'')))
          (\<lambda>i. Inr (word_of_int i)))"

definition read_capability :: "('n, 'x) toml_scheme \<Rightarrow> 'n \<Rightarrow> manifest_error + string" where
  "read_capability api n =
     attempt (required (toml_string api n)
       (field_error Wrong_type p_provides
         (quoted ''plugin.capabilities.provides'' @ '' must be an array of strings'')))
       (\<lambda>s. attempt (guard_that (is_allowed_capability s)
              (field_error Invalid_capability_namespace p_provides
                (quoted ''plugin.capabilities.provides'' @ '' has '' @ quoted s @ em_dash
                 @ ''namespace is not in the host allow-list ''
                 @ ''(reader, writer, mesher, element, solver, postproc)'')))
          (\<lambda>_. Inr s))"

definition read_capabilities :: "('n, 'x) toml_scheme \<Rightarrow> 'n \<Rightarrow> manifest_error + string list" where
  "read_capabilities api tbl =
     attempt (required (at_path api p_provides tbl) (missing_field p_provides))
       (\<lambda>n. attempt (required (toml_array api n)
              (field_error Wrong_type p_provides
                (quoted ''plugin.capabilities.provides'' @ '' must be an array'')))
         (\<lambda>vs. attempt (attempt_map (read_capability api) vs)
           (\<lambda>caps. attempt (guard_that (caps \<noteq> [])
                (field_error Empty_capabilities p_provides
                  (quoted ''plugin.capabilities.provides'' @ '' must list at least one capability'')))
             (\<lambda>_. Inr caps))))"

definition read_threading :: "('n, 'x) toml_scheme \<Rightarrow> 'n \<Rightarrow> manifest_error + threading_model" where
  "read_threading api tbl =
     (case at_path api p_threading tbl of
        None \<Rightarrow> Inr Single_threaded
      | Some n \<Rightarrow> attempt (required (toml_string api n)
            (field_error Wrong_type p_threading (quoted ''plugin.threading.model'' @ '' must be a string'')))
          (\<lambda>s. required (threading_from_string s)
             (field_error Unknown_threading p_threading
               (quoted ''plugin.threading.model''
                @ '' must be one of: reentrant, single-threaded, internal-parallel (got ''
                @ quoted s @ '')''))))"

definition read_minor :: "('n, 'x) toml_scheme \<Rightarrow> 'n \<Rightarrow> manifest_error + u32" where
  "read_minor api tbl =
     (case at_path api p_minor tbl of
        None \<Rightarrow> Inr 0
      | Some n \<Rightarrow> attempt (required (toml_integer api n)
            (field_error Wrong_type p_minor
              (quoted ''plugin.min_souxmar_abi_minor'' @ '' must be an integer'')))
          (\<lambda>i. Inr (word_of_int i)))"

definition read_tags :: "('n, 'x) toml_scheme \<Rightarrow> 'n \<Rightarrow> manifest_error + string list" where
  "read_tags api tbl =
     (let wrong = field_error Wrong_type p_tags (quoted ''plugin.tags'' @ '' must be an array of strings'')
      in case at_path api p_tags tbl of
           None \<Rightarrow> Inr []
         | Some n \<Rightarrow> attempt (required (toml_array api n) wrong)
             (\<lambda>vs. attempt_map (\<lambda>v. required (toml_string api v) wrong) vs))"

definition check_abi :: "u32 \<Rightarrow> manifest_error + unit" where
  "check_abi v = guard_that (v = 1)
     (field_error Abi_unsupported p_abi
       (quoted ''plugin.abi'' @ '' = '' @ int_str (sint v)
        @ '' not supported by this host (only ABI v1 is recognised)''))"

definition parse_table :: "('n, 'x) toml_scheme \<Rightarrow> 'n \<Rightarrow> manifest_error + plugin_manifest" where
  "parse_table api tbl =
     attempt (get_required_string api tbl [''plugin'', ''id'']) (\<lambda>pid.
     attempt (get_required_string api tbl [''plugin'', ''name'']) (\<lambda>nm.
     attempt (get_required_string api tbl [''plugin'', ''version'']) (\<lambda>ver.
     attempt (get_required_string api tbl [''plugin'', ''license'']) (\<lambda>lic.
     attempt (check_plugin_id pid) (\<lambda>_.
     attempt (check_version ver) (\<lambda>_.
     attempt (read_abi api tbl) (\<lambda>abi.
     attempt (get_required_string api tbl [''plugin'', ''binary'', ''file'']) (\<lambda>bin.
     attempt (read_capabilities api tbl) (\<lambda>caps.
     attempt (read_threading api tbl) (\<lambda>thr.
     attempt (read_minor api tbl) (\<lambda>mn.
     attempt (read_tags api tbl) (\<lambda>tags.
     attempt (check_abi abi) (\<lambda>_.
       Inr \<lparr>pm_id = pid, pm_name = nm, pm_version = ver, pm_abi = abi, pm_license = lic,
            pm_homepage = get_optional_string api tbl [''plugin'', ''homepage''],
            pm_binary_file = bin, pm_capabilities = caps, pm_threading = thr,
            pm_souxmar_constraint = get_optional_string api tbl [''plugin'', ''dependencies'', ''souxmar''],
            pm_description = get_optional_string api tbl [''plugin'', ''description''],
            pm_documentation = get_optional_string api tbl [''plugin'', ''documentation''],
            pm_tags = tags, pm_min_abi_minor = mn\<rparr>)))))))))))))"

definition parse_manifest :: "'n located_toml \<Rightarrow> string \<Rightarrow> manifest_error + plugin_manifest" where
  "parse_manifest api source =
     (case toml_parse api source of
        Inl e \<Rightarrow> Inl \<lparr>me_message = ''TOML parse error: '' @ e,
            me_line = map_option fst (toml_position api source),
            me_column = map_option snd (toml_position api source), me_field = [], me_code = Toml_syntax\<rparr>
      | Inr tbl \<Rightarrow> parse_table api tbl)"

text \<open>The file's content is an argument, \<open>None\<close> when it cannot be opened.\<close>

definition parse_manifest_file ::
  "'n located_toml \<Rightarrow> string \<Rightarrow> string option \<Rightarrow> manifest_error + plugin_manifest" where
  "parse_manifest_file api path content =
     (case content of
        None \<Rightarrow> Inl \<lparr>me_message = ''cannot open manifest '' @ quoted path, me_line = None,
            me_column = None, me_field = [], me_code = File_io\<rparr>
      | Some source \<Rightarrow> parse_manifest api source)"

section \<open>The string checks are their grammars\<close>

text \<open>A version is three dotted digit runs, or three or more of them and a tail that starts with
  a hyphen or a plus.\<close>

definition digits :: "string \<Rightarrow> bool" where
  "digits s = (s \<noteq> [] \<and> list_all is_digit s)"

definition version_tail :: "string \<Rightarrow> nat \<Rightarrow> bool" where
  "version_tail t n = (t = [] \<and> n = 2 \<or> (\<exists>c r. t = c # r \<and> (c = CHR ''-'' \<or> c = CHR ''+'') \<and> 2 \<le> n))"

definition dotted :: "string list \<Rightarrow> string" where
  "dotted ps = concat (map (\<lambda>p. CHR ''.'' # p) ps)"

definition version_grammar :: "string \<Rightarrow> bool" where
  "version_grammar v = (\<exists>d ps t. v = d @ dotted ps @ t \<and> digits d \<and> (\<forall>p \<in> set ps. digits p)
     \<and> version_tail t (length ps))"

lemma not_digit [simp]:
  "\<not> is_digit CHR ''.''" "\<not> is_digit CHR ''-''" "\<not> is_digit CHR ''+''"
  by (simp_all add: is_digit_def less_eq_char_def)

lemma digit_not_special:
  "is_digit c \<Longrightarrow> c \<noteq> CHR ''.'' \<and> c \<noteq> CHR ''-'' \<and> c \<noteq> CHR ''+''"
  by auto

lemma version_loop_digits:
  "list_all is_digit d \<Longrightarrow> version_loop (d @ r) n seen = version_loop r n (seen \<or> d \<noteq> [])"
  by (induction d arbitrary: seen) (simp_all add: digit_not_special)

lemma version_loop_dotted:
  "\<forall>p \<in> set ps. digits p \<Longrightarrow> version_loop (dotted ps @ t) n True = version_loop t (n + length ps) True"
proof (induction ps arbitrary: n)
  case (Cons p ps)
  then have "list_all is_digit p" "p \<noteq> []" by (auto simp: digits_def)
  then show ?case
    using Cons by (simp add: dotted_def version_loop_digits)
qed (simp add: dotted_def)

lemma version_loop_tail: "version_tail t n \<Longrightarrow> version_loop t n True"
  by (auto simp: version_tail_def)

lemma version_loop_sound:
  "version_loop s n seen \<Longrightarrow> \<exists>d ps t. s = d @ dotted ps @ t \<and> list_all is_digit d
     \<and> (seen \<or> d \<noteq> []) \<and> (\<forall>p \<in> set ps. digits p) \<and> version_tail t (n + length ps)"
proof (induction s n seen rule: version_loop.induct)
  case (1 n seen)
  then show ?case
    by (intro exI [of _ "[]"]) (simp add: dotted_def version_tail_def)
next
  case (2 c cs n seen)
  consider (dot) "c = CHR ''.''" | (tail) "c \<noteq> CHR ''.''" "c = CHR ''-'' \<or> c = CHR ''+''"
    | (digit) "c \<noteq> CHR ''.''" "\<not> (c = CHR ''-'' \<or> c = CHR ''+'')" by blast
  then show ?case
  proof cases
    case dot
    with 2(3) have "seen" "version_loop cs (n + 1) False" by (simp_all split: if_splits)
    with 2(1) [OF dot] obtain d ps t where "cs = d @ dotted ps @ t" "list_all is_digit d" "d \<noteq> []"
      "\<forall>p \<in> set ps. digits p" "version_tail t (n + 1 + length ps)" by auto
    then show ?thesis
      using dot \<open>seen\<close> by (intro exI [of _ "[]"] exI [of _ "d # ps"] exI [of _ t])
        (simp add: dotted_def digits_def)
  next
    case tail
    with 2(3) have "\<not> n < 2" "seen" by (auto split: if_splits)
    with tail show ?thesis
      by (intro exI [of _ "[]"] exI [of _ "c # cs"]) (auto simp: dotted_def version_tail_def)
  next
    case digit
    with 2(3) have d: "is_digit c" "version_loop cs n True" by (auto split: if_splits)
    with 2(2) [OF digit] obtain d ps t where "cs = d @ dotted ps @ t" "list_all is_digit d"
      "\<forall>p \<in> set ps. digits p" "version_tail t (n + length ps)" by auto
    then show ?thesis
      using d by (intro exI [of _ "c # d"] exI [of _ ps] exI [of _ t]) simp
  qed
qed

lemma version_looks_valid_grammar: "version_looks_valid v \<longleftrightarrow> version_grammar v"
proof
  assume "version_looks_valid v"
  then show "version_grammar v"
    using version_loop_sound [of v 0 False]
    by (auto simp: version_looks_valid_def version_grammar_def digits_def split: if_splits)
next
  assume "version_grammar v"
  then obtain d ps t where v: "v = d @ dotted ps @ t" "digits d" "\<forall>p \<in> set ps. digits p"
    "version_tail t (length ps)" unfolding version_grammar_def by blast
  then have "version_loop v 0 False"
    by (simp add: digits_def version_loop_digits version_loop_dotted [unfolded digits_def]
        version_loop_tail)
  then show "version_looks_valid v"
    using v by (auto simp: version_looks_valid_def digits_def)
qed

lemma id_char_ok_iff:
  "id_char_ok c \<longleftrightarrow> is_alnum c \<or> c = CHR ''.'' \<or> c = CHR ''-'' \<or> c = CHR ''_''"
proof -
  have "is_alnum c \<Longrightarrow> (of_char c :: nat) > 0x20 \<and> c \<noteq> CHR 0x7F \<and> c \<noteq> CHR ''/'' \<and> c \<noteq> CHR 0x5C"
    by (auto simp: is_alnum_def is_digit_iff)
  then show ?thesis by (auto simp: id_char_ok_def)
qed

definition reverse_dns :: "string \<Rightarrow> bool" where
  "reverse_dns s = (CHR ''.'' \<in> set s \<and> hd s \<noteq> CHR ''.'' \<and> last s \<noteq> CHR ''.''
     \<and> (\<forall>c \<in> set s. is_alnum c \<or> c = CHR ''.'' \<or> c = CHR ''-'' \<or> c = CHR ''_''))"

lemma plugin_id_grammar: "plugin_id_looks_valid s \<longleftrightarrow> reverse_dns s"
  by (auto simp: plugin_id_looks_valid_def list_all_iff id_char_ok_iff reverse_dns_def)

lemma no_dot_namespace: "ns \<in> set allowed_namespaces \<Longrightarrow> ns \<noteq> [] \<and> CHR ''.'' \<notin> set ns"
  by (auto simp: allowed_namespaces_def)

lemma takeWhile_to_dot:
  "CHR ''.'' \<notin> set ns \<Longrightarrow> takeWhile (\<lambda>c. c \<noteq> CHR ''.'') (ns @ CHR ''.'' # r) = ns"
  by (induction ns) auto

lemma is_allowed_capability_iff:
  "is_allowed_capability s \<longleftrightarrow>
     (\<exists>ns name. s = ns @ ''.'' @ name \<and> ns \<in> set allowed_namespaces \<and> name \<noteq> [])"
proof
  assume a: "is_allowed_capability s"
  define ns where "ns = takeWhile (\<lambda>c. c \<noteq> CHR ''.'') s"
  have ok: "length ns \<noteq> length s" "length ns + 1 \<noteq> length s" "ns \<in> set allowed_namespaces"
    using a by (auto simp: is_allowed_capability_def Let_def ns_def split: if_splits)
  have s: "s = ns @ dropWhile (\<lambda>c. c \<noteq> CHR ''.'') s"
    by (simp add: ns_def)
  then obtain c r where r: "dropWhile (\<lambda>c. c \<noteq> CHR ''.'') s = c # r"
    using ok(1) by (metis append_Nil2 list.exhaust)
  then have "c = CHR ''.''" by (metis (mono_tags, lifting) hd_dropWhile list.discI list.sel(1))
  then have "s = ns @ ''.'' @ r" "r \<noteq> []"
    using s r ok(2) by auto
  then show "\<exists>ns name. s = ns @ ''.'' @ name \<and> ns \<in> set allowed_namespaces \<and> name \<noteq> []"
    using ok(3) by blast
next
  assume "\<exists>ns name. s = ns @ ''.'' @ name \<and> ns \<in> set allowed_namespaces \<and> name \<noteq> []"
  then obtain ns name where "s = ns @ ''.'' @ name" "ns \<in> set allowed_namespaces" "name \<noteq> []" by blast
  then show "is_allowed_capability s"
    using no_dot_namespace [of ns] by (simp add: is_allowed_capability_def takeWhile_to_dot)
qed

section \<open>What the parser accepts\<close>

definition string_at :: "('n, 'x) toml_scheme \<Rightarrow> 'n \<Rightarrow> string list \<Rightarrow> string \<Rightarrow> bool" where
  "string_at api tbl path s = (\<exists>n. at_path api path tbl = Some n \<and> toml_string api n = Some s)"

definition integer_at :: "('n, 'x) toml_scheme \<Rightarrow> 'n \<Rightarrow> string list \<Rightarrow> int \<Rightarrow> bool" where
  "integer_at api tbl path i = (\<exists>n. at_path api path tbl = Some n \<and> toml_integer api n = Some i)"

definition strings_at :: "('n, 'x) toml_scheme \<Rightarrow> 'n \<Rightarrow> string list \<Rightarrow> string list \<Rightarrow> bool" where
  "strings_at api tbl path ss = (\<exists>n vs. at_path api path tbl = Some n \<and> toml_array api n = Some vs
     \<and> list_all2 (\<lambda>v s. toml_string api v = Some s) vs ss)"

definition or_absent ::
  "('n, 'x) toml_scheme \<Rightarrow> 'n \<Rightarrow> string list \<Rightarrow> bool \<Rightarrow> bool \<Rightarrow> bool" where
  "or_absent api tbl path present absent = (if at_path api path tbl = None then absent else present)"

definition manifest_describes :: "('n, 'x) toml_scheme \<Rightarrow> 'n \<Rightarrow> plugin_manifest \<Rightarrow> bool" where
  "manifest_describes api tbl m =
     (string_at api tbl [''plugin'', ''id''] (pm_id m) \<and> reverse_dns (pm_id m)
      \<and> string_at api tbl [''plugin'', ''name''] (pm_name m)
      \<and> string_at api tbl [''plugin'', ''version''] (pm_version m) \<and> version_grammar (pm_version m)
      \<and> string_at api tbl [''plugin'', ''license''] (pm_license m)
      \<and> string_at api tbl [''plugin'', ''binary'', ''file''] (pm_binary_file m)
      \<and> (\<exists>i. integer_at api tbl p_abi i \<and> i mod 2 ^ 32 = 1) \<and> pm_abi m = 1
      \<and> strings_at api tbl p_provides (pm_capabilities m) \<and> pm_capabilities m \<noteq> []
      \<and> (\<forall>s \<in> set (pm_capabilities m). \<exists>ns name. s = ns @ ''.'' @ name
            \<and> ns \<in> set allowed_namespaces \<and> name \<noteq> [])
      \<and> or_absent api tbl p_threading (string_at api tbl p_threading (threading_str (pm_threading m)))
          (pm_threading m = Single_threaded)
      \<and> or_absent api tbl p_minor
          (\<exists>i. integer_at api tbl p_minor i \<and> uint (pm_min_abi_minor m) = i mod 2 ^ 32)
          (pm_min_abi_minor m = 0)
      \<and> or_absent api tbl p_tags (strings_at api tbl p_tags (pm_tags m)) (pm_tags m = [])
      \<and> pm_homepage m = get_optional_string api tbl [''plugin'', ''homepage'']
      \<and> pm_souxmar_constraint m = get_optional_string api tbl [''plugin'', ''dependencies'', ''souxmar'']
      \<and> pm_description m = get_optional_string api tbl [''plugin'', ''description'']
      \<and> pm_documentation m = get_optional_string api tbl [''plugin'', ''documentation''])"

lemma get_required_string_Inr:
  "get_required_string api tbl path = Inr s \<longleftrightarrow> string_at api tbl path s"
  by (simp add: get_required_string_def attempt_Inr string_at_def)

lemma word_of_int_u32: "(word_of_int i :: u32) = w \<longleftrightarrow> uint w = i mod 2 ^ 32"
proof -
  have u: "uint (word_of_int i :: u32) = i mod 2 ^ 32" by (simp add: uint_word_of_int)
  show ?thesis
  proof
    assume "(word_of_int i :: u32) = w"
    then show "uint w = i mod 2 ^ 32" by (simp only: u [symmetric])
  next
    assume "uint w = i mod 2 ^ 32"
    then have "uint (word_of_int i :: u32) = uint w" by (simp only: u)
    then show "(word_of_int i :: u32) = w" by (rule unsigned_word_eqI)
  qed
qed

lemma read_abi_Inr:
  "read_abi api tbl = Inr w \<longleftrightarrow> (\<exists>i. integer_at api tbl p_abi i \<and> uint w = i mod 2 ^ 32)"
  by (auto simp: read_abi_def attempt_Inr integer_at_def word_of_int_u32)

lemma threading_from_string_Some: "threading_from_string s = Some t \<longleftrightarrow> s = threading_str t"
  by (cases t) (auto simp: threading_from_string_def)

lemma read_threading_Inr:
  "read_threading api tbl = Inr t \<longleftrightarrow> or_absent api tbl p_threading
     (string_at api tbl p_threading (threading_str t)) (t = Single_threaded)"
  by (auto simp: read_threading_def or_absent_def string_at_def attempt_Inr threading_from_string_Some
      split: option.split)

lemma read_minor_Inr:
  "read_minor api tbl = Inr w \<longleftrightarrow> or_absent api tbl p_minor
     (\<exists>i. integer_at api tbl p_minor i \<and> uint w = i mod 2 ^ 32) (w = 0)"
  by (auto simp: read_minor_def or_absent_def integer_at_def attempt_Inr word_of_int_u32
      split: option.split)

lemma read_tags_Inr:
  "read_tags api tbl = Inr ss \<longleftrightarrow>
     or_absent api tbl p_tags (strings_at api tbl p_tags ss) (ss = [])"
  by (auto simp: read_tags_def or_absent_def strings_at_def attempt_Inr attempt_map_Inr Let_def
      split: option.split)

lemma read_capability_Inr:
  "read_capability api n = Inr s \<longleftrightarrow> toml_string api n = Some s \<and> is_allowed_capability s"
  by (auto simp: read_capability_def attempt_Inr)

lemma list_all2_conj_right:
  "list_all2 (\<lambda>x y. P x y \<and> Q y) xs ys \<longleftrightarrow> list_all2 P xs ys \<and> (\<forall>y \<in> set ys. Q y)"
  by (induction xs arbitrary: ys) (auto simp: list_all2_Cons1)

lemma read_capabilities_Inr:
  "read_capabilities api tbl = Inr ss \<longleftrightarrow> strings_at api tbl p_provides ss \<and> ss \<noteq> []
     \<and> (\<forall>s \<in> set ss. is_allowed_capability s)"
  by (auto simp: read_capabilities_def strings_at_def attempt_Inr attempt_map_Inr read_capability_Inr
      list_all2_conj_right)

lemmas reader_Inr = get_required_string_Inr read_abi_Inr read_threading_Inr read_minor_Inr read_tags_Inr
  read_capabilities_Inr

lemma check_Inr [simp]:
  "check_plugin_id s = Inr u \<longleftrightarrow> reverse_dns s"
  "check_version v = Inr u \<longleftrightarrow> version_grammar v"
  "check_abi w = Inr u \<longleftrightarrow> w = 1"
  by (simp_all add: check_plugin_id_def check_version_def check_abi_def version_looks_valid_grammar
      plugin_id_grammar)

lemma parse_table_Inr: "parse_table api tbl = Inr m \<longleftrightarrow> manifest_describes api tbl m"
  by (cases m) (auto simp: parse_table_def attempt_Inr reader_Inr manifest_describes_def
      is_allowed_capability_iff)

section \<open>Rejections\<close>

lemma field_error_code [simp]: "me_code (field_error c p m) = c" "me_field (field_error c p m) = join ''.'' p"
  by (simp_all add: field_error_def)

definition named_rejection :: "manifest_error \<Rightarrow> bool" where
  "named_rejection e = (me_field e \<noteq> [] \<and> me_code e \<notin> {Rejection_ok, Toml_syntax, File_io})"

lemma attempt_Inl_rejection:
  "(\<And>e. r = Inl e \<Longrightarrow> Q e) \<Longrightarrow> (\<And>x e. k x = Inl e \<Longrightarrow> Q e) \<Longrightarrow> attempt r k = Inl e \<Longrightarrow> Q e"
  by (auto simp: attempt_Inl)

lemma attempt_map_Inl: "attempt_map f xs = Inl e \<Longrightarrow> \<exists>x \<in> set xs. f x = Inl e"
  by (induction xs) (auto simp: attempt_Inl)

lemma parse_table_rejections: "parse_table api tbl = Inl e \<Longrightarrow> named_rejection e"
  unfolding parse_table_def
  by (elim attempt_Inl_rejection [where Q = named_rejection, rotated 2])
    (auto simp: get_required_string_def check_plugin_id_def check_version_def read_abi_def
      read_capabilities_def read_capability_def read_threading_def read_minor_def read_tags_def
      check_abi_def attempt_Inl named_rejection_def missing_field_def p_abi_def p_provides_def
      p_threading_def p_minor_def p_tags_def Let_def
      dest!: attempt_map_Inl split: option.splits)

section \<open>The property\<close>

definition manifest_example :: "int \<Rightarrow> toml_doc" where
  "manifest_example abi = Toml_table [(''plugin'', Toml_table [
     (''id'', Toml_string ''com.example.m''), (''name'', Toml_string ''M''),
     (''version'', Toml_string ''1.2.3''), (''license'', Toml_string ''MIT''),
     (''abi'', Toml_integer abi), (''binary'', Toml_table [(''file'', Toml_string ''libm.so'')]),
     (''capabilities'', Toml_table [(''provides'', Toml_array [Toml_string ''mesher.m''])])])]"

definition api_example :: "int \<Rightarrow> toml_doc located_toml" where
  "api_example abi = toml.extend (toml_of (\<lambda>_. Inr (manifest_example abi)))
     (located_toml.fields (\<lambda>_. None))"

text \<open>The version check lets a fourth number pass when a tail follows it.\<close>

lemma four_part_version: "version_looks_valid ''1.2.3.4-x'' \<and> \<not> version_looks_valid ''1.2.3.4''"
  by code_simp

text \<open>C14: the manifest parser accepts a document exactly when its required fields are there with
  their types, the id is a reverse-DNS name, the version is three numbers (or more with a tail),
  there is at least one capability and each is in a known namespace, the optional fields have
  their types, and the ABI number, read into 32 bits, is 1: every integer that is 1 modulo
  two to the 32 passes.  The manifest holds the document's values.  A rejection of a document that
  parses as TOML names the field and has the code of a field error.\<close>

theorem parse_manifest_accepts:
  "(parse_manifest api source = Inr m \<longleftrightarrow>
      (\<exists>tbl. toml_parse api source = Inr tbl \<and> manifest_describes api tbl m))
   \<and> (\<forall>e. parse_manifest api source = Inl e \<longrightarrow>
        (if isl (toml_parse api source) then me_code e = Toml_syntax else named_rejection e))"
  by (cases "toml_parse api source")
    (auto simp: parse_manifest_def parse_table_Inr parse_table_rejections)

theorem parse_manifest_accepts_witness:
  "(\<exists>m. parse_manifest (api_example (2 ^ 32 + 1)) [] = Inr m \<and> pm_abi m = 1)
   \<and> (\<exists>e. parse_manifest (api_example 2) [] = Inl e \<and> named_rejection e)"
proof
  let ?a = "api_example (2 ^ 32 + 1)"
  have "isl (parse_manifest ?a []) = False" by code_simp
  then obtain m where m: "parse_manifest ?a [] = Inr m" by (cases "parse_manifest ?a []") auto
  moreover from this have "\<exists>tbl. manifest_describes ?a tbl m"
    using parse_manifest_accepts [of ?a "[]" m] by blast
  ultimately show "\<exists>m. parse_manifest ?a [] = Inr m \<and> pm_abi m = 1"
    by (auto simp: manifest_describes_def)
next
  let ?a = "api_example 2"
  have "isl (parse_manifest ?a []) = True" by code_simp
  then obtain e where e: "parse_manifest ?a [] = Inl e" by (cases "parse_manifest ?a []") auto
  have "isl (toml_parse ?a []) = False" by code_simp
  then show "\<exists>e. parse_manifest ?a [] = Inl e \<and> named_rejection e"
    using parse_manifest_accepts [of ?a "[]"] e by auto
qed

end
