(* ===== verification/Loader.thy ===== *)
theory Loader
  imports Registry Plugin_Manifest
begin

text \<open>
  The plugin loader (src/plugin-host/loader.cpp, include/souxmar/plugin/loader.h) and the
  crash-isolation frame (src/plugin-host/guard.cpp).  The dynamic linker is a parameter: what
  opening a path and resolving the entry point give.  A plugin's entry point is any program that
  calls the registration functions, reads their statuses and returns a code or throws; it is a
  tree, so it makes finitely many calls.  The state holds the registry and the open handles.
\<close>

section \<open>The guard\<close>

datatype guard_outcome = Guard_ok | Cpp_exception | Guard_signal | Guard_unknown

record guard_result =
  gr_outcome :: guard_outcome
  gr_detail :: string

text \<open>What a guarded function does: it returns, throws a \<open>std::exception\<close> (whose \<open>what()\<close> may
  be null) or throws something else.\<close>

datatype 'a call_end = Returned 'a | Threw_exception "string option" | Threw_other

fun guard_call :: "'a call_end \<Rightarrow> guard_result" where
  "guard_call (Returned _) = \<lparr>gr_outcome = Guard_ok, gr_detail = []\<rparr>"
| "guard_call (Threw_exception what) = \<lparr>gr_outcome = Cpp_exception,
     gr_detail = (case what of Some m \<Rightarrow> m | None \<Rightarrow> ''(empty what())'')\<rparr>"
| "guard_call Threw_other = \<lparr>gr_outcome = Guard_unknown, gr_detail = ''non-std exception''\<rparr>"

section \<open>Plugins and the linker\<close>

datatype plugin_code =
    Finish "u32 call_end"
  | Call abi_call "c_status \<Rightarrow> plugin_code"

primrec run_plugin :: "plugin_code \<Rightarrow> registry \<Rightarrow> u32 call_end \<times> registry" where
  "run_plugin (Finish e) r = (e, r)"
| "run_plugin (Call c k) r = (let (status, r) = abi_call c r in run_plugin (k status) r)"

record host_info =
  hi_abi_major :: u32
  hi_abi_minor :: u32
  hi_host_version :: string
  hi_capabilities :: u64

record linker =
  ld_open :: "string \<Rightarrow> string option + nat"
  ld_symbol :: "nat \<Rightarrow> string \<Rightarrow> (host_info \<Rightarrow> plugin_code) option"

record discovered_plugin =
  dp_manifest_path :: string
  dp_binary_path :: string
  dp_manifest :: plugin_manifest

abbreviation dp_id :: "discovered_plugin \<Rightarrow> string" where
  "dp_id d \<equiv> pm_id (dp_manifest d)"

abbreviation dp_abi :: "discovered_plugin \<Rightarrow> u32" where
  "dp_abi d \<equiv> pm_abi (dp_manifest d)"

abbreviation dp_threading :: "discovered_plugin \<Rightarrow> threading_model" where
  "dp_threading d \<equiv> pm_threading (dp_manifest d)"

record load_error =
  le_binary_path :: string
  le_message :: string

record loaded_plugin =
  lp_plugin :: discovered_plugin
  lp_handle :: nat

record plugin_host =
  ph_registry :: registry
  ph_open :: "nat list"

section \<open>Loading and unloading\<close>

definition abi_version_minor :: u32 where
  "abi_version_minor = 9"

text \<open>\<open>platform_open\<close>, the POSIX one; \<open>dlerror\<close> may return null.\<close>

definition platform_open :: "linker \<Rightarrow> string \<Rightarrow> plugin_host \<Rightarrow> (string + nat) \<times> plugin_host" where
  "platform_open ld path h = (case ld_open ld path of
       Inl dl \<Rightarrow> (Inl (''dlopen failed: '' @ (case dl of Some m \<Rightarrow> m | None \<Rightarrow> ''unknown'')), h)
     | Inr handle \<Rightarrow> (Inr handle, h\<lparr>ph_open := handle # ph_open h\<rparr>))"

definition platform_close :: "nat \<Rightarrow> plugin_host \<Rightarrow> plugin_host" where
  "platform_close handle h = h\<lparr>ph_open := remove1 handle (ph_open h)\<rparr>"

definition register_symbol :: string where
  "register_symbol = ''souxmar_plugin_register_v1''"

definition refuse :: "discovered_plugin \<Rightarrow> string \<Rightarrow> load_error + loaded_plugin" where
  "refuse d m = Inl \<lparr>le_binary_path = dp_binary_path d, le_message = m\<rparr>"

text \<open>Step 6: the entry point under the guard, with the plugin's id and threading model on the
  registry while it runs.\<close>

definition run_register ::
  "discovered_plugin \<Rightarrow> plugin_code \<Rightarrow> registry \<Rightarrow> u32 call_end \<times> registry" where
  "run_register d code r =
     (let (e, r) = run_plugin code
            (r\<lparr>rg_current_plugin_id := dp_id d, rg_current_threading := dp_threading d\<rparr>)
      in (e, r\<lparr>rg_current_plugin_id := [], rg_current_threading := Single_threaded\<rparr>))"

definition load_plugin ::
  "linker \<Rightarrow> string \<Rightarrow> discovered_plugin \<Rightarrow> plugin_host \<Rightarrow>
     (load_error + loaded_plugin) \<times> plugin_host" where
  "load_plugin ld host_version d h =
     (if dp_abi d \<noteq> abi_version_major
      then (refuse d (''manifest declares ABI v'' @ int_str (sint (dp_abi d))
        @ '', host implements ABI v'' @ int_str (sint abi_version_major)), h)
      else
        let (opened, h) = platform_open ld (dp_binary_path d) h
        in case opened of
             Inl m \<Rightarrow> (refuse d m, h)
           | Inr handle \<Rightarrow> (case ld_symbol ld handle register_symbol of
               None \<Rightarrow>
                 (refuse d (''missing exported symbol '' @ quoted register_symbol),
                  platform_close handle h)
             | Some register_fn \<Rightarrow>
                 let (end, r) = run_register d
                       (register_fn \<lparr>hi_abi_major = abi_version_major, hi_abi_minor = abi_version_minor,
                          hi_host_version = host_version, hi_capabilities = 0\<rparr>) (ph_registry h);
                     guard = guard_call end;
                     rc = (case end of Returned rc \<Rightarrow> rc | _ \<Rightarrow> - 1)
                 in if gr_outcome guard \<noteq> Guard_ok
                    then (refuse d (''plugin'' @ [CHR 0x27] @ ''s souxmar_plugin_register_v1 raised: ''
                           @ gr_detail guard),
                          platform_close handle (h\<lparr>ph_registry := remove_plugin (dp_id d) r\<rparr>))
                    else if rc \<noteq> 0
                    then (refuse d (''plugin'' @ [CHR 0x27]
                           @ ''s souxmar_plugin_register_v1 returned non-zero ('' @ int_str (sint rc) @ '')''),
                          platform_close handle (h\<lparr>ph_registry := remove_plugin (dp_id d) r\<rparr>))
                    else (Inr \<lparr>lp_plugin = d, lp_handle = handle\<rparr>, h\<lparr>ph_registry := r\<rparr>)))"

text \<open>The destructor of \<open>LoadedPlugin\<close>.\<close>

definition unload_plugin :: "loaded_plugin \<Rightarrow> plugin_host \<Rightarrow> plugin_host" where
  "unload_plugin lp h =
     platform_close (lp_handle lp) (h\<lparr>ph_registry := remove_plugin (dp_id (lp_plugin lp)) (ph_registry h)\<rparr>)"

section \<open>What loading does to the registry\<close>

lemma run_plugin_enriched: "registry_ok r \<Longrightarrow> reg.enriched r (snd (run_plugin code r))"
proof (induction code arbitrary: r)
  case (Finish e)
  then show ?case by (simp add: reg.enriched_refl)
next
  case (Call c k)
  have step: "reg.enriched r (snd (abi_call c r))"
    by (rule reg.enriched_call) (fact Call.prems)
  have "reg.enriched (snd (abi_call c r)) (snd (run_plugin (k (fst (abi_call c r))) (snd (abi_call c r))))"
    by (rule Call.IH [OF _ reg.enriched_good [OF step]]) simp
  with step show ?case
    by (auto simp: Let_def case_prod_beta intro: reg.enriched_trans)
qed

lemma registry_ok_active [simp]:
  "registry_ok (r\<lparr>rg_current_plugin_id := p, rg_current_threading := t\<rparr>) = registry_ok r"
  "catalogue_of (r\<lparr>rg_current_plugin_id := p, rg_current_threading := t\<rparr>) = catalogue_of r"
  by (simp_all add: registry_ok_def catalogue_of_def)

text \<open>Registering adds entries only, credited to the plugin and its threading model, and clears
  the registration slots.\<close>

lemma run_register_registers:
  fixes d :: discovered_plugin and code :: plugin_code
  assumes "registry_ok r"
  defines "r' \<equiv> snd (run_register d code r)"
  shows "registry_ok r'" "rg_current_plugin_id r' = []" "rg_current_threading r' = Single_threaded"
    and "catalogue_of r k = Some e \<Longrightarrow> catalogue_of r' k = Some e"
    and "catalogue_of r k = None \<Longrightarrow> catalogue_of r' k = Some e \<Longrightarrow>
      ce_plugin_id e = dp_id d \<and> ce_threading e = dp_threading d"
    and "without_plugin (dp_id d) (catalogue_of r') = without_plugin (dp_id d) (catalogue_of r)"
proof -
  define s where "s = r\<lparr>rg_current_plugin_id := dp_id d, rg_current_threading := dp_threading d\<rparr>"
  define t where "t = snd (run_plugin code s)"
  have s: "registry_ok s" "catalogue_of s = catalogue_of r" "active_plugin s = (dp_id d, dp_threading d)"
    using assms(1) by (simp_all add: s_def active_plugin_def)
  have g: "reg.enriched s t"
    unfolding t_def by (rule run_plugin_enriched) (fact s)
  then have t: "registry_ok t" by (rule reg.enriched_good)
  have r': "r' = t\<lparr>rg_current_plugin_id := [], rg_current_threading := Single_threaded\<rparr>"
    by (simp add: r'_def run_register_def s_def t_def Let_def case_prod_beta)
  show "registry_ok r'" "rg_current_plugin_id r' = []" "rg_current_threading r' = Single_threaded"
    using t by (simp_all add: r')
  show "catalogue_of r k = Some e \<Longrightarrow> catalogue_of r' k = Some e"
    using g by (simp add: r' reg.enriched_def s)
  show "catalogue_of r k = None \<Longrightarrow> catalogue_of r' k = Some e \<Longrightarrow>
      ce_plugin_id e = dp_id d \<and> ce_threading e = dp_threading d"
    using g unfolding reg.enriched_def s r' registry_ok_active
    by (auto simp: credit_of_def)
  have "catalogue_of (remove_plugin (dp_id d) t) = catalogue_of (remove_plugin (dp_id d) s)"
    by (rule reg.drop_after_growth [OF s(1) g]) (simp add: credit_of_def s(3))
  then show "without_plugin (dp_id d) (catalogue_of r') = without_plugin (dp_id d) (catalogue_of r)"
    by (simp add: catalogue_of_remove_plugin s t r')
qed

lemma guard_ok_iff: "gr_outcome (guard_call e) = Guard_ok \<longleftrightarrow> (\<exists>rc. e = Returned rc)"
  by (cases e) simp_all

text \<open>A load ends before the plugin runs, after its code ran and failed, or well.\<close>

lemma load_plugin_cases:
  obtains (refused) m where "load_plugin ld hv d h = (refuse d m, h)"
  | (failed) m code where "load_plugin ld hv d h = (refuse d m, h\<lparr>ph_registry :=
        remove_plugin (dp_id d) (snd (run_register d code (ph_registry h)))\<rparr>)"
      "fst (run_register d code (ph_registry h)) \<noteq> Returned 0"
  | (loaded) handle code where "load_plugin ld hv d h = (Inr \<lparr>lp_plugin = d, lp_handle = handle\<rparr>,
        \<lparr>ph_registry = snd (run_register d code (ph_registry h)), ph_open = handle # ph_open h\<rparr>)"
      "fst (run_register d code (ph_registry h)) = Returned 0" "dp_abi d = abi_version_major"
proof (cases "dp_abi d = abi_version_major")
  case False
  then show ?thesis by (intro refused) (simp add: load_plugin_def)
next
  case abi: True
  show ?thesis
  proof (cases "ld_open ld (dp_binary_path d)")
    case (Inl dl)
    show ?thesis
      by (rule refused) (simp add: load_plugin_def abi platform_open_def Inl Let_def)
  next
    case (Inr handle)
    show ?thesis
    proof (cases "ld_symbol ld handle register_symbol")
      case None
      show ?thesis
        by (rule refused)
          (simp add: load_plugin_def abi platform_open_def platform_close_def Inr None Let_def)
    next
      case (Some f)
      define code where "code = f \<lparr>hi_abi_major = abi_version_major, hi_abi_minor = abi_version_minor,
         hi_host_version = hv, hi_capabilities = 0\<rparr>"
      obtain e r where run: "run_register d code (ph_registry h) = (e, r)" by (cases "run_register d code (ph_registry h)")
      note expand = load_plugin_def abi platform_open_def platform_close_def Inr Some Let_def
        run [unfolded code_def] guard_ok_iff
      show ?thesis
      proof (cases "e = Returned 0")
        case True
        then show ?thesis
          by (intro loaded [of handle code]) (simp_all add: expand run abi)
      next
        case False
        then show ?thesis
          by (cases e) (rule failed [of _ code], simp_all add: expand run)+
      qed
    qed
  qed
qed

section \<open>Examples\<close>

definition plugin_example :: "host_info \<Rightarrow> plugin_code" where
  "plugin_example _ = Call (Solver, True, Some ''solver.x'',
       Some \<lparr>vt_abi_version = 1, vt_entry_fn = Some 9, vt_destroy_fn = None\<rparr>, 0)
     (\<lambda>st. Call (Mesher, True, Some ''mesher.a'', None, 0)
       (\<lambda>_. Finish (Returned (cs_code st))))"

definition linker_example :: "(host_info \<Rightarrow> plugin_code) \<Rightarrow> linker" where
  "linker_example code = \<lparr>ld_open = \<lambda>_. Inr 3, ld_symbol = \<lambda>_ _. Some code\<rparr>"

definition discovered_example :: "string \<Rightarrow> discovered_plugin" where
  "discovered_example plugin = \<lparr>dp_manifest_path = ''souxmar-plugin.toml'', dp_binary_path = ''x.so'',
     dp_manifest = \<lparr>pm_id = plugin, pm_name = ''X'', pm_version = ''1.0.0'', pm_abi = 1,
       pm_license = ''MIT'', pm_homepage = [], pm_binary_file = ''x.so'',
       pm_capabilities = [''solver.x''], pm_threading = Reentrant, pm_souxmar_constraint = [],
       pm_description = [], pm_documentation = [], pm_tags = [], pm_min_abi_minor = 0\<rparr>\<rparr>"

definition host_example :: plugin_host where
  "host_example = \<lparr>ph_registry = registry_example, ph_open = [2]\<rparr>"

lemma host_example_ok:
  "registry_ok (ph_registry host_example)" "rg_current_plugin_id (ph_registry host_example) = []"
  "catalogue_of (ph_registry host_example) k = Some e \<Longrightarrow> ce_plugin_id e = ''p''"
  using registry_example_ok
  by (auto simp: host_example_def registry_example_def catalogue_of_def new_registry_def new_entry_def
      split: if_splits)

text \<open>A failed load removes by plugin id, so it also drops what an earlier load of a plugin with
  the same id registered, and the loader lets the second load happen.\<close>

lemma failed_duplicate_load_drops_first:
  "find_mesher (ph_registry host_example) ''mesher.a'' \<noteq> None
   \<and> (\<exists>err h'. load_plugin (linker_example (\<lambda>_. Finish (Returned 1))) ''1.2.3''
          (discovered_example ''p'') host_example = (Inl err, h')
        \<and> find_mesher (ph_registry h') ''mesher.a'' = None)"
proof -
  have "find_mesher (ph_registry host_example) ''mesher.a'' \<noteq> None" by code_simp
  moreover have "isl (fst (load_plugin (linker_example (\<lambda>_. Finish (Returned 1))) ''1.2.3''
          (discovered_example ''p'') host_example))" by code_simp
  moreover have "find_mesher (ph_registry (snd (load_plugin (linker_example (\<lambda>_. Finish (Returned 1)))
      ''1.2.3'' (discovered_example ''p'') host_example))) ''mesher.a'' = None" by code_simp
  ultimately show ?thesis by (metis isl_def prod.collapse)
qed

section \<open>The properties\<close>

text \<open>C11: loading a plugin.  A failed load, whatever the plugin did before it failed, leaves the
  open handles as they were, and the catalogue as it was or without the plugin's entries.  A
  successful load of a plugin of this ABI opens one handle and keeps every entry; what it adds is
  usable, credited to the plugin and carries its threading model.  Both ways the registry stays
  well formed and no registration is left in progress.\<close>

theorem load_plugin_outcome:
  assumes "registry_ok (ph_registry h)" "rg_current_plugin_id (ph_registry h) = []"
  shows "(case load_plugin ld host_version d h of (res, h') \<Rightarrow>
      registry_ok (ph_registry h') \<and> rg_current_plugin_id (ph_registry h') = []
      \<and> (case res of
           Inl err \<Rightarrow> le_binary_path err = dp_binary_path d \<and> ph_open h' = ph_open h
             \<and> (catalogue_of (ph_registry h') = catalogue_of (ph_registry h)
                \<or> catalogue_of (ph_registry h') = without_plugin (dp_id d) (catalogue_of (ph_registry h)))
         | Inr lp \<Rightarrow> lp_plugin lp = d \<and> dp_abi d = abi_version_major
             \<and> ph_open h' = lp_handle lp # ph_open h
             \<and> (\<forall>k e. catalogue_of (ph_registry h') k = Some e \<longleftrightarrow>
                  catalogue_of (ph_registry h) k = Some e
                  \<or> catalogue_of (ph_registry h) k = None \<and> catalogue_of (ph_registry h') k = Some e
                    \<and> entry_ok k e \<and> ce_plugin_id e = dp_id d \<and> ce_threading e = dp_threading d)))"
proof (cases rule: load_plugin_cases [of ld host_version d h])
  case (refused m)
  then show ?thesis using assms by (simp add: refuse_def)
next
  case (failed m code)
  note r = run_register_registers [where r = "ph_registry h" and d = d and code = code, OF assms(1)]
  show ?thesis
    unfolding failed(1)
    by (simp add: refuse_def registry_ok_remove_plugin r catalogue_of_remove_plugin)
      (simp add: remove_plugin_def r)
next
  case (loaded handle code)
  note r = run_register_registers [where r = "ph_registry h" and d = d and code = code, OF assms(1)]
  have "entry_ok k e" if "catalogue_of (snd (run_register d code (ph_registry h))) k = Some e" for k e
    using registry_ok_entry [OF r(1) that] .
  then show ?thesis
    unfolding loaded(1) using loaded(3) r(1,2,4,5) by simp (metis not_None_eq)
qed

theorem load_plugin_outcome_witness:
  "fst (load_plugin (linker_example plugin_example) ''1.2.3'' (discovered_example ''q'') host_example)
     = Inr \<lparr>lp_plugin = discovered_example ''q'', lp_handle = 3\<rparr>
   \<and> registry_ok (ph_registry (snd (load_plugin (linker_example plugin_example) ''1.2.3''
        (discovered_example ''q'') host_example)))"
proof
  show "fst (load_plugin (linker_example plugin_example) ''1.2.3'' (discovered_example ''q'') host_example)
     = Inr \<lparr>lp_plugin = discovered_example ''q'', lp_handle = 3\<rparr>" by code_simp
  show "registry_ok (ph_registry (snd (load_plugin (linker_example plugin_example) ''1.2.3''
        (discovered_example ''q'') host_example)))"
    using load_plugin_outcome [OF host_example_ok(1,2),
        where ld = "linker_example plugin_example" and host_version = "''1.2.3''"
        and d = "discovered_example ''q''"] by (simp add: case_prod_beta)
qed



end
