(* ===== verification/Dispatcher.thy ===== *)
theory Dispatcher
  imports Loader
begin

text \<open>
  The registry dispatcher (src/pipeline/registry_dispatcher.cpp,
  include/souxmar/pipeline/registry_dispatcher.h): it turns a stage into a call of the registered
  plugin function and the handles the plugin gives back into a stage output.  Plugins are a
  parameter, the record \<open>plugin_calls\<close>: what each entry function returns or throws, which handles
  it wrote to its out-parameters by then, and what freeing a handle does.  A handle is an address,
  \<open>None\<close> the null pointer.
\<close>

unbundle bit_operations_syntax

section \<open>Stage outputs\<close>

datatype output_kind = No_output | Mesh_output | Geometry_output | Field_output | Path_output

record stage_output =
  so_kind :: output_kind
  so_mesh :: "nat option"
  so_geometry :: "nat option"
  so_field :: "nat option"
  so_path :: string

definition empty_output :: stage_output where
  "empty_output = \<lparr>so_kind = No_output, so_mesh = None, so_geometry = None, so_field = None,
     so_path = []\<rparr>"

fun output_code :: "output_kind \<Rightarrow> byte" where
  "output_code No_output = 0"
| "output_code Mesh_output = 1"
| "output_code Geometry_output = 2"
| "output_code Field_output = 3"
| "output_code Path_output = 4"

section \<open>Plugin functions\<close>

record mesher_options =
  mo_target_size :: double
  mo_optimize :: u32
  mo_element_order :: u32
  mo_random_seed :: u64

record solver_options =
  vo_random_seed :: u64
  vo_tolerance :: double
  vo_max_iterations :: u32

datatype handle = Mesh_handle nat | Geometry_handle nat | Field_handle nat

record 'w plugin_calls =
  pc_mesh :: "nat \<Rightarrow> nat option \<Rightarrow> mesher_options \<Rightarrow> nat \<Rightarrow> 'w \<Rightarrow>
    (c_status call_end \<times> nat option) \<times> 'w"
  pc_solve :: "nat \<Rightarrow> nat option \<Rightarrow> pvalue \<Rightarrow> solver_options \<Rightarrow> nat \<Rightarrow> 'w \<Rightarrow>
    (c_status call_end \<times> nat option) \<times> 'w"
  pc_write :: "nat \<Rightarrow> nat option \<Rightarrow> nat option \<Rightarrow> pvalue \<Rightarrow> nat \<Rightarrow> 'w \<Rightarrow> c_status call_end \<times> 'w"
  pc_compute :: "nat \<Rightarrow> nat option \<Rightarrow> nat option \<Rightarrow> pvalue \<Rightarrow> solver_options \<Rightarrow> nat \<Rightarrow> 'w \<Rightarrow>
    (c_status call_end \<times> nat option) \<times> 'w"
  pc_read :: "nat \<Rightarrow> string \<Rightarrow> pvalue \<Rightarrow> nat \<Rightarrow> 'w \<Rightarrow>
    (c_status call_end \<times> nat option \<times> nat option) \<times> 'w"
  pc_free :: "handle \<Rightarrow> 'w \<Rightarrow> 'w"
  pc_content :: "string \<Rightarrow> 'w \<Rightarrow> (byte list \<times> bool) option"

text \<open>The plugins' world, and the handles given by plugins and freed by the host so far.\<close>

record 'w dispatch_world =
  dw_state :: 'w
  dw_given :: "handle list"
  dw_freed :: "handle list"

type_synonym ('a, 'w) dispatching = "'w dispatch_world \<Rightarrow> 'a \<times> 'w dispatch_world"

definition handles :: "nat option \<Rightarrow> nat option \<Rightarrow> nat option \<Rightarrow> handle list" where
  "handles mesh geometry field =
     (case mesh of None \<Rightarrow> [] | Some a \<Rightarrow> [Mesh_handle a])
     @ (case geometry of None \<Rightarrow> [] | Some a \<Rightarrow> [Geometry_handle a])
     @ (case field of None \<Rightarrow> [] | Some a \<Rightarrow> [Field_handle a])"

definition free_all :: "'w plugin_calls \<Rightarrow> handle list \<Rightarrow> 'w dispatch_world \<Rightarrow> 'w dispatch_world" where
  "free_all pc hs w = w\<lparr>dw_state := fold (pc_free pc) hs (dw_state w), dw_freed := dw_freed w @ hs\<rparr>"

section \<open>Inputs\<close>

definition upstream_as ::
  "stage_output outputs \<Rightarrow> string \<Rightarrow> output_kind \<Rightarrow> stage_output option" where
  "upstream_as upstream stage_id expected =
     (case map_of upstream stage_id of
        Some (Some so) \<Rightarrow> if so_kind so \<noteq> expected then None else Some so
      | _ \<Rightarrow> None)"

definition extract_stage_ref :: "pvalue \<Rightarrow> string \<Rightarrow> string option" where
  "extract_stage_ref input key = (case find_field input key of
     None \<Rightarrow> None | Some v \<Rightarrow> try_stage v)"

definition number_input :: "pvalue \<Rightarrow> string \<Rightarrow> double option" where
  "number_input input key = (case find_field input key of None \<Rightarrow> None | Some v \<Rightarrow> try_number v)"

definition path_input :: "pvalue \<Rightarrow> string option" where
  "path_input inputs = (case find_field inputs ''path'' of None \<Rightarrow> None | Some v \<Rightarrow> try_string v)"

text \<open>The casts to \<open>std::int32_t\<close> and \<open>std::int64_t\<close> truncate; where they are undefined in C++
  they are what x86-64 gives.\<close>

definition to_int32 :: "double \<Rightarrow> u32" where
  "to_int32 d = (case double_trunc d of
     Some i \<Rightarrow> if - (2 ^ 31) \<le> i \<and> i < 2 ^ 31 then word_of_int i else 0x80000000
   | None \<Rightarrow> 0x80000000)"

definition to_int64 :: "double \<Rightarrow> u64" where
  "to_int64 d = (case double_trunc d of
     Some i \<Rightarrow> if - (2 ^ 63) \<le> i \<and> i < 2 ^ 63 then word_of_int i else 0x8000000000000000
   | None \<Rightarrow> 0x8000000000000000)"

definition mesher_options_of :: "pvalue \<Rightarrow> mesher_options" where
  "mesher_options_of input =
     \<lparr>mo_target_size = (case number_input input ''target_size'' of Some d \<Rightarrow> d | None \<Rightarrow> 0),
      mo_optimize = (case find_field input ''optimize'' of
          Some v \<Rightarrow> (case try_bool v of Some b \<Rightarrow> if b then 1 else 0 | None \<Rightarrow> 0) | None \<Rightarrow> 0),
      mo_element_order = (case number_input input ''element_order'' of Some d \<Rightarrow> to_int32 d | None \<Rightarrow> 1),
      mo_random_seed = - 1\<rparr>"

definition solver_options_of :: "pvalue \<Rightarrow> solver_options" where
  "solver_options_of input =
     \<lparr>vo_random_seed = (case number_input input ''random_seed'' of Some d \<Rightarrow> to_int64 d | None \<Rightarrow> - 1),
      vo_tolerance = (case number_input input ''tolerance'' of Some d \<Rightarrow> d | None \<Rightarrow> 0),
      vo_max_iterations = (case number_input input ''max_iterations'' of Some d \<Rightarrow> to_int32 d | None \<Rightarrow> 0)\<rparr>"

section \<open>After the call\<close>

text \<open>The error of a call that threw or returned an error status.\<close>

definition call_failure :: "string \<Rightarrow> string \<Rightarrow> c_status call_end \<Rightarrow> string option" where
  "call_failure kind capability_id e =
     (let guard = guard_call e
      in if gr_outcome guard \<noteq> Guard_ok
         then Some (kind @ '' '' @ quoted capability_id @ '' raised: '' @ gr_detail guard)
         else case e of
           Returned status \<Rightarrow>
             if cs_code status \<noteq> 0
             then Some (kind @ '' '' @ quoted capability_id @ '' returned error ''
                    @ int_str (sint (cs_code status)) @ '': ''
                    @ (case cs_message status of Some m \<Rightarrow> m | None \<Rightarrow> ''(no message)''))
             else None
         | _ \<Rightarrow> None)"

definition not_registered :: "string \<Rightarrow> string \<Rightarrow> 'p dispatch_result" where
  "not_registered kind capability_id =
     Dispatch_error (''no '' @ kind @ '' capability registered as '' @ quoted capability_id)"

definition missing_ref :: "string \<Rightarrow> string \<Rightarrow> string \<Rightarrow> 'p dispatch_result" where
  "missing_ref kind capability_id key =
     Dispatch_error (kind @ '' '' @ quoted capability_id @ '' input is missing required ''
       @ quoted (key @ '': {from: ...}''))"

definition wrong_output :: "string \<Rightarrow> string \<Rightarrow> string \<Rightarrow> 'p dispatch_result" where
  "wrong_output key stage_id what =
     Dispatch_error (''stage referenced by '' @ quoted key @ '' ('' @ stage_id
       @ '') did not produce a '' @ what)"

definition entry_fn :: "plugin_entry \<Rightarrow> nat" where
  "entry_fn p = the (vt_entry_fn (pe_vtable p))"

text \<open>\<open>std::string::c_str\<close>, as a C reader of it sees it.\<close>

definition c_str :: "string \<Rightarrow> string" where
  "c_str s = takeWhile (\<lambda>c. c \<noteq> CHR 0x00) s"

section \<open>The five kinds of stage\<close>

definition settle_call ::
  "'w plugin_calls \<Rightarrow> handle list \<Rightarrow> string option \<Rightarrow> stage_output \<Rightarrow>
     (stage_output dispatch_result, 'w) dispatching" where
  "settle_call pc hs failure out w =
     (case failure of
        Some m \<Rightarrow> (Dispatch_error m, free_all pc hs w)
      | None \<Rightarrow> (Dispatched (Some out), w))"

definition given :: "handle list \<Rightarrow> 'w \<Rightarrow> 'w dispatch_world \<Rightarrow> 'w dispatch_world" where
  "given hs st w = w\<lparr>dw_state := st, dw_given := dw_given w @ hs\<rparr>"

definition dispatch_mesher ::
  "'w plugin_calls \<Rightarrow> registry \<Rightarrow> string \<Rightarrow> pvalue \<Rightarrow> stage_output outputs \<Rightarrow>
     (stage_output dispatch_result, 'w) dispatching" where
  "dispatch_mesher pc r capability_id inputs upstream w =
     (case find_mesher r capability_id of
        None \<Rightarrow> (not_registered ''mesher'' capability_id, w)
      | Some entry \<Rightarrow>
          let run = (\<lambda>geometry.
                let ((e, out_mesh), st) = pc_mesh pc (entry_fn entry) geometry (mesher_options_of inputs)
                      (pe_user_data entry) (dw_state w);
                    hs = handles out_mesh None None;
                    failure = (case call_failure ''mesher'' capability_id e of
                        Some m \<Rightarrow> Some m
                      | None \<Rightarrow> if out_mesh = None
                          then Some (''mesher '' @ quoted capability_id @ '' returned OK but no mesh'')
                          else None)
                in settle_call pc hs failure
                     (empty_output\<lparr>so_kind := Mesh_output, so_mesh := out_mesh\<rparr>) (given hs st w))
          in case extract_stage_ref inputs ''geometry'' of
               None \<Rightarrow> run None
             | Some stage_id \<Rightarrow> (case upstream_as upstream stage_id Geometry_output of
                 None \<Rightarrow> (wrong_output ''geometry'' stage_id ''Geometry'', w)
               | Some up \<Rightarrow> run (so_geometry up)))"

definition dispatch_solver ::
  "'w plugin_calls \<Rightarrow> registry \<Rightarrow> string \<Rightarrow> pvalue \<Rightarrow> stage_output outputs \<Rightarrow>
     (stage_output dispatch_result, 'w) dispatching" where
  "dispatch_solver pc r capability_id inputs upstream w =
     (case find_solver r capability_id of
        None \<Rightarrow> (not_registered ''solver'' capability_id, w)
      | Some entry \<Rightarrow> (case extract_stage_ref inputs ''mesh'' of
          None \<Rightarrow> (missing_ref ''solver'' capability_id ''mesh'', w)
        | Some mesh_stage \<Rightarrow> (case upstream_as upstream mesh_stage Mesh_output of
            None \<Rightarrow> (wrong_output ''mesh'' mesh_stage ''Mesh'', w)
          | Some up \<Rightarrow>
              let ((e, out_field), st) = pc_solve pc (entry_fn entry) (so_mesh up) inputs
                    (solver_options_of inputs) (pe_user_data entry) (dw_state w);
                  hs = handles None None out_field;
                  failure = (case call_failure ''solver'' capability_id e of
                      Some m \<Rightarrow> Some m
                    | None \<Rightarrow> if out_field = None
                        then Some (''solver '' @ quoted capability_id @ '' returned OK but no field'')
                        else None)
              in settle_call pc hs failure
                   (empty_output\<lparr>so_kind := Field_output, so_field := out_field\<rparr>) (given hs st w))))"

definition dispatch_writer ::
  "'w plugin_calls \<Rightarrow> registry \<Rightarrow> string \<Rightarrow> pvalue \<Rightarrow> stage_output outputs \<Rightarrow>
     (stage_output dispatch_result, 'w) dispatching" where
  "dispatch_writer pc r capability_id inputs upstream w =
     (case find_writer r capability_id of
        None \<Rightarrow> (not_registered ''writer'' capability_id, w)
      | Some entry \<Rightarrow> (case extract_stage_ref inputs ''mesh'' of
          None \<Rightarrow> (missing_ref ''writer'' capability_id ''mesh'', w)
        | Some mesh_stage \<Rightarrow> (case upstream_as upstream mesh_stage Mesh_output of
            None \<Rightarrow> (wrong_output ''mesh'' mesh_stage ''Mesh'', w)
          | Some mesh_up \<Rightarrow>
              let run = (\<lambda>field.
                    let (e, st) = pc_write pc (entry_fn entry) (so_mesh mesh_up) field inputs
                          (pe_user_data entry) (dw_state w)
                    in settle_call pc [] (call_failure ''writer'' capability_id e)
                         (empty_output\<lparr>so_kind := Path_output,
                            so_path := (case path_input inputs of Some s \<Rightarrow> s | None \<Rightarrow> [])\<rparr>) (given [] st w))
              in case extract_stage_ref inputs ''field'' of
                   None \<Rightarrow> run None
                 | Some field_stage \<Rightarrow> (case upstream_as upstream field_stage Field_output of
                     None \<Rightarrow> (wrong_output ''field'' field_stage ''Field'', w)
                   | Some field_up \<Rightarrow> run (so_field field_up)))))"

definition dispatch_postproc ::
  "'w plugin_calls \<Rightarrow> registry \<Rightarrow> string \<Rightarrow> pvalue \<Rightarrow> stage_output outputs \<Rightarrow>
     (stage_output dispatch_result, 'w) dispatching" where
  "dispatch_postproc pc r capability_id inputs upstream w =
     (case find_postproc r capability_id of
        None \<Rightarrow> (not_registered ''postproc'' capability_id, w)
      | Some entry \<Rightarrow> (case extract_stage_ref inputs ''mesh'' of
          None \<Rightarrow> (missing_ref ''postproc'' capability_id ''mesh'', w)
        | Some mesh_stage \<Rightarrow> (case upstream_as upstream mesh_stage Mesh_output of
            None \<Rightarrow> (wrong_output ''mesh'' mesh_stage ''Mesh'', w)
          | Some mesh_up \<Rightarrow> (case extract_stage_ref inputs ''field'' of
              None \<Rightarrow> (missing_ref ''postproc'' capability_id ''field'', w)
            | Some field_stage \<Rightarrow> (case upstream_as upstream field_stage Field_output of
                None \<Rightarrow> (wrong_output ''field'' field_stage ''Field'', w)
              | Some field_up \<Rightarrow>
                  let ((e, out_field), st) = pc_compute pc (entry_fn entry) (so_mesh mesh_up)
                        (so_field field_up) inputs (solver_options_of inputs) (pe_user_data entry)
                        (dw_state w);
                      hs = handles None None out_field;
                      failure = (case call_failure ''postproc'' capability_id e of
                          Some m \<Rightarrow> Some m
                        | None \<Rightarrow> if out_field = None
                            then Some (''postproc '' @ quoted capability_id @ '' returned OK but no field'')
                            else None)
                  in settle_call pc hs failure
                       (empty_output\<lparr>so_kind := Field_output, so_field := out_field\<rparr>)
                       (given hs st w))))))"

section \<open>Reader paths\<close>

text \<open>
  \<open>lexically_normal\<close> on a POSIX path.  The loop keeps the names kept so far, the last one first,
  and whether the path ends in a separator at this point: after a dot, after a name that a pair
  of dots removed, and where the path itself does.
\<close>

fun path_names :: "string \<Rightarrow> string \<Rightarrow> string list" where
  "path_names [] acc = [rev acc]"
| "path_names (c # cs) acc =
     (if c = CHR ''/'' then rev acc # path_names cs [] else path_names cs (c # acc))"

fun normalise :: "bool \<Rightarrow> string list \<Rightarrow> string list \<Rightarrow> bool \<Rightarrow> string list \<times> bool" where
  "normalise rooted [] kept slash = (rev kept, slash)"
| "normalise rooted (n # ns) kept slash =
     (if n = [] \<or> n = ''.'' then normalise rooted ns kept True
      else if n = ''..'' then
        (if kept \<noteq> [] \<and> hd kept \<noteq> ''..'' then normalise rooted ns (tl kept) True
         else if rooted then normalise rooted ns kept True
         else normalise rooted ns (''..'' # kept) False)
      else normalise rooted ns (n # kept) False)"

definition lexically_normal :: "string \<Rightarrow> string" where
  "lexically_normal s =
     (let rooted = starts_with ''/'' s;
          (names, slash) = normalise rooted (path_names s []) [] False;
          root = (if rooted then ''/'' else [])
      in if s = [] then []
         else if names = [] then (if rooted then root else ''.'')
         else root @ join ''/'' names @ (if slash \<and> last names \<noteq> ''..'' then ''/'' else []))"

definition path_append :: "string \<Rightarrow> string \<Rightarrow> string" where
  "path_append base p = (if last base = CHR ''/'' then base @ p else base @ ''/'' @ p)"

definition resolve_reader_path :: "string \<Rightarrow> string \<Rightarrow> string" where
  "resolve_reader_path base_dir path_s =
     (if base_dir = [] then path_s
      else if starts_with ''/'' path_s then path_s
      else lexically_normal (path_append base_dir path_s))"

definition bool_str :: "bool \<Rightarrow> string" where
  "bool_str b = (if b then ''true'' else ''false'')"

definition dispatch_reader ::
  "'w plugin_calls \<Rightarrow> registry \<Rightarrow> string \<Rightarrow> string \<Rightarrow> pvalue \<Rightarrow>
     (stage_output dispatch_result, 'w) dispatching" where
  "dispatch_reader pc r base_dir capability_id inputs w =
     (case find_reader r capability_id of
        None \<Rightarrow> (not_registered ''reader'' capability_id, w)
      | Some entry \<Rightarrow> (case path_input inputs of
          None \<Rightarrow> (Dispatch_error (''reader '' @ quoted capability_id
                     @ '' input is missing required string `path`''), w)
        | Some p \<Rightarrow>
            let ((e, out_mesh, out_geometry), st) = pc_read pc (entry_fn entry)
                  (c_str (resolve_reader_path base_dir p)) inputs (pe_user_data entry) (dw_state w);
                hs = handles out_mesh out_geometry None;
                failure = (case call_failure ''reader'' capability_id e of
                    Some m \<Rightarrow> Some m
                  | None \<Rightarrow> if (out_mesh = None) = (out_geometry = None)
                      then Some (''reader '' @ quoted capability_id
                        @ '' must fill exactly one of out_mesh / out_geometry (got mesh=''
                        @ bool_str (out_mesh \<noteq> None) @ '', geometry=''
                        @ bool_str (out_geometry \<noteq> None) @ '')'')
                      else None)
            in settle_call pc hs failure
                 (if out_mesh \<noteq> None
                  then empty_output\<lparr>so_kind := Mesh_output, so_mesh := out_mesh\<rparr>
                  else empty_output\<lparr>so_kind := Geometry_output, so_geometry := out_geometry\<rparr>)
                 (given hs st w)))"

section \<open>The dispatcher\<close>

definition dispatch_stage ::
  "'w plugin_calls \<Rightarrow> registry \<Rightarrow> string \<Rightarrow> string \<Rightarrow> pvalue \<Rightarrow> stage_output outputs \<Rightarrow>
     (stage_output dispatch_result, 'w) dispatching" where
  "dispatch_stage pc r base_dir capability_id inputs upstream =
     (if starts_with ''mesher.'' capability_id then dispatch_mesher pc r capability_id inputs upstream
      else if starts_with ''solver.'' capability_id then dispatch_solver pc r capability_id inputs upstream
      else if starts_with ''writer.'' capability_id then dispatch_writer pc r capability_id inputs upstream
      else if starts_with ''postproc.'' capability_id then dispatch_postproc pc r capability_id inputs upstream
      else if starts_with ''reader.'' capability_id then dispatch_reader pc r base_dir capability_id inputs
      else Pair (Dispatch_error (''unsupported capability namespace for '' @ quoted capability_id
        @ '' (known namespaces: mesher.*, solver.*, writer.*, postproc.*, reader.*)'')))"

definition cache_key_extra :: "'w plugin_calls \<Rightarrow> string \<Rightarrow> string \<Rightarrow> pvalue \<Rightarrow> 'w \<Rightarrow> string" where
  "cache_key_extra pc base_dir capability_id inputs st =
     (if \<not> starts_with ''reader.'' capability_id then []
      else case path_input inputs of
        None \<Rightarrow> []
      | Some p \<Rightarrow> (case hash_file (pc_content pc (resolve_reader_path base_dir p) st) of
          Some digest \<Rightarrow> hash_hex digest
        | None \<Rightarrow> ''unreadable''))"

definition plugin_version :: "registry \<Rightarrow> string \<Rightarrow> string" where
  "plugin_version r capability_id = (case find_capability r capability_id of
     Some e \<Rightarrow> ''abi'' @ int_str (sint (ce_abi_version e)) | None \<Rightarrow> [])"

definition plugin_owner :: "registry \<Rightarrow> string \<Rightarrow> string" where
  "plugin_owner r capability_id = (case find_capability r capability_id of
     Some e \<Rightarrow> ce_plugin_id e | None \<Rightarrow> capability_id)"

definition plugin_threading :: "registry \<Rightarrow> string \<Rightarrow> threading_model" where
  "plugin_threading r capability_id = (case find_threading r capability_id of
     Some m \<Rightarrow> m | None \<Rightarrow> Single_threaded)"

definition registry_dispatcher ::
  "'w plugin_calls \<Rightarrow> registry \<Rightarrow> string \<Rightarrow> (stage_output, 'w dispatch_world) dispatcher" where
  "registry_dispatcher pc r base_dir =
     \<lparr>d_dispatch = dispatch_stage pc r base_dir,
      d_version = (\<lambda>c w. (plugin_version r c, w)),
      d_extra = (\<lambda>c v w. (cache_key_extra pc base_dir c v (dw_state w), w)),
      d_plugin_id = plugin_owner r,
      d_threading = plugin_threading r\<rparr>"

section \<open>Outputs on disk\<close>

definition serialize_stage_output :: "stage_output \<Rightarrow> byte list option" where
  "serialize_stage_output so =
     (if so_kind so \<noteq> Path_output then None
      else Some (output_code Path_output # le64 (word_of_nat (length (so_path so))) @ bytes_of (so_path so)))"

definition read_le64 :: "byte list \<Rightarrow> u64" where
  "read_le64 bs = foldl (\<lambda>len i. len OR push_bit (8 * i) (ucast (bs ! i))) 0 [0..<8]"

text \<open>\<open>exists\<close> tells which paths exist on disk when the blob is read.\<close>

definition deserialize_stage_output :: "(string \<Rightarrow> bool) \<Rightarrow> byte list \<Rightarrow> stage_output option" where
  "deserialize_stage_output exists blob =
     (if length blob < 9 then None
      else if blob ! 0 \<noteq> output_code Path_output then None
      else let len = read_le64 (take 8 (drop 1 blob))
        in if word_of_nat (length blob) \<noteq> 9 + len then None
           else let path = string_of_bytes (take (unat len) (drop 9 blob))
             in if \<not> exists path then None
                else Some (empty_output\<lparr>so_kind := Path_output, so_path := path\<rparr>))"

section \<open>Handles are accounted for\<close>

definition output_handles :: "stage_output \<Rightarrow> handle list" where
  "output_handles so = handles (so_mesh so) (so_geometry so) (so_field so)"

text \<open>An output holds what its kind says and nothing else.\<close>

definition output_ok :: "stage_output \<Rightarrow> bool" where
  "output_ok so = (case so_kind so of
       No_output \<Rightarrow> False
     | Mesh_output \<Rightarrow> so_mesh so \<noteq> None \<and> so_geometry so = None \<and> so_field so = None \<and> so_path so = []
     | Geometry_output \<Rightarrow> so_mesh so = None \<and> so_geometry so \<noteq> None \<and> so_field so = None \<and> so_path so = []
     | Field_output \<Rightarrow> so_mesh so = None \<and> so_geometry so = None \<and> so_field so \<noteq> None \<and> so_path so = []
     | Path_output \<Rightarrow> so_mesh so = None \<and> so_geometry so = None \<and> so_field so = None)"

fun produces :: "capability_kind \<Rightarrow> output_kind set" where
  "produces Mesher = {Mesh_output}"
| "produces Solver = {Field_output}"
| "produces Writer = {Path_output}"
| "produces Postproc = {Field_output}"
| "produces Reader = {Mesh_output, Geometry_output}"

definition accounted ::
  "registry \<Rightarrow> string \<Rightarrow> 'w dispatch_world \<Rightarrow> stage_output dispatch_result \<times> 'w dispatch_world \<Rightarrow> bool"
  where
  "accounted r capability_id w rw =
     (\<exists>hs. dw_given (snd rw) = dw_given w @ hs
       \<and> (case fst rw of
            Dispatched (Some so) \<Rightarrow> dw_freed (snd rw) = dw_freed w \<and> hs = output_handles so \<and> output_ok so
              \<and> (\<exists>kind. find_with kind r capability_id \<noteq> None \<and> so_kind so \<in> produces kind)
          | Dispatch_error m \<Rightarrow> dw_freed (snd rw) = dw_freed w @ hs
          | _ \<Rightarrow> False))"

lemma accounted_refused [simp]: "accounted r c w (Dispatch_error m, w)"
  by (simp add: accounted_def)

lemma accounted_messages [simp]:
  "accounted r c w (not_registered kind cap, w)" "accounted r c w (missing_ref kind cap key, w)"
  "accounted r c w (wrong_output key stage what, w)"
  by (simp_all add: not_registered_def missing_ref_def wrong_output_def)

lemma accounted_settle:
  assumes "failure = None \<Longrightarrow> output_ok out \<and> hs = output_handles out \<and> so_kind out \<in> produces kind"
    and "find_with kind r c \<noteq> None"
  shows "accounted r c w (settle_call pc hs failure out (given hs st w))"
proof (cases failure)
  case None
  then show ?thesis
    using assms by (auto simp: accounted_def settle_call_def given_def)
next
  case (Some m)
  then show ?thesis by (simp add: accounted_def settle_call_def given_def free_all_def)
qed

lemma accounted_mesher: "accounted r c w (dispatch_mesher pc r c inputs upstream w)"
  unfolding dispatch_mesher_def Let_def
  by (auto split: option.split prod.split intro!: accounted_settle [of _ _ _ Mesher]
      simp: output_ok_def output_handles_def empty_output_def find_with_def)

lemma accounted_solver: "accounted r c w (dispatch_solver pc r c inputs upstream w)"
  unfolding dispatch_solver_def Let_def
  by (auto split: option.split prod.split intro!: accounted_settle [of _ _ _ Solver]
      simp: output_ok_def output_handles_def empty_output_def find_with_def)

lemma accounted_writer: "accounted r c w (dispatch_writer pc r c inputs upstream w)"
  unfolding dispatch_writer_def Let_def
  by (auto split: option.split prod.split intro!: accounted_settle [of _ _ _ Writer]
      simp: output_ok_def output_handles_def empty_output_def find_with_def handles_def)

lemma accounted_postproc: "accounted r c w (dispatch_postproc pc r c inputs upstream w)"
  unfolding dispatch_postproc_def Let_def
  by (auto split: option.split prod.split intro!: accounted_settle [of _ _ _ Postproc]
      simp: output_ok_def output_handles_def empty_output_def find_with_def)

lemma accounted_reader: "accounted r c w (dispatch_reader pc r base_dir c inputs w)"
  unfolding dispatch_reader_def Let_def
  by (auto split: option.split prod.split if_split intro!: accounted_settle [of _ _ _ Reader]
      simp: output_ok_def output_handles_def empty_output_def find_with_def)

lemma accounted_dispatch: "accounted r c w (dispatch_stage pc r base_dir c inputs upstream w)"
  by (simp add: dispatch_stage_def accounted_mesher accounted_solver accounted_writer
      accounted_postproc accounted_reader)

section \<open>Reading back\<close>

lemma bit_fold_or:
  "bit (foldl (\<lambda>a i. a OR f i) z xs) n \<longleftrightarrow> bit z n \<or> (\<exists>i \<in> set xs. bit (f i :: u64) n)"
  by (induction xs arbitrary: z) (auto simp: bit_or_iff)

lemma bit_shifted_byte:
  assumes "i < 8" "k < 8" "j < 8"
  shows "bit (push_bit (8 * i) (ucast (b :: byte) :: u64)) (8 * k + j) \<longleftrightarrow> i = k \<and> bit b j"
proof (cases "i = k")
  case True
  have "8 * k + j < 64" using assms by simp
  then show ?thesis
    unfolding bit_push_bit_iff bit_ucast_iff possible_bit_word True using assms(3) by simp
next
  case False
  have "\<not> bit b (8 * k + j - 8 * i)" if "8 * i \<le> 8 * k + j"
  proof
    assume "bit b (8 * k + j - 8 * i)"
    then have "8 * k + j - 8 * i < 8" using bit_imp_le_length [of b "8 * k + j - 8 * i"] by simp
    with that False assms(3) show False by arith
  qed
  then show ?thesis
    using False unfolding bit_push_bit_iff bit_ucast_iff by blast
qed

lemma bit_read_le64:
  assumes "k < 8" "j < 8"
  shows "bit (read_le64 bs) (8 * k + j) \<longleftrightarrow> bit (bs ! k) j"
proof -
  have "bit (read_le64 bs) (8 * k + j)
      \<longleftrightarrow> (\<exists>i \<in> set [0..<8]. bit (push_bit (8 * i) (ucast (bs ! i) :: u64)) (8 * k + j))"
    unfolding read_le64_def bit_fold_or by simp
  also have "\<dots> \<longleftrightarrow> (\<exists>i \<in> set [0..<8]. i = k \<and> bit (bs ! i) j)"
    by (rule bex_cong [OF refl], rule bit_shifted_byte) (use assms in simp_all)
  also have "\<dots> \<longleftrightarrow> bit (bs ! k) j"
    using assms(1) by (simp only: set_upt Bex_def atLeastLessThan_iff le0 simp_thms) blast
  finally show ?thesis .
qed

lemma read_le64_le64: "read_le64 (le64 v) = v"
proof (rule bit_word_eqI)
  fix n :: nat
  assume "n < LENGTH(64)"
  then have k: "n div 8 < 8" "n mod 8 < 8" by simp_all
  have "bit (read_le64 (le64 v)) (8 * (n div 8) + n mod 8) = bit v (8 * (n div 8) + n mod 8)"
    by (simp only: bit_read_le64 [OF k] bit_le64 [OF k])
  then show "bit (read_le64 (le64 v)) n = bit v n" by (simp only: mult_div_mod_eq)
qed

lemma le64_read_le64:
  assumes "length bs = 8"
  shows "le64 (read_le64 bs) = bs"
proof (rule nth_equalityI)
  show "length (le64 (read_le64 bs)) = length bs" using assms by simp
next
  fix i
  assume "i < length (le64 (read_le64 bs))"
  then have i: "i < 8" by simp
  show "le64 (read_le64 bs) ! i = bs ! i"
  proof (rule bit_word_eqI)
    fix j :: nat
    assume "j < LENGTH(8)"
    then have j: "j < 8" by simp
    show "bit (le64 (read_le64 bs) ! i) j = bit (bs ! i) j"
      by (simp only: bit_le64 [OF i j] bit_read_le64 [OF i j])
  qed
qed

definition path_output :: "string \<Rightarrow> stage_output" where
  "path_output p = empty_output\<lparr>so_kind := Path_output, so_path := p\<rparr>"

lemma serialize_path: "serialize_stage_output (path_output p)
    = Some (output_code Path_output # le64 (word_of_nat (length p)) @ bytes_of p)"
  by (simp add: serialize_stage_output_def path_output_def)

lemma deserialize_serialized:
  assumes "length p < 2 ^ 64"
  shows "deserialize_stage_output exists (output_code Path_output # le64 (word_of_nat (length p)) @ bytes_of p)
    = (if exists p then Some (path_output p) else None)"
proof -
  let ?blob = "output_code Path_output # le64 (word_of_nat (length p)) @ bytes_of p"
  have len: "length ?blob = 9 + length p" by simp
  have hd8: "read_le64 (take 8 (drop 1 ?blob)) = word_of_nat (length p)"
    by (simp add: read_le64_le64)
  have un: "unat (word_of_nat (length p) :: u64) = length p"
    using assms by (simp add: unat_of_nat)
  have tl: "string_of_bytes (take (length p) (drop 9 ?blob)) = p"
    by (simp add: numeral_eq_Suc)
  have "?blob ! 0 = output_code Path_output" by simp
  moreover have "word_of_nat (length ?blob) = 9 + (word_of_nat (length p) :: u64)"
    unfolding len by simp
  ultimately show ?thesis
    unfolding deserialize_stage_output_def Let_def hd8 un tl
    by (simp add: path_output_def)
qed

lemma deserialize_SomeD:
  assumes "deserialize_stage_output exists blob = Some so" "length blob < 2 ^ 64"
  shows "so = path_output (so_path so) \<and> exists (so_path so) \<and> serialize_stage_output so = Some blob"
proof -
  define len where "len = read_le64 (take 8 (drop 1 blob))"
  define p where "p = string_of_bytes (take (unat len) (drop 9 blob))"
  have c: "9 \<le> length blob" "blob ! 0 = output_code Path_output"
    "word_of_nat (length blob) = 9 + len" "exists p" "so = path_output p"
    using assms(1) unfolding deserialize_stage_output_def Let_def len_def [symmetric] p_def [symmetric]
    by (auto simp: path_output_def split: if_splits)
  have "len = word_of_nat (length blob) - 9" using c(3) by simp
  also have "\<dots> = word_of_nat (length blob - 9)" using c(1) by simp
  finally have len: "unat len = length blob - 9" "len = word_of_nat (length blob - 9)"
    using assms(2) by (simp_all add: unat_of_nat)
  have bytes: "bytes_of p = drop 9 blob" using len(1) by (simp add: p_def)
  then have lp: "length p = length blob - 9" by (metis length_bytes_of length_drop)
  have "le64 len = take 8 (drop 1 blob)"
    unfolding len_def using c(1) by (intro le64_read_le64) simp
  then have "output_code Path_output # le64 (word_of_nat (length p)) @ bytes_of p
      = take 1 blob @ take 8 (drop 1 blob) @ drop 9 blob"
    using c(1,2) len(2) lp bytes by (cases blob) simp_all
  also have "\<dots> = blob"
  proof -
    have "drop 9 blob = drop 8 (drop 1 blob)" by (simp only: drop_drop) simp
    then show ?thesis by (simp only: append_take_drop_id)
  qed
  finally have "serialize_stage_output (path_output p) = Some blob"
    by (simp only: serialize_path)
  moreover have "so_path (path_output p) = p" by (simp add: path_output_def)
  ultimately show ?thesis using c(4) by (simp only: c(5))
qed

section \<open>The properties\<close>

text \<open>C13: dispatching a stage accounts for every handle.  Whatever the plugin function does, it
  returns an output or an error.  With an output, exactly the handles the plugin gave are in it,
  none was freed, the output has the form of its kind, and the kind is one the registered
  capability produces.  With an error, every handle the plugin gave was freed, each once.\<close>

theorem dispatch_accounts_handles:
  "case dispatch_stage pc r base_dir capability_id inputs upstream w of (res, w') \<Rightarrow>
     \<exists>hs. dw_given w' = dw_given w @ hs
       \<and> (case res of
            Dispatched (Some so) \<Rightarrow> dw_freed w' = dw_freed w \<and> hs = output_handles so \<and> output_ok so
              \<and> (\<exists>kind. find_with kind r capability_id \<noteq> None \<and> so_kind so \<in> produces kind)
          | Dispatch_error m \<Rightarrow> dw_freed w' = dw_freed w @ hs
          | _ \<Rightarrow> False)"
  using accounted_dispatch [of r capability_id w pc base_dir inputs upstream]
  by (simp add: accounted_def case_prod_beta)

text \<open>A path output is written to disk and read back as long as its file exists, and only
  what the writer produces is read: a blob that reads as an output is that output's encoding.
  Outputs of other kinds are not written.\<close>

theorem serialize_round_trip:
  assumes "length p < 2 ^ 64" "length blob < 2 ^ 64"
  shows "(\<exists>b. serialize_stage_output (path_output p) = Some b
        \<and> deserialize_stage_output exists b = (if exists p then Some (path_output p) else None))
    \<and> (deserialize_stage_output exists blob = Some so \<longrightarrow>
        exists (so_path so) \<and> serialize_stage_output so = Some blob)
    \<and> (so_kind out \<noteq> Path_output \<longrightarrow> serialize_stage_output out = None)"
proof (intro conjI impI)
  show "\<exists>b. serialize_stage_output (path_output p) = Some b
      \<and> deserialize_stage_output exists b = (if exists p then Some (path_output p) else None)"
    using deserialize_serialized [OF assms(1)] by (simp add: serialize_path)
  assume "deserialize_stage_output exists blob = Some so"
  from deserialize_SomeD [OF this assms(2)]
  show "exists (so_path so)" "serialize_stage_output so = Some blob" by simp_all
qed (simp add: serialize_stage_output_def)

theorem serialize_round_trip_witness:
  "\<exists>b. serialize_stage_output (path_output ''out.vtu'') = Some b
     \<and> deserialize_stage_output (\<lambda>p. p = ''out.vtu'') b = Some (path_output ''out.vtu'')"
  using serialize_round_trip [of "''out.vtu''" "[]" "\<lambda>p. p = ''out.vtu''"] by simp

end
