(* ===== verification/Dispatch_Run.thy ===== *)
theory Dispatch_Run
  imports Dispatcher
begin

text \<open>
  The sequential runner on the registry dispatcher: a whole run of src/pipeline/runner.cpp whose
  stages are dispatched by src/pipeline/registry_dispatcher.cpp.  The lemmas carry one invariant
  through the run: the payloads in the cache and in the outputs are outputs of their kind, and
  every handle a plugin gave is freed or held by an output.
\<close>

definition reads_outputs :: "stage_output run_options \<Rightarrow> bool" where
  "reads_outputs opts = (\<forall>db f. disk_backing opts = Some db \<longrightarrow> db_deserialize db = Some f \<longrightarrow>
     (\<exists>exists. f = deserialize_stage_output exists))"

definition cached_ok :: "(stage_output, 'w dispatch_world) env \<Rightarrow> bool" where
  "cached_ok env = (\<forall>k so. cache_get (e_cache env) k = Some so \<longrightarrow> output_ok so)"

definition outputs_ok :: "stage_output outputs \<Rightarrow> bool" where
  "outputs_ok outs = (\<forall>(k, x) \<in> set outs. \<exists>so. x = Some so \<and> output_ok so)"

definition held_by :: "stage_output outputs \<Rightarrow> handle \<Rightarrow> bool" where
  "held_by outs h = (\<exists>k so. (k, Some so) \<in> set outs \<and> h \<in> set (output_handles so))"

definition run_ok ::
  "'w dispatch_world \<Rightarrow> (stage_output, 'w dispatch_world) env \<Rightarrow> stage_output progress \<Rightarrow> bool" where
  "run_ok w0 env pr = (cached_ok env \<and> outputs_ok (pr_outputs pr)
     \<and> (\<forall>h \<in> set (dw_given (e_world env)). h \<in> set (dw_given w0) \<or> h \<in> set (dw_freed (e_world env))
          \<or> held_by (pr_outputs pr) h))"

lemma output_ok_path [simp]: "output_ok (path_output p)"
  by (simp add: output_ok_def path_output_def empty_output_def)

lemma deserialized_ok: "deserialize_stage_output exists blob = Some so \<Longrightarrow> output_ok so"
  unfolding deserialize_stage_output_def Let_def
  by (auto simp: output_ok_def empty_output_def split: if_splits)

lemma cached_ok_put:
  "cached_ok env \<Longrightarrow> output_ok so \<Longrightarrow> cached_ok (env\<lparr>e_cache := cache_put (e_cache env) k (Some so)\<rparr>)"
  by (auto simp: cached_ok_def cache_put_def cache_get_def update_conv' split: if_splits)

lemma cached_ok_frame [simp]:
  "cached_ok (env\<lparr>e_world := w\<rparr>) = cached_ok env" "cached_ok (env\<lparr>e_disk := s\<rparr>) = cached_ok env"
  by (simp_all add: cached_ok_def)

lemma disk_lookup_cases:
  obtains (miss) s where "disk_lookup opts key env = (None, env\<lparr>e_disk := s\<rparr>)"
  | (read) so db f blob s where "disk_backing opts = Some db" "db_deserialize db = Some f"
      "f blob = Some so" "disk_lookup opts key env
        = (Some so, env\<lparr>e_disk := s, e_cache := cache_put (e_cache env) key (Some so)\<rparr>)"
proof -
  have same: "env\<lparr>e_disk := e_disk env\<rparr> = env" by simp
  show ?thesis
  proof (cases "disk_backing opts")
    case None
    show ?thesis by (rule miss [of "e_disk env"]) (simp add: disk_lookup_def None)
  next
    case db: (Some db)
    show ?thesis
    proof (cases "db_cache db = None \<or> db_deserialize db = None")
      case True
      then show ?thesis
        by (intro miss [of "e_disk env"]) (auto simp: disk_lookup_def db split: option.split)
    next
      case False
      then obtain dir f where f: "db_cache db = Some dir" "db_deserialize db = Some f" by auto
      obtain blob s where bs: "run_state (get_bytes dir key) (e_disk env) = (blob, s)"
        by (cases "run_state (get_bytes dir key) (e_disk env)") simp
      show ?thesis
      proof (cases "blob = None \<or> f (the blob) = None")
        case True
        then show ?thesis
          by (intro miss [of s]) (auto simp: disk_lookup_def db f bs Let_def split: option.split)
      next
        case False
        then obtain b so where so: "blob = Some b" "f b = Some so" by auto
        show ?thesis
          by (rule read [OF db f(2) so(2), of s])
            (simp add: disk_lookup_def db f bs [unfolded so] so(2) Let_def)
      qed
    qed
  qed
qed

lemma disk_lookup_ok:
  assumes "disk_lookup opts key env = (hit, env')" "cached_ok env" "reads_outputs opts"
  shows "cached_ok env' \<and> e_world env' = e_world env \<and> (\<forall>so. hit = Some so \<longrightarrow> output_ok so)"
proof (cases rule: disk_lookup_cases [of opts key env])
  case (miss s)
  then show ?thesis using assms by auto
next
  case (read so db f blob s)
  then have "output_ok so"
    using assms(3) deserialized_ok unfolding reads_outputs_def by blast
  then show ?thesis
    using read(4) cached_ok_put [of "env\<lparr>e_disk := s\<rparr>" so key] assms(1,2) by auto
qed

lemma cache_lookup_ok:
  assumes "cache_lookup opts key env = (hit, env')" "cached_ok env" "reads_outputs opts"
  shows "cached_ok env' \<and> e_world env' = e_world env \<and> (\<forall>so. hit = Some so \<longrightarrow> output_ok so)"
proof (cases "use_cache opts \<and> cache_get (e_cache env) key = None")
  case True
  then show ?thesis
    using disk_lookup_ok [OF _ assms(2,3), of key hit env'] assms(1) by (simp add: cache_lookup_def)
next
  case False
  then show ?thesis
    using assms(1,2) by (auto simp: cache_lookup_def cached_ok_def split: if_splits option.splits)
qed

lemma cached_ok_disk_store: "cached_ok env \<Longrightarrow> cached_ok (disk_store opts key so env)"
  by (auto simp: disk_store_def cached_ok_def split: option.splits)

lemma store_payload_ok:
  "cached_ok env \<Longrightarrow> output_ok so \<Longrightarrow> cached_ok (store_payload opts key (Some so) env)"
  by (simp add: store_payload_def cached_ok_disk_store cached_ok_put)

lemma registry_context_world:
  "snd (stage_context (registry_dispatcher pc r base_dir) c v w) = w"
  by (simp add: stage_context_def registry_dispatcher_def Let_def)

text \<open>A call of the dispatcher, as the runner uses its result.\<close>

lemma dispatch_cases:
  assumes "dispatch_stage pc r base_dir c v outs w = (dr, w')"
  obtains (out) so where "dr = Dispatched (Some so)" "output_ok so" "dw_freed w' = dw_freed w"
      "dw_given w' = dw_given w @ output_handles so"
  | (error) m hs where "dr = Dispatch_error m" "dw_given w' = dw_given w @ hs"
      "dw_freed w' = dw_freed w @ hs"
  using accounted_dispatch [of r c w pc base_dir v outs] unfolding accounted_def assms fst_conv snd_conv
  by (cases dr) (auto split: option.splits)

lemma held_by_grows: "held_by outs h \<Longrightarrow> set outs \<subseteq> set outs' \<Longrightarrow> held_by outs' h"
  unfolding held_by_def by blast

lemma run_stage_no_throw:
  "run_stage (registry_dispatcher pc r base_dir) opts s env pr \<noteq> (Inl e, env')"
proof
  assume "run_stage (registry_dispatcher pc r base_dir) opts s env pr = (Inl e, env')"
  then obtain w w' where "dispatch_stage pc r base_dir (st_plugin s) (st_input s) (pr_outputs pr) w = (Thrown e, w')"
    unfolding run_stage_def Let_def registry_dispatcher_def
    by (auto split: if_splits prod.splits option.splits dispatch_result.splits)
  then show False by (rule dispatch_cases) simp_all
qed

lemma run_ok_outputs:
  assumes "run_ok w0 env pr" "smap_ok (pr_outputs pr)" "k \<notin> fst ` set (pr_outputs pr)"
    and "cached_ok env'" "output_ok so" "dw_freed (e_world env') = dw_freed (e_world env)"
    and "\<forall>h \<in> set (dw_given (e_world env')). h \<in> set (dw_given (e_world env)) \<or> h \<in> set (output_handles so)"
    and "pr_outputs pr' = smap_emplace k (Some so) (pr_outputs pr)"
  shows "run_ok w0 env' pr'"
proof -
  have outs: "set (pr_outputs pr') = insert (k, Some so) (set (pr_outputs pr))"
    unfolding assms(8) by (rule smap_emplace_new [OF assms(2,3)])
  have "held_by (pr_outputs pr') h" if "held_by (pr_outputs pr) h" for h
    by (rule held_by_grows [OF that]) (use outs in blast)
  moreover have "held_by (pr_outputs pr') h" if "h \<in> set (output_handles so)" for h
    using that outs unfolding held_by_def by blast
  ultimately have "\<forall>h \<in> set (dw_given (e_world env')). h \<in> set (dw_given w0)
      \<or> h \<in> set (dw_freed (e_world env')) \<or> held_by (pr_outputs pr') h"
    using assms(1,7) unfolding run_ok_def assms(6) by blast
  moreover have "outputs_ok (pr_outputs pr')"
    using assms(1,5) by (simp add: run_ok_def outputs_ok_def outs)
  ultimately show ?thesis using assms(4) by (simp only: run_ok_def)
qed

lemma run_stage_ok:
  assumes run: "run_stage (registry_dispatcher pc r base_dir) opts s env pr = (Inr pr', env')"
    and ok: "run_ok w0 env pr" "reads_outputs opts" "smap_ok (pr_outputs pr)"
    and fresh: "st_id s \<notin> fst ` set (pr_outputs pr)"
  shows "run_ok w0 env' pr'"
proof -
  let ?d = "registry_dispatcher pc r base_dir"
  have world: "w = e_world env" if "stage_context ?d (st_plugin s) (st_input s) (e_world env) = (ctx, w)" for ctx w
    using registry_context_world [of pc r base_dir "st_plugin s" "st_input s" "e_world env"] that by simp
  have cok: "cached_ok (env\<lparr>e_world := w\<rparr>)" for w
    using ok(1) by (simp add: run_ok_def)
  from run show ?thesis
  proof (cases rule: run_stageE)
    case skipped
    then show ?thesis using ok(1) by (simp add: run_ok_def)
  next
    case (cached key ctx w p)
    note c = cache_lookup_ok [OF cached(4) cok ok(2)]
    show ?thesis
      by (rule run_ok_outputs [OF ok(1,3) fresh, of env' p])
        (use c world [OF cached(2)] in \<open>simp_all add: cached(5) record_stage_def\<close>)
  next
    case (failed key ctx w env1 m w')
    note c = cache_lookup_ok [OF failed(4) cok ok(2)]
    have "dispatch_stage pc r base_dir (st_plugin s) (st_input s) (pr_outputs pr) (e_world env1)
        = (Dispatch_error m, w')"
      using failed(5) by (simp add: registry_dispatcher_def)
    then obtain hs where hs: "dw_given w' = dw_given (e_world env1) @ hs"
        "dw_freed w' = dw_freed (e_world env1) @ hs"
      by (rule dispatch_cases) auto
    have "e_world env1 = e_world env" using c world [OF failed(2)] by simp
    then show ?thesis
      using ok(1) c hs by (simp add: run_ok_def failed(6,7) record_stage_def) blast
  next
    case (executed key ctx w env1 payload w')
    note c = cache_lookup_ok [OF executed(4) cok ok(2)]
    have "dispatch_stage pc r base_dir (st_plugin s) (st_input s) (pr_outputs pr) (e_world env1)
        = (Dispatched payload, w')"
      using executed(5) by (simp add: registry_dispatcher_def)
    then obtain so where so: "payload = Some so" "output_ok so" "dw_freed w' = dw_freed (e_world env1)"
        "dw_given w' = dw_given (e_world env1) @ output_handles so"
      by (rule dispatch_cases) auto
    have w: "e_world env1 = e_world env" using c world [OF executed(2)] by simp
    have env': "cached_ok env'" "e_world env' = w'"
      using c so(1,2) by (simp_all add: executed(6) store_payload_ok store_payload_world)
    show ?thesis
      by (rule run_ok_outputs [OF ok(1,3) fresh env'(1) so(2)])
        (simp_all add: env'(2) so w executed(7) record_stage_def)
  qed
qed

lemma distinct_ordered_ids:
  assumes "topo_order p ord" "ids_ok p"
  shows "distinct (map st_id (map (\<lambda>i. stages p ! i) ord))"
proof -
  have "inj_on (\<lambda>i. st_id (stages p ! i)) (set ord)"
  proof (rule inj_onI)
    fix i j
    assume ij: "i \<in> set ord" "j \<in> set ord" "st_id (stages p ! i) = st_id (stages p ! j)"
    then have "i < length (map st_id (stages p))" "j < length (map st_id (stages p))"
      using assms(1) by (auto simp: topo_order_def)
    then show "i = j"
      using nth_eq_iff_index_eq [of "map st_id (stages p)" i j] assms(2) ij(3) by (simp add: ids_ok_def)
  qed
  then show ?thesis
    using assms(1) by (simp add: topo_order_def distinct_map comp_def)
qed

lemma progress_outputs:
  assumes "progress_ok opts ts pr"
  shows "fst ` set (pr_outputs pr) \<subseteq> st_id ` set ts \<and> smap_ok (pr_outputs pr)"
proof -
  have keys: "fst ` set (pr_outputs pr) = sr_id ` {r \<in> set (pr_results pr). delivers r}"
    and ids: "map sr_id (pr_results pr) = map st_id ts" and ok: "smap_ok (pr_outputs pr)"
    using assms unfolding progress_ok_def by blast+
  have "sr_id ` set (pr_results pr) = st_id ` set ts"
    using arg_cong [OF ids, of set] by (simp only: set_map)
  then show ?thesis using ok unfolding keys by blast
qed

lemma run_stages_ok:
  assumes "run_stages (registry_dispatcher pc r base_dir) opts ss env pr = (res, env')"
    and "progress_ok opts ts pr" "distinct (map st_id (ts @ ss))"
    and "run_ok w0 env pr" "reads_outputs opts"
  shows "\<exists>pr'. res = Inr pr' \<and> run_ok w0 env' pr'"
  using assms
proof (induction ss arbitrary: env pr ts)
  case (Cons s ss)
  let ?d = "registry_dispatcher pc r base_dir"
  obtain x env1 where step: "run_stage ?d opts s env pr = (x, env1)" by (cases "run_stage ?d opts s env pr")
  then obtain pr1 where x: "x = Inr pr1" using run_stage_no_throw by (cases x) blast+
  have "st_id s \<notin> fst ` set (pr_outputs pr)" "smap_ok (pr_outputs pr)"
    using progress_outputs [OF Cons.prems(2)] Cons.prems(3) by auto
  from run_stage_ok [OF step [unfolded x] Cons.prems(4,5) this(2,1)]
  have "run_ok w0 env1 pr1" .
  moreover have "progress_ok opts (ts @ [s]) pr1"
    by (rule progress_ok_step [OF Cons.prems(2) step [unfolded x]])
  moreover have "run_stages ?d opts ss env1 pr1 = (res, env')"
    using Cons.prems(1) step x by simp
  ultimately show ?case
    using Cons.IH [of env1 pr1 "ts @ [s]"] Cons.prems(3,5) by simp
next
  case (Nil env pr ts)
  then show ?case by auto
qed

section \<open>An example\<close>

definition one_mesh :: "nat plugin_calls" where
  "one_mesh = \<lparr>pc_mesh = (\<lambda>_ _ _ _ n. ((Returned status_ok, Some n), n + 1)),
     pc_solve = (\<lambda>_ _ _ _ _ n. ((Threw_other, Some n), n + 1)),
     pc_write = (\<lambda>_ _ _ _ _ n. (Returned status_ok, n)),
     pc_compute = (\<lambda>_ _ _ _ _ _ n. ((Returned status_ok, None), n)),
     pc_read = (\<lambda>_ _ _ _ n. ((Threw_other, None, None), n)),
     pc_free = (\<lambda>_ n. n), pc_content = (\<lambda>_ _. None)\<rparr>"

definition mesh_pipeline :: pipeline where
  "mesh_pipeline = single\<lparr>stages := [\<lparr>st_id = ''m'', st_plugin = ''mesher.a'', st_input = VMap []\<rparr>]\<rparr>"

definition mesh_options :: "stage_output run_options" where
  "mesh_options = \<lparr>use_cache = True, stop_on_first_failure = True, max_workers = 1, disk_backing = None\<rparr>"

definition mesh_env :: "(stage_output, nat dispatch_world) env" where
  "mesh_env = \<lparr>e_cache = [], e_disk = \<lparr>tree = [], faults = \<lambda>_. [], entropy = [], trace = []\<rparr>,
     e_world = \<lparr>dw_state = 1, dw_given = [], dw_freed = []\<rparr>\<rparr>"

section \<open>The property\<close>

text \<open>C9: a run accounts for every handle and never ends in an exception.  Starting from a cache of
  well-formed outputs, a run over the registry dispatcher returns a result in which every output
  is present and of the form of its kind, so that a later stage never gets a null handle from it;
  and every handle that a plugin gave during the run was freed or is held by one of the outputs
  of the result.\<close>

theorem run_accounts_handles:
  assumes "uset_iter iter" "reads_outputs opts" "cached_ok env"
    and "run_sequential iter (registry_dispatcher pc r base_dir) opts p env = Some (res, env')"
  shows "\<exists>rr. res = Inr rr \<and> outputs_ok (rr_outputs rr)
    \<and> (\<forall>h \<in> set (dw_given (e_world env')). h \<in> set (dw_given (e_world env))
         \<or> h \<in> set (dw_freed (e_world env')) \<or> held_by (rr_outputs rr) h)"
proof (cases "validate iter p")
  case None
  then show ?thesis using assms(4) by (simp add: run_sequential_def)
next
  case (Some v)
  show ?thesis
  proof (cases v)
    case (Inl es)
    then show ?thesis
      using assms(4) Some by (auto simp: run_sequential_def validation_failure_def outputs_ok_def)
  next
    case (Inr ord)
    let ?ss = "map (\<lambda>i. stages p ! i) ord"
    obtain x env1 where run: "run_stages (registry_dispatcher pc r base_dir) opts ?ss env initial_progress
        = (x, env1)"
      by (cases "run_stages (registry_dispatcher pc r base_dir) opts ?ss env initial_progress")
    have "topo_order p ord" "ids_ok p"
      using dag.sorter_InrD [OF assms(1)] Some Inr by (simp_all add: dag_ok_def)
    then have "distinct (map st_id ?ss)"
      by (rule distinct_ordered_ids)
    moreover have "run_ok (e_world env) env (initial_progress :: stage_output progress)"
      using assms(3) by (simp add: run_ok_def initial_progress_def outputs_ok_def)
    ultimately obtain pr where "x = Inr pr" "run_ok (e_world env) env1 pr"
      using run_stages_ok [OF run progress_ok_initial _ _ assms(2)] by auto
    then show ?thesis
      using assms(4) Some Inr run by (auto simp: run_sequential_def finish_run_def run_ok_def)
  qed
qed

theorem run_accounts_handles_witness:
  "\<exists>rr env'. run_sequential remdups (registry_dispatcher one_mesh registry_example []) mesh_options
       mesh_pipeline mesh_env = Some (Inr rr, env')
     \<and> (\<forall>h \<in> set (dw_given (e_world env')). h \<in> set (dw_freed (e_world env')) \<or> held_by (rr_outputs rr) h)"
proof -
  let ?d = "registry_dispatcher one_mesh registry_example []"
  obtain res env' where run: "run_sequential remdups ?d mesh_options mesh_pipeline mesh_env = Some (res, env')"
    using run_sequential_returns [OF uset_iter_remdups, of ?d mesh_options mesh_pipeline mesh_env] by auto
  have ok: "reads_outputs mesh_options" "cached_ok mesh_env"
    by (simp_all add: reads_outputs_def mesh_options_def cached_ok_def mesh_env_def cache_get_def)
  show ?thesis
    using run_accounts_handles [OF uset_iter_remdups ok run] run by (auto simp: mesh_env_def)
qed

end
