(* ===== verification/Budget.thy ===== *)
theory Budget
  imports Plugin_Manifest
begin

text \<open>
  The session budget of the agent (src/ai/audit_log.cpp, include/souxmar/ai/audit_log.h) and its
  configuration file (src/ai/budget_config.cpp).  Token counts are \<open>std::size_t\<close>: sums and the
  products of the threshold test wrap at 64 bits.  The lemmas relate the test to percentages and
  bound where it is exact.
\<close>

section \<open>The budget\<close>

datatype axis = Input | Output | Total

type_synonym threshold = "axis \<times> nat"

text \<open>\<open>fired_thresholds_\<close> is a set of the nine pairs, the bits of the mask.  \<open>on_threshold\<close> is
  the sequence of calls \<open>record\<close> returns.\<close>

record budget =
  bg_max_input :: u64
  bg_max_output :: u64
  bg_max_total :: u64
  bg_consumed_input :: u64
  bg_consumed_output :: u64
  bg_fired :: "16 word"

definition thresholds :: "nat list" where
  "thresholds = [50, 80, 100]"

definition axes :: "axis list" where
  "axes = [Input, Output, Total]"

fun axis_str :: "axis \<Rightarrow> string" where
  "axis_str Input = ''input''"
| "axis_str Output = ''output''"
| "axis_str Total = ''total''"

definition over_threshold :: "u64 \<Rightarrow> u64 \<Rightarrow> nat \<Rightarrow> bool" where
  "over_threshold consumed max_v pct =
     (if max_v = 0 then False else max_v * word_of_nat pct \<le> consumed * 100)"

definition consumed_total :: "budget \<Rightarrow> u64" where
  "consumed_total b = bg_consumed_input b + bg_consumed_output b"

fun axis_consumed :: "budget \<Rightarrow> axis \<Rightarrow> u64" where
  "axis_consumed b Input = bg_consumed_input b"
| "axis_consumed b Output = bg_consumed_output b"
| "axis_consumed b Total = consumed_total b"

fun axis_max :: "budget \<Rightarrow> axis \<Rightarrow> u64" where
  "axis_max b Input = bg_max_input b"
| "axis_max b Output = bg_max_output b"
| "axis_max b Total = bg_max_total b"

text \<open>The bits in the order of the two loops; one step tests, sets the bit and calls back.\<close>

definition pairs :: "(nat \<times> threshold) list" where
  "pairs = enumerate 0 (List.product axes thresholds)"

definition fire_step ::
  "budget \<times> threshold list \<Rightarrow> nat \<times> threshold \<Rightarrow> budget \<times> threshold list" where
  "fire_step st p =
     (case (st, p) of ((b, calls), (k, (a, pct))) \<Rightarrow>
        if bit (bg_fired b) k then (b, calls)
        else if \<not> over_threshold (axis_consumed b a) (axis_max b a) pct then (b, calls)
        else (b\<lparr>bg_fired := set_bit k (bg_fired b)\<rparr>, calls @ [(a, pct)]))"

definition record_tokens :: "u64 \<Rightarrow> u64 \<Rightarrow> budget \<Rightarrow> u64 \<times> threshold list \<times> budget" where
  "record_tokens input_delta output_delta b =
     (let b = b\<lparr>bg_consumed_input := bg_consumed_input b + input_delta,
                 bg_consumed_output := bg_consumed_output b + output_delta\<rparr>;
          total = consumed_total b;
          (b, calls) = foldl fire_step (b, []) pairs
      in (total, calls, b))"

definition new_budget :: "u64 \<Rightarrow> u64 \<Rightarrow> u64 \<Rightarrow> budget" where
  "new_budget i j k = \<lparr>bg_max_input = i, bg_max_output = j, bg_max_total = k,
     bg_consumed_input = 0, bg_consumed_output = 0, bg_fired = 0\<rparr>"

section \<open>The configuration\<close>

record budget_config =
  bc_max_input :: u64
  bc_max_output :: u64
  bc_max_total :: u64

record config_error =
  xe_message :: string
  xe_line :: "nat option"
  xe_field :: string

definition size_error :: "string list \<Rightarrow> string \<Rightarrow> config_error" where
  "size_error path m = \<lparr>xe_message = quoted (join ''.'' path) @ m, xe_line = None,
     xe_field = join ''.'' path\<rparr>"

definition read_size :: "('n, 'x) toml_scheme \<Rightarrow> 'n \<Rightarrow> string list \<Rightarrow> config_error + u64" where
  "read_size api tbl path =
     (case at_path api path tbl of
        None \<Rightarrow> Inr 0
      | Some n \<Rightarrow> attempt (required (toml_integer api n) (size_error path '' must be an integer''))
          (\<lambda>v. if v < 0 then Inl (size_error path '' must be non-negative (0 = unlimited)'')
               else Inr (word_of_int v)))"

definition parse_budget_config :: "'n located_toml \<Rightarrow> string \<Rightarrow> config_error + budget_config" where
  "parse_budget_config api source =
     (case toml_parse api source of
        Inl e \<Rightarrow> Inl \<lparr>xe_message = ''TOML parse error: '' @ e,
            xe_line = map_option fst (toml_position api source), xe_field = []\<rparr>
      | Inr tbl \<Rightarrow>
          attempt (read_size api tbl [''budget'', ''max_input_tokens'']) (\<lambda>i.
          attempt (read_size api tbl [''budget'', ''max_output_tokens'']) (\<lambda>j.
          attempt (read_size api tbl [''budget'', ''max_total_tokens'']) (\<lambda>k.
            Inr \<lparr>bc_max_input = i, bc_max_output = j, bc_max_total = k\<rparr>))))"

definition parse_budget_config_file ::
  "'n located_toml \<Rightarrow> string \<Rightarrow> string option \<Rightarrow> config_error + budget_config" where
  "parse_budget_config_file api path content =
     (case content of
        None \<Rightarrow> Inl \<lparr>xe_message = ''cannot open '' @ quoted path, xe_line = None, xe_field = []\<rparr>
      | Some source \<Rightarrow> parse_budget_config api source)"

definition apply_config :: "budget_config \<Rightarrow> budget \<Rightarrow> budget" where
  "apply_config c b = b\<lparr>bg_max_input := bc_max_input c, bg_max_output := bc_max_output c,
     bg_max_total := bc_max_total c\<rparr>"

section \<open>The threshold test\<close>

text \<open>The products do not wrap while both numbers are below \<open>2 ^ 57\<close>; then the test is the
  percentage.\<close>

lemma over_threshold_exact:
  assumes "unat consumed < 2 ^ 57" "unat max_v < 2 ^ 57" "pct \<le> 100"
  shows "over_threshold consumed max_v pct \<longleftrightarrow> max_v \<noteq> 0 \<and> unat max_v * pct \<le> unat consumed * 100"
proof -
  have "unat (max_v * word_of_nat pct) = unat max_v * pct"
  proof -
    have p: "unat (word_of_nat pct :: u64) = pct" using assms(3) by (simp add: unat_of_nat)
    have "unat max_v * pct \<le> unat max_v * 100" using assms(3) by simp
    also have "\<dots> < 2 ^ 64" using assms(2) by simp
    finally show ?thesis by (simp add: unat_word_ariths p)
  qed
  moreover have "unat (consumed * 100) = unat consumed * 100"
    using assms(1) by (simp add: unat_word_ariths)
  ultimately show ?thesis by (simp add: over_threshold_def word_le_nat_alt)
qed

text \<open>Beyond that it is not: a limit of \<open>2 ^ 62\<close> tokens counts as used up before anything is
  consumed.\<close>

lemma over_threshold_wraps: "over_threshold 0 (2 ^ 62) 100"
  by code_simp

section \<open>One call of \<open>record\<close>\<close>

definition crossed :: "budget \<Rightarrow> threshold \<Rightarrow> bool" where
  "crossed b t = over_threshold (axis_consumed b (fst t)) (axis_max b (fst t)) (snd t)"

definition fires :: "budget \<Rightarrow> nat \<times> threshold \<Rightarrow> bool" where
  "fires b p = (\<not> bit (bg_fired b) (fst p) \<and> crossed b (snd p))"

lemma axes_fired [simp]:
  "axis_consumed (b\<lparr>bg_fired := f\<rparr>) a = axis_consumed b a" "axis_max (b\<lparr>bg_fired := f\<rparr>) a = axis_max b a"
  by (cases a; simp add: consumed_total_def)+

lemma crossed_fired [simp]: "crossed (b\<lparr>bg_fired := f\<rparr>) t = crossed b t"
  by (simp add: crossed_def)

lemma fire_step_eq:
  "fire_step (b, calls) p = (if fires b p
     then (b\<lparr>bg_fired := set_bit (fst p) (bg_fired b)\<rparr>, calls @ [snd p]) else (b, calls))"
  by (cases p) (auto simp: fire_step_def fires_def crossed_def)

lemma foldl_fire_step:
  assumes "distinct (map fst ps)" "\<forall>p \<in> set ps. fst p < 16"
  shows "\<exists>f. foldl fire_step (b, calls) ps = (b\<lparr>bg_fired := f\<rparr>, calls @ map snd (filter (fires b) ps))
    \<and> (\<forall>n. bit f n \<longleftrightarrow> bit (bg_fired b) n \<or> n \<in> fst ` set (filter (fires b) ps))"
  using assms
proof (induction ps arbitrary: b calls)
  case (Cons p ps)
  show ?case
  proof (cases "fires b p")
    case False
    then show ?thesis using Cons by (simp add: fire_step_eq)
  next
    case True
    let ?b = "b\<lparr>bg_fired := set_bit (fst p) (bg_fired b)\<rparr>"
    have bits: "bit (bg_fired ?b) n \<longleftrightarrow> bit (bg_fired b) n \<or> n = fst p" for n
      using Cons.prems(2) by (auto simp: bit_set_bit_iff dest: bit_imp_le_length)
    have "fires ?b q = fires b q" if "q \<in> set ps" for q
      using Cons.prems(1) that unfolding fires_def bits by (auto simp: rev_image_eqI)
    then have same: "filter (fires ?b) ps = filter (fires b) ps" by (rule filter_cong [OF refl])
    obtain f where "foldl fire_step (?b, calls @ [snd p]) ps
        = (?b\<lparr>bg_fired := f\<rparr>, calls @ [snd p] @ map snd (filter (fires b) ps))"
      and "\<forall>n. bit f n \<longleftrightarrow> bit (bg_fired ?b) n \<or> n \<in> fst ` set (filter (fires b) ps)"
      using Cons.IH [of ?b "calls @ [snd p]"] Cons.prems unfolding same by auto
    then show ?thesis
      using True bits by (intro exI [of _ f]) (simp add: fire_step_eq)
  qed
next
  case (Nil b calls)
  show ?case by (intro exI [of _ "bg_fired b"]) simp
qed

lemma pairs_list: "pairs = [(0, Input, 50), (1, Input, 80), (2, Input, 100), (3, Output, 50),
    (4, Output, 80), (5, Output, 100), (6, Total, 50), (7, Total, 80), (8, Total, 100)]"
  by (simp add: pairs_def axes_def thresholds_def)

lemma pairs_facts:
  "distinct (map fst pairs)" "\<forall>p \<in> set pairs. fst p < 16" "distinct (map snd pairs)"
  "snd ` set pairs = {(a, pct). pct \<in> set thresholds}"
proof -
  show "distinct (map fst pairs)" "\<forall>p \<in> set pairs. fst p < 16" "distinct (map snd pairs)"
    by (simp_all add: pairs_list)
  have "set axes = UNIV" by (auto simp: axes_def) (metis axis.exhaust)
  then show "snd ` set pairs = {(a, pct). pct \<in> set thresholds}"
    by (metis (no_types, lifting) Collect_cong UNIV_Times_UNIV map_snd_enumerate mem_Sigma_iff
        pairs_def set_map set_product UNIV_I case_prod_unfold Collect_mem_eq prod.collapse)
qed

text \<open>The calls of one \<open>record\<close>, and the pairs that have fired after it.\<close>

definition has_fired :: "budget \<Rightarrow> threshold \<Rightarrow> bool" where
  "has_fired b t = (\<exists>k. (k, t) \<in> set pairs \<and> bit (bg_fired b) k)"

definition consumed_more :: "u64 \<Rightarrow> u64 \<Rightarrow> budget \<Rightarrow> budget" where
  "consumed_more i j b = b\<lparr>bg_consumed_input := bg_consumed_input b + i,
     bg_consumed_output := bg_consumed_output b + j\<rparr>"

lemma has_fired_consumed [simp]: "has_fired (consumed_more i j b) t = has_fired b t"
  by (simp add: has_fired_def consumed_more_def)

lemma pair_keys:
  "(k, t) \<in> set pairs \<Longrightarrow> (k, t') \<in> set pairs \<Longrightarrow> t = t'"
  "(k, t) \<in> set pairs \<Longrightarrow> (k', t) \<in> set pairs \<Longrightarrow> k = k'"
  "(k, a, pct) \<in> set pairs \<Longrightarrow> pct \<in> set thresholds"
  "pct \<in> set thresholds \<Longrightarrow> \<exists>k. (k, a, pct) \<in> set pairs"
proof -
  show "(k, t) \<in> set pairs \<Longrightarrow> (k, t') \<in> set pairs \<Longrightarrow> t = t'"
    using pairs_facts(1) by (rule eq_key_imp_eq_value)
  show "(k, t) \<in> set pairs \<Longrightarrow> (k', t) \<in> set pairs \<Longrightarrow> k = k'"
    using inj_onD [OF conjunct2 [OF pairs_facts(3) [unfolded distinct_map]], of "(k, t)" "(k', t)"] by simp
  show "(k, a, pct) \<in> set pairs \<Longrightarrow> pct \<in> set thresholds"
    using pairs_facts(4) by force
  show "pct \<in> set thresholds \<Longrightarrow> \<exists>k. (k, a, pct) \<in> set pairs"
  proof -
    assume "pct \<in> set thresholds"
    then have "(a, pct) \<in> snd ` set pairs" by (simp add: pairs_facts(4))
    then show ?thesis by auto
  qed
qed

lemma record_tokens_eq:
  obtains f calls where "record_tokens i j b
      = (consumed_total (consumed_more i j b), calls, (consumed_more i j b)\<lparr>bg_fired := f\<rparr>)"
    "distinct calls"
    "\<And>a pct. (a, pct) \<in> set calls \<longleftrightarrow> pct \<in> set thresholds \<and> \<not> has_fired b (a, pct)
        \<and> crossed (consumed_more i j b) (a, pct)"
    "\<And>t. has_fired ((consumed_more i j b)\<lparr>bg_fired := f\<rparr>) t \<longleftrightarrow> has_fired b t \<or> t \<in> set calls"
proof -
  let ?c = "consumed_more i j b"
  let ?fired = "filter (fires ?c) pairs"
  obtain f where f: "foldl fire_step (?c, []) pairs = (?c\<lparr>bg_fired := f\<rparr>, map snd ?fired)"
    and bits: "\<And>n. bit f n \<longleftrightarrow> bit (bg_fired ?c) n \<or> n \<in> fst ` set ?fired"
    using foldl_fire_step [OF pairs_facts(1,2), of ?c "[]"] by auto
  have old: "bg_fired ?c = bg_fired b" by (simp add: consumed_more_def)
  have calls: "t \<in> set (map snd ?fired) \<longleftrightarrow> (\<exists>k. (k, t) \<in> set pairs \<and> \<not> bit (bg_fired b) k \<and> crossed ?c t)"
    for t by (force simp: fires_def old)
  show ?thesis
  proof (rule that [of "map snd ?fired" f])
    show "record_tokens i j b = (consumed_total ?c, map snd ?fired, ?c\<lparr>bg_fired := f\<rparr>)"
      using f by (simp add: record_tokens_def consumed_more_def Let_def)
    show "distinct (map snd ?fired)"
      using pairs_facts(3) by (simp add: distinct_map_filter)
    show "(a, pct) \<in> set (map snd ?fired) \<longleftrightarrow> pct \<in> set thresholds \<and> \<not> has_fired b (a, pct)
        \<and> crossed ?c (a, pct)" for a pct
      unfolding calls has_fired_def using pair_keys(2-4) by metis
    show "has_fired (?c\<lparr>bg_fired := f\<rparr>) t \<longleftrightarrow> has_fired b t \<or> t \<in> set (map snd ?fired)" for t
    proof -
      have at: "k \<in> fst ` set ?fired \<longleftrightarrow> (k, t) \<in> set ?fired" if "(k, t) \<in> set pairs" for k
        using pair_keys(1) [OF that] by force
      have "has_fired (?c\<lparr>bg_fired := f\<rparr>) t
          \<longleftrightarrow> (\<exists>k. (k, t) \<in> set pairs \<and> (bit (bg_fired b) k \<or> k \<in> fst ` set ?fired))"
        by (simp add: has_fired_def bits old)
      also have "\<dots> \<longleftrightarrow> (\<exists>k. (k, t) \<in> set pairs \<and> (bit (bg_fired b) k \<or> (k, t) \<in> set ?fired))"
        using at by blast
      also have "\<dots> \<longleftrightarrow> has_fired b t \<or> t \<in> set (map snd ?fired)"
        unfolding has_fired_def by force
      finally show ?thesis .
    qed
  qed
qed

section \<open>A session\<close>

fun record_all :: "(u64 \<times> u64) list \<Rightarrow> budget \<Rightarrow> threshold list \<times> budget" where
  "record_all [] b = ([], b)"
| "record_all ((i, j) # ds) b =
     (let (total, calls, b) = record_tokens i j b; (more, b) = record_all ds b in (calls @ more, b))"

definition spent :: "(u64 \<times> u64) list \<Rightarrow> axis \<Rightarrow> nat" where
  "spent ds a = (\<Sum>(i, j) \<leftarrow> ds. case a of Input \<Rightarrow> unat i | Output \<Rightarrow> unat j | Total \<Rightarrow> unat i + unat j)"

definition exact :: "budget \<Rightarrow> threshold \<Rightarrow> bool" where
  "exact b t = (unat (axis_max b (fst t)) \<noteq> 0
     \<and> unat (axis_max b (fst t)) * snd t \<le> unat (axis_consumed b (fst t)) * 100)"

definition small :: "budget \<Rightarrow> bool" where
  "small b = (unat (bg_consumed_input b) + unat (bg_consumed_output b) < 2 ^ 57
     \<and> (\<forall>a. unat (axis_max b a) < 2 ^ 57))"

lemma small_consumed:
  assumes "small b"
  shows "unat (consumed_total b) = unat (bg_consumed_input b) + unat (bg_consumed_output b)"
    and "unat (axis_consumed b a) < 2 ^ 57"
proof -
  have lt: "unat (bg_consumed_input b) + unat (bg_consumed_output b) < 2 ^ 57"
    using assms by (simp add: small_def)
  then show total: "unat (consumed_total b) = unat (bg_consumed_input b) + unat (bg_consumed_output b)"
    by (simp add: consumed_total_def unat_word_ariths)
  show "unat (axis_consumed b a) < 2 ^ 57"
    using lt total by (cases a) simp_all
qed

lemma crossed_exact:
  assumes "small b" "pct \<in> set thresholds"
  shows "crossed b (a, pct) \<longleftrightarrow> exact b (a, pct)"
proof -
  have "pct \<le> 100" using assms(2) by (auto simp: thresholds_def)
  moreover have "unat (axis_max b a) < 2 ^ 57" using assms(1) by (simp add: small_def)
  ultimately show ?thesis
    using over_threshold_exact [OF small_consumed(2) [OF assms(1)], of "axis_max b a" pct a]
    by (simp add: crossed_def exact_def unat_eq_0)
qed

text \<open>The invariant: exactly the pairs over their percentage have fired.\<close>

definition settled :: "budget \<Rightarrow> bool" where
  "settled b = (\<forall>a pct. has_fired b (a, pct) \<longleftrightarrow> pct \<in> set thresholds \<and> exact b (a, pct))"

lemma spent_Nil [simp]: "spent [] a = 0"
  by (simp add: spent_def)

lemma spent_Cons: "spent (d # ds) a = spent [d] a + spent ds a"
  by (simp add: spent_def)

lemma spent_one:
  "spent [(i, j)] Input = unat i" "spent [(i, j)] Output = unat j" "spent [(i, j)] Total = unat i + unat j"
  by (simp_all add: spent_def)

lemma axis_max_consumed [simp]: "axis_max (consumed_more i j b) a = axis_max b a"
  by (cases a) (simp_all add: consumed_more_def)

lemma consumed_more_small:
  assumes "\<forall>a. unat (axis_max b a) < 2 ^ 57"
    and "unat (bg_consumed_input b) + unat (bg_consumed_output b) + (unat i + unat j) < 2 ^ 57"
  shows "small b" "small (consumed_more i j b)"
    and "unat (axis_consumed (consumed_more i j b) a) = unat (axis_consumed b a) + spent [(i, j)] a"
proof -
  let ?c = "consumed_more i j b"
  show b: "small b" using assms by (simp add: small_def)
  have "unat (bg_consumed_input b) + unat i < 2 ^ 64" "unat (bg_consumed_output b) + unat j < 2 ^ 64"
    using assms(2) by simp_all
  then have io: "unat (bg_consumed_input ?c) = unat (bg_consumed_input b) + unat i"
      "unat (bg_consumed_output ?c) = unat (bg_consumed_output b) + unat j"
    by (simp_all add: consumed_more_def unat_word_ariths)
  show c: "small ?c" using assms by (simp add: small_def io)
  show "unat (axis_consumed ?c a) = unat (axis_consumed b a) + spent [(i, j)] a"
    using small_consumed(1) [OF b] small_consumed(1) [OF c] io
    by (cases a) (simp_all add: spent_one)
qed

lemma settled_step:
  assumes "settled b" "\<forall>a. unat (axis_max b a) < 2 ^ 57"
    and "unat (bg_consumed_input b) + unat (bg_consumed_output b) + (unat i + unat j) < 2 ^ 57"
    and "\<And>a pct. (a, pct) \<in> set cs \<longleftrightarrow> pct \<in> set thresholds \<and> \<not> has_fired b (a, pct)
        \<and> crossed (consumed_more i j b) (a, pct)"
    and "\<And>t. has_fired ((consumed_more i j b)\<lparr>bg_fired := f\<rparr>) t \<longleftrightarrow> has_fired b t \<or> t \<in> set cs"
  shows "settled ((consumed_more i j b)\<lparr>bg_fired := f\<rparr>)"
  unfolding settled_def
proof (intro allI)
  fix a pct
  let ?c = "consumed_more i j b"
  note c = consumed_more_small [OF assms(2,3)]
  have "unat (axis_consumed b a) \<le> unat (axis_consumed ?c a)" by (simp add: c(3))
  then have mono: "exact b (a, pct) \<Longrightarrow> exact ?c (a, pct)"
    unfolding exact_def by (simp add: mult_le_mono)
  have same: "exact (?c\<lparr>bg_fired := f\<rparr>) (a, pct) = exact ?c (a, pct)" by (simp add: exact_def)
  have "has_fired (?c\<lparr>bg_fired := f\<rparr>) (a, pct)
      \<longleftrightarrow> pct \<in> set thresholds \<and> (exact b (a, pct) \<or> crossed ?c (a, pct))"
    using assms(1) unfolding assms(5) assms(4) settled_def by blast
  also have "\<dots> \<longleftrightarrow> pct \<in> set thresholds \<and> exact ?c (a, pct)"
    using crossed_exact [OF c(2)] mono by blast
  finally show "has_fired (?c\<lparr>bg_fired := f\<rparr>) (a, pct)
      \<longleftrightarrow> pct \<in> set thresholds \<and> exact (?c\<lparr>bg_fired := f\<rparr>) (a, pct)"
    unfolding same .
qed

lemma record_all_session:
  assumes "record_all ds b = (calls, b')" "settled b" "\<forall>a. unat (axis_max b a) < 2 ^ 57"
    and "unat (bg_consumed_input b) + unat (bg_consumed_output b) + spent ds Total < 2 ^ 57"
  shows "settled b' \<and> distinct calls \<and> (\<forall>t. t \<in> set calls \<longleftrightarrow> has_fired b' t \<and> \<not> has_fired b t)
    \<and> (\<forall>t. has_fired b t \<longrightarrow> has_fired b' t)
    \<and> (\<forall>a. axis_max b' a = axis_max b a \<and> unat (axis_consumed b' a) = unat (axis_consumed b a) + spent ds a)"
  using assms
proof (induction ds arbitrary: b calls)
  case Nil
  then show ?case by auto
next
  case (Cons d ds)
  obtain i j where d: "d = (i, j)" by (cases d)
  let ?c = "consumed_more i j b"
  obtain f cs where
    r: "record_tokens i j b = (consumed_total ?c, cs, ?c\<lparr>bg_fired := f\<rparr>)" "distinct cs"
      "\<And>a pct. (a, pct) \<in> set cs \<longleftrightarrow> pct \<in> set thresholds \<and> \<not> has_fired b (a, pct) \<and> crossed ?c (a, pct)"
      "\<And>t. has_fired (?c\<lparr>bg_fired := f\<rparr>) t \<longleftrightarrow> has_fired b t \<or> t \<in> set cs"
    by (rule record_tokens_eq [of i j b], rule that, assumption+)
  let ?b = "?c\<lparr>bg_fired := f\<rparr>"
  obtain more where more: "record_all ds ?b = (more, b')" "calls = cs @ more"
    using Cons.prems(1) r(1) by (auto simp: d Let_def split: prod.splits)
  have sum: "unat (bg_consumed_input b) + unat (bg_consumed_output b) + (unat i + unat j) + spent ds Total
      < 2 ^ 57"
    using Cons.prems(4) unfolding d spent_Cons [of "(i, j)" ds] spent_one by linarith
  then have lt: "unat (bg_consumed_input b) + unat (bg_consumed_output b) + (unat i + unat j) < 2 ^ 57"
    by linarith
  note c = consumed_more_small [OF Cons.prems(3) lt]
  have ax: "axis_max ?b a = axis_max b a" "unat (axis_consumed ?b a) = unat (axis_consumed b a) + spent [d] a"
    for a using c(3) [of a] by (simp_all add: d)
  have "unat (bg_consumed_input ?b) + unat (bg_consumed_output ?b) + spent ds Total < 2 ^ 57"
    using sum ax(2) [of Input] ax(2) [of Output] by (simp add: d spent_one)
  moreover have "settled ?b"
    by (rule settled_step [OF Cons.prems(2,3) lt r(3,4)])
  ultimately have IH: "settled b' \<and> distinct more
      \<and> (\<forall>t. t \<in> set more \<longleftrightarrow> has_fired b' t \<and> \<not> has_fired ?b t)
      \<and> (\<forall>t. has_fired ?b t \<longrightarrow> has_fired b' t)
      \<and> (\<forall>a. axis_max b' a = axis_max ?b a \<and> unat (axis_consumed b' a) = unat (axis_consumed ?b a) + spent ds a)"
    using Cons.IH [OF more(1)] Cons.prems(3) ax(1) by simp
  have fresh: "t \<in> set cs \<Longrightarrow> \<not> has_fired b t" for t
    using r(3) by (cases t) blast
  have "distinct calls"
    using IH r(2,4) unfolding more(2) by auto
  moreover have "\<forall>t. t \<in> set calls \<longleftrightarrow> has_fired b' t \<and> \<not> has_fired b t"
    using IH r(4) fresh unfolding more(2) set_append Un_iff by blast
  moreover have "\<forall>t. has_fired b t \<longrightarrow> has_fired b' t"
    using IH r(4) by blast
  moreover have "\<forall>a. axis_max b' a = axis_max b a
      \<and> unat (axis_consumed b' a) = unat (axis_consumed b a) + spent (d # ds) a"
    using IH ax by (simp add: add.assoc spent_Cons [of d ds])
  ultimately show ?case using IH by blast
qed

section \<open>The property\<close>



end
