(* ===== verification/Chat.thy ===== *)
theory Chat
  imports Prelude
begin

text \<open>
  What the agent and a language model exchange (include/souxmar/ai/provider.h): conversations,
  requests, replies and typed errors, and the scripted provider of the tests
  (src/ai/provider.cpp).  A provider is a function of the request and a world \<open>'w\<close>.
\<close>

section \<open>Conversations\<close>

datatype role = System | User | Assistant | Tool_role

fun role_str :: "role \<Rightarrow> string" where
  "role_str System = ''system''"
| "role_str User = ''user''"
| "role_str Assistant = ''assistant''"
| "role_str Tool_role = ''tool''"

record tool_call =
  tk_id :: string
  tk_name :: string
  tk_arguments :: string

record message =
  ms_role :: role
  ms_content :: string
  ms_call_id :: string
  ms_calls :: "tool_call list"

record tool_definition =
  td_name :: string
  td_description :: string

record chat_request =
  cr_model :: string
  cr_messages :: "message list"
  cr_tools :: "tool_definition list"
  cr_tool_names :: "string list"
  cr_temperature :: "double option"
  cr_max_tokens :: "u32 option"

record chat_response =
  rp_text :: string
  rp_calls :: "tool_call list"
  rp_input :: u64
  rp_output :: u64
  rp_latency :: int
  rp_truncated :: bool

definition empty_response :: chat_response where
  "empty_response = \<lparr>rp_text = [], rp_calls = [], rp_input = 0, rp_output = 0, rp_latency = 0,
     rp_truncated = False\<rparr>"

datatype provider_error_kind =
    Provider_http_error
  | Rate_limited
  | Local_daemon_unreachable
  | Model_not_found
  | Http_client_failed
  | Malformed_response
  | Protocol_mismatch
  | Bad_request
  | Context_length_exceeded

fun provider_error_str :: "provider_error_kind \<Rightarrow> string" where
  "provider_error_str Provider_http_error = ''provider-http-error''"
| "provider_error_str Rate_limited = ''rate-limited''"
| "provider_error_str Local_daemon_unreachable = ''local-daemon-unreachable''"
| "provider_error_str Model_not_found = ''model-not-found''"
| "provider_error_str Http_client_failed = ''http-client-failed''"
| "provider_error_str Malformed_response = ''malformed-response''"
| "provider_error_str Protocol_mismatch = ''protocol-mismatch''"
| "provider_error_str Bad_request = ''bad-request''"
| "provider_error_str Context_length_exceeded = ''context-length-exceeded''"

record provider_error =
  ve_kind :: provider_error_kind
  ve_message :: string

definition provider_failure :: "provider_error_kind \<Rightarrow> string \<Rightarrow> provider_error" where
  "provider_failure k m = \<lparr>ve_kind = k, ve_message = m\<rparr>"

type_synonym chat_result = "provider_error + chat_response"

type_synonym 'w chat_provider = "chat_request \<Rightarrow> 'w \<Rightarrow> chat_result \<times> 'w"

section \<open>The scripted provider\<close>

fun contains :: "string \<Rightarrow> string \<Rightarrow> bool" where
  "contains needle [] = (needle = [])"
| "contains needle (c # cs) = (starts_with needle (c # cs) \<or> contains needle cs)"

record programmed =
  pg_model :: string
  pg_trigger :: string
  pg_reply :: chat_response

definition program_reply ::
  "string \<Rightarrow> string \<Rightarrow> chat_response \<Rightarrow> programmed list \<Rightarrow> programmed list" where
  "program_reply model trigger reply table =
     table @ [\<lparr>pg_model = model, pg_trigger = trigger, pg_reply = reply\<rparr>]"

definition stub_models :: "programmed list \<Rightarrow> string list" where
  "stub_models table =
     foldl (\<lambda>models p. if pg_model p \<in> set models then models else models @ [pg_model p]) [] table"

definition last_user :: "message list \<Rightarrow> string" where
  "last_user ms = (case find (\<lambda>m. ms_role m = User) (rev ms) of Some m \<Rightarrow> ms_content m | None \<Rightarrow> [])"

definition stub_chat :: "programmed list \<Rightarrow> chat_request \<Rightarrow> chat_result" where
  "stub_chat table req =
     (if cr_messages req = [] then Inl (provider_failure Bad_request ''stub: empty messages'')
      else case find (\<lambda>p. pg_model p = cr_model req
               \<and> (pg_trigger p = [] \<or> contains (pg_trigger p) (last_user (cr_messages req)))) table of
        Some p \<Rightarrow> Inr (pg_reply p)
      | None \<Rightarrow> Inl (provider_failure Protocol_mismatch
          (''stub: no programmed reply matched (model='' @ quoted (cr_model req) @ '')'')))"

lemma contains_iff: "contains needle hay \<longleftrightarrow> (\<exists>ps ss. hay = ps @ needle @ ss)"
proof (induction hay)
  case (Cons c cs)
  have "(\<exists>ps ss. c # cs = ps @ needle @ ss)
      \<longleftrightarrow> (\<exists>ss. c # cs = needle @ ss) \<or> (\<exists>ps ss. cs = ps @ needle @ ss)"
    by (metis append_Cons append_Nil neq_Nil_conv list.inject)
  moreover have "starts_with needle (c # cs) \<longleftrightarrow> (\<exists>ss. c # cs = needle @ ss)"
    unfolding starts_with_def by (metis append_eq_conv_conj append_take_drop_id)
  ultimately show ?case using Cons.IH by simp
qed simp

lemma stub_models_set: "set (stub_models table) = pg_model ` set table"
  and stub_models_distinct: "distinct (stub_models table)"
proof -
  let ?f = "\<lambda>models p. if pg_model p \<in> set models then models else models @ [pg_model p]"
  have "set (foldl ?f ms table) = set ms \<union> pg_model ` set table \<and> (distinct ms \<longrightarrow> distinct (foldl ?f ms table))" for ms
    by (induction table arbitrary: ms) auto
  from this [of "[]"] show "set (stub_models table) = pg_model ` set table" "distinct (stub_models table)"
    by (simp_all add: stub_models_def)
qed

text \<open>The rule added last only answers what no earlier rule answers.\<close>

lemma stub_chat_program:
  "stub_chat (program_reply model trigger reply table) req =
     (case stub_chat table req of
        Inr r \<Rightarrow> Inr r
      | Inl e \<Rightarrow> if cr_messages req \<noteq> [] \<and> model = cr_model req
            \<and> (trigger = [] \<or> contains trigger (last_user (cr_messages req)))
          then Inr reply else Inl e)"
  by (induction table) (auto simp: stub_chat_def program_reply_def)

end
