(* ===== verification/Tools.thy ===== *)
theory Tools
  imports Budget Loader Chat
begin

text \<open>
  The agent's tool registry, its confirmation gate and dispatcher
  (src/ai/tool_dispatcher.cpp, include/souxmar/ai/tool.h) and the audit log line of every dispatch
  (src/ai/audit_log.cpp).  Tool handlers and the prompter are parameters, functions over a world
  \<open>'w\<close>; the clock and the heap accountant answer from a list of readings.  The session also
  lists what happened: which tools the user approved or declined and which handlers ran, what
  the model was asked and which budget thresholds were reported.
\<close>

section \<open>Tools and the policy\<close>

datatype confirmation = Auto | Confirm_once | Confirm_always

record tool_error =
  te_code :: string
  te_message :: string
  te_suggestion :: string

record tool_result =
  tr_data :: pvalue
  tr_summary :: string
  tr_error :: "tool_error option"

record 'w tool_context =
  tc_world :: 'w
  tc_budget :: "budget option"

record 'w tool =
  tl_name :: string
  tl_description :: string
  tl_category :: string
  tl_confirmation :: confirmation
  tl_input_doc :: string
  tl_output_doc :: string
  tl_handler :: "pvalue \<Rightarrow> 'w tool_context \<Rightarrow> tool_result call_end \<times> 'w tool_context"

type_synonym 'w tools = "(string \<times> 'w tool) list"

record 'w policy =
  po_overrides :: "(string \<times> confirmation) list"
  po_confirmed_once :: "string list"
  po_prompter :: "('w tool \<Rightarrow> pvalue \<Rightarrow> 'w \<Rightarrow> bool \<times> 'w) option"

definition add_tool :: "'w tool \<Rightarrow> 'w tools \<Rightarrow> 'w tools" where
  "add_tool t ts = AList.update (tl_name t) t ts"

definition find_tool :: "'w tools \<Rightarrow> string \<Rightarrow> 'w tool option" where
  "find_tool ts name = map_of ts name"

definition list_tools :: "'w tools \<Rightarrow> string list" where
  "list_tools ts = sort (map fst ts)"

definition tools_size :: "'w tools \<Rightarrow> nat" where
  "tools_size ts = length ts"

definition effective_confirmation :: "'w tool \<Rightarrow> 'w policy \<Rightarrow> confirmation" where
  "effective_confirmation t po = (case map_of (po_overrides po) (tl_name t) of
     Some c \<Rightarrow> c | None \<Rightarrow> tl_confirmation t)"

definition tool_failure :: "string \<Rightarrow> string \<Rightarrow> string \<Rightarrow> tool_result" where
  "tool_failure code m suggestion =
     \<lparr>tr_data = Null, tr_summary = ''error: '' @ m,
      tr_error = Some \<lparr>te_code = code, te_message = m, te_suggestion = suggestion\<rparr>\<rparr>"

definition outcome_token :: "tool_result \<Rightarrow> string" where
  "outcome_token r = (case tr_error r of
     None \<Rightarrow> ''ok''
   | Some e \<Rightarrow>
       if te_code e = ''DENIED'' then ''denied''
       else if te_code e = ''NOT_CONFIRMED'' then ''not_confirmed''
       else if te_code e = ''NOT_FOUND'' then ''not_found''
       else ''fail'')"

section \<open>The audit line\<close>

record audit_entry =
  ae_tool_name :: string
  ae_outcome :: string
  ae_summary :: string
  ae_input_hash :: string
  ae_duration :: int
  ae_budget :: "budget option"
  ae_heap_delta :: int
  ae_heap_supported :: bool

definition plain_char :: "char \<Rightarrow> bool" where
  "plain_char c = (is_alnum c \<or> c \<in> set ''_./-:+'')"

definition escape_audit :: "char \<Rightarrow> string" where
  "escape_audit c =
     (if c = CHR 0x22 then [CHR 0x5C, CHR 0x22]
      else if c = CHR 0x5C then [CHR 0x5C, CHR 0x5C]
      else if c = CHR 0x0A then [CHR 0x5C, CHR ''n'']
      else if c = CHR 0x0D then [CHR 0x5C, CHR ''r''] else [c])"

definition quote_yaml :: "string \<Rightarrow> string" where
  "quote_yaml s =
     (if s \<noteq> [] \<and> list_all plain_char s then s
      else [CHR 0x22] @ concat (map escape_audit s) @ [CHR 0x22])"

definition u64_str :: "u64 \<Rightarrow> string" where
  "u64_str v = nat_str (unat v)"

definition audit_line :: "string \<Rightarrow> audit_entry \<Rightarrow> string" where
  "audit_line now e =
     ''{ts: '' @ now @ '', tool: '' @ quote_yaml (ae_tool_name e)
     @ '', outcome: '' @ quote_yaml (ae_outcome e) @ '', duration_ms: '' @ int_str (ae_duration e)
     @ '', input_hash: '' @ quote_yaml (ae_input_hash e)
     @ (case ae_budget e of
          None \<Rightarrow> []
        | Some b \<Rightarrow> '', budget: {in: '' @ u64_str (bg_consumed_input b)
            @ '', out: '' @ u64_str (bg_consumed_output b)
            @ '', total: '' @ u64_str (consumed_total b)
            @ '', max_total: '' @ u64_str (bg_max_total b) @ ''}'')
     @ (if ae_heap_supported e then '', heap_bytes_delta: '' @ int_str (ae_heap_delta e) else [])
     @ (if ae_summary e \<noteq> [] then '', summary: '' @ quote_yaml (ae_summary e) else [])
     @ ''}'' @ newline"

section \<open>The session\<close>

text \<open>A reading: the time as the log prints it, the duration of the dispatch in milliseconds,
  and what the heap accountant says.\<close>

record meter =
  mt_now :: string
  mt_duration :: int
  mt_heap_supported :: bool
  mt_heap_delta :: int

datatype event =
    Approved string
  | Declined string
  | Ran string
  | Chatted chat_request
  | Crossed threshold

record 'w session =
  ss_context :: "'w tool_context"
  ss_policy :: "'w policy"
  ss_audit :: "string option"
  ss_meters :: "meter list"
  ss_events :: "event list"

definition idle_meter :: meter where
  "idle_meter = \<lparr>mt_now = ''1970-01-01T00:00:00Z'', mt_duration = 0, mt_heap_supported = False,
     mt_heap_delta = 0\<rparr>"

definition read_meter :: "'w session \<Rightarrow> meter \<times> 'w session" where
  "read_meter s = (case ss_meters s of
     [] \<Rightarrow> (idle_meter, s) | m # ms \<Rightarrow> (m, s\<lparr>ss_meters := ms\<rparr>))"

definition happened :: "event \<Rightarrow> 'w session \<Rightarrow> 'w session" where
  "happened e s = s\<lparr>ss_events := ss_events s @ [e]\<rparr>"

text \<open>\<open>record_audit\<close>; \<open>heap\<close> is whether the handler's heap reading goes into the entry.\<close>

definition record_audit ::
  "string \<Rightarrow> pvalue \<Rightarrow> tool_result \<Rightarrow> bool \<Rightarrow> 'w session \<Rightarrow> 'w session" where
  "record_audit tool_name inputs r heap s =
     (case ss_audit s of
        None \<Rightarrow> s
      | Some log \<Rightarrow>
          let (m, s) = read_meter s
          in s\<lparr>ss_audit := Some (log @ audit_line (mt_now m)
                \<lparr>ae_tool_name = tool_name, ae_outcome = outcome_token r, ae_summary = tr_summary r,
                 ae_input_hash = hash_hex (hash_inputs (''audit:'' @ tool_name) inputs []),
                 ae_duration = mt_duration m, ae_budget = tc_budget (ss_context s),
                 ae_heap_delta = (if heap then mt_heap_delta m else 0),
                 ae_heap_supported = (heap \<and> mt_heap_supported m)\<rparr>)\<rparr>)"

section \<open>Dispatch\<close>

definition mark_confirmed :: "string \<Rightarrow> 'w session \<Rightarrow> 'w session" where
  "mark_confirmed name s = s\<lparr>ss_policy := (ss_policy s)\<lparr>po_confirmed_once :=
     List.insert name (po_confirmed_once (ss_policy s))\<rparr>\<rparr>"

text \<open>The gate: either the result that ends the dispatch, or the session in which the handler is
  called.\<close>

definition confirm_gate :: "'w tool \<Rightarrow> pvalue \<Rightarrow> 'w session \<Rightarrow> tool_result option \<times> 'w session" where
  "confirm_gate t inputs s =
     (let required = effective_confirmation t (ss_policy s)
      in if required = Auto then (None, s)
         else if required = Confirm_once \<and> tl_name t \<in> set (po_confirmed_once (ss_policy s))
         then (None, s)
         else case po_prompter (ss_policy s) of
           None \<Rightarrow>
             (Some (tool_failure ''NOT_CONFIRMED''
                (''tool '' @ quoted (tl_name t) @ '' requires user confirmation but no prompter was supplied'')
                (''either set ConfirmationPolicy.prompter or add an override mapping ''
                 @ ''this tool to Confirmation::Auto'')), s)
         | Some prompter \<Rightarrow>
             let (approved, w) = prompter t inputs (tc_world (ss_context s));
                 s = s\<lparr>ss_context := (ss_context s)\<lparr>tc_world := w\<rparr>\<rparr>
             in if \<not> approved
                then (Some (tool_failure ''DENIED'' (''user declined to run '' @ quoted (tl_name t)) []),
                      happened (Declined (tl_name t)) s)
                else let s = happened (Approved (tl_name t)) s
                     in (None, if required = Confirm_once then mark_confirmed (tl_name t) s else s))"

definition invoke_handler :: "'w tool \<Rightarrow> pvalue \<Rightarrow> 'w session \<Rightarrow> tool_result \<times> 'w session" where
  "invoke_handler t inputs s =
     (let (e, ctx) = tl_handler t inputs (ss_context s);
          s = happened (Ran (tl_name t)) (s\<lparr>ss_context := ctx\<rparr>)
      in case e of
           Returned r \<Rightarrow> (r, s)
         | Threw_exception what \<Rightarrow> (tool_failure ''INTERNAL'' (''tool '' @ quoted (tl_name t)
             @ '' threw an exception: '' @ (case what of Some m \<Rightarrow> m | None \<Rightarrow> [])) [], s)
         | Threw_other \<Rightarrow> (tool_failure ''INTERNAL'' (''tool '' @ quoted (tl_name t)
             @ '' threw an unknown exception'') [], s))"

definition dispatch_tool ::
  "'w tools \<Rightarrow> string \<Rightarrow> pvalue \<Rightarrow> 'w session \<Rightarrow> tool_result \<times> 'w session" where
  "dispatch_tool ts tool_name inputs s =
     (case find_tool ts tool_name of
        None \<Rightarrow>
          let r = tool_failure ''NOT_FOUND'' (''no tool named '' @ quoted tool_name @ '' is registered'')
                (''call `souxmar agent list` (or ToolRegistry.list()) to see available tools'')
          in (r, record_audit tool_name inputs r False s)
      | Some t \<Rightarrow> (case confirm_gate t inputs s of
          (Some r, s) \<Rightarrow> (r, record_audit tool_name inputs r False s)
        | (None, s) \<Rightarrow>
            let (r, s) = invoke_handler t inputs s
            in (r, record_audit tool_name inputs r True s)))"

section \<open>Authorised runs\<close>

text \<open>
  A handler may run when its tool needs no confirmation, right after the user approved it, or, for
  a tool that asks once, any time after that.  \<open>level\<close> says what each tool needs, \<open>once\<close> which
  tools had been confirmed before.
\<close>

definition allowed :: "(string \<Rightarrow> confirmation) \<Rightarrow> string set \<Rightarrow> event list \<Rightarrow> string \<Rightarrow> bool" where
  "allowed level once past t = (case level t of
       Auto \<Rightarrow> True
     | Confirm_once \<Rightarrow> t \<in> once \<or> Approved t \<in> set past
     | Confirm_always \<Rightarrow> past \<noteq> [] \<and> last past = Approved t)"

definition authorised :: "(string \<Rightarrow> confirmation) \<Rightarrow> string set \<Rightarrow> event list \<Rightarrow> bool" where
  "authorised level once evs = (\<forall>past t later. evs = past @ Ran t # later \<longrightarrow> allowed level once past t)"

definition tools_ok :: "'w tools \<Rightarrow> bool" where
  "tools_ok ts = (distinct (map fst ts) \<and> (\<forall>(k, t) \<in> set ts. tl_name t = k))"

definition level_of :: "'w tools \<Rightarrow> 'w policy \<Rightarrow> string \<Rightarrow> confirmation" where
  "level_of ts po name = (case find_tool ts name of
     Some t \<Rightarrow> effective_confirmation t po | None \<Rightarrow> Auto)"

lemma set_alist_update: "set (AList.update k v xs) \<subseteq> insert (k, v) (set xs)"
  by (induction xs) auto

lemma tools_ok_add: "tools_ok ts \<Longrightarrow> tools_ok (add_tool t ts)"
proof -
  assume ok: "tools_ok ts"
  have "\<forall>(k, u) \<in> set (AList.update (tl_name t) t ts). tl_name u = k"
    using ok set_alist_update [of "tl_name t" t ts] unfolding tools_ok_def by fastforce
  then show ?thesis
    using ok by (simp add: tools_ok_def add_tool_def distinct_update)
qed

lemma tools_ok_find: "tools_ok ts \<Longrightarrow> find_tool ts name = Some t \<Longrightarrow> tl_name t = name"
  by (auto simp: tools_ok_def find_tool_def dest: map_of_SomeD)

lemma authorised_Nil [simp]: "authorised level once []"
  by (simp add: authorised_def)

lemma authorised_snoc:
  "authorised level once (evs @ [e]) \<longleftrightarrow> authorised level once evs
     \<and> (\<forall>t. e = Ran t \<longrightarrow> allowed level once evs t)"
proof
  assume a: "authorised level once (evs @ [e])"
  have "allowed level once past t" if "evs = past @ Ran t # later" for past t later
    using a that unfolding authorised_def by (metis append.assoc append_Cons)
  moreover have "allowed level once evs t" if "e = Ran t" for t
    using a that unfolding authorised_def by blast
  ultimately show "authorised level once evs \<and> (\<forall>t. e = Ran t \<longrightarrow> allowed level once evs t)"
    unfolding authorised_def by blast
next
  assume a: "authorised level once evs \<and> (\<forall>t. e = Ran t \<longrightarrow> allowed level once evs t)"
  show "authorised level once (evs @ [e])"
    unfolding authorised_def
  proof (intro allI impI)
    fix past t later
    assume eq: "evs @ [e] = past @ Ran t # later"
    show "allowed level once past t"
    proof (cases later rule: rev_cases)
      case Nil
      then show ?thesis using a eq by simp
    next
      case (snoc l x)
      then have "evs = past @ Ran t # l" using eq by simp
      then show ?thesis using a unfolding authorised_def by blast
    qed
  qed
qed

section \<open>The gate\<close>

lemma record_audit_frame [simp]:
  "ss_policy (record_audit n i r h s) = ss_policy s" "ss_events (record_audit n i r h s) = ss_events s"
  "ss_context (record_audit n i r h s) = ss_context s"
  by (simp_all add: record_audit_def read_meter_def Let_def split: option.split prod.split list.split)

lemma happened_frame [simp]:
  "ss_policy (happened e s) = ss_policy s" "ss_audit (happened e s) = ss_audit s"
  "ss_meters (happened e s) = ss_meters s" "ss_events (happened e s) = ss_events s @ [e]"
  "ss_context (happened e s) = ss_context s"
  by (simp_all add: happened_def)

lemma mark_confirmed_frame [simp]:
  "ss_events (mark_confirmed n s) = ss_events s" "ss_audit (mark_confirmed n s) = ss_audit s"
  "ss_meters (mark_confirmed n s) = ss_meters s"
  "po_overrides (ss_policy (mark_confirmed n s)) = po_overrides (ss_policy s)"
  "po_prompter (ss_policy (mark_confirmed n s)) = po_prompter (ss_policy s)"
  "set (po_confirmed_once (ss_policy (mark_confirmed n s))) = insert n (set (po_confirmed_once (ss_policy s)))"
  by (simp_all add: mark_confirmed_def)

lemma confirm_gate_cases:
  obtains (stopped) r s' where "confirm_gate t inputs s = (Some r, s')" "ss_policy s' = ss_policy s"
      "ss_events s' = ss_events s \<or> ss_events s' = ss_events s @ [Declined (tl_name t)]"
      "ss_audit s' = ss_audit s" "ss_meters s' = ss_meters s"
  | (free) "confirm_gate t inputs s = (None, s)" "effective_confirmation t (ss_policy s) = Auto"
  | (earlier) "confirm_gate t inputs s = (None, s)" "effective_confirmation t (ss_policy s) = Confirm_once"
      "tl_name t \<in> set (po_confirmed_once (ss_policy s))"
  | (approved) s' where "confirm_gate t inputs s = (None, s')"
      "ss_events s' = ss_events s @ [Approved (tl_name t)]" "effective_confirmation t (ss_policy s) \<noteq> Auto"
      "po_overrides (ss_policy s') = po_overrides (ss_policy s)"
      "set (po_confirmed_once (ss_policy s')) \<subseteq> insert (tl_name t) (set (po_confirmed_once (ss_policy s)))"
      "ss_audit s' = ss_audit s" "ss_meters s' = ss_meters s"
proof (cases "effective_confirmation t (ss_policy s)
    = Auto \<or> effective_confirmation t (ss_policy s) = Confirm_once
      \<and> tl_name t \<in> set (po_confirmed_once (ss_policy s))")
  case True
  then show ?thesis using free earlier by (auto simp: confirm_gate_def Let_def)
next
  case ask: False
  show ?thesis
  proof (cases "po_prompter (ss_policy s)")
    case None
    show ?thesis
      by (rule stopped) (use ask None in \<open>auto simp: confirm_gate_def Let_def\<close>)
  next
    case (Some prompter)
    obtain yes w where p: "prompter t inputs (tc_world (ss_context s)) = (yes, w)"
      by (cases "prompter t inputs (tc_world (ss_context s))")
    show ?thesis
    proof (cases yes)
      case False
      show ?thesis
        by (rule stopped [of _ "snd (confirm_gate t inputs s)"]) (use ask Some p False in \<open>auto simp: confirm_gate_def Let_def\<close>)
    next
      case True
      show ?thesis
        by (rule approved [of "snd (confirm_gate t inputs s)"])
          (use ask Some p True in \<open>auto simp: confirm_gate_def Let_def\<close>)
    qed
  qed
qed

lemma invoke_handler_frame [simp]:
  "ss_policy (snd (invoke_handler t inputs s)) = ss_policy s"
  "ss_events (snd (invoke_handler t inputs s)) = ss_events s @ [Ran (tl_name t)]"
  "ss_audit (snd (invoke_handler t inputs s)) = ss_audit s"
  "ss_meters (snd (invoke_handler t inputs s)) = ss_meters s"
  by (simp_all add: invoke_handler_def happened_def Let_def split: prod.split call_end.split)

text \<open>What the gate guarantees of a session, and that a dispatch keeps it.\<close>

definition session_ok ::
  "'w tools \<Rightarrow> (string \<Rightarrow> confirmation) \<Rightarrow> string set \<Rightarrow> 'w session \<Rightarrow> bool" where
  "session_ok ts level once s =
     (authorised level once (ss_events s)
      \<and> (\<forall>n \<in> set (po_confirmed_once (ss_policy s)). n \<in> once \<or> Approved n \<in> set (ss_events s))
      \<and> (\<forall>n t. find_tool ts n = Some t \<longrightarrow> effective_confirmation t (ss_policy s) = level n))"

lemma effective_same:
  "po_overrides po = po_overrides po' \<Longrightarrow> effective_confirmation t po = effective_confirmation t po'"
  by (simp add: effective_confirmation_def)

lemma session_ok_record [simp]:
  "session_ok ts level once (record_audit n i r h s) = session_ok ts level once s"
  by (simp add: session_ok_def)

lemma session_ok_invoke:
  "session_ok ts level once s \<Longrightarrow> allowed level once (ss_events s) (tl_name t) \<Longrightarrow>
     session_ok ts level once (snd (invoke_handler t inputs s))"
  by (auto simp: session_ok_def authorised_snoc)

lemma dispatch_tool_ok:
  assumes ok: "session_ok ts level once s" and ts: "tools_ok ts"
  shows "session_ok ts level once (snd (dispatch_tool ts name inputs s))"
proof (cases "find_tool ts name")
  case None
  then show ?thesis using ok by (simp add: dispatch_tool_def Let_def)
next
  case (Some t)
  have n: "tl_name t = name" by (rule tools_ok_find [OF ts Some])
  have lv: "effective_confirmation t (ss_policy s) = level name"
    using ok Some by (simp add: session_ok_def)
  show ?thesis
  proof (cases rule: confirm_gate_cases [of t inputs s])
    case (stopped r s')
    then have "session_ok ts level once s'"
      using ok by (auto simp: session_ok_def authorised_snoc)
    then show ?thesis using Some stopped by (simp add: dispatch_tool_def)
  next
    case free
    have "session_ok ts level once (snd (invoke_handler t inputs s))"
      by (rule session_ok_invoke [OF ok]) (use free lv n in \<open>simp add: allowed_def\<close>)
    then show ?thesis using Some free by (simp add: dispatch_tool_def case_prod_beta Let_def)
  next
    case earlier
    have "session_ok ts level once (snd (invoke_handler t inputs s))"
      by (rule session_ok_invoke [OF ok]) (use earlier lv n ok in \<open>auto simp: allowed_def session_ok_def\<close>)
    then show ?thesis using Some earlier by (simp add: dispatch_tool_def case_prod_beta Let_def)
  next
    case (approved s')
    have ok': "session_ok ts level once s'"
      using ok approved(2,5) effective_same [OF approved(4)]
      unfolding session_ok_def by (auto simp: authorised_snoc)
    have "session_ok ts level once (snd (invoke_handler t inputs s'))"
      by (rule session_ok_invoke [OF ok'])
        (use approved(2,3) lv n in \<open>auto simp: allowed_def split: confirmation.split\<close>)
    then show ?thesis using Some approved by (simp add: dispatch_tool_def case_prod_beta Let_def)
  qed
qed

section \<open>One line per dispatch\<close>

definition one_line :: "string \<Rightarrow> bool" where
  "one_line s = (CHR 0x0A \<notin> set s)"

lemma one_line_append [simp]: "one_line (s @ t) \<longleftrightarrow> one_line s \<and> one_line t"
  by (simp add: one_line_def)

lemma one_line_Nil [simp]: "one_line []"
  by (simp add: one_line_def)

lemma one_line_Cons [simp]: "one_line (c # s) \<longleftrightarrow> c \<noteq> CHR 0x0A \<and> one_line s"
  by (auto simp: one_line_def)

lemma one_line_nat_str [simp]: "one_line (nat_str n)"
proof -
  have "\<not> is_digit CHR 0x0A" by (simp add: is_digit_def less_eq_char_def)
  then show ?thesis using nat_str_digits [of "CHR 0x0A" n] by (auto simp: one_line_def)
qed

lemma one_line_numbers [simp]: "one_line (int_str i)" "one_line (u64_str v)"
  by (simp_all add: int_str_def u64_str_def)

lemma not_plain_newline [simp]: "\<not> plain_char CHR 0x0A"
  by (simp add: plain_char_def is_alnum_def is_digit_def less_eq_char_def)

lemma one_line_quote_yaml [simp]: "one_line (quote_yaml s)"
proof -
  have "CHR 0x0A \<notin> set (escape_audit c)" for c by (simp add: escape_audit_def)
  moreover have "list_all plain_char s \<Longrightarrow> CHR 0x0A \<notin> set s" by (auto simp: list_all_iff)
  ultimately show ?thesis by (auto simp: quote_yaml_def one_line_def)
qed

lemma quote_yaml_token: "quote_yaml (outcome_token r) = outcome_token r"
proof -
  have "quote_yaml ''ok'' = ''ok''" "quote_yaml ''denied'' = ''denied''"
    "quote_yaml ''not_confirmed'' = ''not_confirmed''" "quote_yaml ''not_found'' = ''not_found''"
    "quote_yaml ''fail'' = ''fail''" by code_simp+
  then show ?thesis by (simp add: outcome_token_def split: option.split)
qed

definition audit_text :: "string \<Rightarrow> audit_entry \<Rightarrow> string" where
  "audit_text now e = butlast (audit_line now e)"

lemma audit_line_text:
  assumes "one_line now"
  shows "audit_line now e = audit_text now e @ newline \<and> one_line (audit_text now e)
    \<and> (\<exists>rest. audit_text now e = ''{ts: '' @ now @ '', tool: '' @ quote_yaml (ae_tool_name e)
         @ '', outcome: '' @ quote_yaml (ae_outcome e) @ rest)"
proof -
  define body where "body = (case ae_budget e of
          None \<Rightarrow> []
        | Some b \<Rightarrow> '', budget: {in: '' @ u64_str (bg_consumed_input b)
            @ '', out: '' @ u64_str (bg_consumed_output b)
            @ '', total: '' @ u64_str (consumed_total b)
            @ '', max_total: '' @ u64_str (bg_max_total b) @ ''}'')
     @ (if ae_heap_supported e then '', heap_bytes_delta: '' @ int_str (ae_heap_delta e) else [])
     @ (if ae_summary e \<noteq> [] then '', summary: '' @ quote_yaml (ae_summary e) else [])"
  define rest where "rest = '', duration_ms: '' @ int_str (ae_duration e)
     @ '', input_hash: '' @ quote_yaml (ae_input_hash e) @ body @ ''}''"
  have "one_line body" unfolding body_def by (simp split: option.split)
  then have r: "one_line rest" by (simp add: rest_def)
  have line: "audit_line now e = (''{ts: '' @ now @ '', tool: '' @ quote_yaml (ae_tool_name e)
      @ '', outcome: '' @ quote_yaml (ae_outcome e) @ rest) @ newline"
    unfolding audit_line_def rest_def body_def append_assoc ..
  have shape: "audit_text now e = ''{ts: '' @ now @ '', tool: '' @ quote_yaml (ae_tool_name e)
      @ '', outcome: '' @ quote_yaml (ae_outcome e) @ rest"
    unfolding audit_text_def line newline_def by (rule butlast_snoc)
  have "audit_line now e = audit_text now e @ newline" unfolding shape by (fact line)
  moreover have "one_line (audit_text now e)" unfolding shape using assms r by simp
  ultimately show ?thesis using shape by blast
qed

definition meters_ok :: "'w session \<Rightarrow> bool" where
  "meters_ok s = (\<forall>m \<in> set (ss_meters s). one_line (mt_now m))"

lemma record_audit_line:
  assumes "ss_audit s = Some log" "meters_ok s"
  obtains line now rest where "ss_audit (record_audit n i r h s) = Some (log @ line @ newline)"
    "one_line line"
    "line = ''{ts: '' @ now @ '', tool: '' @ quote_yaml n @ '', outcome: '' @ outcome_token r @ rest"
proof -
  obtain m s' where m: "read_meter s = (m, s')" by (cases "read_meter s")
  have now: "one_line (mt_now m)"
    using m assms(2) by (auto simp: read_meter_def meters_ok_def idle_meter_def one_line_def split: list.splits)
  define e where "e = \<lparr>ae_tool_name = n, ae_outcome = outcome_token r, ae_summary = tr_summary r,
      ae_input_hash = hash_hex (hash_inputs (''audit:'' @ n) i []), ae_duration = mt_duration m,
      ae_budget = tc_budget (ss_context s'), ae_heap_delta = (if h then mt_heap_delta m else 0),
      ae_heap_supported = (h \<and> mt_heap_supported m)\<rparr>"
  have e: "ae_tool_name e = n" "ae_outcome e = outcome_token r" by (simp_all add: e_def)
  obtain rest where t: "audit_line (mt_now m) e = audit_text (mt_now m) e @ newline"
      "one_line (audit_text (mt_now m) e)"
      "audit_text (mt_now m) e = ''{ts: '' @ mt_now m @ '', tool: '' @ quote_yaml n @ '', outcome: ''
         @ outcome_token r @ rest"
    using audit_line_text [OF now, of e] unfolding e quote_yaml_token by blast
  have "ss_audit (record_audit n i r h s) = Some (log @ audit_line (mt_now m) e)"
    unfolding record_audit_def assms(1) e_def by (simp add: m)
  then have "ss_audit (record_audit n i r h s) = Some (log @ audit_text (mt_now m) e @ newline)"
    unfolding t(1) .
  from that [OF this t(2,3)] show ?thesis .
qed

section \<open>A sequence of dispatches\<close>

fun dispatch_all :: "'w tools \<Rightarrow> (string \<times> pvalue) list \<Rightarrow> 'w session \<Rightarrow> 'w session" where
  "dispatch_all ts [] s = s"
| "dispatch_all ts ((name, inputs) # cs) s = dispatch_all ts cs (snd (dispatch_tool ts name inputs s))"

lemma dispatch_all_ok:
  "session_ok ts level once s \<Longrightarrow> tools_ok ts \<Longrightarrow> session_ok ts level once (dispatch_all ts cs s)"
  by (induction ts cs s rule: dispatch_all.induct) (simp_all add: dispatch_tool_ok)

lemma session_ok_start:
  assumes "ss_events s = []"
  shows "session_ok ts (level_of ts (ss_policy s)) (set (po_confirmed_once (ss_policy s))) s"
  using assms by (simp add: session_ok_def level_of_def)

lemma confirm_gate_audit:
  "ss_audit (snd (confirm_gate t inputs s)) = ss_audit s"
  "ss_meters (snd (confirm_gate t inputs s)) = ss_meters s"
  by (cases rule: confirm_gate_cases [of t inputs s]; simp)+

section \<open>Examples\<close>

definition echo_tool :: "confirmation \<Rightarrow> nat tool" where
  "echo_tool c = \<lparr>tl_name = ''rm'', tl_description = ''Remove'', tl_category = ''Pipeline'',
     tl_confirmation = c, tl_input_doc = [], tl_output_doc = [],
     tl_handler = (\<lambda>v ctx. (Returned \<lparr>tr_data = v, tr_summary = ''done'', tr_error = None\<rparr>,
       ctx\<lparr>tc_world := tc_world ctx + 1\<rparr>))\<rparr>"

definition echo_session :: "(string \<times> confirmation) list \<Rightarrow> nat session" where
  "echo_session overrides = \<lparr>ss_context = \<lparr>tc_world = 0, tc_budget = None\<rparr>,
     ss_policy = \<lparr>po_overrides = overrides, po_confirmed_once = [],
       po_prompter = Some (\<lambda>t v w. (w = 0, w))\<rparr>,
     ss_audit = Some [], ss_meters = [], ss_events = []\<rparr>"

definition quiet_session :: "(string \<times> confirmation) list \<Rightarrow> nat session" where
  "quiet_session overrides = \<lparr>ss_context = \<lparr>tc_world = 0, tc_budget = None\<rparr>,
     ss_policy = \<lparr>po_overrides = overrides, po_confirmed_once = [],
       po_prompter = Some (\<lambda>t v w. (w = 0, w))\<rparr>,
     ss_audit = None, ss_meters = [], ss_events = []\<rparr>"

lemma echo_tools_ok: "tools_ok [(''rm'', echo_tool c)]"
  by (simp add: tools_ok_def echo_tool_def)

section \<open>The properties\<close>

text \<open>C30: no handler runs without the confirmation its tool needs.  Over any sequence of dispatches,
  whatever the handlers and the prompter do, a tool whose effective confirmation is to ask always
  runs only right after the user approved that very call, and one that asks once runs only after
  an approval in the session or if it had been confirmed before.\<close>

theorem tools_run_authorised:
  assumes "tools_ok ts" "ss_events s = []"
  shows "authorised (level_of ts (ss_policy s)) (set (po_confirmed_once (ss_policy s)))
    (ss_events (dispatch_all ts cs s))"
  using dispatch_all_ok [OF session_ok_start [OF assms(2)] assms(1)] by (simp add: session_ok_def)

theorem tools_run_authorised_witness:
  "authorised (level_of [(''rm'', echo_tool Confirm_always)] (ss_policy (quiet_session []))) {}
     (ss_events (dispatch_all [(''rm'', echo_tool Confirm_always)] [(''rm'', Null), (''rm'', Null)]
        (quiet_session [])))
   \<and> ss_events (dispatch_all [(''rm'', echo_tool Confirm_always)] [(''rm'', Null), (''rm'', Null)]
        (quiet_session [])) = [Approved ''rm'', Ran ''rm'', Declined ''rm'']"
proof
  have e: "ss_events (quiet_session []) = []" and once: "po_confirmed_once (ss_policy (quiet_session [])) = []"
    by (simp_all add: quiet_session_def)
  show "authorised (level_of [(''rm'', echo_tool Confirm_always)] (ss_policy (quiet_session []))) {}
     (ss_events (dispatch_all [(''rm'', echo_tool Confirm_always)] [(''rm'', Null), (''rm'', Null)]
        (quiet_session [])))"
    using tools_run_authorised [OF echo_tools_ok e, of Confirm_always
        "[(''rm'', Null), (''rm'', Null)]"] unfolding once list.set .
  show "ss_events (dispatch_all [(''rm'', echo_tool Confirm_always)] [(''rm'', Null), (''rm'', Null)]
      (quiet_session [])) = [Approved ''rm'', Ran ''rm'', Declined ''rm'']" by code_simp
qed

text \<open>C31: one audit line per dispatch.  With an audit log, every dispatch, whether the tool exists,
  is refused, fails, throws or succeeds, appends exactly one line, whose tool and outcome fields
  are those of the call; no input can break the line, so an entry cannot forge another.\<close>

theorem dispatch_audit_line:
  assumes "ss_audit s = Some log" "meters_ok s"
  shows "\<exists>line now rest. ss_audit (snd (dispatch_tool ts name inputs s)) = Some (log @ line @ newline)
    \<and> one_line line
    \<and> line = ''{ts: '' @ now @ '', tool: '' @ quote_yaml name @ '', outcome: ''
        @ outcome_token (fst (dispatch_tool ts name inputs s)) @ rest"
proof -
  obtain r h s' where d: "dispatch_tool ts name inputs s = (r, record_audit name inputs r h s')"
    and s': "ss_audit s' = ss_audit s" "ss_meters s' = ss_meters s"
  proof (cases "find_tool ts name")
    case None
    then show ?thesis using that [of _ False s] by (simp add: dispatch_tool_def Let_def)
  next
    case (Some t)
    obtain x s1 where g: "confirm_gate t inputs s = (x, s1)" by (cases "confirm_gate t inputs s")
    then have s1: "ss_audit s1 = ss_audit s" "ss_meters s1 = ss_meters s"
      using confirm_gate_audit [of t inputs s] by simp_all
    show ?thesis
    proof (cases x)
      case None
      show ?thesis
        by (rule that [of "fst (invoke_handler t inputs s1)" True "snd (invoke_handler t inputs s1)"])
          (simp_all add: dispatch_tool_def Some g None s1 case_prod_beta Let_def)
    next
      case (Some r)
      show ?thesis
        by (rule that [of r False s1]) (simp_all add: dispatch_tool_def \<open>find_tool ts name = Some t\<close> g Some s1)
    qed
  qed
  have "ss_audit s' = Some log" "meters_ok s'" using assms s' by (simp_all add: meters_ok_def)
  then show ?thesis
    unfolding d fst_conv snd_conv by (rule record_audit_line [of s' log name inputs r h]) blast
qed

theorem dispatch_audit_line_witness:
  "\<exists>line. ss_audit (snd (dispatch_tool [(''rm'', echo_tool Auto)] (''x'' @ newline @ ''y'') Null (echo_session [])))
     = Some (line @ newline) \<and> one_line line"
proof -
  have "ss_audit (echo_session []) = Some []" "meters_ok (echo_session [])"
    by (simp_all add: echo_session_def meters_ok_def)
  from dispatch_audit_line [OF this, of "[(''rm'', echo_tool Auto)]" "''x'' @ newline @ ''y''" Null]
  show ?thesis by auto
qed

end
