(* ===== verification/Yaml.thy ===== *)
theory Yaml
  imports Value
begin

text \<open>
  YAML and \<open>Value\<close> (src/pipeline/value.cpp): the reader of tool inputs and the hand-rolled emitter.
  yaml-cpp is not part of the repository: a node is a type parameter and the accessors the code calls
  are the fields of a record.  A node of yaml-cpp may contain itself through an alias, so readers
  take fuel and \<open>None\<close> means that it ran out.
\<close>

section \<open>The accessors\<close>

datatype node_type = Undefined_node | Null_node | Scalar_node | Sequence_node | Map_node

datatype 'n load_error =
    Parser_exception string "int \<times> int"
  | Other_exception string

text \<open>
  \<open>y_text\<close>, \<open>y_bool\<close>, \<open>y_double\<close> and \<open>y_int\<close> are \<open>as<T>\<close>, \<open>None\<close> the \<open>TypedBadConversion\<close> it throws;
  \<open>y_get\<close> is \<open>operator[]\<close> with a string key and \<open>y_mark\<close> the 0-based line and column, negative for none.
\<close>

record 'n yaml =
  y_type :: "'n \<Rightarrow> node_type"
  y_scalar :: "'n \<Rightarrow> string"
  y_tag :: "'n \<Rightarrow> string"
  y_text :: "'n \<Rightarrow> string option"
  y_bool :: "'n \<Rightarrow> bool option"
  y_double :: "'n \<Rightarrow> double option"
  y_int :: "'n \<Rightarrow> int option"
  y_items :: "'n \<Rightarrow> 'n list"
  y_entries :: "'n \<Rightarrow> ('n \<times> 'n) list"
  y_get :: "'n \<Rightarrow> string \<Rightarrow> 'n option"
  y_mark :: "'n \<Rightarrow> int \<times> int"
  y_load :: "string \<Rightarrow> 'n load_error + 'n"

definition is_scalar :: "('n, 'x) yaml_scheme \<Rightarrow> 'n \<Rightarrow> bool" where
  "is_scalar api n = (y_type api n = Scalar_node)"

section \<open>Loops that may stop early\<close>

text \<open>The loop over the children: the first error stops it, and a child that does not return is final.\<close>

fun each :: "('a \<Rightarrow> ('e + 'b) option) \<Rightarrow> 'a list \<Rightarrow> ('e + 'b list) option" where
  "each f [] = Some (Inr [])"
| "each f (x # xs) =
     (case f x of
        None \<Rightarrow> None
      | Some (Inl e) \<Rightarrow> Some (Inl e)
      | Some (Inr y) \<Rightarrow>
          (case each f xs of
             None \<Rightarrow> None
           | Some (Inl e) \<Rightarrow> Some (Inl e)
           | Some (Inr ys) \<Rightarrow> Some (Inr (y # ys))))"

lemma each_cong [fundef_cong]:
  "xs = ys \<Longrightarrow> (\<And>x. x \<in> set ys \<Longrightarrow> f x = g x) \<Longrightarrow> each f xs = each g ys"
  by (induction ys arbitrary: xs) (auto split: option.split sum.split)

lemma each_Inr: "each f xs = Some (Inr ys) \<longleftrightarrow> list_all2 (\<lambda>x y. f x = Some (Inr y)) xs ys"
proof (induction xs arbitrary: ys)
  case (Cons x xs)
  show ?case by (auto simp: list_all2_Cons1 Cons.IH [symmetric] split: option.splits sum.splits)
qed auto

lemma each_defined: "(\<And>x. x \<in> set xs \<Longrightarrow> f x \<noteq> None) \<Longrightarrow> each f xs \<noteq> None"
  by (induction xs) (auto split: option.splits sum.splits)

lemma each_mono:
  "each f xs = Some r \<Longrightarrow> (\<And>x y. x \<in> set xs \<Longrightarrow> f x = Some y \<Longrightarrow> g x = Some y) \<Longrightarrow> each g xs = Some r"
  by (induction xs arbitrary: r) (auto split: option.splits sum.splits)

definition settle :: "('e + 'a) option \<Rightarrow> ('a \<Rightarrow> 'e + 'b) \<Rightarrow> ('e + 'b) option" where
  "settle r k = map_option (\<lambda>r. case r of Inl e \<Rightarrow> Inl e | Inr x \<Rightarrow> k x) r"

lemma settle_simps [simp]:
  "settle None k = None" "settle (Some (Inl e)) k = Some (Inl e)" "settle (Some (Inr x)) k = Some (k x)"
  by (simp_all add: settle_def)

lemma settle_Some: "settle r k = Some y \<longleftrightarrow> (\<exists>x. r = Some x \<and> y = (case x of Inl e \<Rightarrow> Inl e | Inr x \<Rightarrow> k x))"
  by (auto simp: settle_def)

lemma settle_ex [simp]: "(\<exists>y. settle r k = Some y) \<longleftrightarrow> (\<exists>x. r = Some x)"
  by (auto simp: settle_def)

lemma settle_Inr: "settle r k = Some (Inr y) \<longleftrightarrow> (\<exists>x. r = Some (Inr x) \<and> k x = Inr y)"
proof (cases r)
  case (Some x)
  then show ?thesis by (cases x) auto
qed simp

lemma settle_None [simp]: "settle r k = None \<longleftrightarrow> r = None"
  by (simp add: settle_def)

definition insert_fields :: "(string \<times> pvalue) list \<Rightarrow> (string \<times> pvalue) list" where
  "insert_fields es = foldl (\<lambda>m (k, v). smap_emplace k v m) [] es"

lemma set_smap_emplace: "set (smap_emplace k v m) \<subseteq> insert (k, v) (set m)"
  by (induction m) (auto split: if_splits)

lemma fold_fields_ok:
  "value_ok (VMap m) \<Longrightarrow> (\<forall>e \<in> set es. value_ok (snd e)) \<Longrightarrow>
   value_ok (VMap (foldl (\<lambda>m (k, v). smap_emplace k v m) m es))"
proof (induction es arbitrary: m)
  case (Cons e es)
  have "value_ok (snd x)" if "x \<in> set (smap_emplace (fst e) (snd e) m)" for x
    using that Cons.prems set_smap_emplace [of "fst e" "snd e" m] by auto
  then have "value_ok (VMap (smap_emplace (fst e) (snd e) m))" using Cons.prems(1) by auto
  from Cons.IH [OF this] show ?case using Cons.prems(2) by (cases e) simp
qed simp

lemma insert_fields_ok: "(\<forall>e \<in> set es. value_ok (snd e)) \<Longrightarrow> value_ok (VMap (insert_fields es))"
  unfolding insert_fields_def by (rule fold_fields_ok) simp_all

section \<open>Reading a value\<close>

definition bad_conversion :: string where
  "bad_conversion = ''bad conversion''"

definition text_of :: "('n, 'x) yaml_scheme \<Rightarrow> 'n \<Rightarrow> string + string" where
  "text_of api n = (case y_text api n of None \<Rightarrow> Inl bad_conversion | Some s \<Rightarrow> Inr s)"

fun yaml_node_to_value :: "nat \<Rightarrow> ('n, 'x) yaml_scheme \<Rightarrow> 'n \<Rightarrow> (string + pvalue) option" where
  "yaml_node_to_value 0 api n = None"
| "yaml_node_to_value (Suc fuel) api n =
     (case y_type api n of
        Null_node \<Rightarrow> Some (Inr Null)
      | Undefined_node \<Rightarrow> Some (Inr Null)
      | Scalar_node \<Rightarrow>
          (case y_bool api n of
             Some b \<Rightarrow> Some (Inr (Boolean b))
           | None \<Rightarrow>
               (case y_double api n of
                  Some d \<Rightarrow> Some (Inr (Number d))
                | None \<Rightarrow> settle (Some (text_of api n)) (\<lambda>s. Inr (String s))))
      | Sequence_node \<Rightarrow> settle (each (yaml_node_to_value fuel api) (y_items api n)) (\<lambda>xs. Inr (VList xs))
      | Map_node \<Rightarrow>
          (case (if length (y_entries api n) = 1 then y_get api n ''from'' else None) of
             Some f \<Rightarrow>
               if is_scalar api f then settle (Some (text_of api f)) (\<lambda>s. Inr (Stage_ref s))
               else settle (each (\<lambda>(k, v). case text_of api k of
                     Inl e \<Rightarrow> Some (Inl e)
                   | Inr key \<Rightarrow> settle (yaml_node_to_value fuel api v) (\<lambda>x. Inr (key, x))) (y_entries api n))
                 (\<lambda>es. Inr (VMap (insert_fields es)))
           | None \<Rightarrow>
               settle (each (\<lambda>(k, v). case text_of api k of
                     Inl e \<Rightarrow> Some (Inl e)
                   | Inr key \<Rightarrow> settle (yaml_node_to_value fuel api v) (\<lambda>x. Inr (key, x))) (y_entries api n))
                 (\<lambda>es. Inr (VMap (insert_fields es)))))"

definition parse_value_yaml :: "nat \<Rightarrow> ('n, 'x) yaml_scheme \<Rightarrow> string \<Rightarrow> (string + pvalue) option" where
  "parse_value_yaml fuel api text =
     (case y_load api text of
        Inl (Parser_exception m _) \<Rightarrow> Some (Inl m)
      | Inl (Other_exception m) \<Rightarrow> Some (Inl m)
      | Inr root \<Rightarrow> yaml_node_to_value fuel api root)"

section \<open>Emitting a value\<close>

text \<open>
  The value of a finite \<open>double\<close> is \<open>mantissa * 2 ^ (exponent - 1075)\<close>.  \<open>to_long_long\<close> is the cast to
  \<open>long long\<close>; outside its range, where the C++ cast is undefined, it is the value x86-64 gives.
\<close>

definition dbl_exponent :: "double \<Rightarrow> nat" where
  "dbl_exponent d = unat (take_bit 11 (drop_bit 52 d))"

definition dbl_mantissa :: "double \<Rightarrow> int" where
  "dbl_mantissa d = uint (take_bit 52 d) + (if dbl_exponent d = 0 then 0 else 2 ^ 52)"

definition dbl_negative :: "double \<Rightarrow> bool" where
  "dbl_negative d = bit d 63"

definition to_long_long :: "double \<Rightarrow> int" where
  "to_long_long d =
     (let e = max 1 (dbl_exponent d); m = dbl_mantissa d;
          a = (if e \<ge> 1075 then m * 2 ^ (e - 1075) else m div 2 ^ (1075 - e));
          i = (if dbl_negative d then - a else a)
      in if dbl_exponent d = 0x7FF \<or> i < - (2 ^ 63) \<or> 2 ^ 63 \<le> i then - (2 ^ 63) else i)"

definition equals_long_long :: "double \<Rightarrow> int \<Rightarrow> bool" where
  "equals_long_long d i =
     (let e = max 1 (dbl_exponent d); m = dbl_mantissa d; m = (if dbl_negative d then - m else m)
      in dbl_exponent d \<noteq> 0x7FF \<and>
         (if e \<ge> 1075 then m * 2 ^ (e - 1075) = i else m = i * 2 ^ (1075 - e)))"

definition needs_quote :: "char \<Rightarrow> bool" where
  "needs_quote c = (c \<in> set '':#{}[],&*!|>%@`'' \<or> c \<in> {CHR 0x0A, CHR 0x22, CHR 0x27, CHR 0x5C}
     \<or> (of_char c :: nat) < 0x20 \<or> 0x80 \<le> (of_char c :: nat))"

definition escape_char :: "char \<Rightarrow> string" where
  "escape_char c =
     (if c = CHR 0x22 then [CHR 0x5C, CHR 0x22]
      else if c = CHR 0x5C then [CHR 0x5C, CHR 0x5C]
      else if c = CHR 0x0A then [CHR 0x5C, CHR ''n''] else [c])"

definition quote_if_needed :: "string \<Rightarrow> string" where
  "quote_if_needed s =
     (if s = [] \<or> list_ex needs_quote s
         \<or> s \<in> {''true'', ''false'', ''null'', ''~'', ''yes'', ''no'', ''on'', ''off''}
      then [CHR 0x22] @ concat (map escape_char s) @ [CHR 0x22] else s)"

fun emit_indented :: "(double \<Rightarrow> string) \<Rightarrow> nat \<Rightarrow> pvalue \<Rightarrow> string" where
  "emit_indented fmt indent Null = ''null''"
| "emit_indented fmt indent (Boolean b) = (if b then ''true'' else ''false'')"
| "emit_indented fmt indent (Number d) =
     (if equals_long_long d (to_long_long d) then int_str (to_long_long d) else fmt d)"
| "emit_indented fmt indent (String s) = quote_if_needed s"
| "emit_indented fmt indent (Stage_ref s) = ''{from: '' @ quote_if_needed s @ ''}''"
| "emit_indented fmt indent (VList xs) =
     (if xs = [] then ''[]''
      else concat (map (\<lambda>x. newline @ replicate indent CHR '' '' @ ''- '' @ emit_indented fmt (indent + 2) x) xs))"
| "emit_indented fmt indent (VMap m) =
     (if m = [] then ''{}''
      else concat (map (\<lambda>(k, x). newline @ replicate indent CHR '' '' @ quote_if_needed k @ '': ''
        @ emit_indented fmt (indent + 2) x) m))"

definition emit_value_yaml :: "(double \<Rightarrow> string) \<Rightarrow> pvalue \<Rightarrow> string" where
  "emit_value_yaml fmt v =
     (let s = emit_indented fmt 0 v in if starts_with newline s then drop 1 s else s)"

section \<open>Lemmas\<close>

text \<open>The value of a number that is printed as an integer is that integer.\<close>

lemma emitted_numbers:
  "emit_indented fmt 0 (Number 0x4008000000000000) = int_str 3"
  "emit_indented fmt 0 (Number 0xC008000000000000) = int_str (- 3)"
  "emit_indented fmt 0 (Number 0x8000000000000000) = int_str 0"
  "emit_indented fmt 0 (Number 0x4012000000000000) = fmt 0x4012000000000000"
  by (simp_all add: equals_long_long_def to_long_long_def dbl_exponent_def dbl_mantissa_def
      dbl_negative_def Let_def)

text \<open>A quoted scalar keeps its tag, yet the reader of tool inputs still turns it into a boolean.\<close>

lemma quoted_scalar_becomes_bool:
  "y_type api n = Scalar_node \<Longrightarrow> y_bool api n = Some b \<Longrightarrow>
   yaml_node_to_value (Suc fuel) api n = Some (Inr (Boolean b))"
  by simp

text \<open>A text that looks like a number is emitted plain, as the number would be.\<close>

lemma number_like_string_emitted_plain: "emit_value_yaml fmt (String ''2507'') = ''2507''"
  by code_simp

lemma settle_mono: "settle r k = Some y \<Longrightarrow> (\<And>x. r = Some x \<Longrightarrow> r' = Some x) \<Longrightarrow> settle r' k = Some y"
  by (auto simp: settle_Some)

section \<open>Nodes that do not contain themselves\<close>

text \<open>The nodes below which every path of children ends, as the trees without aliases are.\<close>

inductive finite_node :: "('n, 'x) yaml_scheme \<Rightarrow> 'n \<Rightarrow> bool" for api :: "('n, 'x) yaml_scheme" where
  "(\<And>m. m \<in> set (y_items api n) \<Longrightarrow> finite_node api m) \<Longrightarrow>
   (\<And>e. e \<in> set (y_entries api n) \<Longrightarrow> finite_node api (snd e)) \<Longrightarrow> finite_node api n"

text \<open>A common amount of fuel for the children.\<close>

lemma common_fuel:
  assumes "\<And>x. x \<in> set xs \<Longrightarrow> \<exists>k. \<forall>k' \<ge> k. P k' x"
  shows "\<exists>k. \<forall>k' \<ge> k. \<forall>x \<in> set xs. P (k' :: nat) x"
  using assms
proof (induction xs)
  case (Cons x xs)
  then obtain k k2 where "\<forall>k' \<ge> k. P k' x" "\<forall>k' \<ge> k2. \<forall>x \<in> set xs. P k' x" by (metis list.set_intros)
  then show ?case by (intro exI [of _ "max k k2"]) simp
qed simp

text \<open>A computation with fuel settles when all large amounts of fuel give the same result.\<close>

definition settles :: "(nat \<Rightarrow> 'a option) \<Rightarrow> bool" where
  "settles f = (\<exists>k y. \<forall>k' \<ge> k. f k' = Some y)"

lemma settles_const [simp]: "settles (\<lambda>k. Some y)"
  by (auto simp: settles_def)

lemma settles_bind:
  assumes "settles f" "\<And>y. settles (\<lambda>k. g k y)"
  shows "settles (\<lambda>k. case f k of None \<Rightarrow> None | Some y \<Rightarrow> g k y)"
proof -
  obtain k y where f: "\<forall>k' \<ge> k. f k' = Some y" using assms(1) by (auto simp: settles_def)
  obtain l z where g: "\<forall>k' \<ge> l. g k' y = Some z" using assms(2) [of y] by (auto simp: settles_def)
  have "\<forall>k' \<ge> max k l. (case f k' of None \<Rightarrow> None | Some y \<Rightarrow> g k' y) = Some z" using f g by simp
  then show ?thesis unfolding settles_def by blast
qed

lemma settles_eqI: "settles f \<Longrightarrow> (\<And>k. f k = g k) \<Longrightarrow> settles g"
  by (simp add: settles_def)

lemma settles_Suc: "settles (\<lambda>k. f (Suc k)) \<Longrightarrow> settles f"
  unfolding settles_def by (metis Suc_le_D Suc_le_mono)

lemma settles_settle: "settles f \<Longrightarrow> settles (\<lambda>k. settle (f k) g)"
  unfolding settles_def settle_def by (metis option.map(2))

lemma settles_each: "(\<And>x. x \<in> set xs \<Longrightarrow> settles (\<lambda>k. f k x)) \<Longrightarrow> settles (\<lambda>k. each (f k) xs)"
proof (induction xs)
  case (Cons x xs)
  have IH: "settles (\<lambda>k. each (f k) xs)" and x: "settles (\<lambda>k. f k x)" using Cons by simp_all
  define g where "g = (\<lambda>k r. case r of Inl e \<Rightarrow> Some (Inl e)
      | Inr y \<Rightarrow> settle (each (f k) xs) (\<lambda>ys. Inr (y # ys)))"
  have "settles (\<lambda>k. g k r)" for r
    by (cases r) (simp_all add: g_def IH settles_settle)
  from settles_bind [where g = g, OF x this] show ?case
    by (rule settles_eqI) (auto simp: g_def split: option.split sum.split)
qed simp

lemma yaml_node_to_value_settles:
  assumes "finite_node api n"
  shows "settles (\<lambda>k. yaml_node_to_value k api n)"
  using assms
proof (induction rule: finite_node.induct)
  case (1 n)
  have "settles (\<lambda>k. case text_of api (fst e) of Inl e \<Rightarrow> Some (Inl e)
      | Inr key \<Rightarrow> settle (yaml_node_to_value k api (snd e)) (\<lambda>x. Inr (key, x)))"
    if "e \<in> set (y_entries api n)" for e
    using "1.IH"(2) [OF that] by (cases "text_of api (fst e)") (simp_all add: settles_settle)
  then have entries: "settles (\<lambda>k. each (\<lambda>(key, v). case text_of api key of Inl e \<Rightarrow> Some (Inl e)
      | Inr key \<Rightarrow> settle (yaml_node_to_value k api v) (\<lambda>x. Inr (key, x))) (y_entries api n))"
    by (intro settles_each) (simp add: case_prod_beta)
  have items: "settles (\<lambda>k. each (yaml_node_to_value k api) (y_items api n))"
    using "1.IH"(1) by (intro settles_each)
  show ?case
  proof (rule settles_Suc)
    show "settles (\<lambda>k. yaml_node_to_value (Suc k) api n)"
      by (cases "y_type api n"; cases "y_bool api n"; cases "y_double api n";
          cases "if length (y_entries api n) = 1 then y_get api n ''from'' else None";
          cases "is_scalar api (the (y_get api n ''from''))")
        (auto split: if_splits intro: settles_settle entries items)
  qed
qed

section \<open>A node type\<close>

text \<open>A concrete instance of the accessors, for the witnesses: trees of plain texts, sequences and maps.\<close>

datatype yaml_doc =
    Y_text string
  | Y_seq "yaml_doc list"
  | Y_map "(string \<times> yaml_doc) list"

definition yaml_of :: "(string \<Rightarrow> yaml_doc load_error + yaml_doc) \<Rightarrow> yaml_doc yaml" where
  "yaml_of load =
     \<lparr>y_type = (\<lambda>n. case n of Y_text _ \<Rightarrow> Scalar_node | Y_seq _ \<Rightarrow> Sequence_node | Y_map _ \<Rightarrow> Map_node),
      y_scalar = (\<lambda>n. case n of Y_text s \<Rightarrow> s | _ \<Rightarrow> []),
      y_tag = (\<lambda>n. ''?''),
      y_text = (\<lambda>n. case n of Y_text s \<Rightarrow> Some s | _ \<Rightarrow> None),
      y_bool = (\<lambda>n. if n = Y_text ''true'' then Some True else if n = Y_text ''false'' then Some False else None),
      y_double = (\<lambda>n. None),
      y_int = (\<lambda>n. if n = Y_text ''1'' then Some 1 else None),
      y_items = (\<lambda>n. case n of Y_seq ns \<Rightarrow> ns | _ \<Rightarrow> []),
      y_entries = (\<lambda>n. case n of Y_map es \<Rightarrow> map (\<lambda>(k, v). (Y_text k, v)) es | _ \<Rightarrow> []),
      y_get = (\<lambda>n k. case n of Y_map es \<Rightarrow> map_of es k | _ \<Rightarrow> None),
      y_mark = (\<lambda>n. (0, 0)),
      y_load = load\<rparr>"

lemma yaml_of_children:
  "y_items (yaml_of load) (Y_text s) = []" "y_items (yaml_of load) (Y_seq ns) = ns" "y_items (yaml_of load) (Y_map es) = []"
  "y_entries (yaml_of load) (Y_text s) = []" "y_entries (yaml_of load) (Y_seq ns) = []"
  "y_entries (yaml_of load) (Y_map es) = map (\<lambda>(k, v). (Y_text k, v)) es"
  by (simp_all add: yaml_of_def)

lemma yaml_doc_finite: "finite_node (yaml_of load) n"
proof (induction n)
  case (Y_text s)
  show ?case by (rule finite_node.intros) (simp_all add: yaml_of_children)
next
  case (Y_seq ns)
  show ?case by (rule finite_node.intros) (simp_all add: yaml_of_children Y_seq)
next
  case (Y_map es)
  show ?case
  proof (rule finite_node.intros)
    fix e assume "e \<in> set (y_entries (yaml_of load) (Y_map es))"
    then obtain x where "x \<in> set es" "snd e = snd x" by (auto simp: yaml_of_children)
    then show "finite_node (yaml_of load) (snd e)" using Y_map [of x "snd x"] by (simp add: Basic_BNFs.snds.simps)
  qed (simp add: yaml_of_children)
qed

end
