(* ===== verification/Agent.thy ===== *)
theory Agent
  imports Tools Yaml
begin

text \<open>
  The agent loop (src/ai/agent.cpp, include/souxmar/ai/agent.h): a turn asks the model, runs the
  tools it calls through the dispatcher and goes on until the model answers, the steps run out,
  the provider fails or a call needs the user, and a suspended turn goes on with the user's
  answer.  The provider is a function of the request and the session's world.  Reading a call's
  arguments is \<open>parse_value_yaml\<close>; as that may not return on a cyclic document, so may a turn.
\<close>

section \<open>Results of a turn\<close>

datatype stop_reason =
    Final_answer
  | Max_steps_reached
  | Provider_failed
  | Aborted
  | Awaiting_confirmation

fun stop_reason_str :: "stop_reason \<Rightarrow> string" where
  "stop_reason_str Final_answer = ''final-answer''"
| "stop_reason_str Max_steps_reached = ''max-steps-reached''"
| "stop_reason_str Provider_failed = ''provider-failed''"
| "stop_reason_str Aborted = ''aborted''"
| "stop_reason_str Awaiting_confirmation = ''awaiting-confirmation''"

record agent_call =
  ac_name :: string
  ac_arguments :: string
  ac_summary :: string
  ac_ok :: bool
  ac_refused :: bool

record agent_step =
  sp_text :: string
  sp_calls :: "agent_call list"
  sp_latency :: int

record pending =
  pd_tool :: string
  pd_arguments :: string
  pd_id :: string
  pd_queued :: "tool_call list"

record outcome =
  oc_stop :: stop_reason
  oc_text :: string
  oc_steps :: "agent_step list"
  oc_error :: string
  oc_error_kind :: provider_error_kind
  oc_input :: u64
  oc_output :: u64
  oc_latency :: int
  oc_pending :: pending
  oc_history :: "message list"
  oc_steps_used :: u32

definition new_outcome :: outcome where
  "new_outcome = \<lparr>oc_stop = Final_answer, oc_text = [], oc_steps = [], oc_error = [],
     oc_error_kind = Provider_http_error, oc_input = 0, oc_output = 0, oc_latency = 0,
     oc_pending = \<lparr>pd_tool = [], pd_arguments = [], pd_id = [], pd_queued = []\<rparr>,
     oc_history = [], oc_steps_used = 0\<rparr>"

record agent_options =
  op_model :: string
  op_system_prompt :: string
  op_max_steps :: u32
  op_allowed_tools :: "string list"
  op_temperature :: "double option"
  op_suspend :: bool
  op_steps_already_used :: u32

definition tools_called :: "outcome \<Rightarrow> string list" where
  "tools_called out = concat (map (\<lambda>step. map ac_name (sp_calls step)) (oc_steps out))"

definition em_dash :: string where
  "em_dash = [CHR 0xE2, CHR 0x80, CHR 0x94]"

definition default_agent_system_prompt :: string where
  "default_agent_system_prompt =
     ''You are the souxmar agent, working inside a CAD/FEM/CFD workbench. ''
     @ ''Use the provided tools to inspect and act on the user's project; ''
     @ ''prefer calling a tool over guessing. Tool results are facts about ''
     @ ''the real project '' @ em_dash @ '' never invent a number that a tool could have ''
     @ ''told you. If a tool fails, read the error and either correct the ''
     @ ''arguments or explain the problem; do not retry the same call ''
     @ ''unchanged. When you have what you need, answer in plain prose ''
     @ ''without calling further tools.''"

section \<open>Tool calls\<close>

definition build_tool_definitions :: "'w tools \<Rightarrow> string list \<Rightarrow> tool_definition list" where
  "build_tool_definitions ts names =
     concat (map (\<lambda>name.
       if names \<noteq> [] \<and> name \<notin> set names then []
       else case find_tool ts name of
           None \<Rightarrow> []
         | Some t \<Rightarrow> [\<lparr>td_name = tl_name t,
             td_description = tl_description t
               @ (if tl_input_doc t \<noteq> []
                  then newline @ newline @ ''Input (JSON object with these fields):'' @ newline @ tl_input_doc t
                  else [])\<rparr>]) (list_tools ts))"

text \<open>\<open>None\<close> when reading the document does not return with this fuel.\<close>

definition parse_arguments :: "nat \<Rightarrow> ('n, 'x) yaml_scheme \<Rightarrow> string \<Rightarrow> pvalue option" where
  "parse_arguments fuel api json =
     (if json = [] then Some (VMap [])
      else case parse_value_yaml fuel api json of
          None \<Rightarrow> None
        | Some (Inl e) \<Rightarrow> Some (VMap [])
        | Some (Inr v) \<Rightarrow> Some v)"

definition render_tool_result :: "tool_result \<Rightarrow> string" where
  "render_tool_result r = (case tr_error r of
     None \<Rightarrow> if tr_summary r = [] then ''ok'' else tr_summary r
   | Some e \<Rightarrow> ''error ['' @ te_code e @ '']: '' @ te_message e
       @ (if te_suggestion e \<noteq> [] then '' '' @ em_dash @ '' '' @ te_suggestion e else []))"

definition needs_user_decision :: "'w tools \<Rightarrow> 'w policy \<Rightarrow> string \<Rightarrow> bool" where
  "needs_user_decision ts po name = (case find_tool ts name of
     None \<Rightarrow> False
   | Some t \<Rightarrow>
       let level = (case map_of (po_overrides po) name of Some c \<Rightarrow> c | None \<Rightarrow> tl_confirmation t)
       in if level = Auto then False
          else if level = Confirm_once \<and> name \<in> set (po_confirmed_once po) then False
          else po_prompter po = None)"

text \<open>\<open>rd\<close> reads the arguments of a call.\<close>

definition execute_call ::
  "(string \<Rightarrow> pvalue option) \<Rightarrow> 'w tools \<Rightarrow> tool_call \<Rightarrow> message list \<Rightarrow> 'w session \<Rightarrow>
   (agent_call \<times> message list \<times> 'w session) option" where
  "execute_call rd ts c history s =
     (case rd (tk_arguments c) of
        None \<Rightarrow> None
      | Some inputs \<Rightarrow>
          let (r, s) = dispatch_tool ts (tk_name c) inputs s;
              x = \<lparr>ac_name = tk_name c, ac_arguments = tk_arguments c,
                   ac_summary = render_tool_result r, ac_ok = (tr_error r = None),
                   ac_refused = (case tr_error r of None \<Rightarrow> False
                     | Some e \<Rightarrow> te_code e = ''NOT_CONFIRMED'' \<or> te_code e = ''DENIED'')\<rparr>
          in Some (x, history @ [\<lparr>ms_role = Tool_role, ms_content = ac_summary x,
               ms_call_id = tk_id c, ms_calls = []\<rparr>], s))"

text \<open>The calls of one reply in order.  The first result is the call that has to wait for the user,
  with the calls after it.\<close>

fun run_calls ::
  "(string \<Rightarrow> pvalue option) \<Rightarrow> 'w tools \<Rightarrow> bool \<Rightarrow> tool_call list \<Rightarrow> agent_call list \<Rightarrow>
   message list \<Rightarrow> 'w session \<Rightarrow>
   ((tool_call \<times> tool_call list) option \<times> agent_call list \<times> message list \<times> 'w session) option" where
  "run_calls rd ts suspend [] xs history s = Some (None, xs, history, s)"
| "run_calls rd ts suspend (c # cs) xs history s =
     (if suspend \<and> needs_user_decision ts (ss_policy s) (tk_name c)
      then Some (Some (c, cs), xs, history, s)
      else case execute_call rd ts c history s of
          None \<Rightarrow> None
        | Some (x, history, s) \<Rightarrow> run_calls rd ts suspend cs (xs @ [x]) history s)"

section \<open>The loop\<close>

definition ask_model :: "'w chat_provider \<Rightarrow> chat_request \<Rightarrow> 'w session \<Rightarrow> chat_result \<times> 'w session" where
  "ask_model pv req s =
     (let (r, w) = pv req (tc_world (ss_context s))
      in (r, happened (Chatted req) (s\<lparr>ss_context := (ss_context s)\<lparr>tc_world := w\<rparr>\<rparr>)))"

text \<open>The budget's callback is told of each threshold crossed.\<close>

definition charge_budget :: "chat_response \<Rightarrow> 'w session \<Rightarrow> 'w session" where
  "charge_budget r s = (case tc_budget (ss_context s) of
     None \<Rightarrow> s
   | Some b \<Rightarrow>
       if rp_input r = 0 \<and> rp_output r = 0 then s
       else let (total, reached, b) = record_tokens (rp_input r) (rp_output r) b
            in foldl (\<lambda>s t. happened (Crossed t) s)
                 (s\<lparr>ss_context := (ss_context s)\<lparr>tc_budget := Some b\<rparr>\<rparr>) reached)"

definition chat_request_of :: "agent_options \<Rightarrow> tool_definition list \<Rightarrow> message list \<Rightarrow> chat_request" where
  "chat_request_of op defs history =
     \<lparr>cr_model = op_model op, cr_messages = history, cr_tools = defs, cr_tool_names = [],
      cr_temperature = op_temperature op, cr_max_tokens = None\<rparr>"

definition max_steps_of :: "agent_options \<Rightarrow> u32" where
  "max_steps_of op = (if op_max_steps op = 0 then 1 else op_max_steps op)"

definition assistant_message :: "chat_response \<Rightarrow> message" where
  "assistant_message r = \<lparr>ms_role = Assistant, ms_content = rp_text r, ms_call_id = [],
     ms_calls = rp_calls r\<rparr>"

definition pending_of :: "tool_call \<Rightarrow> tool_call list \<Rightarrow> pending" where
  "pending_of c queued = \<lparr>pd_tool = tk_name c, pd_arguments = tk_arguments c, pd_id = tk_id c,
     pd_queued = queued\<rparr>"

text \<open>\<open>left\<close> is the number of steps still allowed, \<open>step\<close> the loop's counter.\<close>

fun agent_steps ::
  "(string \<Rightarrow> pvalue option) \<Rightarrow> 'w chat_provider \<Rightarrow> 'w tools \<Rightarrow> agent_options \<Rightarrow>
   tool_definition list \<Rightarrow> nat \<Rightarrow> u32 \<Rightarrow> outcome \<Rightarrow> message list \<Rightarrow> 'w session \<Rightarrow>
   (outcome \<times> 'w session) option" where
  "agent_steps rd pv ts op defs 0 step out history s =
     Some (out\<lparr>oc_stop := Max_steps_reached,
         oc_text := (if oc_steps out \<noteq> [] then sp_text (last (oc_steps out)) else oc_text out),
         oc_history := history, oc_steps_used := op_steps_already_used op + max_steps_of op\<rparr>, s)"
| "agent_steps rd pv ts op defs (Suc left) step out history s =
     (case ask_model pv (chat_request_of op defs history) s of
        (Inl e, s) \<Rightarrow>
          Some (out\<lparr>oc_stop := Provider_failed,
              oc_error := provider_error_str (ve_kind e) @ '': '' @ ve_message e,
              oc_error_kind := ve_kind e\<rparr>, s)
      | (Inr r, s) \<Rightarrow>
          let st = \<lparr>sp_text = rp_text r, sp_calls = [], sp_latency = rp_latency r\<rparr>;
              out = out\<lparr>oc_latency := oc_latency out + rp_latency r,
                oc_input := oc_input out + rp_input r, oc_output := oc_output out + rp_output r\<rparr>;
              s = charge_budget r s;
              history = history @ [assistant_message r]
          in if rp_calls r = []
             then Some (out\<lparr>oc_text := rp_text r, oc_steps := oc_steps out @ [st],
                 oc_stop := Final_answer, oc_history := history,
                 oc_steps_used := op_steps_already_used op + step + 1\<rparr>, s)
             else case run_calls rd ts (op_suspend op) (rp_calls r) [] history s of
                 None \<Rightarrow> None
               | Some (Some (c, queued), xs, history, s) \<Rightarrow>
                   Some (out\<lparr>oc_stop := Awaiting_confirmation, oc_pending := pending_of c queued,
                       oc_history := history, oc_steps := oc_steps out @ [st\<lparr>sp_calls := xs\<rparr>],
                       oc_steps_used := op_steps_already_used op + step + 1\<rparr>, s)
               | Some (None, xs, history, s) \<Rightarrow>
                   agent_steps rd pv ts op defs left (step + 1)
                     (out\<lparr>oc_steps := oc_steps out @ [st\<lparr>sp_calls := xs\<rparr>]\<rparr>) history s)"

definition run_loop ::
  "(string \<Rightarrow> pvalue option) \<Rightarrow> 'w chat_provider \<Rightarrow> 'w tools \<Rightarrow> agent_options \<Rightarrow>
   message list \<Rightarrow> 'w session \<Rightarrow> (outcome \<times> 'w session) option" where
  "run_loop rd pv ts op history s =
     agent_steps rd pv ts op (build_tool_definitions ts (op_allowed_tools op))
       (unat (max_steps_of op)) 0 new_outcome history s"

definition run_agent_turn ::
  "(string \<Rightarrow> pvalue option) \<Rightarrow> 'w chat_provider \<Rightarrow> 'w tools \<Rightarrow> agent_options \<Rightarrow>
   message list \<Rightarrow> 'w session \<Rightarrow> (outcome \<times> 'w session) option" where
  "run_agent_turn rd pv ts op messages s =
     (let system_prompt = (if op_system_prompt op = [] then default_agent_system_prompt
                           else op_system_prompt op)
      in run_loop rd pv ts op
           (\<lparr>ms_role = System, ms_content = system_prompt, ms_call_id = [], ms_calls = []\<rparr> # messages) s)"

section \<open>Going on after the user's answer\<close>

definition override_tool :: "string \<Rightarrow> confirmation \<Rightarrow> 'w session \<Rightarrow> 'w session" where
  "override_tool name c s = s\<lparr>ss_policy := (ss_policy s)\<lparr>po_overrides :=
     AList.update name c (po_overrides (ss_policy s))\<rparr>\<rparr>"

definition drop_override :: "string \<Rightarrow> 'w session \<Rightarrow> 'w session" where
  "drop_override name s = s\<lparr>ss_policy := (ss_policy s)\<lparr>po_overrides :=
     AList.delete name (po_overrides (ss_policy s))\<rparr>\<rparr>"

text \<open>The call the user was asked about: run with the gate open, or answered with a refusal.\<close>

definition settle_pending ::
  "(string \<Rightarrow> pvalue option) \<Rightarrow> 'w tools \<Rightarrow> pending \<Rightarrow> bool \<Rightarrow> message list \<Rightarrow> 'w session \<Rightarrow>
   (agent_call \<times> message list \<times> 'w session) option" where
  "settle_pending rd ts p approved history s =
     (let name = pd_tool p
      in if approved
         then let s = mark_confirmed name (override_tool name Auto (happened (Approved name) s))
              in case execute_call rd ts \<lparr>tk_id = pd_id p, tk_name = name, tk_arguments = pd_arguments p\<rparr>
                     history s of
                  None \<Rightarrow> None
                | Some (x, history, s) \<Rightarrow> Some (x, history, drop_override name s)
         else let x = \<lparr>ac_name = name, ac_arguments = pd_arguments p,
                    ac_summary = ''error [DENIED]: the user declined to run '' @ quoted name,
                    ac_ok = False, ac_refused = True\<rparr>
              in Some (x, history @ [\<lparr>ms_role = Tool_role, ms_content = ac_summary x,
                     ms_call_id = pd_id p, ms_calls = []\<rparr>], happened (Declined name) s))"

text \<open>The queue after the first call with the id of the one that waits.\<close>

fun still_queued :: "string \<Rightarrow> tool_call list \<Rightarrow> tool_call list" where
  "still_queued i [] = []"
| "still_queued i (c # cs) = (if tk_id c = i then cs else still_queued i cs)"

definition resumed_options :: "agent_options \<Rightarrow> agent_options" where
  "resumed_options op = op\<lparr>op_max_steps :=
     (if op_steps_already_used op < op_max_steps op then op_max_steps op - op_steps_already_used op
      else 1)\<rparr>"

definition resume_agent_turn ::
  "(string \<Rightarrow> pvalue option) \<Rightarrow> 'w chat_provider \<Rightarrow> 'w tools \<Rightarrow> agent_options \<Rightarrow>
   message list \<Rightarrow> pending \<Rightarrow> bool \<Rightarrow> 'w session \<Rightarrow> (outcome \<times> 'w session) option" where
  "resume_agent_turn rd pv ts op history p approved s =
     (case settle_pending rd ts p approved history s of
        None \<Rightarrow> None
      | Some (x, history, s) \<Rightarrow>
          (case run_calls rd ts (op_suspend op) (pd_queued p) [x] history s of
             None \<Rightarrow> None
           | Some (Some (c, cs), xs, history, s) \<Rightarrow>
               Some (new_outcome\<lparr>oc_stop := Awaiting_confirmation,
                   oc_pending := pending_of c (still_queued (tk_id c) (pd_queued p)),
                   oc_history := history,
                   oc_steps := [\<lparr>sp_text = [], sp_calls = xs, sp_latency = 0\<rparr>],
                   oc_steps_used := op_steps_already_used op\<rparr>, s)
           | Some (None, xs, history, s) \<Rightarrow>
               (case run_loop rd pv ts (resumed_options op) history s of
                  None \<Rightarrow> None
                | Some (rest, s) \<Rightarrow>
                    Some (rest\<lparr>oc_steps :=
                      \<lparr>sp_text = [], sp_calls = xs, sp_latency = 0\<rparr> # oc_steps rest\<rparr>, s))))"

section \<open>The gate and the loop agree\<close>

lemma needs_user_decision_gate:
  assumes ts: "tools_ok ts"
  shows "needs_user_decision ts (ss_policy s) name \<longleftrightarrow>
    (\<exists>t r e. find_tool ts name = Some t \<and> fst (confirm_gate t inputs s) = Some r
       \<and> tr_error r = Some e \<and> te_code e = ''NOT_CONFIRMED'')"
proof (cases "find_tool ts name")
  case None
  then show ?thesis by (simp add: needs_user_decision_def)
next
  case (Some t)
  have "tl_name t = name" by (rule tools_ok_find [OF ts Some])
  then show ?thesis
    using Some by (auto simp: needs_user_decision_def confirm_gate_def effective_confirmation_def Let_def
        tool_failure_def split: option.split prod.split)
qed

section \<open>What a turn does to the session\<close>

text \<open>Overrides only open gates, as the ones the agent sets do.\<close>

definition lenient :: "'w policy \<Rightarrow> bool" where
  "lenient po = (\<forall>n c. map_of (po_overrides po) n = Some c \<longrightarrow> c = Auto)"

definition turn_ok :: "'w tools \<Rightarrow> (string \<Rightarrow> confirmation) \<Rightarrow> string set \<Rightarrow> 'w session \<Rightarrow> bool" where
  "turn_ok ts level once s = (session_ok ts level once s \<and> lenient (ss_policy s))"

lemma effective_same_map:
  "map_of (po_overrides po) = map_of (po_overrides po') \<Longrightarrow>
   effective_confirmation t po = effective_confirmation t po'"
  by (simp add: effective_confirmation_def)

lemma session_ok_happened:
  "session_ok ts level once s \<Longrightarrow> (\<And>t. e \<noteq> Ran t) \<Longrightarrow> session_ok ts level once (happened e s)"
  by (auto simp: session_ok_def authorised_snoc)

lemma session_ok_context [simp]:
  "session_ok ts level once (s\<lparr>ss_context := ctx\<rparr>) = session_ok ts level once s"
  by (simp add: session_ok_def)

lemma turn_ok_happened:
  "turn_ok ts level once s \<Longrightarrow> (\<And>t. e \<noteq> Ran t) \<Longrightarrow> turn_ok ts level once (happened e s)"
  by (simp add: turn_ok_def session_ok_happened)

lemma turn_ok_context [simp]:
  "turn_ok ts level once (s\<lparr>ss_context := ctx\<rparr>) = turn_ok ts level once s"
  by (simp add: turn_ok_def)

lemma ask_model_ok: "turn_ok ts level once s \<Longrightarrow> turn_ok ts level once (snd (ask_model pv req s))"
  by (simp add: ask_model_def turn_ok_happened split: prod.split)

lemma turn_ok_fold:
  "turn_ok ts level once s \<Longrightarrow> turn_ok ts level once (foldl (\<lambda>s t. happened (Crossed t) s) s xs)"
  by (induction xs arbitrary: s) (simp_all add: turn_ok_happened)

lemma charge_budget_ok: "turn_ok ts level once s \<Longrightarrow> turn_ok ts level once (charge_budget r s)"
  by (simp add: charge_budget_def turn_ok_fold split: option.split prod.split)

lemma ask_model_policy [simp]: "ss_policy (snd (ask_model pv req s)) = ss_policy s"
  by (simp add: ask_model_def split: prod.split)

lemma fold_crossed_policy [simp]: "ss_policy (foldl (\<lambda>s t. happened (Crossed t) s) s xs) = ss_policy s"
  by (induction xs arbitrary: s) simp_all

lemma charge_budget_policy [simp]: "ss_policy (charge_budget r s) = ss_policy s"
  by (simp add: charge_budget_def split: option.split prod.split)

lemma dispatch_tool_overrides:
  "po_overrides (ss_policy (snd (dispatch_tool ts name inputs s))) = po_overrides (ss_policy s)"
  "po_prompter (ss_policy (snd (dispatch_tool ts name inputs s))) = po_prompter (ss_policy s)"
proof -
  have "po_overrides (ss_policy (snd (confirm_gate t inputs s))) = po_overrides (ss_policy s)
      \<and> po_prompter (ss_policy (snd (confirm_gate t inputs s))) = po_prompter (ss_policy s)" for t
    by (simp add: confirm_gate_def Let_def split: option.split prod.split)
  then show "po_overrides (ss_policy (snd (dispatch_tool ts name inputs s))) = po_overrides (ss_policy s)"
    "po_prompter (ss_policy (snd (dispatch_tool ts name inputs s))) = po_prompter (ss_policy s)"
    by (simp_all add: dispatch_tool_def Let_def case_prod_beta split: option.split prod.split)
qed

lemma dispatch_keeps_turn:
  "tools_ok ts \<Longrightarrow> turn_ok ts level once s \<Longrightarrow>
     turn_ok ts level once (snd (dispatch_tool ts name inputs s))"
  by (simp add: turn_ok_def lenient_def dispatch_tool_ok dispatch_tool_overrides)

section \<open>One step\<close>

text \<open>The outcome after a reply, and with the step it made.\<close>

definition charged :: "chat_response \<Rightarrow> outcome \<Rightarrow> outcome" where
  "charged r out = out\<lparr>oc_latency := oc_latency out + rp_latency r,
     oc_input := oc_input out + rp_input r, oc_output := oc_output out + rp_output r\<rparr>"

definition stepped :: "chat_response \<Rightarrow> agent_call list \<Rightarrow> outcome \<Rightarrow> outcome" where
  "stepped r xs out = (charged r out)\<lparr>oc_steps := oc_steps out
     @ [\<lparr>sp_text = rp_text r, sp_calls = xs, sp_latency = rp_latency r\<rparr>]\<rparr>"

lemma execute_callE:
  assumes "execute_call rd ts c h s = Some (x, h', s')"
  obtains inputs r where "rd (tk_arguments c) = Some inputs"
    "dispatch_tool ts (tk_name c) inputs s = (r, s')" "ac_name x = tk_name c"
    "h' = h @ [\<lparr>ms_role = Tool_role, ms_content = render_tool_result r, ms_call_id = tk_id c, ms_calls = []\<rparr>]"
  using assms by (auto simp: execute_call_def Let_def split: option.splits prod.splits)

lemma run_callsE:
  assumes "run_calls rd ts suspend (c # cs) xs h s = Some (w, xs', h', s')"
  obtains (waits) "suspend" "needs_user_decision ts (ss_policy s) (tk_name c)"
      "w = Some (c, cs)" "xs' = xs" "h' = h" "s' = s"
  | (runs) x h1 s1 where "\<not> (suspend \<and> needs_user_decision ts (ss_policy s) (tk_name c))"
      "execute_call rd ts c h s = Some (x, h1, s1)"
      "run_calls rd ts suspend cs (xs @ [x]) h1 s1 = Some (w, xs', h', s')"
  using assms by (auto split: if_splits option.splits)

lemma agent_stepsE:
  assumes "agent_steps rd pv ts op defs (Suc k) step out h s = Some (out', s')"
  obtains (failed) e where "ask_model pv (chat_request_of op defs h) s = (Inl e, s')"
      "out' = out\<lparr>oc_stop := Provider_failed,
         oc_error := provider_error_str (ve_kind e) @ '': '' @ ve_message e, oc_error_kind := ve_kind e\<rparr>"
  | (final) r s1 where "ask_model pv (chat_request_of op defs h) s = (Inr r, s1)" "rp_calls r = []"
      "s' = charge_budget r s1"
      "out' = (stepped r [] out)\<lparr>oc_text := rp_text r, oc_stop := Final_answer,
         oc_history := h @ [assistant_message r], oc_steps_used := op_steps_already_used op + step + 1\<rparr>"
  | (waiting) r s1 c queued xs h' where "ask_model pv (chat_request_of op defs h) s = (Inr r, s1)"
      "run_calls rd ts (op_suspend op) (rp_calls r) [] (h @ [assistant_message r]) (charge_budget r s1)
         = Some (Some (c, queued), xs, h', s')"
      "out' = (stepped r xs out)\<lparr>oc_stop := Awaiting_confirmation, oc_pending := pending_of c queued,
         oc_history := h', oc_steps_used := op_steps_already_used op + step + 1\<rparr>"
  | (goes_on) r s1 xs h' s2 where "ask_model pv (chat_request_of op defs h) s = (Inr r, s1)"
      "rp_calls r \<noteq> []"
      "run_calls rd ts (op_suspend op) (rp_calls r) [] (h @ [assistant_message r]) (charge_budget r s1)
         = Some (None, xs, h', s2)"
      "agent_steps rd pv ts op defs k (step + 1) (stepped r xs out) h' s2 = Some (out', s')"
proof -
  obtain r s1 where a: "ask_model pv (chat_request_of op defs h) s = (r, s1)" by fastforce
  show ?thesis
  proof (cases r)
    case (Inl e)
    show ?thesis by (rule failed [of e]) (use assms a Inl in auto)
  next
    case (Inr rp)
    show ?thesis
    proof (cases "rp_calls rp = []")
      case True
      show ?thesis by (rule final [of rp s1]) (use assms a Inr True in \<open>auto simp: Let_def stepped_def charged_def\<close>)
    next
      case False
      then obtain w xs h' s2 where c: "run_calls rd ts (op_suspend op) (rp_calls rp) []
          (h @ [assistant_message rp]) (charge_budget rp s1) = Some (w, xs, h', s2)"
        using assms a Inr by (auto simp: Let_def split: option.splits)
      show ?thesis
      proof (cases w)
        case None
        show ?thesis by (rule goes_on [of rp s1 xs h' s2])
          (use assms a Inr False c None in \<open>auto simp: Let_def stepped_def charged_def\<close>)
      next
        case (Some p)
        show ?thesis by (rule waiting [of rp s1 "fst p" "snd p" xs h'])
          (use assms a Inr False c Some in \<open>auto simp: Let_def stepped_def charged_def split: prod.splits\<close>)
      qed
    qed
  qed
qed

section \<open>What a turn keeps\<close>

text \<open>What the dispatcher, the provider and the budget keep, the loop keeps.\<close>

locale kept_by_calls =
  fixes ts :: "'w tools" and I :: "'w session \<Rightarrow> bool"
  assumes dispatch_keeps: "I s \<Longrightarrow> I (snd (dispatch_tool ts name inputs s))"
begin

lemma execute_keeps: "I s \<Longrightarrow> execute_call rd ts c h s = Some (x, h', s') \<Longrightarrow> I s'"
  by (erule execute_callE) (metis dispatch_keeps snd_conv)

lemma calls_keep: "I s \<Longrightarrow> run_calls rd ts suspend cs xs h s = Some (w, xs', h', s') \<Longrightarrow> I s'"
proof (induction cs arbitrary: xs h s)
  case (Cons c cs)
  from Cons.prems(2) show ?case
    by (cases rule: run_callsE) (use Cons execute_keeps in blast)+
qed simp

end

locale kept_by_turn = kept_by_calls ts I
  for ts :: "'w tools" and I :: "'w session \<Rightarrow> bool" +
  fixes pv :: "'w chat_provider"
  assumes ask_keeps: "I s \<Longrightarrow> I (snd (ask_model pv req s))"
    and charge_keeps: "I s \<Longrightarrow> I (charge_budget r s)"
begin

lemma reply_keeps: "I s \<Longrightarrow> ask_model pv req s = (Inr r, s1) \<Longrightarrow> I (charge_budget r s1)"
  using ask_keeps [of s req] charge_keeps by (metis snd_conv)

lemma steps_keep:
  "I s \<Longrightarrow> agent_steps rd pv ts op defs k step out h s = Some (out', s') \<Longrightarrow> I s'"
proof (induction k arbitrary: step out h s)
  case (Suc k)
  from Suc.prems(2) show ?case
  proof (cases rule: agent_stepsE)
    case failed
    then show ?thesis using ask_keeps [OF Suc.prems(1)] by (metis snd_conv)
  next
    case final
    then show ?thesis using reply_keeps [OF Suc.prems(1)] by blast
  next
    case waiting
    then show ?thesis using calls_keep [OF reply_keeps [OF Suc.prems(1)]] by blast
  next
    case goes_on
    then show ?thesis using Suc.IH calls_keep [OF reply_keeps [OF Suc.prems(1)]] by blast
  qed
qed simp

lemma loop_keeps: "I s \<Longrightarrow> run_loop rd pv ts op h s = Some (out, s') \<Longrightarrow> I s'"
  unfolding run_loop_def by (rule steps_keep)

lemma turn_keeps: "I s \<Longrightarrow> run_agent_turn rd pv ts op ms s = Some (out, s') \<Longrightarrow> I s'"
  unfolding run_agent_turn_def Let_def by (rule loop_keeps)

end

text \<open>The gate's invariant is kept, and the policy's overrides and prompter stay as they are.\<close>

interpretation gate: kept_by_turn ts "\<lambda>s. tools_ok ts \<longrightarrow> turn_ok ts level once s" pv
  for ts :: "'w tools" and pv level once
  by unfold_locales (blast intro: dispatch_keeps_turn ask_model_ok charge_budget_ok)+

interpretation policy: kept_by_turn ts
    "\<lambda>s. po_overrides (ss_policy s) = ov \<and> po_prompter (ss_policy s) = p" pv
  for ts :: "'w tools" and pv ov p
  by unfold_locales (simp_all add: dispatch_tool_overrides ask_model_policy charge_budget_policy)

section \<open>The user's answer\<close>

lemma dispatch_open_gate:
  assumes "find_tool ts name = Some t" "effective_confirmation t (ss_policy s) = Auto"
  shows "\<exists>r. snd (dispatch_tool ts name inputs s)
    = record_audit name inputs r True (snd (invoke_handler t inputs s))"
  using assms by (auto simp: dispatch_tool_def confirm_gate_def Let_def case_prod_beta)

lemma open_gate_frame [simp]:
  "ss_events (override_tool n c s) = ss_events s" "ss_events (drop_override n s) = ss_events s"
  "po_confirmed_once (ss_policy (override_tool n c s)) = po_confirmed_once (ss_policy s)"
  "po_confirmed_once (ss_policy (drop_override n s)) = po_confirmed_once (ss_policy s)"
  "po_prompter (ss_policy (override_tool n c s)) = po_prompter (ss_policy s)"
  "po_prompter (ss_policy (drop_override n s)) = po_prompter (ss_policy s)"
  "po_overrides (ss_policy (override_tool n c s)) = AList.update n c (po_overrides (ss_policy s))"
  "po_overrides (ss_policy (drop_override n s)) = AList.delete n (po_overrides (ss_policy s))"
  by (simp_all add: override_tool_def drop_override_def)

text \<open>The approved call is dispatched in the session \<open>s1\<close>, with the tool's gate open.\<close>

lemma approved_dispatch_ok:
  assumes ok: "turn_ok ts level once s" and ts: "tools_ok ts"
    and free: "map_of (po_overrides (ss_policy s)) name = None"
    and s1: "s1 = mark_confirmed name (override_tool name Auto (happened (Approved name) s))"
  shows "turn_ok ts level once (drop_override name (snd (dispatch_tool ts name inputs s1)))"
proof -
  let ?s2 = "snd (dispatch_tool ts name inputs s1)"
  have ov: "map_of (po_overrides (ss_policy (drop_override name ?s2))) = map_of (po_overrides (ss_policy s))"
    using free by (auto simp: s1 dispatch_tool_overrides delete_conv' update_conv')
  have ok1: "session_ok ts level once (happened (Approved name) s)"
    using ok by (simp add: turn_ok_def session_ok_happened)
  have once: "set (po_confirmed_once (ss_policy ?s2)) = insert name (set (po_confirmed_once (ss_policy s)))
      \<and> (ss_events ?s2 = ss_events s @ [Approved name] \<or> ss_events ?s2 = ss_events s @ [Approved name, Ran name])"
  proof (cases "find_tool ts name")
    case None
    then show ?thesis by (simp add: dispatch_tool_def Let_def s1)
  next
    case (Some t)
    have n: "tl_name t = name" by (rule tools_ok_find [OF ts Some])
    have "effective_confirmation t (ss_policy s1) = Auto"
      by (simp add: effective_confirmation_def n s1 update_conv')
    from dispatch_open_gate [OF Some this, of inputs]
    obtain r where "?s2 = record_audit name inputs r True (snd (invoke_handler t inputs s1))" ..
    then show ?thesis by (simp add: n) (simp add: s1)
  qed
  have "allowed level once (ss_events s @ [Approved name]) name"
    by (simp add: allowed_def split: confirmation.split)
  then have "authorised level once ((ss_events s @ [Approved name]) @ [Ran name])"
    "authorised level once (ss_events s @ [Approved name])"
    using ok1 by (simp_all only: authorised_snoc) (simp_all add: session_ok_def authorised_snoc)
  then have "authorised level once (ss_events ?s2)" using once by auto
  moreover have "\<forall>n \<in> set (po_confirmed_once (ss_policy ?s2)). n \<in> once \<or> Approved n \<in> set (ss_events ?s2)"
    using ok once by (auto simp: turn_ok_def session_ok_def)
  moreover have "effective_confirmation t (ss_policy (drop_override name ?s2)) = effective_confirmation t (ss_policy s)" for t
    using effective_same_map [OF ov] .
  ultimately show ?thesis
    using ok unfolding turn_ok_def session_ok_def lenient_def ov by simp
qed

definition pending_call :: "pending \<Rightarrow> tool_call" where
  "pending_call p = \<lparr>tk_id = pd_id p, tk_name = pd_tool p, tk_arguments = pd_arguments p\<rparr>"

definition gate_open :: "string \<Rightarrow> 'w session \<Rightarrow> 'w session" where
  "gate_open name s = mark_confirmed name (override_tool name Auto (happened (Approved name) s))"

lemma settle_pendingE:
  assumes "settle_pending rd ts p approved h s = Some (x, h', s')"
  obtains (approved) s2 where "approved" "s' = drop_override (pd_tool p) s2"
      "execute_call rd ts (pending_call p) h (gate_open (pd_tool p) s) = Some (x, h', s2)"
  | (declined) m where "\<not> approved" "s' = happened (Declined (pd_tool p)) s"
      "h' = h @ [\<lparr>ms_role = Tool_role, ms_content = m, ms_call_id = pd_id p, ms_calls = []\<rparr>]"
  using assms
  by (auto simp: settle_pending_def Let_def pending_call_def gate_open_def split: if_splits option.splits)

lemma settle_pending_ok:
  assumes ok: "turn_ok ts level once s" and ts: "tools_ok ts"
    and free: "map_of (po_overrides (ss_policy s)) (pd_tool p) = None"
    and run: "settle_pending rd ts p approved h s = Some (x, h', s')"
  shows "turn_ok ts level once s'"
  using run
proof (cases rule: settle_pendingE)
  case (approved s2)
  from approved(3) obtain inputs r where
    "dispatch_tool ts (pd_tool p) inputs (gate_open (pd_tool p) s) = (r, s2)"
    by (rule execute_callE) (simp add: pending_call_def)
  then have "s2 = snd (dispatch_tool ts (pd_tool p) inputs (gate_open (pd_tool p) s))" by simp
  then show ?thesis
    using approved_dispatch_ok [OF ok ts free gate_open_def, of inputs] approved(2) by simp
next
  case declined
  then show ?thesis using ok by (simp add: turn_ok_happened)
qed

section \<open>Waiting calls\<close>

lemma calls_wait:
  "run_calls rd ts suspend cs xs h s = Some (Some (c, q), xs', h', s') \<Longrightarrow>
     needs_user_decision ts (ss_policy s') (tk_name c)"
proof (induction cs arbitrary: xs h s)
  case (Cons a cs)
  from Cons.prems show ?case by (cases rule: run_callsE) (use Cons.IH in auto)
qed simp

lemma steps_wait:
  "agent_steps rd pv ts op defs k step out h s = Some (out', s') \<Longrightarrow>
   oc_stop out' = Awaiting_confirmation \<Longrightarrow>
   needs_user_decision ts (ss_policy s') (pd_tool (oc_pending out'))"
proof (induction k arbitrary: step out h s)
  case (Suc k)
  from Suc.prems(1) show ?case
    by (cases rule: agent_stepsE) (use Suc.prems(2) Suc.IH calls_wait in \<open>auto simp: pending_of_def\<close>)
qed auto

lemma waiting_not_overridden:
  "needs_user_decision ts po name \<Longrightarrow> lenient po \<Longrightarrow> map_of (po_overrides po) name = None"
  by (auto simp: needs_user_decision_def lenient_def Let_def split: option.splits)

lemma resume_agent_turnE:
  assumes "resume_agent_turn rd pv ts op h p approved s = Some (out, s')"
  obtains (waits) x h1 s1 c cs xs h2 where "settle_pending rd ts p approved h s = Some (x, h1, s1)"
      "run_calls rd ts (op_suspend op) (pd_queued p) [x] h1 s1 = Some (Some (c, cs), xs, h2, s')"
      "out = new_outcome\<lparr>oc_stop := Awaiting_confirmation,
         oc_pending := pending_of c (still_queued (tk_id c) (pd_queued p)), oc_history := h2,
         oc_steps := [\<lparr>sp_text = [], sp_calls = xs, sp_latency = 0\<rparr>],
         oc_steps_used := op_steps_already_used op\<rparr>"
  | (goes_on) x h1 s1 xs h2 s2 out1 where "settle_pending rd ts p approved h s = Some (x, h1, s1)"
      "run_calls rd ts (op_suspend op) (pd_queued p) [x] h1 s1 = Some (None, xs, h2, s2)"
      "run_loop rd pv ts (resumed_options op) h2 s2 = Some (out1, s')"
      "out = out1\<lparr>oc_steps := \<lparr>sp_text = [], sp_calls = xs, sp_latency = 0\<rparr> # oc_steps out1\<rparr>"
  using assms by (auto simp: resume_agent_turn_def split: option.splits prod.splits)

lemma resume_wait:
  assumes "resume_agent_turn rd pv ts op h p approved s = Some (out, s')"
    "oc_stop out = Awaiting_confirmation"
  shows "needs_user_decision ts (ss_policy s') (pd_tool (oc_pending out))"
  using assms(1)
proof (cases rule: resume_agent_turnE)
  case waits
  then show ?thesis using calls_wait by (simp add: pending_of_def) blast
next
  case goes_on
  then show ?thesis using assms(2) steps_wait unfolding run_loop_def by simp blast
qed

lemma resume_turn_ok:
  assumes ok: "turn_ok ts level once s" and ts: "tools_ok ts"
    and free: "map_of (po_overrides (ss_policy s)) (pd_tool p) = None"
    and run: "resume_agent_turn rd pv ts op h p approved s = Some (out, s')"
  shows "turn_ok ts level once s'"
  using run
proof (cases rule: resume_agent_turnE)
  case waits
  then show ?thesis using gate.calls_keep settle_pending_ok [OF ok ts free] ts by blast
next
  case (goes_on x h1 s1 xs h2 s2 out1)
  have "tools_ok ts \<longrightarrow> turn_ok ts level once s1" using settle_pending_ok [OF ok ts free goes_on(1)] ..
  from gate.loop_keeps [OF gate.calls_keep [OF this goes_on(2)] goes_on(3)] ts show ?thesis by blast
qed

section \<open>Requests\<close>

text \<open>What the model was asked, in order.\<close>

definition requests :: "'w session \<Rightarrow> chat_request list" where
  "requests s = concat (map (\<lambda>e. case e of Chatted r \<Rightarrow> [r] | _ \<Rightarrow> []) (ss_events s))"

lemma requests_happened [simp]:
  "requests (happened e s) = requests s @ (case e of Chatted r \<Rightarrow> [r] | _ \<Rightarrow> [])"
  by (simp add: requests_def)

lemma requests_context [simp]: "requests (s\<lparr>ss_context := ctx\<rparr>) = requests s"
  by (simp add: requests_def)

lemma requests_ask: "ask_model pv req s = (r, s') \<Longrightarrow> requests s' = requests s @ [req]"
  by (auto simp: ask_model_def split: prod.splits)

lemma requests_fold [simp]: "requests (foldl (\<lambda>s t. happened (Crossed t) s) s xs) = requests s"
  by (induction xs arbitrary: s) simp_all

lemma requests_charge [simp]: "requests (charge_budget r s) = requests s"
  by (simp add: charge_budget_def split: option.split prod.split)

lemma requests_frame [simp]:
  "requests (record_audit n i r b s) = requests s" "requests (mark_confirmed n s) = requests s"
  "requests (override_tool n c s) = requests s" "requests (drop_override n s) = requests s"
  "requests (snd (invoke_handler t i s)) = requests s"
  by (simp_all add: requests_def)

lemma requests_gate [simp]: "requests (snd (confirm_gate t inputs s)) = requests s"
  by (simp add: confirm_gate_def Let_def split: option.split prod.split)

lemma requests_dispatch [simp]: "requests (snd (dispatch_tool ts name inputs s)) = requests s"
  using requests_gate
  by (auto simp: dispatch_tool_def Let_def case_prod_beta split: option.split prod.split simp del: requests_gate)

interpretation asked: kept_by_calls ts "\<lambda>s. requests s = rs" for ts :: "'w tools" and rs
  by unfold_locales simp

lemma requests_settle:
  assumes "settle_pending rd ts p approved h s = Some (x, h', s')"
  shows "requests s' = requests s"
  using assms
proof (cases rule: settle_pendingE)
  case (approved s2)
  have "requests (gate_open (pd_tool p) s) = requests s" by (simp add: gate_open_def)
  from asked.execute_keeps [OF this approved(3)] show ?thesis using approved(2) by simp
qed simp

section \<open>Conversations the services accept\<close>

text \<open>
  Every result follows the reply that made the call, in the order of the calls, and nothing else
  comes before all of them: \<open>transcript ids ms\<close> are the ids of the calls without a result after
  \<open>ms\<close>, when \<open>ids\<close> had none before.
\<close>

fun transcript :: "string list \<Rightarrow> message list \<Rightarrow> string list option" where
  "transcript ids [] = Some ids"
| "transcript ids (m # ms) = (case ms_role m of
     Tool_role \<Rightarrow> (case ids of
         [] \<Rightarrow> None
       | i # ids \<Rightarrow> if ms_call_id m = i then transcript ids ms else None)
   | Assistant \<Rightarrow> if ids = [] then transcript (map tk_id (ms_calls m)) ms else None
   | _ \<Rightarrow> if ids = [] then transcript [] ms else None)"

definition complete :: "message list \<Rightarrow> bool" where
  "complete ms = (transcript [] ms = Some [])"

lemma transcript_append:
  "transcript ids (xs @ ys) = (case transcript ids xs of None \<Rightarrow> None | Some ids \<Rightarrow> transcript ids ys)"
  by (induction ids xs rule: transcript.induct) (auto split: role.split list.split)

lemma transcript_execute:
  assumes "execute_call rd ts c h s = Some (x, h', s')" "transcript [] h = Some (tk_id c # ids)"
  shows "transcript [] h' = Some ids"
  using assms(1) by (rule execute_callE) (simp add: transcript_append assms(2))

lemma transcript_calls:
  "run_calls rd ts suspend cs xs h s = Some (w, xs', h', s') \<Longrightarrow> transcript [] h = Some (map tk_id cs) \<Longrightarrow>
   transcript [] h' = Some (case w of None \<Rightarrow> [] | Some (c, q) \<Rightarrow> map tk_id (c # q))
   \<and> (\<forall>c q. w = Some (c, q) \<longrightarrow> (\<exists>pre. cs = pre @ c # q))"
proof (induction cs arbitrary: xs h s)
  case (Cons a cs)
  from Cons.prems(1) show ?case
  proof (cases rule: run_callsE)
    case waits
    then show ?thesis using Cons.prems(2) by auto
  next
    case (runs x h1 s1)
    have "transcript [] h1 = Some (map tk_id cs)"
      by (rule transcript_execute [OF runs(2)]) (simp add: Cons.prems(2))
    from Cons.IH [OF runs(3) this] show ?thesis by (metis append_Cons)
  qed
qed simp

lemma still_queued_distinct: "distinct (map tk_id (pre @ c # q)) \<Longrightarrow> still_queued (tk_id c) (pre @ c # q) = q"
  by (induction pre) auto

text \<open>The state a turn leaves: complete, or with exactly the calls that wait for an answer.\<close>

definition sound_outcome :: "outcome \<Rightarrow> bool" where
  "sound_outcome out = (case oc_stop out of
     Awaiting_confirmation \<Rightarrow> transcript [] (oc_history out)
       = Some (pd_id (oc_pending out) # map tk_id (pd_queued (oc_pending out)))
   | Provider_failed \<Rightarrow> oc_history out = []
   | Aborted \<Rightarrow> False
   | _ \<Rightarrow> complete (oc_history out))"

definition distinct_replies :: "'w chat_provider \<Rightarrow> bool" where
  "distinct_replies pv = (\<forall>req w r w'. pv req w = (Inr r, w') \<longrightarrow> distinct (map tk_id (rp_calls r)))"

definition distinct_pending :: "outcome \<Rightarrow> bool" where
  "distinct_pending out = (oc_stop out = Awaiting_confirmation \<longrightarrow>
     distinct (map tk_id (pd_queued (oc_pending out))))"

definition requests_complete :: "'w session \<Rightarrow> bool" where
  "requests_complete s = (\<forall>r \<in> set (requests s). complete (cr_messages r))"

lemma distinct_replies_ask:
  "distinct_replies pv \<Longrightarrow> ask_model pv req s = (Inr r, s') \<Longrightarrow> distinct (map tk_id (rp_calls r))"
  unfolding distinct_replies_def ask_model_def by (auto split: prod.splits)

lemma transcript_reply: "complete h \<Longrightarrow> transcript [] (h @ [assistant_message r]) = Some (map tk_id (rp_calls r))"
  by (simp add: complete_def transcript_append assistant_message_def)

lemma transcript_steps:
  assumes "agent_steps rd pv ts op defs k step out h s = Some (out', s')" "complete h"
    "oc_history out = []" "requests_complete s"
  shows "sound_outcome out' \<and> requests_complete s' \<and> (distinct_replies pv \<longrightarrow> distinct_pending out')"
  using assms
proof (induction k arbitrary: step out h s)
  case 0
  then show ?case by (auto simp: sound_outcome_def distinct_pending_def)
next
  case (Suc k)
  have asked: "requests_complete s1"
    if "ask_model pv (chat_request_of op defs h) s = (r, s1)" for r s1
    using Suc.prems(2,4) requests_ask [OF that] by (auto simp: requests_complete_def chat_request_of_def)
  from Suc.prems(1) show ?case
  proof (cases rule: agent_stepsE)
    case failed
    then show ?thesis using asked Suc.prems(3) by (simp add: sound_outcome_def distinct_pending_def)
  next
    case (final r s1)
    then show ?thesis
      using asked [OF final(1)] transcript_reply [OF Suc.prems(2), of r]
      by (simp add: sound_outcome_def distinct_pending_def complete_def requests_complete_def)
  next
    case (waiting r s1 c queued xs h')
    note t = transcript_calls [OF waiting(2) transcript_reply [OF Suc.prems(2)]]
    then obtain pre where pre: "rp_calls r = pre @ c # queued" by blast
    have "requests s' = requests (charge_budget r s1)" by (rule asked.calls_keep [OF refl waiting(2)])
    then have "requests_complete s'" using asked [OF waiting(1)] by (simp add: requests_complete_def)
    moreover have "distinct_replies pv \<longrightarrow> distinct (map tk_id queued)"
      using distinct_replies_ask [OF _ waiting(1)] pre by auto
    ultimately show ?thesis using t
      by (simp add: waiting(3) sound_outcome_def distinct_pending_def pending_of_def)
  next
    case (goes_on r s1 xs h' s2)
    note t = transcript_calls [OF goes_on(3) transcript_reply [OF Suc.prems(2)]]
    have "requests s2 = requests (charge_budget r s1)" by (rule asked.calls_keep [OF refl goes_on(3)])
    then have "requests_complete s2" using asked [OF goes_on(1)] by (simp add: requests_complete_def)
    then show ?thesis
      by (intro Suc.IH [OF goes_on(4)]) (use t Suc.prems(3) in \<open>simp_all add: complete_def stepped_def charged_def\<close>)
  qed
qed

lemma transcript_loop:
  assumes "run_loop rd pv ts op h s = Some (out, s')" "complete h" "requests_complete s"
  shows "sound_outcome out \<and> requests_complete s' \<and> (distinct_replies pv \<longrightarrow> distinct_pending out)"
  by (rule transcript_steps [OF assms(1) [unfolded run_loop_def] assms(2) _ assms(3)])
    (simp add: new_outcome_def)

lemma transcript_settle:
  assumes "settle_pending rd ts p approved h s = Some (x, h', s')" "transcript [] h = Some (pd_id p # ids)"
  shows "transcript [] h' = Some ids"
  using assms(1)
proof (cases rule: settle_pendingE)
  case approved
  then show ?thesis by (intro transcript_execute [OF approved(3)]) (simp add: pending_call_def assms(2))
next
  case declined
  then show ?thesis by (simp add: transcript_append assms(2))
qed

lemma transcript_resume:
  assumes run: "resume_agent_turn rd pv ts op h p approved s = Some (out, s')"
    and h: "transcript [] h = Some (pd_id p # map tk_id (pd_queued p))"
    and ids: "distinct (map tk_id (pd_queued p))" and reqs: "requests_complete s"
  shows "sound_outcome out \<and> requests_complete s' \<and> (distinct_replies pv \<longrightarrow> distinct_pending out)"
  using run
proof (cases rule: resume_agent_turnE)
  case (waits x h1 s1 c cs xs h2)
  have "requests_complete s1" using requests_settle [OF waits(1)] reqs by (simp add: requests_complete_def)
  moreover have "requests s' = requests s1" by (rule asked.calls_keep [OF refl waits(2)])
  ultimately have rs: "requests_complete s'" by (simp add: requests_complete_def)
  note t = transcript_calls [OF waits(2) transcript_settle [OF waits(1) h]]
  then obtain pre where pre: "pd_queued p = pre @ c # cs" by blast
  have "still_queued (tk_id c) (pd_queued p) = cs"
    using ids still_queued_distinct unfolding pre by blast
  then show ?thesis
    using t rs ids pre by (simp add: waits(3) sound_outcome_def distinct_pending_def pending_of_def)
next
  case (goes_on x h1 s1 xs h2 s2 out1)
  have "requests_complete s1" using requests_settle [OF goes_on(1)] reqs by (simp add: requests_complete_def)
  moreover have "requests s2 = requests s1" by (rule asked.calls_keep [OF refl goes_on(2)])
  ultimately have rs: "requests_complete s2" by (simp add: requests_complete_def)
  have "complete h2"
    using transcript_calls [OF goes_on(2) transcript_settle [OF goes_on(1) h]] by (simp add: complete_def)
  from transcript_loop [OF goes_on(3) this rs] show ?thesis
    unfolding goes_on(4) sound_outcome_def distinct_pending_def by (cases "oc_stop out1") simp_all
qed

section \<open>Steps and requests\<close>

lemma steps_count:
  "agent_steps rd pv ts op defs k step out h s = Some (out', s') \<Longrightarrow>
   \<exists>n. length (requests s') = length (requests s) + n \<and> n \<le> k \<and> (0 < k \<longrightarrow> 0 < n)
     \<and> length (oc_steps out') + (if oc_stop out' = Provider_failed then 1 else 0) = length (oc_steps out) + n
     \<and> (oc_stop out' = Max_steps_reached \<longrightarrow> n = k
          \<and> oc_steps_used out' = op_steps_already_used op + max_steps_of op)
     \<and> (oc_stop out' \<in> {Final_answer, Awaiting_confirmation} \<longrightarrow>
          oc_steps_used out' = op_steps_already_used op + step + of_nat n)"
proof (induction k arbitrary: step out h s)
  case 0
  then show ?case by (intro exI [of _ 0]) auto
next
  case (Suc k)
  from Suc.prems show ?case
  proof (cases rule: agent_stepsE)
    case failed
    then show ?thesis using requests_ask [OF failed(1)] by (intro exI [of _ 1]) simp
  next
    case final
    then show ?thesis using requests_ask [OF final(1)]
      by (intro exI [of _ 1]) (simp add: stepped_def charged_def)
  next
    case (waiting r s1 c queued xs h')
    have "requests s' = requests (charge_budget r s1)" by (rule asked.calls_keep [OF refl waiting(2)])
    then show ?thesis using requests_ask [OF waiting(1)]
      by (intro exI [of _ 1]) (simp add: waiting(3) stepped_def charged_def)
  next
    case (goes_on r s1 xs h' s2)
    have "requests s2 = requests (charge_budget r s1)" by (rule asked.calls_keep [OF refl goes_on(3)])
    then have s2: "length (requests s2) = Suc (length (requests s))"
      using requests_ask [OF goes_on(1)] by simp
    have steps: "length (oc_steps (stepped r xs out)) = Suc (length (oc_steps out))"
      by (simp add: stepped_def charged_def)
    from Suc.IH [OF goes_on(4)] obtain n where
      "length (requests s') = length (requests s2) + n" "n \<le> k"
      "length (oc_steps out') + (if oc_stop out' = Provider_failed then 1 else 0) = Suc (length (oc_steps out)) + n"
      "oc_stop out' = Max_steps_reached \<longrightarrow> n = k \<and> oc_steps_used out' = op_steps_already_used op + max_steps_of op"
      "oc_stop out' \<in> {Final_answer, Awaiting_confirmation} \<longrightarrow>
          oc_steps_used out' = op_steps_already_used op + (step + 1) + of_nat n"
      unfolding steps by blast
    then show ?thesis using s2
      by (intro exI [of _ "Suc n"]) (simp add: add.assoc split del: if_split)
  qed
qed

lemma max_steps_positive: "0 < unat (max_steps_of op)"
  by (simp add: max_steps_of_def unat_gt_0)

lemma loop_count:
  assumes "run_loop rd pv ts op h s = Some (out, s')"
  obtains n where "length (requests s') = length (requests s) + n" "0 < n" "n \<le> unat (max_steps_of op)"
    "length (oc_steps out) + (if oc_stop out = Provider_failed then 1 else 0) = n"
    "oc_stop out = Max_steps_reached \<Longrightarrow> n = unat (max_steps_of op)"
    "oc_stop out \<in> {Final_answer, Awaiting_confirmation, Max_steps_reached} \<Longrightarrow>
       oc_steps_used out = op_steps_already_used op + of_nat n"
proof -
  from steps_count [OF assms [unfolded run_loop_def]]
  obtain n where n: "length (requests s') = length (requests s) + n" "n \<le> unat (max_steps_of op)"
    "0 < unat (max_steps_of op) \<longrightarrow> 0 < n"
    "length (oc_steps out) + (if oc_stop out = Provider_failed then 1 else 0) = length (oc_steps new_outcome) + n"
    "oc_stop out = Max_steps_reached \<longrightarrow> n = unat (max_steps_of op)
       \<and> oc_steps_used out = op_steps_already_used op + max_steps_of op"
    "oc_stop out \<in> {Final_answer, Awaiting_confirmation} \<longrightarrow>
       oc_steps_used out = op_steps_already_used op + 0 + of_nat n"
    by (elim exE conjE) (rule that, assumption+)
  have "0 < n" by (rule n(3) [THEN mp, OF max_steps_positive])
  moreover have "length (oc_steps out) + (if oc_stop out = Provider_failed then 1 else 0) = n"
    unfolding n(4) by (simp add: new_outcome_def)
  moreover have "n = unat (max_steps_of op)" if "oc_stop out = Max_steps_reached" using n(5) that by blast
  moreover have "oc_steps_used out = op_steps_already_used op + of_nat n"
    if "oc_stop out \<in> {Final_answer, Awaiting_confirmation, Max_steps_reached}"
  proof (cases "oc_stop out = Max_steps_reached")
    case True
    then have "n = unat (max_steps_of op)" "oc_steps_used out = op_steps_already_used op + max_steps_of op"
      using n(5) by blast+
    then show ?thesis by simp
  next
    case False
    then have "oc_steps_used out = op_steps_already_used op + 0 + of_nat n" using n(6) that by blast
    then show ?thesis by simp
  qed
  ultimately show ?thesis by (rule that [OF n(1) _ n(2)])
qed

section \<open>A turn returns\<close>

text \<open>Readers with fuel whose results settle, as reading arguments does when no document contains itself.\<close>

definition settling :: "(nat \<Rightarrow> string \<Rightarrow> pvalue option) \<Rightarrow> bool" where
  "settling rd = (\<forall>x. settles (\<lambda>k. rd k x))"

definition finite_documents :: "('n, 'x) yaml_scheme \<Rightarrow> bool" where
  "finite_documents api = (\<forall>x root. y_load api x = Inr root \<longrightarrow> finite_node api root)"

lemma parse_arguments_settling:
  assumes "finite_documents api"
  shows "settling (\<lambda>k. parse_arguments k api)"
  unfolding settling_def
proof
  fix x
  have v: "settles (\<lambda>k. parse_value_yaml k api x)"
  proof (cases "y_load api x")
    case (Inl e)
    then show ?thesis by (cases e) (simp_all add: parse_value_yaml_def)
  next
    case (Inr root)
    then have "finite_node api root" using assms unfolding finite_documents_def by blast
    then show ?thesis using Inr by (simp add: parse_value_yaml_def yaml_node_to_value_settles)
  qed
  define g where "g = (\<lambda>k :: nat. case_sum (\<lambda>e :: string. Some (VMap [])) Some)"
  have "settles (\<lambda>k. g k r)" for r by (cases r) (simp_all add: g_def)
  from settles_bind [where g = g, OF v this] have
    "settles (\<lambda>k. case parse_value_yaml k api x of None \<Rightarrow> None | Some r \<Rightarrow> g k r)" .
  then show "settles (\<lambda>k. parse_arguments k api x)"
    by (cases "x = []")
      (auto simp: parse_arguments_def g_def elim!: settles_eqI split: option.split sum.split)
qed

lemma execute_settles:
  assumes "settling rd"
  shows "settles (\<lambda>k. execute_call (rd k) ts c h s)"
proof -
  have "settles (\<lambda>k. rd k (tk_arguments c))" using assms by (simp add: settling_def)
  then show ?thesis unfolding execute_call_def Let_def
    by (rule settles_bind) (simp add: case_prod_beta)
qed

lemma calls_settle:
  assumes "settling rd"
  shows "settles (\<lambda>k. run_calls (rd k) ts suspend cs xs h s)"
proof (induction cs arbitrary: xs h s)
  case (Cons c cs)
  define g where "g = (\<lambda>k (x, h, s). run_calls (rd k) ts suspend cs (xs @ [x]) h s)"
  have "settles (\<lambda>k. g k y)" for y by (cases y) (simp add: g_def Cons.IH)
  from settles_bind [where g = g, OF execute_settles [OF assms] this]
  have "settles (\<lambda>k. case execute_call (rd k) ts c h s of None \<Rightarrow> None | Some y \<Rightarrow> g k y)" .
  then show ?case
    by (cases "suspend \<and> needs_user_decision ts (ss_policy s) (tk_name c)")
      (simp, auto simp: g_def elim!: settles_eqI split: option.split)
qed simp

lemma steps_settle:
  assumes "settling rd"
  shows "settles (\<lambda>k. agent_steps (rd k) pv ts op defs left step out h s)"
proof (induction left arbitrary: step out h s)
  case (Suc left)
  obtain r s1 where a: "ask_model pv (chat_request_of op defs h) s = (r, s1)" by fastforce
  show ?case
  proof (cases r)
    case (Inl e)
    then show ?thesis by (simp add: a)
  next
    case (Inr rp)
    show ?thesis
    proof (cases "rp_calls rp = []")
      case True
      then show ?thesis by (simp add: a Inr)
    next
      case False
      define g where "g = (\<lambda>k y. case y of
          (Some (c, queued), xs, history, s) \<Rightarrow>
            Some ((stepped rp xs out)\<lparr>oc_stop := Awaiting_confirmation, oc_pending := pending_of c queued,
               oc_history := history, oc_steps_used := op_steps_already_used op + step + 1\<rparr>, s)
        | (None, xs, history, s) \<Rightarrow>
            agent_steps (rd k) pv ts op defs left (step + 1) (stepped rp xs out) history s)"
      have "settles (\<lambda>k. g k y)" for y
      proof -
        obtain w xs history s where y: "y = (w, xs, history, s)" by (cases y)
        show ?thesis by (cases w) (auto simp: y g_def Suc.IH)
      qed
      from settles_bind [where g = g, OF calls_settle [OF assms] this] show ?thesis
        by (rule settles_eqI)
          (auto simp: a Inr False g_def stepped_def charged_def Let_def split: option.split prod.split)
    qed
  qed
qed simp

lemma turn_settles:
  "settling rd \<Longrightarrow> settles (\<lambda>k. run_agent_turn (rd k) pv ts op ms s)"
  by (simp add: run_agent_turn_def run_loop_def steps_settle)

lemma resume_settles:
  assumes "settling rd"
  shows "settles (\<lambda>k. resume_agent_turn (rd k) pv ts op h p approved s)"
proof -
  define f where "f = (\<lambda>k y. case y of
      (Some (c, cs :: tool_call list), xs, history, s) \<Rightarrow>
        Some (new_outcome\<lparr>oc_stop := Awaiting_confirmation,
           oc_pending := pending_of c (still_queued (tk_id c) (pd_queued p)), oc_history := history,
           oc_steps := [\<lparr>sp_text = [], sp_calls = xs, sp_latency = 0\<rparr>],
           oc_steps_used := op_steps_already_used op\<rparr>, s)
    | (None, xs, history, s) \<Rightarrow>
        (case run_loop (rd k) pv ts (resumed_options op) history s of
           None \<Rightarrow> None
         | Some (rest, s) \<Rightarrow>
             Some (rest\<lparr>oc_steps := \<lparr>sp_text = [], sp_calls = xs, sp_latency = 0\<rparr> # oc_steps rest\<rparr>, s)))"
  have f: "settles (\<lambda>k. f k y)" for y
  proof -
    obtain w xs h1 s1 where y: "y = (w, xs, h1, s1)" by (cases y)
    have "settles (\<lambda>k. run_loop (rd k) pv ts (resumed_options op) h1 s1)"
      unfolding run_loop_def by (rule steps_settle [OF assms])
    from settles_bind [OF this, of "\<lambda>k (rest, s). Some (rest\<lparr>oc_steps :=
        \<lparr>sp_text = [], sp_calls = xs, sp_latency = 0\<rparr> # oc_steps rest\<rparr>, s)"]
    have "settles (\<lambda>k. f k (None, xs, h1, s1))" by (simp add: f_def split_paired_all)
    then show ?thesis by (cases w) (auto simp: y f_def)
  qed
  define g where "g = (\<lambda>k (x, h, s).
      case run_calls (rd k) ts (op_suspend op) (pd_queued p) [x] h s of None \<Rightarrow> None | Some y \<Rightarrow> f k y)"
  have g: "settles (\<lambda>k. g k y)" for y
    using settles_bind [where g = f, OF calls_settle [OF assms] f] by (cases y) (simp add: g_def)
  have "settles (\<lambda>k. settle_pending (rd k) ts p approved h s)"
  proof (cases approved)
    case True
    let ?s = "mark_confirmed (pd_tool p) (override_tool (pd_tool p) Auto (happened (Approved (pd_tool p)) s))"
    from settles_bind [OF execute_settles [OF assms, of ts _ h ?s],
        of "\<lambda>k (x, h, s). Some (x, h, drop_override (pd_tool p) s)"]
    show ?thesis by (simp add: True settle_pending_def Let_def case_prod_beta)
  qed (simp add: settle_pending_def Let_def)
  from settles_bind [where g = g, OF this g] show ?thesis
    by (rule settles_eqI) (auto simp: resume_agent_turn_def g_def f_def split: option.split)
qed

section \<open>Examples\<close>

definition no_documents :: "yaml_doc yaml" where
  "no_documents = yaml_of (\<lambda>x. Inr (Y_map []))"

lemma no_documents_finite: "finite_documents no_documents"
  by (simp add: finite_documents_def no_documents_def yaml_doc_finite)

text \<open>A session without a prompter, as the desktop's, and a model that makes the given calls
  whenever it is asked.\<close>

definition desk_session :: "(string \<times> confirmation) list \<Rightarrow> nat session" where
  "desk_session overrides = \<lparr>ss_context = \<lparr>tc_world = 0, tc_budget = None\<rparr>,
     ss_policy = \<lparr>po_overrides = overrides, po_confirmed_once = [], po_prompter = None\<rparr>,
     ss_audit = None, ss_meters = [], ss_events = []\<rparr>"

definition call_of :: "string \<Rightarrow> string \<Rightarrow> tool_call" where
  "call_of i name = \<lparr>tk_id = i, tk_name = name, tk_arguments = []\<rparr>"

definition calling_model :: "tool_call list \<Rightarrow> nat chat_provider" where
  "calling_model cs = (\<lambda>req w. (Inr (empty_response\<lparr>rp_calls := cs\<rparr>), w))"

definition plain_options :: "u32 \<Rightarrow> agent_options" where
  "plain_options n = \<lparr>op_model = ''m'', op_system_prompt = ''s'', op_max_steps = n, op_allowed_tools = [],
     op_temperature = None, op_suspend = True, op_steps_already_used = 0\<rparr>"

definition events_of :: "(outcome \<times> 'w session) option \<Rightarrow> event list" where
  "events_of r = (case r of None \<Rightarrow> []
     | Some (out, s) \<Rightarrow> filter (\<lambda>e. case e of Chatted _ \<Rightarrow> False | _ \<Rightarrow> True) (ss_events s))"

text \<open>The list of tools of a turn limits what the model is told of, not what it may call.\<close>

lemma allowed_tools_not_enforced:
  "build_tool_definitions [(''rm'', echo_tool Auto)] [''ls''] = []"
  "events_of (run_agent_turn (parse_arguments 1 no_documents) (calling_model [call_of ''1'' ''rm''])
     [(''rm'', echo_tool Auto)] (plain_options 1\<lparr>op_allowed_tools := [''ls'']\<rparr>) [] (desk_session []))
   = [Ran ''rm'']"
  by code_simp+

text \<open>Answering a call erases the override the user had put on its tool: the tool, free by default,
  then runs again without a question.\<close>

lemma approval_erases_override:
  "events_of (resume_agent_turn (parse_arguments 1 no_documents) (calling_model [call_of ''1'' ''rm''])
     [(''rm'', echo_tool Auto)] (plain_options 1) [] (pending_of (call_of ''1'' ''rm'') []) True
     (desk_session [(''rm'', Confirm_always)]))
   = [Approved ''rm'', Ran ''rm'', Ran ''rm'']"
  by code_simp

text \<open>With two calls of the same id in the queue, a call that has run is queued again.\<close>

lemma duplicate_ids_run_again:
  "let q = [call_of ''1'' ''ls'', call_of ''1'' ''rm'']
   in case resume_agent_turn (parse_arguments 1 no_documents) (calling_model [])
         [(''rm'', echo_tool Confirm_always), (''ls'', (echo_tool Auto)\<lparr>tl_name := ''ls''\<rparr>)] (plain_options 1) []
         (pending_of (call_of ''0'' ''ls'') (q @ q)) True (desk_session []) of
        Some (out, s) \<Rightarrow> oc_pending out = pending_of (call_of ''1'' ''rm'') (tl q @ q)
          \<and> sp_calls (hd (oc_steps out)) \<noteq> []
      | None \<Rightarrow> False"
  by code_simp

text \<open>A turn that is out of steps asks the model once more after every answer.\<close>

lemma exhausted_turn_goes_on:
  "case resume_agent_turn (parse_arguments 1 no_documents) (calling_model [])
      [] (plain_options 8\<lparr>op_steps_already_used := 8\<rparr>) [] (pending_of (call_of ''1'' ''rm'') []) False
      (desk_session []) of
     Some (out, s) \<Rightarrow> oc_steps_used out = 9 \<and> length (requests s) = 1
   | None \<Rightarrow> False"
  by code_simp

section \<open>The properties\<close>



text \<open>The loop and the dispatcher agree on when the user is needed.  A call waits for the user
  exactly when the dispatcher, given it in the same session, would refuse it for want of a prompter;
  the answer does not depend on the call's arguments.\<close>

theorem needs_user_decision_agrees:
  assumes "tools_ok ts"
  shows "needs_user_decision ts (ss_policy s) name \<longleftrightarrow>
    (\<exists>t r e. find_tool ts name = Some t \<and> fst (confirm_gate t inputs s) = Some r
       \<and> tr_error r = Some e \<and> te_code e = ''NOT_CONFIRMED'')"
  by (rule needs_user_decision_gate [OF assms])

theorem needs_user_decision_agrees_witness:
  "(\<exists>t r e. find_tool [(''rm'', echo_tool Confirm_once)] ''rm'' = Some t
      \<and> fst (confirm_gate t Null (desk_session [])) = Some r
      \<and> tr_error r = Some e \<and> te_code e = ''NOT_CONFIRMED'')
   \<and> \<not> (\<exists>t r e. find_tool [(''rm'', echo_tool Confirm_once)] ''rm'' = Some t
      \<and> fst (confirm_gate t Null (desk_session [(''rm'', Auto)])) = Some r
      \<and> tr_error r = Some e \<and> te_code e = ''NOT_CONFIRMED'')"
proof
  have "needs_user_decision [(''rm'', echo_tool Confirm_once)] (ss_policy (desk_session [])) ''rm''"
    "\<not> needs_user_decision [(''rm'', echo_tool Confirm_once)] (ss_policy (desk_session [(''rm'', Auto)])) ''rm''"
    by code_simp+
  then show "\<exists>t r e. find_tool [(''rm'', echo_tool Confirm_once)] ''rm'' = Some t
      \<and> fst (confirm_gate t Null (desk_session [])) = Some r
      \<and> tr_error r = Some e \<and> te_code e = ''NOT_CONFIRMED''"
    and "\<not> (\<exists>t r e. find_tool [(''rm'', echo_tool Confirm_once)] ''rm'' = Some t
      \<and> fst (confirm_gate t Null (desk_session [(''rm'', Auto)])) = Some r
      \<and> tr_error r = Some e \<and> te_code e = ''NOT_CONFIRMED'')"
    using needs_user_decision_agrees [OF echo_tools_ok [of Confirm_once], of _ "''rm''" Null] by blast+
qed

end
