(* ===== verification/Provider_Config.thy ===== *)
theory Provider_Config
  imports Toml Disk_Cache
begin

text \<open>
  The project's choice of a language model (src/ai/provider_config.cpp,
  include/souxmar/ai/provider_config.h) and the table of known services (src/ai/provider.cpp).
  The file is read through the TOML accessors; what the file system says of it is an argument.
  The lemmas say exactly which files are accepted and what their fields become.
\<close>

section \<open>Known services\<close>

record preset =
  ps_id :: string
  ps_display :: string
  ps_base_url :: string
  ps_key_env :: string

definition openai_compatible_presets :: "preset list" where
  "openai_compatible_presets =
     [\<lparr>ps_id = ''grok'', ps_display = ''xAI (Grok)'', ps_base_url = ''https://api.x.ai/v1'',
       ps_key_env = ''XAI_API_KEY''\<rparr>,
      \<lparr>ps_id = ''openai'', ps_display = ''OpenAI'', ps_base_url = ''https://api.openai.com/v1'',
       ps_key_env = ''OPENAI_API_KEY''\<rparr>,
      \<lparr>ps_id = ''deepseek'', ps_display = ''DeepSeek'', ps_base_url = ''https://api.deepseek.com/v1'',
       ps_key_env = ''DEEPSEEK_API_KEY''\<rparr>,
      \<lparr>ps_id = ''groq'', ps_display = ''Groq'', ps_base_url = ''https://api.groq.com/openai/v1'',
       ps_key_env = ''GROQ_API_KEY''\<rparr>,
      \<lparr>ps_id = ''mistral'', ps_display = ''Mistral'', ps_base_url = ''https://api.mistral.ai/v1'',
       ps_key_env = ''MISTRAL_API_KEY''\<rparr>,
      \<lparr>ps_id = ''openrouter'', ps_display = ''OpenRouter'', ps_base_url = ''https://openrouter.ai/api/v1'',
       ps_key_env = ''OPENROUTER_API_KEY''\<rparr>,
      \<lparr>ps_id = ''together'', ps_display = ''Together AI'', ps_base_url = ''https://api.together.xyz/v1'',
       ps_key_env = ''TOGETHER_API_KEY''\<rparr>,
      \<lparr>ps_id = ''openai-compatible'', ps_display = ''Other (OpenAI-compatible)'', ps_base_url = [],
       ps_key_env = ''SOUXMAR_AI_API_KEY''\<rparr>]"

definition find_preset :: "string \<Rightarrow> preset option" where
  "find_preset i = find (\<lambda>p. ps_id p = i) openai_compatible_presets"

section \<open>The configuration\<close>

datatype provider_kind =
    Default
  | Stub
  | Byok_anthropic
  | Byok_openai
  | Ollama
  | Managed
  | Openai_compatible

fun provider_kind_str :: "provider_kind \<Rightarrow> string" where
  "provider_kind_str Default = ''default''"
| "provider_kind_str Stub = ''stub''"
| "provider_kind_str Byok_anthropic = ''byok-anthropic''"
| "provider_kind_str Byok_openai = ''byok-openai''"
| "provider_kind_str Ollama = ''ollama''"
| "provider_kind_str Managed = ''managed''"
| "provider_kind_str Openai_compatible = ''openai-compatible''"

datatype provider_config_error_kind =
    Not_found
  | Schema_mismatch
  | Provider_unknown
  | Missing_field
  | Malformed_toml
  | Io_error
  | Secret_in_config

fun provider_config_error_str :: "provider_config_error_kind \<Rightarrow> string" where
  "provider_config_error_str Not_found = ''NotFound''"
| "provider_config_error_str Schema_mismatch = ''SchemaMismatch''"
| "provider_config_error_str Provider_unknown = ''ProviderUnknown''"
| "provider_config_error_str Missing_field = ''MissingField''"
| "provider_config_error_str Malformed_toml = ''MalformedToml''"
| "provider_config_error_str Io_error = ''IoError''"
| "provider_config_error_str Secret_in_config = ''SecretInConfig''"

record provider_config =
  pf_provider :: provider_kind
  pf_model :: string
  pf_endpoint :: string
  pf_provider_id :: string
  pf_base_url :: string
  pf_api_key_env :: string
  pf_source :: string

record provider_config_error =
  pe_kind :: provider_config_error_kind
  pe_text :: string
  pe_source :: string

definition parse_provider_kind :: "string \<Rightarrow> provider_kind" where
  "parse_provider_kind s =
     (if s = ''stub'' then Stub
      else if s = ''byok-anthropic'' \<or> s = ''anthropic'' \<or> s = ''claude'' then Byok_anthropic
      else if s = ''byok-openai'' then Openai_compatible
      else if s = ''ollama'' then Ollama
      else if s = ''managed'' then Managed
      else if find_preset s \<noteq> None then Openai_compatible
      else Default)"

definition known_provider_list :: string where
  "known_provider_list =
     foldl (\<lambda>out p. out @ '' / '' @ ps_id p) ''stub / anthropic / ollama / managed'' openai_compatible_presets"

text \<open>\<open>tbl[key].value<std::string>()\<close>, and the same in a table that may be missing.\<close>

definition text_at :: "('n, 'x) toml_scheme \<Rightarrow> 'n \<Rightarrow> string \<Rightarrow> string option" where
  "text_at api tbl k = (case toml_get api tbl k of None \<Rightarrow> None | Some n \<Rightarrow> toml_string api n)"

definition text_in :: "('n, 'x) toml_scheme \<Rightarrow> 'n \<Rightarrow> string \<Rightarrow> string \<Rightarrow> string \<Rightarrow> string" where
  "text_in api tbl sub k def =
     (case get_table api tbl sub of
        None \<Rightarrow> def
      | Some t \<Rightarrow> (case text_at api t k of None \<Rightarrow> def | Some s \<Rightarrow> s))"

definition schema_ok :: "('n, 'x) toml_scheme \<Rightarrow> 'n \<Rightarrow> bool" where
  "schema_ok api tbl = (case toml_get api tbl ''schema'' of
     None \<Rightarrow> False | Some n \<Rightarrow> toml_integer api n = Some 1)"

definition secret_keys :: "string list" where
  "secret_keys = [''api_key'', ''apikey'', ''key'', ''token'', ''secret'']"

definition has_secret :: "('n, 'x) toml_scheme \<Rightarrow> 'n \<Rightarrow> string \<Rightarrow> bool" where
  "has_secret api tbl k = (toml_get api tbl k \<noteq> None
     \<or> (case get_table api tbl ''openai_compatible'' of None \<Rightarrow> False | Some t \<Rightarrow> toml_get api t k \<noteq> None))"

definition model_of :: "('n, 'x) toml_scheme \<Rightarrow> 'n \<Rightarrow> string" where
  "model_of api tbl = (case text_at api tbl ''model'' of None \<Rightarrow> [] | Some m \<Rightarrow> m)"

text \<open>The fields of the result, by the kind of service.\<close>

definition fill_config ::
  "('n, 'x) toml_scheme \<Rightarrow> string \<Rightarrow> 'n \<Rightarrow> string \<Rightarrow> provider_config" where
  "fill_config api config_path tbl name =
     (let kind = parse_provider_kind name;
          out = \<lparr>pf_provider = kind, pf_model = model_of api tbl, pf_endpoint = [], pf_provider_id = [],
            pf_base_url = [], pf_api_key_env = [], pf_source = config_path\<rparr>
      in case kind of
           Byok_anthropic \<Rightarrow> out\<lparr>pf_provider_id := ''anthropic'',
             pf_base_url := text_in api tbl ''anthropic'' ''base_url'' ''https://api.anthropic.com/v1'',
             pf_api_key_env := text_in api tbl ''anthropic'' ''api_key_env'' ''ANTHROPIC_API_KEY''\<rparr>
         | Ollama \<Rightarrow> out\<lparr>pf_endpoint := text_in api tbl ''ollama'' ''endpoint'' []\<rparr>
         | Managed \<Rightarrow> out\<lparr>pf_endpoint := text_in api tbl ''managed'' ''endpoint'' []\<rparr>
         | Openai_compatible \<Rightarrow>
             (let i = (if name = ''byok-openai'' then ''openai'' else name);
                  (url, env) = (case find_preset i of Some p \<Rightarrow> (ps_base_url p, ps_key_env p) | None \<Rightarrow> ([], []))
              in out\<lparr>pf_provider_id := i,
                   pf_base_url := text_in api tbl ''openai_compatible'' ''base_url'' url,
                   pf_api_key_env := text_in api tbl ''openai_compatible'' ''api_key_env'' env\<rparr>)
         | _ \<Rightarrow> out)"

definition refuse_config :: "provider_config_error_kind \<Rightarrow> string \<Rightarrow> string \<Rightarrow> provider_config_error" where
  "refuse_config k m config_path = \<lparr>pe_kind = k, pe_text = m, pe_source = config_path\<rparr>"

definition read_provider_config ::
  "('n, 'x) toml_scheme \<Rightarrow> string \<Rightarrow> 'n \<Rightarrow> provider_config_error + provider_config" where
  "read_provider_config api config_path tbl =
     attempt (guard_that (schema_ok api tbl)
         (refuse_config Schema_mismatch (''schema discriminator must be 1 at '' @ quoted config_path) config_path)) (\<lambda>_.
     attempt (required (text_at api tbl ''provider'')
         (refuse_config Provider_unknown (quoted ''provider'' @ '' key missing at '' @ quoted config_path) config_path)) (\<lambda>name.
     let kind = parse_provider_kind name; out = fill_config api config_path tbl name in
     attempt (guard_that (kind \<noteq> Default)
         (refuse_config Provider_unknown (quoted ''provider'' @ '' = '' @ quoted name @ '' at '' @ quoted config_path
            @ '' is not one of '' @ known_provider_list) config_path)) (\<lambda>_.
     attempt (case find (has_secret api tbl) secret_keys of
           None \<Rightarrow> Inr ()
         | Some k \<Rightarrow> Inl (refuse_config Secret_in_config
             (quoted k @ '' must not appear in '' @ quoted config_path @ em_dash
              @ ''this file lives beside pipeline.yaml ''
              @ ''and is routinely committed. Put the key in an environment variable ''
              @ ''and name it with `[openai_compatible] api_key_env`.'') config_path)) (\<lambda>_.
     attempt (guard_that (\<not> ((kind = Byok_anthropic \<or> kind = Byok_openai) \<and> pf_model out = []))
         (refuse_config Missing_field (''provider '' @ quoted name @ '' requires a `model` value at ''
            @ quoted config_path) config_path)) (\<lambda>_.
     attempt (guard_that (\<not> (kind = Openai_compatible \<and> pf_model out = []))
         (refuse_config Missing_field (''provider '' @ quoted name @ '' requires a `model` value at ''
            @ quoted config_path @ em_dash @ ''set the model id your account can reach'') config_path)) (\<lambda>_.
     attempt (guard_that (\<not> (kind = Openai_compatible \<and> pf_base_url out = []))
         (refuse_config Missing_field (''provider '' @ quoted name
            @ '' needs `[openai_compatible] base_url` at '' @ quoted config_path @ em_dash
            @ ''it has no built-in endpoint'') config_path)) (\<lambda>_.
     Inr out)))))))"

text \<open>\<open>content\<close> is \<open>None\<close> when \<open>exists\<close> is false, and \<open>Some None\<close> when the file cannot be opened.\<close>

definition load_provider_config ::
  "('n, 'x) toml_scheme \<Rightarrow> string \<Rightarrow> string option option \<Rightarrow> provider_config_error + provider_config" where
  "load_provider_config api project_dir content =
     (let config_path = append_path project_dir ''project.ai.toml''
      in case content of
           None \<Rightarrow> Inl (refuse_config Not_found (''no project.ai.toml at '' @ quoted config_path) config_path)
         | Some c \<Rightarrow>
             (case (case c of None \<Rightarrow> Inl (toml_unreadable api) | Some source \<Rightarrow> toml_parse api source) of
                Inl e \<Rightarrow> Inl (refuse_config Malformed_toml
                  (''toml parse failed at '' @ quoted config_path @ '': '' @ e) config_path)
              | Inr tbl \<Rightarrow> read_provider_config api config_path tbl))"

section \<open>What is accepted\<close>

definition no_secret :: "('n, 'x) toml_scheme \<Rightarrow> 'n \<Rightarrow> bool" where
  "no_secret api tbl = (\<forall>k \<in> set secret_keys. toml_get api tbl k = None
     \<and> (\<forall>t. get_table api tbl ''openai_compatible'' = Some t \<longrightarrow> toml_get api t k = None))"

lemma no_secret_find: "find (has_secret api tbl) secret_keys = None \<longleftrightarrow> no_secret api tbl"
  by (auto simp: find_None_iff no_secret_def has_secret_def split: option.split)

lemma secret_check_Inr:
  "(case find f ks of None \<Rightarrow> Inr () | Some k \<Rightarrow> Inl (g k)) = Inr u \<longleftrightarrow> find f ks = None"
  by (simp split: option.split)

lemma kind_never_byok_openai: "parse_provider_kind s \<noteq> Byok_openai"
  by (simp add: parse_provider_kind_def)

lemma fill_config_kind [simp]:
  "pf_provider (fill_config api path tbl name) = parse_provider_kind name"
  "pf_model (fill_config api path tbl name) = model_of api tbl"
  "pf_source (fill_config api path tbl name) = path"
  by (simp_all add: fill_config_def Let_def split: provider_kind.split option.split)

text \<open>A service without a fixed model needs one, and one without a known address needs that.\<close>

definition complete_config :: "provider_config \<Rightarrow> bool" where
  "complete_config c =
     ((pf_provider c \<in> {Byok_anthropic, Openai_compatible} \<longrightarrow> pf_model c \<noteq> [])
      \<and> (pf_provider c = Openai_compatible \<longrightarrow> pf_base_url c \<noteq> []))"

lemma read_provider_config_Inr:
  "read_provider_config api path tbl = Inr c \<longleftrightarrow>
     (\<exists>name. schema_ok api tbl \<and> text_at api tbl ''provider'' = Some name
        \<and> parse_provider_kind name \<noteq> Default \<and> no_secret api tbl
        \<and> c = fill_config api path tbl name \<and> complete_config c)"
  unfolding read_provider_config_def Let_def attempt_Inr secret_check_Inr no_secret_find
  by (auto simp: complete_config_def kind_never_byok_openai)

section \<open>Examples\<close>

definition no_parse :: "toml_doc toml" where
  "no_parse = toml_of (\<lambda>x. Inl [])"

definition anthropic_doc :: "(string \<times> toml_doc) list \<Rightarrow> toml_doc" where
  "anthropic_doc fs = Toml_table [(''schema'', Toml_integer 1), (''provider'', Toml_string ''anthropic''),
     (''model'', Toml_string ''m''), (''anthropic'', Toml_table fs)]"

text \<open>A key in the \<open>anthropic\<close> table is not looked for, though the file is meant to be refused for it.\<close>

lemma secret_in_anthropic_table_accepted:
  "(case read_provider_config no_parse ''f'' (anthropic_doc [(''api_key'', Toml_string ''sk'')]) of
      Inr c \<Rightarrow> pf_provider c = Byok_anthropic | Inl e \<Rightarrow> False)"
  "(case read_provider_config no_parse ''f'' (Toml_table [(''schema'', Toml_integer 1), (''provider'', Toml_string ''grok''),
        (''model'', Toml_string ''m''), (''openai_compatible'', Toml_table [(''api_key'', Toml_string ''sk'')])]) of
      Inr c \<Rightarrow> False | Inl e \<Rightarrow> pe_kind e = Secret_in_config)"
  by code_simp+

text \<open>The old spelling of a service and its new one give the same configuration.\<close>

lemma byok_openai_is_openai:
  "fill_config api path tbl ''byok-openai'' = fill_config api path tbl ''openai''"
  by (simp add: fill_config_def parse_provider_kind_def find_preset_def openai_compatible_presets_def)

section \<open>The property\<close>


end
