(* ===== verification/Json.thy ===== *)
theory Json
  imports Yaml Content_Hash
begin

text \<open>
  The hand-written JSON of the request bodies (src/ai/provider.cpp): the escaping of strings, and
  \<open>std::to_string\<close> of a double.  As a reference there is a document type with its compact
  rendering and a reader, after RFC 8259; reading a rendered document gives the document back, so
  no string can end early or add a field.
\<close>

section \<open>The code\<close>

definition json_char :: "char \<Rightarrow> string" where
  "json_char c =
     (if c = CHR 0x22 then [CHR 0x5C, CHR 0x22]
      else if c = CHR 0x5C then [CHR 0x5C, CHR 0x5C]
      else if c = CHR 0x08 then [CHR 0x5C, CHR ''b'']
      else if c = CHR 0x0C then [CHR 0x5C, CHR ''f'']
      else if c = CHR 0x0A then [CHR 0x5C, CHR ''n'']
      else if c = CHR 0x0D then [CHR 0x5C, CHR ''r'']
      else if c = CHR 0x09 then [CHR 0x5C, CHR ''t'']
      else if (of_char c :: nat) < 0x20
      then [CHR 0x5C, CHR ''u'', CHR ''0'', CHR ''0'', hex_digit (of_char c div 16), hex_digit (of_char c mod 16)]
      else [c])"

definition json_string :: "string \<Rightarrow> string" where
  "json_string s = [CHR 0x22] @ concat (map json_char s) @ [CHR 0x22]"

text \<open>\<open>std::to_string(double)\<close> is \<open>%f\<close>: six decimals of the exact value, rounded half to even.\<close>

definition div_half_even :: "nat \<Rightarrow> nat \<Rightarrow> nat" where
  "div_half_even a b =
     (let q = a div b; r = a mod b
      in if b < 2 * r \<or> (2 * r = b \<and> odd q) then q + 1 else q)"

definition dbl_micros :: "double \<Rightarrow> nat" where
  "dbl_micros d =
     (let e = max 1 (dbl_exponent d); m = nat (dbl_mantissa d) * 10 ^ 6
      in if e \<ge> 1075 then m * 2 ^ (e - 1075) else div_half_even m (2 ^ (1075 - e)))"

definition pad_left :: "nat \<Rightarrow> string \<Rightarrow> string" where
  "pad_left n s = replicate (n - length s) CHR ''0'' @ s"

definition dbl_str :: "double \<Rightarrow> string" where
  "dbl_str d =
     (if dbl_negative d then ''-'' else []) @
     (if dbl_exponent d = 0x7FF then (if take_bit 52 d = 0 then ''inf'' else ''nan'')
      else nat_str (dbl_micros d div 10 ^ 6) @ ''.'' @ pad_left 6 (nat_str (dbl_micros d mod 10 ^ 6)))"

section \<open>Documents\<close>

datatype json =
    J_string string
  | J_literal string
  | J_array "json list"
  | J_object "(string \<times> json) list"

text \<open>Compact renderings, without white space.\<close>

fun render_json :: "json \<Rightarrow> string" where
  "render_json (J_string s) = json_string s"
| "render_json (J_literal s) = s"
| "render_json (J_array vs) = ''['' @ join '','' (map render_json vs) @ '']''"
| "render_json (J_object fs) =
     ''{'' @ join '','' (map (\<lambda>(k, v). json_string k @ '':'' @ render_json v) fs) @ ''}''"

section \<open>Reading strings\<close>

definition hex_value :: "char \<Rightarrow> nat" where
  "hex_value c = (if is_digit c then digit_value c else of_char c - 87)"

text \<open>The character after a backslash.\<close>

definition read_escape :: "string \<Rightarrow> (char \<times> string) option" where
  "read_escape s = (case s of
     [] \<Rightarrow> None
   | c # r \<Rightarrow>
       if c = CHR ''n'' then Some (CHR 0x0A, r)
       else if c = CHR ''r'' then Some (CHR 0x0D, r)
       else if c = CHR ''t'' then Some (CHR 0x09, r)
       else if c = CHR ''b'' then Some (CHR 0x08, r)
       else if c = CHR ''f'' then Some (CHR 0x0C, r)
       else if c = CHR 0x22 \<or> c = CHR 0x5C \<or> c = CHR ''/'' then Some (c, r)
       else if c = CHR ''u'' \<and> 4 \<le> length r \<and> take 2 r = ''00'' \<and> hex_value (r ! 2) < 8
       then Some (char_of (16 * hex_value (r ! 2) + hex_value (r ! 3)), drop 4 r)
       else None)"

lemma read_escape_shorter: "read_escape s = Some (c, r) \<Longrightarrow> length r < length s"
  by (auto simp: read_escape_def split: list.splits if_splits)

text \<open>The rest of a string literal, after its opening quote.\<close>

function read_chars :: "string \<Rightarrow> (string \<times> string) option" where
  "read_chars [] = None"
| "read_chars (c # cs) =
     (if c = CHR 0x22 then Some ([], cs)
      else if c = CHR 0x5C
      then (case read_escape cs of
          None \<Rightarrow> None
        | Some (x, r) \<Rightarrow> map_option (\<lambda>(s, r). (x # s, r)) (read_chars r))
      else map_option (\<lambda>(s, r). (c # s, r)) (read_chars cs))"
  by pat_completeness auto

termination
  by (relation "measure length") (auto dest: read_escape_shorter)

lemma hex_digit_value: "n < 16 \<Longrightarrow> hex_value (hex_digit n) = n"
proof -
  assume "n < 16"
  then have "n \<in> set [0..<16]" by simp
  moreover have "\<forall>n \<in> set [0..<16]. hex_value (hex_digit n) = n" by code_simp
  ultimately show ?thesis by blast
qed

lemma read_json_char:
  "read_chars (json_char c @ r) = map_option (\<lambda>(s, r). (c # s, r)) (read_chars r)"
proof (cases "(of_char c :: nat) < 0x20")
  case True
  have "hex_digit (of_char c div 16) = hex_digit (of_char c div 16)" ..
  moreover have "(of_char c :: nat) div 16 < 8" "(of_char c :: nat) mod 16 < 16" using True by auto
  moreover have "16 * (of_char c div 16) + of_char c mod 16 = (of_char c :: nat)" by simp
  ultimately have "read_escape ([CHR ''u'', CHR ''0'', CHR ''0'', hex_digit (of_char c div 16),
      hex_digit (of_char c mod 16)] @ r) = Some (c, r)"
    by (simp add: read_escape_def hex_digit_value numeral_2_eq_2 numeral_3_eq_3)
  then show ?thesis by (simp add: json_char_def read_escape_def)
next
  case False
  then show ?thesis by (auto simp: json_char_def read_escape_def)
qed

lemma read_json_chars: "read_chars (concat (map json_char s) @ [CHR 0x22] @ r) = Some (s, r)"
  by (induction s) (simp_all add: read_json_char)

lemma read_json_string: "read_chars (tl (json_string s @ r)) = Some (s, r)"
  by (simp add: json_string_def read_json_chars [simplified])

lemma json_string_quote: "json_string s @ r = CHR 0x22 # tl (json_string s @ r)"
  by (simp add: json_string_def)

section \<open>Reading documents\<close>

definition literal_char :: "char \<Rightarrow> bool" where
  "literal_char c = (is_digit c \<or> c \<in> set ''+-.Eaeflnrstu'')"

definition literal_ok :: "string \<Rightarrow> bool" where
  "literal_ok s = (s \<noteq> [] \<and> list_all literal_char s)"

fun read_json :: "nat \<Rightarrow> string \<Rightarrow> (json \<times> string) option"
  and read_elements :: "nat \<Rightarrow> string \<Rightarrow> (json list \<times> string) option"
  and read_members :: "nat \<Rightarrow> string \<Rightarrow> ((string \<times> json) list \<times> string) option" where
  "read_json 0 s = None"
| "read_json (Suc n) s = (case s of
     [] \<Rightarrow> None
   | c # r \<Rightarrow>
       if c = CHR 0x22 then map_option (\<lambda>(x, r). (J_string x, r)) (read_chars r)
       else if c = CHR ''['' then
         (if starts_with '']'' r then Some (J_array [], drop 1 r)
          else map_option (\<lambda>(vs, r). (J_array vs, r)) (read_elements n r))
       else if c = CHR ''{'' then
         (if starts_with ''}'' r then Some (J_object [], drop 1 r)
          else map_option (\<lambda>(fs, r). (J_object fs, r)) (read_members n r))
       else if literal_char c
       then Some (J_literal (takeWhile literal_char s), dropWhile literal_char s)
       else None)"
| "read_elements 0 s = None"
| "read_elements (Suc n) s = (case read_json n s of
     Some (v, c # r) \<Rightarrow>
       if c = CHR '','' then map_option (\<lambda>(vs, r). (v # vs, r)) (read_elements n r)
       else if c = CHR '']'' then Some ([v], r) else None
   | _ \<Rightarrow> None)"
| "read_members 0 s = None"
| "read_members (Suc n) s =
     (if starts_with [CHR 0x22] s then
        (case read_chars (drop 1 s) of
           None \<Rightarrow> None
         | Some (k, r) \<Rightarrow>
             if starts_with '':'' r then
               (case read_json n (drop 1 r) of
                  Some (v, c # r) \<Rightarrow>
                    if c = CHR '','' then map_option (\<lambda>(fs, r). ((k, v) # fs, r)) (read_members n r)
                    else if c = CHR ''}'' then Some ([(k, v)], r) else None
                | _ \<Rightarrow> None)
             else None)
      else None)"

fun json_ok :: "json \<Rightarrow> bool" where
  "json_ok (J_string s) = True"
| "json_ok (J_literal s) = literal_ok s"
| "json_ok (J_array vs) = (\<forall>v \<in> set vs. json_ok v)"
| "json_ok (J_object fs) = (\<forall>(k, v) \<in> set fs. json_ok v)"

text \<open>The fuel a document needs.\<close>

fun json_fuel :: "json \<Rightarrow> nat" where
  "json_fuel (J_string s) = 1"
| "json_fuel (J_literal s) = 1"
| "json_fuel (J_array vs) = Suc (sum_list (map (\<lambda>v. Suc (json_fuel v)) vs))"
| "json_fuel (J_object fs) = Suc (sum_list (map (\<lambda>(k, v). Suc (json_fuel v)) fs))"

definition ends_literal :: "string \<Rightarrow> bool" where
  "ends_literal r = (r = [] \<or> \<not> literal_char (hd r))"

definition reads_back :: "json \<Rightarrow> bool" where
  "reads_back v = (\<forall>n r. json_fuel v \<le> n \<longrightarrow> ends_literal r \<longrightarrow> read_json n (render_json v @ r) = Some (v, r))"

lemma reads_backD: "reads_back v \<Longrightarrow> json_fuel v \<le> n \<Longrightarrow> ends_literal r \<Longrightarrow>
    read_json n (render_json v @ r) = Some (v, r)"
  by (simp add: reads_back_def)

lemma ends_literal_simps [simp]: "ends_literal (c # r) \<longleftrightarrow> \<not> literal_char c" "ends_literal []"
  by (simp_all add: ends_literal_def)

lemma literal_char_simps [simp]:
  "\<not> literal_char CHR '',''" "\<not> literal_char CHR '']''" "\<not> literal_char CHR ''}''"
  "\<not> literal_char CHR ''[''" "\<not> literal_char CHR ''{''" "\<not> literal_char CHR 0x22"
  by (simp_all add: literal_char_def is_digit_def less_eq_char_def)

lemma starts_with_Cons [simp]: "starts_with [c] (d # r) \<longleftrightarrow> c = d" "\<not> starts_with [c] []"
  by (auto simp: starts_with_def)

lemma json_fuel_positive: "0 < json_fuel v"
  by (cases v) simp_all

lemma read_elements_render:
  "(\<And>v. v \<in> set vs \<Longrightarrow> reads_back v) \<Longrightarrow> vs \<noteq> [] \<Longrightarrow> sum_list (map (\<lambda>v. Suc (json_fuel v)) vs) \<le> n \<Longrightarrow>
   read_elements n (join '','' (map render_json vs) @ CHR '']'' # r) = Some (vs, r)"
proof (induction vs arbitrary: n)
  case (Cons v vs)
  then obtain m where n: "n = Suc m" "json_fuel v \<le> m" "sum_list (map (\<lambda>v. Suc (json_fuel v)) vs) \<le> m"
    by (cases n) auto
  have v: "read_json m (render_json v @ c # s) = Some (v, c # s)" if "\<not> literal_char c" for c s
    using Cons.prems(1) [of v] n(2) that by (intro reads_backD) auto
  show ?case
  proof (cases vs)
    case Nil
    then show ?thesis by (simp add: n(1) v)
  next
    case (Cons w ws)
    have "read_elements m (join '','' (map render_json vs) @ CHR '']'' # r) = Some (vs, r)"
      using Cons.IH Cons.prems(1) n(3) Cons by simp
    then show ?thesis by (simp add: n(1) v Cons)
  qed
qed simp

lemma read_members_render:
  "(\<And>k v. (k, v) \<in> set fs \<Longrightarrow> reads_back v) \<Longrightarrow> fs \<noteq> [] \<Longrightarrow>
   sum_list (map (\<lambda>(k, v). Suc (json_fuel v)) fs) \<le> n \<Longrightarrow>
   read_members n (join '','' (map (\<lambda>(k, v). json_string k @ '':'' @ render_json v) fs) @ CHR ''}'' # r) = Some (fs, r)"
proof (induction fs arbitrary: n)
  case (Cons f fs)
  obtain k v where f: "f = (k, v)" by (cases f)
  obtain m where n: "n = Suc m" "json_fuel v \<le> m" "sum_list (map (\<lambda>(k, v). Suc (json_fuel v)) fs) \<le> m"
    using Cons.prems(3) f by (cases n) auto
  have v: "read_json m (render_json v @ c # s) = Some (v, c # s)" if "\<not> literal_char c" for c s
    using Cons.prems(1) [of k v] n(2) that f by (intro reads_backD) auto
  obtain t where k: "json_string k = CHR 0x22 # t" "read_chars (t @ s) = Some (k, s)" for s
    using read_json_string [of k] by (simp add: json_string_def)
  show ?case
  proof (cases fs)
    case Nil
    then show ?thesis by (simp add: n(1) f k v)
  next
    case (Cons w ws)
    have "read_members m (join '','' (map (\<lambda>(k, v). json_string k @ '':'' @ render_json v) fs) @ CHR ''}'' # r)
        = Some (fs, r)"
      by (rule Cons.IH [OF _ _ n(3)]) (auto simp: Cons intro: Cons.prems(1))
    then show ?thesis by (simp add: n(1) f k v Cons)
  qed
qed simp

lemma join_Cons_append: "join sep (x # xs) @ r = x @ (if xs = [] then r else sep @ join sep xs @ r)"
  by (cases xs) simp_all

lemma render_not_bracket: "json_ok v \<Longrightarrow> \<not> starts_with '']'' (render_json v @ s)"
  by (cases v) (auto simp: json_string_def literal_ok_def neq_Nil_conv)

lemma json_reads_back: "json_ok v \<Longrightarrow> reads_back v"
proof (induction v)
  case (J_string s)
  show ?case unfolding reads_back_def
  proof (intro allI impI)
    fix n r assume "json_fuel (J_string s) \<le> n"
    then obtain m where "n = Suc m" by (cases n) auto
    then show "read_json n (render_json (J_string s) @ r) = Some (J_string s, r)"
      using read_json_string [of s r] by (simp add: json_string_def)
  qed
next
  case (J_literal s)
  show ?case unfolding reads_back_def
  proof (intro allI impI)
    fix n r assume n: "json_fuel (J_literal s) \<le> n" and r: "ends_literal r"
    obtain m where m: "n = Suc m" using n by (cases n) auto
    obtain c t where s: "s = c # t" "literal_char c" "list_all literal_char t"
      using J_literal by (cases s) (auto simp: literal_ok_def)
    have "takeWhile literal_char (s @ r) = s" "dropWhile literal_char (s @ r) = r"
      using s r by (auto simp: takeWhile_append dropWhile_append list_all_iff ends_literal_def
          takeWhile_eq_Nil_iff dropWhile_eq_self_iff)
    moreover have "c \<noteq> CHR 0x22" "c \<noteq> CHR ''[''" "c \<noteq> CHR ''{''" using s(2) literal_char_simps by metis+
    ultimately show "read_json n (render_json (J_literal s) @ r) = Some (J_literal s, r)"
      using s by (simp add: m)
  qed
next
  case (J_array vs)
  show ?case unfolding reads_back_def
  proof (intro allI impI)
    fix n r assume n: "json_fuel (J_array vs) \<le> n"
    then obtain m where m: "n = Suc m" "sum_list (map (\<lambda>v. Suc (json_fuel v)) vs) \<le> m" by (cases n) auto
    show "read_json n (render_json (J_array vs) @ r) = Some (J_array vs, r)"
    proof (cases vs)
      case Nil
      then show ?thesis by (simp add: m(1))
    next
      case (Cons w ws)
      have "\<not> starts_with '']'' (join '','' (map render_json vs) @ s)" for s
        using J_array.prems Cons by (simp add: join_Cons_append render_not_bracket)
      moreover have "read_elements m (join '','' (map render_json vs) @ CHR '']'' # r) = Some (vs, r)"
        using J_array m(2) Cons by (intro read_elements_render) auto
      ultimately show ?thesis by (simp add: m(1))
    qed
  qed
next
  case (J_object fs)
  show ?case unfolding reads_back_def
  proof (intro allI impI)
    fix n r assume n: "json_fuel (J_object fs) \<le> n"
    then obtain m where m: "n = Suc m" "sum_list (map (\<lambda>(k, v). Suc (json_fuel v)) fs) \<le> m" by (cases n) auto
    let ?fields = "map (\<lambda>(k, v). json_string k @ '':'' @ render_json v) fs"
    show "read_json n (render_json (J_object fs) @ r) = Some (J_object fs, r)"
    proof (cases fs)
      case Nil
      then show ?thesis by (simp add: m(1))
    next
      case (Cons w ws)
      have "\<not> starts_with ''}'' (join '','' ?fields @ s)" for s
        by (cases w) (simp add: Cons join_Cons_append json_string_def)
      moreover have "read_members m (join '','' ?fields @ CHR ''}'' # r) = Some (fs, r)"
      proof (rule read_members_render [OF _ _ m(2)])
        show "reads_back v" if "(k, v) \<in> set fs" for k v
          using J_object that by (auto simp: Basic_BNFs.snds.simps)
      qed (simp add: Cons)
      ultimately show ?thesis by (simp add: m(1))
    qed
  qed
qed

lemma read_rendered_json:
  "json_ok v \<Longrightarrow> json_fuel v \<le> n \<Longrightarrow> read_json n (render_json v) = Some (v, [])"
  using reads_backD [OF json_reads_back, of v n "[]"] by simp

end
