(* ===== verification/Request_Body.thy ===== *)
theory Request_Body
  imports Json Chat
begin

text \<open>
  The request bodies of the three services (\<open>render_request_body\<close> in src/ai/provider.cpp), written
  as the code builds them, and the documents they are meant to be.  The lemmas show that each body
  is the rendering of its document, hence that a reader finds exactly its fields, whatever texts
  the conversation holds; for the Messages API as long as the arguments it inlines are documents.
\<close>

section \<open>The code\<close>

definition render_tools :: "(tool_definition \<Rightarrow> string) \<Rightarrow> tool_definition list \<Rightarrow> string" where
  "render_tools f tools =
     (if tools = [] then [] else '',\"tools\":['' @ join '','' (map f tools) @ '']'')"

definition function_tool :: "tool_definition \<Rightarrow> string" where
  "function_tool t =
     ''{\"type\":\"function\",\"function\":{\"name\":'' @ json_string (td_name t)
     @ '',\"description\":'' @ json_string (td_description t)
     @ '',\"parameters\":{\"type\":\"object\",\"properties\":{}}'' @ ''}}''"

definition ollama_message :: "message \<Rightarrow> string" where
  "ollama_message m =
     ''{\"role\":'' @ json_string (role_str (ms_role m)) @ '',\"content\":'' @ json_string (ms_content m)
     @ (if ms_call_id m \<noteq> [] then '',\"tool_call_id\":'' @ json_string (ms_call_id m) else []) @ ''}''"

definition ollama_sampling :: "chat_request \<Rightarrow> string" where
  "ollama_sampling req =
     (if cr_temperature req = None \<and> cr_max_tokens req = None then []
      else '',\"options\":{''
        @ (case cr_temperature req of None \<Rightarrow> [] | Some t \<Rightarrow> ''\"temperature\":'' @ dbl_str t)
        @ (case cr_max_tokens req of None \<Rightarrow> []
           | Some k \<Rightarrow> (if cr_temperature req = None then [] else '','') @ ''\"num_predict\":'' @ nat_str (unat k))
        @ ''}'')"

definition ollama_body :: "chat_request \<Rightarrow> tool_definition list \<Rightarrow> string" where
  "ollama_body req tool_definitions =
     ''{'' @ ''\"model\":'' @ json_string (cr_model req) @ '',\"stream\":false''
     @ '',\"messages\":['' @ join '','' (map ollama_message (cr_messages req)) @ '']''
     @ render_tools function_tool (tool_definitions @ cr_tools req)
     @ ollama_sampling req @ ''}''"

definition openai_call :: "tool_call \<Rightarrow> string" where
  "openai_call c =
     ''{\"id\":'' @ json_string (tk_id c) @ '',\"type\":\"function\",\"function\":{\"name\":''
     @ json_string (tk_name c) @ '',\"arguments\":''
     @ json_string (if tk_arguments c = [] then ''{}'' else tk_arguments c) @ ''}}''"

definition openai_message :: "message \<Rightarrow> string" where
  "openai_message m =
     ''{\"role\":'' @ json_string (role_str (ms_role m)) @ '',\"content\":'' @ json_string (ms_content m)
     @ (if ms_role m = Tool_role \<and> ms_call_id m \<noteq> [] then '',\"tool_call_id\":'' @ json_string (ms_call_id m) else [])
     @ (if ms_role m = Assistant \<and> ms_calls m \<noteq> []
        then '',\"tool_calls\":['' @ join '','' (map openai_call (ms_calls m)) @ '']'' else []) @ ''}''"

definition temperature_field :: "chat_request \<Rightarrow> string" where
  "temperature_field req =
     (case cr_temperature req of None \<Rightarrow> [] | Some t \<Rightarrow> '',\"temperature\":'' @ dbl_str t)"

definition openai_body :: "chat_request \<Rightarrow> tool_definition list \<Rightarrow> string" where
  "openai_body req tool_definitions =
     ''{\"model\":'' @ json_string (cr_model req) @ '',\"stream\":false''
     @ '',\"messages\":['' @ join '','' (map openai_message (cr_messages req)) @ '']''
     @ render_tools function_tool (tool_definitions @ cr_tools req)
     @ temperature_field req
     @ (case cr_max_tokens req of None \<Rightarrow> [] | Some k \<Rightarrow> '',\"max_tokens\":'' @ nat_str (unat k)) @ ''}''"

definition text_block :: "string \<Rightarrow> string" where
  "text_block s = ''{\"type\":\"text\",\"text\":'' @ json_string s @ ''}''"

text \<open>The arguments of a call are copied as they are when they look like an object or an array.\<close>

definition inlined_arguments :: "string \<Rightarrow> string" where
  "inlined_arguments a =
     (case dropWhile (\<lambda>c. c \<in> {CHR '' '', CHR 0x09, CHR 0x0D, CHR 0x0A}) a of
        [] \<Rightarrow> ''{}''
      | c # _ \<Rightarrow> if c = CHR ''{'' \<or> c = CHR ''['' then a else ''{}'')"

definition tool_use_block :: "tool_call \<Rightarrow> string" where
  "tool_use_block c =
     ''{\"type\":\"tool_use\",\"id\":'' @ json_string (tk_id c) @ '',\"name\":'' @ json_string (tk_name c)
     @ '',\"input\":'' @ inlined_arguments (tk_arguments c) @ ''}''"

definition tool_result_block :: "message \<Rightarrow> string" where
  "tool_result_block m =
     ''{\"type\":\"tool_result\",\"tool_use_id\":'' @ json_string (ms_call_id m)
     @ '',\"content\":'' @ json_string (ms_content m) @ ''}''"

definition system_text :: "message list \<Rightarrow> string" where
  "system_text ms =
     foldl (\<lambda>s m. if ms_role m \<noteq> System \<or> ms_content m = [] then s
                   else (if s = [] then [] else s @ newline @ newline) @ ms_content m) [] ms"

definition content_blocks :: "message \<Rightarrow> string list" where
  "content_blocks m =
     (let blocks = (if ms_content m = [] then [] else [text_block (ms_content m)])
        @ (if ms_role m = Assistant then map tool_use_block (ms_calls m) else [])
      in if blocks = [] then [text_block '' ''] else blocks)"

text \<open>The messages in order: a run of tool results is one message of the user.\<close>

function anthropic_messages :: "message list \<Rightarrow> string list" where
  "anthropic_messages [] = []"
| "anthropic_messages (m # ms) =
     (if ms_role m = System then anthropic_messages ms
      else if ms_role m = Tool_role then
        (''{\"role\":\"user\",\"content\":[''
          @ join '','' (map tool_result_block (takeWhile (\<lambda>m. ms_role m = Tool_role) (m # ms))) @ '']}'')
        # anthropic_messages (dropWhile (\<lambda>m. ms_role m = Tool_role) ms)
      else if ms_role m = Assistant \<and> ms_content m = [] \<and> ms_calls m = [] then anthropic_messages ms
      else (''{\"role\":'' @ json_string (if ms_role m = Assistant then ''assistant'' else ''user'')
          @ '',\"content\":['' @ join '','' (content_blocks m) @ '']}'') # anthropic_messages ms)"
  by pat_completeness auto

termination
  by (relation "measure length") (auto simp: le_imp_less_Suc length_dropWhile_le)

definition anthropic_tool :: "tool_definition \<Rightarrow> string" where
  "anthropic_tool t =
     ''{\"name\":'' @ json_string (td_name t) @ '',\"description\":'' @ json_string (td_description t)
     @ '',\"input_schema\":{\"type\":\"object\",\"properties\":{}}'' @ ''}''"

definition anthropic_body :: "chat_request \<Rightarrow> tool_definition list \<Rightarrow> u32 \<Rightarrow> string" where
  "anthropic_body req tool_definitions default_max_tokens =
     ''{\"model\":'' @ json_string (cr_model req) @ '',\"max_tokens\":''
     @ nat_str (unat (case cr_max_tokens req of Some k \<Rightarrow> k | None \<Rightarrow> default_max_tokens))
     @ (if system_text (cr_messages req) = [] then []
        else '',\"system\":'' @ json_string (system_text (cr_messages req)))
     @ '',\"messages\":['' @ join '','' (anthropic_messages (cr_messages req)) @ '']''
     @ render_tools anthropic_tool (tool_definitions @ cr_tools req)
     @ temperature_field req @ ''}''"

section \<open>The documents\<close>

definition opt_field :: "string \<Rightarrow> 'a option \<Rightarrow> ('a \<Rightarrow> json) \<Rightarrow> (string \<times> json) list" where
  "opt_field k x f = (case x of None \<Rightarrow> [] | Some y \<Rightarrow> [(k, f y)])"

definition when_field :: "bool \<Rightarrow> string \<Rightarrow> json \<Rightarrow> (string \<times> json) list" where
  "when_field b k v = (if b then [(k, v)] else [])"

definition number_json :: "u32 \<Rightarrow> json" where
  "number_json k = J_literal (nat_str (unat k))"

definition double_json :: "double \<Rightarrow> json" where
  "double_json t = J_literal (dbl_str t)"

definition open_schema :: json where
  "open_schema = J_object [(''type'', J_string ''object''), (''properties'', J_object [])]"

definition function_tool_json :: "tool_definition \<Rightarrow> json" where
  "function_tool_json t = J_object [(''type'', J_string ''function''),
     (''function'', J_object [(''name'', J_string (td_name t)), (''description'', J_string (td_description t)),
        (''parameters'', open_schema)])]"

definition tools_json :: "(tool_definition \<Rightarrow> json) \<Rightarrow> tool_definition list \<Rightarrow> (string \<times> json) list" where
  "tools_json f tools = when_field (tools \<noteq> []) ''tools'' (J_array (map f tools))"

definition ollama_message_json :: "message \<Rightarrow> json" where
  "ollama_message_json m = J_object ([(''role'', J_string (role_str (ms_role m))), (''content'', J_string (ms_content m))]
     @ when_field (ms_call_id m \<noteq> []) ''tool_call_id'' (J_string (ms_call_id m)))"

definition ollama_json :: "chat_request \<Rightarrow> tool_definition list \<Rightarrow> json" where
  "ollama_json req tools =
     (let options = opt_field ''temperature'' (cr_temperature req) double_json
        @ opt_field ''num_predict'' (cr_max_tokens req) number_json
      in J_object ([(''model'', J_string (cr_model req)), (''stream'', J_literal ''false''),
           (''messages'', J_array (map ollama_message_json (cr_messages req)))]
         @ tools_json function_tool_json (tools @ cr_tools req)
         @ when_field (options \<noteq> []) ''options'' (J_object options)))"

definition openai_call_json :: "tool_call \<Rightarrow> json" where
  "openai_call_json c = J_object [(''id'', J_string (tk_id c)), (''type'', J_string ''function''),
     (''function'', J_object [(''name'', J_string (tk_name c)),
        (''arguments'', J_string (if tk_arguments c = [] then ''{}'' else tk_arguments c))])]"

definition openai_message_json :: "message \<Rightarrow> json" where
  "openai_message_json m = J_object ([(''role'', J_string (role_str (ms_role m))), (''content'', J_string (ms_content m))]
     @ when_field (ms_role m = Tool_role \<and> ms_call_id m \<noteq> []) ''tool_call_id'' (J_string (ms_call_id m))
     @ when_field (ms_role m = Assistant \<and> ms_calls m \<noteq> []) ''tool_calls'' (J_array (map openai_call_json (ms_calls m))))"

definition openai_json :: "chat_request \<Rightarrow> tool_definition list \<Rightarrow> json" where
  "openai_json req tools =
     J_object ([(''model'', J_string (cr_model req)), (''stream'', J_literal ''false''),
        (''messages'', J_array (map openai_message_json (cr_messages req)))]
      @ tools_json function_tool_json (tools @ cr_tools req)
      @ opt_field ''temperature'' (cr_temperature req) double_json
      @ opt_field ''max_tokens'' (cr_max_tokens req) number_json)"

section \<open>Rendering\<close>

definition more :: "(string \<times> json) list \<Rightarrow> string" where
  "more fs = concat (map (\<lambda>(k, v). '','' @ json_string k @ '':'' @ render_json v) fs)"

lemma more_simps [simp]:
  "more [] = []" "more ((k, v) # fs) = '','' @ json_string k @ '':'' @ render_json v @ more fs"
  "more (fs @ gs) = more fs @ more gs"
  by (simp_all add: more_def)

lemma more_fields [simp]:
  "more (opt_field k x f) = (case x of None \<Rightarrow> [] | Some y \<Rightarrow> '','' @ json_string k @ '':'' @ render_json (f y))"
  "more (when_field b k v) = (if b then '','' @ json_string k @ '':'' @ render_json v else [])"
  by (simp_all add: opt_field_def when_field_def split: option.split)

lemma join_more: "join '','' (x # xs) = x @ concat (map (\<lambda>y. '','' @ y) xs)"
  by (induction xs arbitrary: x) simp_all

lemma render_object:
  "render_json (J_object ((k, v) # fs)) = ''{'' @ json_string k @ '':'' @ render_json v @ more fs @ ''}''"
proof -
  have "map (\<lambda>y. '','' @ y) (map (\<lambda>(k, v). json_string k @ '':'' @ render_json v) fs)
      = map (\<lambda>(k, v). '','' @ json_string k @ '':'' @ render_json v) fs" by auto
  then show ?thesis by (simp only: render_json.simps list.map case_prod_conv join_more more_def) simp
qed

lemma render_empty_object: "render_json (J_object []) = ''{}''"
  by simp

declare render_json.simps(4) [simp del]
declare render_object [simp] render_empty_object [simp]

lemma json_keys [simp]:
  "json_string ''model'' = ''\"model\"''" "json_string ''stream'' = ''\"stream\"''"
  "json_string ''messages'' = ''\"messages\"''" "json_string ''tools'' = ''\"tools\"''"
  "json_string ''options'' = ''\"options\"''" "json_string ''temperature'' = ''\"temperature\"''"
  "json_string ''num_predict'' = ''\"num_predict\"''" "json_string ''max_tokens'' = ''\"max_tokens\"''"
  "json_string ''role'' = ''\"role\"''" "json_string ''content'' = ''\"content\"''"
  "json_string ''tool_call_id'' = ''\"tool_call_id\"''" "json_string ''tool_calls'' = ''\"tool_calls\"''"
  "json_string ''type'' = ''\"type\"''" "json_string ''function'' = ''\"function\"''"
  "json_string ''name'' = ''\"name\"''" "json_string ''description'' = ''\"description\"''"
  "json_string ''parameters'' = ''\"parameters\"''" "json_string ''object'' = ''\"object\"''"
  "json_string ''properties'' = ''\"properties\"''" "json_string ''id'' = ''\"id\"''"
  "json_string ''arguments'' = ''\"arguments\"''" "json_string ''text'' = ''\"text\"''"
  "json_string ''tool_use'' = ''\"tool_use\"''" "json_string ''input'' = ''\"input\"''"
  "json_string ''tool_result'' = ''\"tool_result\"''" "json_string ''tool_use_id'' = ''\"tool_use_id\"''"
  "json_string ''system'' = ''\"system\"''" "json_string ''user'' = ''\"user\"''"
  "json_string ''assistant'' = ''\"assistant\"''" "json_string ''input_schema'' = ''\"input_schema\"''"
  by code_simp+

lemma render_schema: "render_json open_schema = ''{\"type\":\"object\",\"properties\":{}}''"
  by (simp add: open_schema_def)

lemma render_function_tool: "render_json (function_tool_json t) = function_tool t"
  by (simp add: function_tool_json_def function_tool_def render_schema)

lemma render_tools_json:
  "(\<And>t. render_json (g t) = f t) \<Longrightarrow> more (tools_json g ts) = render_tools f ts"
  by (simp add: tools_json_def render_tools_def comp_def)

lemma render_ollama_message: "render_json (ollama_message_json m) = ollama_message m"
  by (simp add: ollama_message_json_def ollama_message_def)

lemma render_ollama: "render_json (ollama_json req tools) = ollama_body req tools"
  by (auto simp: ollama_json_def ollama_body_def ollama_sampling_def Let_def render_ollama_message
      render_tools_json [OF render_function_tool] number_json_def double_json_def opt_field_def comp_def
      split: option.split)

lemma render_openai_call: "render_json (openai_call_json c) = openai_call c"
  by (simp add: openai_call_json_def openai_call_def)

lemma render_openai_message: "render_json (openai_message_json m) = openai_message m"
  by (simp add: openai_message_json_def openai_message_def render_openai_call comp_def)

lemma render_openai: "render_json (openai_json req tools) = openai_body req tools"
  by (simp add: openai_json_def openai_body_def render_openai_message
      render_tools_json [OF render_function_tool] number_json_def double_json_def temperature_field_def comp_def
      split: option.split)

section \<open>The Messages API\<close>

definition text_json :: "string \<Rightarrow> json" where
  "text_json s = J_object [(''type'', J_string ''text''), (''text'', J_string s)]"

text \<open>\<open>arg\<close> is the document that the inlined arguments of a call are.\<close>

definition tool_use_json :: "(string \<Rightarrow> json) \<Rightarrow> tool_call \<Rightarrow> json" where
  "tool_use_json arg c = J_object [(''type'', J_string ''tool_use''), (''id'', J_string (tk_id c)),
     (''name'', J_string (tk_name c)), (''input'', arg (tk_arguments c))]"

definition tool_result_json :: "message \<Rightarrow> json" where
  "tool_result_json m = J_object [(''type'', J_string ''tool_result''), (''tool_use_id'', J_string (ms_call_id m)),
     (''content'', J_string (ms_content m))]"

definition role_json :: "string \<Rightarrow> json list \<Rightarrow> json" where
  "role_json r blocks = J_object [(''role'', J_string r), (''content'', J_array blocks)]"

definition blocks_json :: "(string \<Rightarrow> json) \<Rightarrow> message \<Rightarrow> json list" where
  "blocks_json arg m =
     (let blocks = (if ms_content m = [] then [] else [text_json (ms_content m)])
        @ (if ms_role m = Assistant then map (tool_use_json arg) (ms_calls m) else [])
      in if blocks = [] then [text_json '' ''] else blocks)"

function anthropic_messages_json :: "(string \<Rightarrow> json) \<Rightarrow> message list \<Rightarrow> json list" where
  "anthropic_messages_json arg [] = []"
| "anthropic_messages_json arg (m # ms) =
     (if ms_role m = System then anthropic_messages_json arg ms
      else if ms_role m = Tool_role then
        role_json ''user'' (map tool_result_json (takeWhile (\<lambda>m. ms_role m = Tool_role) (m # ms)))
        # anthropic_messages_json arg (dropWhile (\<lambda>m. ms_role m = Tool_role) ms)
      else if ms_role m = Assistant \<and> ms_content m = [] \<and> ms_calls m = [] then anthropic_messages_json arg ms
      else role_json (if ms_role m = Assistant then ''assistant'' else ''user'') (blocks_json arg m)
        # anthropic_messages_json arg ms)"
  by pat_completeness auto

termination
  by (relation "measure (\<lambda>(arg, ms). length ms)") (auto simp: le_imp_less_Suc length_dropWhile_le)

definition anthropic_tool_json :: "tool_definition \<Rightarrow> json" where
  "anthropic_tool_json t = J_object [(''name'', J_string (td_name t)),
     (''description'', J_string (td_description t)), (''input_schema'', open_schema)]"

definition anthropic_json :: "(string \<Rightarrow> json) \<Rightarrow> chat_request \<Rightarrow> tool_definition list \<Rightarrow> u32 \<Rightarrow> json" where
  "anthropic_json arg req tools default_max_tokens =
     J_object ([(''model'', J_string (cr_model req)),
        (''max_tokens'', number_json (case cr_max_tokens req of Some k \<Rightarrow> k | None \<Rightarrow> default_max_tokens))]
      @ when_field (system_text (cr_messages req) \<noteq> []) ''system'' (J_string (system_text (cr_messages req)))
      @ [(''messages'', J_array (anthropic_messages_json arg (cr_messages req)))]
      @ tools_json anthropic_tool_json (tools @ cr_tools req)
      @ opt_field ''temperature'' (cr_temperature req) double_json)"

definition arguments_are :: "(string \<Rightarrow> json) \<Rightarrow> message list \<Rightarrow> bool" where
  "arguments_are arg ms = (\<forall>m \<in> set ms. \<forall>c \<in> set (ms_calls m).
     json_ok (arg (tk_arguments c)) \<and> render_json (arg (tk_arguments c)) = inlined_arguments (tk_arguments c))"

lemma arguments_are_Cons: "arguments_are arg (m # ms) \<longleftrightarrow> arguments_are arg [m] \<and> arguments_are arg ms"
  by (simp add: arguments_are_def)

lemma arguments_are_dropWhile: "arguments_are arg ms \<Longrightarrow> arguments_are arg (dropWhile f ms)"
  by (auto simp: arguments_are_def dest: set_dropWhileD)

lemma render_blocks:
  assumes "arguments_are arg [m]"
  shows "map render_json (blocks_json arg m) = content_blocks m"
proof -
  have "map render_json (map (tool_use_json arg) (ms_calls m)) = map tool_use_block (ms_calls m)"
    using assms by (simp add: tool_use_json_def tool_use_block_def arguments_are_def)
  moreover have "render_json (text_json x) = text_block x" for x
    by (simp add: text_json_def text_block_def)
  ultimately show ?thesis by (simp add: blocks_json_def content_blocks_def Let_def)
qed

lemma render_role_json:
  "render_json (role_json r blocks)
    = ''{\"role\":'' @ json_string r @ '',\"content\":['' @ join '','' (map render_json blocks) @ '']}''"
  by (simp add: role_json_def)

lemma render_tool_results: "map render_json (map tool_result_json ms) = map tool_result_block ms"
  by (simp add: tool_result_json_def tool_result_block_def)

lemma render_anthropic_messages:
  "arguments_are arg ms \<Longrightarrow> map render_json (anthropic_messages_json arg ms) = anthropic_messages ms"
proof (induction ms rule: anthropic_messages.induct)
  case (2 m ms)
  have ok: "arguments_are arg [m]" "arguments_are arg ms"
    "arguments_are arg (dropWhile (\<lambda>m. ms_role m = Tool_role) ms)"
    using 2(5) arguments_are_dropWhile [of arg ms] arguments_are_Cons [of arg m ms] by blast+
  consider "ms_role m = System" | "ms_role m = Tool_role"
    | "ms_role m = Assistant \<and> ms_content m = [] \<and> ms_calls m = []"
    | "ms_role m \<noteq> System" "ms_role m \<noteq> Tool_role" "\<not> (ms_role m = Assistant \<and> ms_content m = [] \<and> ms_calls m = [])"
    by blast
  then show ?case
  proof cases
    case 1
    then show ?thesis using "2"(1) ok(2) by simp
  next
    case 2
    then show ?thesis using "2.IH"(2) ok(3)
      by (simp only: anthropic_messages.simps anthropic_messages_json.simps if_False if_True role.distinct
          list.map render_role_json render_tool_results simp_thms) simp
  next
    case 3
    then show ?thesis using "2.IH"(3) ok(2) by simp
  next
    case 4
    show ?thesis using 4 "2.IH"(4) ok(1,2)
      by (simp only: anthropic_messages.simps anthropic_messages_json.simps if_False if_True
          list.map render_role_json render_blocks simp_thms)
  qed
qed simp

lemma render_anthropic:
  assumes "arguments_are arg (cr_messages req)"
  shows "render_json (anthropic_json arg req tools d) = anthropic_body req tools d"
proof -
  have "render_json (anthropic_tool_json t) = anthropic_tool t" for t
    by (simp add: anthropic_tool_json_def anthropic_tool_def render_schema)
  from render_tools_json [OF this] show ?thesis
    using render_anthropic_messages [OF assms]
    by (simp add: anthropic_json_def anthropic_body_def number_json_def double_json_def temperature_field_def
        split: option.split)
qed

section \<open>Well-formed documents\<close>

definition finite_temperature :: "chat_request \<Rightarrow> bool" where
  "finite_temperature req = (case cr_temperature req of None \<Rightarrow> True | Some t \<Rightarrow> dbl_exponent t \<noteq> 0x7FF)"

lemma nat_str_literal: "literal_ok (nat_str n)"
proof -
  have "nat_str n \<noteq> []" by (subst nat_str.simps) simp
  then show ?thesis using nat_str_digits by (auto simp: literal_ok_def list_all_iff literal_char_def)
qed

lemma dbl_str_literal:
  assumes "dbl_exponent t \<noteq> 0x7FF"
  shows "literal_ok (dbl_str t)"
proof -
  have c: "literal_char CHR ''-''" "literal_char CHR ''.''" "literal_char CHR ''0''"
    by (simp_all add: literal_char_def is_digit_def less_eq_char_def)
  have n: "list_all literal_char (nat_str n)" "nat_str n \<noteq> []" for n
    using nat_str_literal by (simp_all add: literal_ok_def)
  have "list_all literal_char (replicate n CHR ''0'')" for n using c by (induction n) simp_all
  then show ?thesis using c n assms by (simp add: dbl_str_def pad_left_def literal_ok_def)
qed

lemma json_ok_number [simp]: "json_ok (number_json k)"
  by (simp add: number_json_def nat_str_literal)

lemma json_ok_fields [simp]:
  "(\<forall>(k, v) \<in> set (when_field b k v). json_ok v) \<longleftrightarrow> (b \<longrightarrow> json_ok v)"
  by (simp add: when_field_def)

lemma json_ok_tools [simp]:
  "(\<And>t. json_ok (f t)) \<Longrightarrow> \<forall>(k, v) \<in> set (tools_json f ts). json_ok v"
  by (simp add: tools_json_def when_field_def)

lemma json_ok_parts [simp]:
  "json_ok open_schema" "json_ok (function_tool_json t)" "json_ok (ollama_message_json m)"
  "json_ok (openai_call_json c)" "json_ok (text_json s)" "json_ok (tool_result_json m)"
  "json_ok (anthropic_tool_json t)" "json_ok (role_json r bs) \<longleftrightarrow> (\<forall>b \<in> set bs. json_ok b)"
  by (simp_all add: open_schema_def function_tool_json_def ollama_message_json_def openai_call_json_def
      text_json_def tool_result_json_def anthropic_tool_json_def role_json_def when_field_def)

lemma json_ok_openai_message [simp]: "json_ok (openai_message_json m)"
  by (auto simp: openai_message_json_def when_field_def)

lemma json_ok_false [simp]: "literal_ok ''false''"
  by (simp add: literal_ok_def literal_char_def)

lemma json_ok_sampling:
  assumes "finite_temperature req"
  shows "\<forall>(k, v) \<in> set (opt_field ''temperature'' (cr_temperature req) double_json). json_ok v"
    "\<forall>(k, v) \<in> set (opt_field j (cr_max_tokens req) number_json). json_ok v"
  using assms dbl_str_literal
  by (auto simp: opt_field_def finite_temperature_def double_json_def split: option.splits)

lemma json_ok_object_append:
  "json_ok (J_object (fs @ gs)) \<longleftrightarrow> json_ok (J_object fs) \<and> json_ok (J_object gs)"
  by auto

lemma ollama_json_ok:
  assumes "finite_temperature req"
  shows "json_ok (ollama_json req tools)"
proof -
  have "json_ok (J_object (opt_field ''temperature'' (cr_temperature req) double_json
      @ opt_field ''num_predict'' (cr_max_tokens req) number_json))"
    using json_ok_sampling [OF assms] unfolding json_ok_object_append by simp
  then show ?thesis
    using json_ok_tools [of function_tool_json "tools @ cr_tools req"]
    unfolding ollama_json_def Let_def json_ok_object_append when_field_def by (auto simp: ball_Un)
qed

lemma openai_json_ok: "finite_temperature req \<Longrightarrow> json_ok (openai_json req tools)"
  using json_ok_sampling json_ok_tools [of function_tool_json "tools @ cr_tools req"]
  unfolding openai_json_def json_ok_object_append by simp

lemma anthropic_messages_ok:
  "arguments_are arg ms \<Longrightarrow> (\<forall>v \<in> set (anthropic_messages_json arg ms). json_ok v)"
proof (induction ms rule: anthropic_messages.induct)
  case (2 m ms)
  have ok: "arguments_are arg [m]" "arguments_are arg ms"
    "arguments_are arg (dropWhile (\<lambda>m. ms_role m = Tool_role) ms)"
    using 2(5) arguments_are_dropWhile [of arg ms] arguments_are_Cons [of arg m ms] by blast+
  have "\<forall>b \<in> set (blocks_json arg m). json_ok b"
    using ok(1) by (auto simp: blocks_json_def Let_def tool_use_json_def arguments_are_def)
  then show ?case using "2.IH" ok by (cases "ms_role m") auto
qed simp

lemma anthropic_json_ok:
  "finite_temperature req \<Longrightarrow> arguments_are arg (cr_messages req) \<Longrightarrow> json_ok (anthropic_json arg req tools d)"
  using json_ok_sampling json_ok_tools [of anthropic_tool_json "tools @ cr_tools req"] anthropic_messages_ok
  unfolding anthropic_json_def json_ok_object_append when_field_def by simp

text \<open>No message has an empty list of blocks, which the service would reject.\<close>

lemma anthropic_blocks_nonempty:
  "v \<in> set (anthropic_messages_json arg ms) \<Longrightarrow> \<exists>r bs. v = role_json r bs \<and> bs \<noteq> []"
proof (induction ms rule: anthropic_messages.induct)
  case (2 m ms)
  have "blocks_json arg m \<noteq> []" by (simp add: blocks_json_def Let_def)
  then show ?case using 2 by (auto split: if_splits)
qed simp

text \<open>Arguments that begin like an object are copied whatever follows: they can add a field.\<close>

lemma inlined_arguments_add_field:
  "read_json 20 (tool_use_block \<lparr>tk_id = ''1'', tk_name = ''ls'', tk_arguments = ''{},\"name\":\"rm\"''\<rparr>)
   = Some (J_object [(''type'', J_string ''tool_use''), (''id'', J_string ''1''), (''name'', J_string ''ls''),
       (''input'', J_object []), (''name'', J_string ''rm'')], [])"
  by code_simp

lemma openai_body_reads:
  "finite_temperature req \<Longrightarrow> \<exists>n. read_json n (openai_body req tools) = Some (openai_json req tools, [])"
  using read_rendered_json [OF openai_json_ok order.refl] by (auto simp: render_openai)

lemma anthropic_body_reads:
  "finite_temperature req \<Longrightarrow> arguments_are arg (cr_messages req) \<Longrightarrow>
     \<exists>n. read_json n (anthropic_body req tools d) = Some (anthropic_json arg req tools d, [])"
  using read_rendered_json [OF anthropic_json_ok order.refl] by (fastforce simp: render_anthropic [symmetric])

section \<open>The properties\<close>

definition sample_request :: chat_request where
  "sample_request = \<lparr>cr_model = ''m'',
     cr_messages = [\<lparr>ms_role = Assistant, ms_content = [CHR 0x22, CHR 0x0A], ms_call_id = [],
       ms_calls = [\<lparr>tk_id = ''1'', tk_name = ''ls'', tk_arguments = ''{}''\<rparr>]\<rparr>],
     cr_tools = [], cr_tool_names = [], cr_temperature = Some 0x3FE0000000000000, cr_max_tokens = None\<rparr>"



text \<open>The body for the Messages API.  When the arguments that are copied into it are documents,
  a reader finds exactly the document of the request, and every message has at least one block.\<close>

theorem anthropic_body_read_back:
  assumes "finite_temperature req" "arguments_are arg (cr_messages req)"
  shows "(\<exists>n. read_json n (anthropic_body req tools d) = Some (anthropic_json arg req tools d, []))
    \<and> (\<forall>v. v \<in> set (anthropic_messages_json arg (cr_messages req)) \<longrightarrow> (\<exists>r bs. v = role_json r bs \<and> bs \<noteq> []))"
  using anthropic_body_reads [OF assms] anthropic_blocks_nonempty by blast

theorem anthropic_body_read_back_witness:
  "\<exists>n. read_json n (anthropic_body sample_request [] 4096)
     = Some (anthropic_json (\<lambda>a. J_object []) sample_request [] 4096, [])"
proof -
  have "finite_temperature sample_request" by code_simp
  moreover have "arguments_are (\<lambda>a. J_object []) (cr_messages sample_request)"
    by (simp add: arguments_are_def sample_request_def inlined_arguments_def)
  ultimately show ?thesis using anthropic_body_read_back [of sample_request "\<lambda>a. J_object []" "[]" 4096] by blast
qed

end
