(* ===== verification/Response.thy ===== *)
theory Response
  imports Yaml Toml Chat
begin

text \<open>
  The replies of the three services (\<open>parse_response_body\<close> in src/ai/provider.cpp), read through the
  YAML accessors: typed errors, texts, tool calls, counts.  The exceptions of yaml-cpp are the left
  side of a sum; two of the readers catch them all, the third lets them out.
\<close>

section \<open>Accessors that throw\<close>

text \<open>
  \<open>y_u64\<close> is \<open>as<std::uint64_t>\<close>, \<open>y_flow\<close> the emitter with maps in flow style, and sequences too when
  the flag is set; \<open>y_no_conversion\<close> and \<open>y_no_subscript\<close> are \<open>what()\<close> of the exceptions thrown by
  \<open>as<T>\<close> and by a string subscript of a scalar.
\<close>

record 'n wire = "'n yaml" +
  y_u64 :: "'n \<Rightarrow> u64 option"
  y_flow :: "bool \<Rightarrow> 'n \<Rightarrow> string"
  y_no_conversion :: "'n \<Rightarrow> string"
  y_no_subscript :: "'n \<Rightarrow> string \<Rightarrow> string"

definition child :: "('n, 'x) wire_scheme \<Rightarrow> 'n \<Rightarrow> string \<Rightarrow> string + 'n option" where
  "child api n k = (case y_type api n of
     Scalar_node \<Rightarrow> Inl (y_no_subscript api n k)
   | Map_node \<Rightarrow> Inr (y_get api n k)
   | _ \<Rightarrow> Inr None)"

definition as_text :: "('n, 'x) wire_scheme \<Rightarrow> 'n \<Rightarrow> string + string" where
  "as_text api n = required (y_text api n) (y_no_conversion api n)"

text \<open>\<open>n[k] && n[k].IsScalar()\<close>, and then its text.\<close>

definition scalar_child :: "('n, 'x) wire_scheme \<Rightarrow> 'n \<Rightarrow> string \<Rightarrow> string + string option" where
  "scalar_child api n k = attempt (child api n k) (\<lambda>x. case x of
     None \<Rightarrow> Inr None
   | Some c \<Rightarrow> if is_scalar api c then attempt (as_text api c) (\<lambda>s. Inr (Some s)) else Inr None)"

definition u64_child :: "('n, 'x) wire_scheme \<Rightarrow> 'n \<Rightarrow> string \<Rightarrow> string + u64 option" where
  "u64_child api n k = attempt (child api n k) (\<lambda>x. case x of
     None \<Rightarrow> Inr None
   | Some c \<Rightarrow> if is_scalar api c
       then attempt (required (y_u64 api c) (y_no_conversion api c)) (\<lambda>v. Inr (Some v)) else Inr None)"

definition or_else :: "'a option \<Rightarrow> 'a \<Rightarrow> 'a" where
  "or_else x d = (case x of None \<Rightarrow> d | Some y \<Rightarrow> y)"

fun load_text :: "'n load_error \<Rightarrow> string" where
  "load_text (Parser_exception m _) = m"
| "load_text (Other_exception m) = m"

definition is_map :: "('n, 'x) wire_scheme \<Rightarrow> 'n \<Rightarrow> bool" where
  "is_map api n = (y_type api n = Map_node)"

definition is_sequence :: "('n, 'x) wire_scheme \<Rightarrow> 'n \<Rightarrow> bool" where
  "is_sequence api n = (y_type api n = Sequence_node)"

text \<open>The root of a reply, or the error that it is none.\<close>

definition load_reply ::
  "('n, 'x) wire_scheme \<Rightarrow> string \<Rightarrow> string \<Rightarrow> string \<Rightarrow> provider_error + 'n" where
  "load_reply api yaml_prefix prefix body =
     (case y_load api body of
        Inl e \<Rightarrow> Inl (provider_failure Malformed_response (yaml_prefix @ load_text e))
      | Inr root \<Rightarrow>
          if is_map api root then Inr root
          else Inl (provider_failure Malformed_response (prefix @ ''top-level is not an object'')))"

section \<open>Ollama\<close>

definition ollama_call :: "('n, 'x) wire_scheme \<Rightarrow> nat \<times> 'n \<Rightarrow> string + tool_call" where
  "ollama_call api p =
     (case p of (i, n) \<Rightarrow>
        attempt (child api n ''id'') (\<lambda>x.
        attempt (case x of Some c \<Rightarrow> as_text api c | None \<Rightarrow> Inr (''call_'' @ nat_str i)) (\<lambda>call_id.
        attempt (child api n ''function'') (\<lambda>x. case x of
            None \<Rightarrow> Inr \<lparr>tk_id = call_id, tk_name = [], tk_arguments = []\<rparr>
          | Some fn \<Rightarrow>
              attempt (child api fn ''name'') (\<lambda>x.
              attempt (case x of Some c \<Rightarrow> as_text api c | None \<Rightarrow> Inr []) (\<lambda>name.
              attempt (child api fn ''arguments'') (\<lambda>x.
              attempt (case x of
                  None \<Rightarrow> Inr []
                | Some a \<Rightarrow> if is_scalar api a then as_text api a else Inr (y_flow api False a)) (\<lambda>arguments.
              Inr \<lparr>tk_id = call_id, tk_name = name, tk_arguments = arguments\<rparr>))))))))"

definition ollama_message_of :: "('n, 'x) wire_scheme \<Rightarrow> 'n \<Rightarrow> string + string \<times> tool_call list" where
  "ollama_message_of api m =
     attempt (scalar_child api m ''content'') (\<lambda>content.
     attempt (child api m ''tool_calls'') (\<lambda>x. case x of
         None \<Rightarrow> Inr (or_else content [], [])
       | Some calls \<Rightarrow>
           if is_sequence api calls
           then attempt (attempt_map (ollama_call api) (enumerate 0 (y_items api calls))) (\<lambda>cs.
             Inr (or_else content [], cs))
           else Inr (or_else content [], [])))"

text \<open>A count that is not one is ignored.\<close>

definition count_or_zero :: "('n, 'x) wire_scheme \<Rightarrow> 'n \<Rightarrow> string \<Rightarrow> u64" where
  "count_or_zero api root k = (case u64_child api root k of Inl _ \<Rightarrow> 0 | Inr x \<Rightarrow> or_else x 0)"

text \<open>\<open>Inl\<close> is an exception that leaves the function.\<close>

definition ollama_response :: "('n, 'x) wire_scheme \<Rightarrow> string \<Rightarrow> string + chat_result" where
  "ollama_response api body =
     (case load_reply api ''yaml-cpp: '' ''ollama: '' body of
        Inl e \<Rightarrow> Inr (Inl e)
      | Inr root \<Rightarrow>
          attempt (scalar_child api root ''error'') (\<lambda>error. case error of
            Some msg \<Rightarrow> Inr (Inl (provider_failure
              (if contains ''not found'' msg then Model_not_found else Provider_http_error) (''ollama: '' @ msg)))
          | None \<Rightarrow>
              attempt (child api root ''message'') (\<lambda>x.
              attempt (case x of None \<Rightarrow> Inr ([], []) | Some m \<Rightarrow> ollama_message_of api m) (\<lambda>(content, calls).
              attempt (child api root ''done'') (\<lambda>x.
              attempt (case x of
                  None \<Rightarrow> Inr False
                | Some d \<Rightarrow>
                    if is_scalar api d
                    then attempt (required (y_bool api d) (y_no_conversion api d)) (\<lambda>b. Inr (\<not> b))
                    else Inr False) (\<lambda>truncated.
              Inr (Inr \<lparr>rp_text = content, rp_calls = calls,
                rp_input = count_or_zero api root ''prompt_eval_count'',
                rp_output = count_or_zero api root ''eval_count'',
                rp_latency = int (unat (count_or_zero api root ''total_duration'') div 1000000),
                rp_truncated = truncated\<rparr>)))))))"

section \<open>OpenAI-compatible services\<close>

text \<open>The message and the type of an error object.\<close>

definition error_texts :: "('n, 'x) wire_scheme \<Rightarrow> 'n \<Rightarrow> string \<times> string" where
  "error_texts api err =
     (if is_scalar api err then
        (case as_text api err of Inl _ \<Rightarrow> (''unparseable error object'', []) | Inr m \<Rightarrow> (m, []))
      else if is_map api err then
        (case scalar_child api err ''message'' of
           Inl _ \<Rightarrow> (''unparseable error object'', [])
         | Inr m \<Rightarrow> (case scalar_child api err ''type'' of
             Inl _ \<Rightarrow> (''unparseable error object'', [])
           | Inr t \<Rightarrow> (or_else m [], or_else t [])))
      else ([], []))"

definition openai_error_kind :: "string \<Rightarrow> provider_error_kind" where
  "openai_error_kind haystack =
     (if contains ''rate limit'' haystack \<or> contains ''rate_limit'' haystack then Rate_limited
      else if contains ''context length'' haystack \<or> contains ''context_length'' haystack
        \<or> contains ''maximum context'' haystack then Context_length_exceeded
      else if contains ''does not exist'' haystack \<or> contains ''model_not_found'' haystack
        \<or> contains ''Incorrect model'' haystack then Model_not_found
      else Provider_http_error)"

definition unspecified :: "string \<Rightarrow> string" where
  "unspecified msg = (if msg = [] then ''unspecified error'' else msg)"

definition openai_call_of :: "('n, 'x) wire_scheme \<Rightarrow> nat \<times> 'n \<Rightarrow> string + tool_call list" where
  "openai_call_of api p =
     (case p of (i, n) \<Rightarrow>
        attempt (scalar_child api n ''id'') (\<lambda>x.
        let call_id = or_else x (''call_'' @ nat_str i) in
        attempt (child api n ''function'') (\<lambda>x.
        attempt (case x of
            None \<Rightarrow> Inr ([], [])
          | Some fn \<Rightarrow>
              if is_map api fn
              then attempt (scalar_child api fn ''name'') (\<lambda>name.
                attempt (child api fn ''arguments'') (\<lambda>x.
                attempt (case x of
                    None \<Rightarrow> Inr []
                  | Some a \<Rightarrow> if is_scalar api a then as_text api a else Inr (y_flow api False a)) (\<lambda>arguments.
                Inr (or_else name [], arguments))))
              else Inr ([], [])) (\<lambda>(name, arguments).
        Inr (if name = [] then []
             else [\<lparr>tk_id = call_id, tk_name = name, tk_arguments = arguments\<rparr>])))))"

definition openai_message_of :: "('n, 'x) wire_scheme \<Rightarrow> 'n \<Rightarrow> string + string \<times> tool_call list" where
  "openai_message_of api m =
     attempt (scalar_child api m ''content'') (\<lambda>content.
     attempt (child api m ''tool_calls'') (\<lambda>x. case x of
         None \<Rightarrow> Inr (or_else content [], [])
       | Some calls \<Rightarrow>
           if is_sequence api calls
           then attempt (attempt_map (openai_call_of api) (enumerate 0 (y_items api calls))) (\<lambda>cs.
             Inr (or_else content [], concat cs))
           else Inr (or_else content [], [])))"

definition openai_choice :: "('n, 'x) wire_scheme \<Rightarrow> 'n \<Rightarrow> string + chat_response" where
  "openai_choice api first =
     attempt (child api first ''message'') (\<lambda>x.
     attempt (case x of
         None \<Rightarrow> Inr ([], [])
       | Some m \<Rightarrow> if is_map api m then openai_message_of api m else Inr ([], [])) (\<lambda>(content, calls).
     attempt (scalar_child api first ''finish_reason'') (\<lambda>reason.
     Inr (empty_response\<lparr>rp_text := content, rp_calls := calls,
       rp_truncated := (reason = Some ''length'')\<rparr>))))"

text \<open>The counts up to the first that throws.\<close>

definition add_usage ::
  "('n, 'x) wire_scheme \<Rightarrow> 'n \<Rightarrow> string \<Rightarrow> string \<Rightarrow> chat_response \<Rightarrow> chat_response" where
  "add_usage api root input_key output_key r =
     (case child api root ''usage'' of
        Inr (Some usage) \<Rightarrow>
          if is_map api usage then
            (case u64_child api usage input_key of
               Inl _ \<Rightarrow> r
             | Inr i \<Rightarrow>
                 let r = r\<lparr>rp_input := or_else i 0\<rparr>
                 in (case u64_child api usage output_key of
                       Inl _ \<Rightarrow> r
                     | Inr k \<Rightarrow> r\<lparr>rp_output := or_else k 0\<rparr>))
          else r
      | _ \<Rightarrow> r)"

text \<open>A present, non-empty \<open>choices\<close> array.\<close>

definition first_choice :: "('n, 'x) wire_scheme \<Rightarrow> 'n \<Rightarrow> 'n option" where
  "first_choice api root = (case child api root ''choices'' of
     Inr (Some cs) \<Rightarrow> if is_sequence api cs \<and> y_items api cs \<noteq> [] then Some (hd (y_items api cs)) else None
   | _ \<Rightarrow> None)"

definition openai_response :: "('n, 'x) wire_scheme \<Rightarrow> string \<Rightarrow> chat_result" where
  "openai_response api body =
     (case load_reply api ''openai-compatible: yaml-cpp: '' ''openai-compatible: '' body of
        Inl e \<Rightarrow> Inl e
      | Inr root \<Rightarrow> (case child api root ''error'' of
          Inr (Some err) \<Rightarrow>
            (let (msg, type) = error_texts api err
             in Inl (provider_failure (openai_error_kind (msg @ '' '' @ type)) (''openai-compatible: '' @ unspecified msg)))
        | _ \<Rightarrow> (case first_choice api root of
            None \<Rightarrow> Inl (provider_failure Protocol_mismatch ''openai-compatible: response has no `choices` array'')
          | Some first \<Rightarrow> (case openai_choice api first of
              Inl what \<Rightarrow> Inl (provider_failure Malformed_response (''openai-compatible: malformed choice: '' @ what))
            | Inr r \<Rightarrow> Inr (add_usage api root ''prompt_tokens'' ''completion_tokens'' r)))))"

section \<open>The Messages API\<close>

definition anthropic_error_kind :: "string \<Rightarrow> string \<Rightarrow> provider_error_kind" where
  "anthropic_error_kind type msg =
     (if type = ''rate_limit_error'' \<or> type = ''overloaded_error'' then Rate_limited
      else if type = ''not_found_error'' then Model_not_found
      else if type = ''invalid_request_error'' then
        (if contains ''context'' msg \<or> contains ''max_tokens'' msg then Context_length_exceeded else Bad_request)
      else Provider_http_error)"

definition anthropic_block ::
  "('n, 'x) wire_scheme \<Rightarrow> nat \<times> 'n \<Rightarrow> chat_response \<Rightarrow> string + chat_response" where
  "anthropic_block api p r =
     (case p of (i, block) \<Rightarrow>
        if \<not> is_map api block then Inr r
        else attempt (scalar_child api block ''type'') (\<lambda>type.
          if type = Some ''text'' then
            attempt (scalar_child api block ''text'') (\<lambda>x. case x of
                None \<Rightarrow> Inr r
              | Some s \<Rightarrow> Inr (r\<lparr>rp_text := rp_text r @ (if rp_text r = [] then [] else newline) @ s\<rparr>))
          else if type = Some ''tool_use'' then
            attempt (scalar_child api block ''id'') (\<lambda>x.
            attempt (scalar_child api block ''name'') (\<lambda>name.
            attempt (child api block ''input'') (\<lambda>input.
            let c = \<lparr>tk_id = or_else x (''toolu_'' @ nat_str i), tk_name = or_else name [],
              tk_arguments = (case input of None \<Rightarrow> [] | Some n \<Rightarrow> y_flow api True n)\<rparr>
            in Inr (if tk_name c = [] then r else r\<lparr>rp_calls := rp_calls r @ [c]\<rparr>))))
          else Inr r))"

fun anthropic_blocks ::
  "('n, 'x) wire_scheme \<Rightarrow> (nat \<times> 'n) list \<Rightarrow> chat_response \<Rightarrow> string + chat_response" where
  "anthropic_blocks api [] r = Inr r"
| "anthropic_blocks api (b # bs) r = attempt (anthropic_block api b r) (\<lambda>r. anthropic_blocks api bs r)"

definition anthropic_response :: "('n, 'x) wire_scheme \<Rightarrow> string \<Rightarrow> chat_result" where
  "anthropic_response api body =
     (case load_reply api ''anthropic: yaml-cpp: '' ''anthropic: '' body of
        Inl e \<Rightarrow> Inl e
      | Inr root \<Rightarrow> (case child api root ''error'' of
          Inr (Some err) \<Rightarrow>
            (let (msg, type) = error_texts api err
             in Inl (provider_failure (anthropic_error_kind type msg) (''anthropic: '' @ unspecified msg)))
        | _ \<Rightarrow> (case child api root ''content'' of
            Inr (Some content) \<Rightarrow>
              if is_sequence api content then
                (case attempt (anthropic_blocks api (enumerate 0 (y_items api content)) empty_response) (\<lambda>r.
                     attempt (scalar_child api root ''stop_reason'') (\<lambda>reason.
                     Inr (r\<lparr>rp_truncated := (reason = Some ''max_tokens'')\<rparr>))) of
                   Inl what \<Rightarrow> Inl (provider_failure Malformed_response (''anthropic: malformed content block: '' @ what))
                 | Inr r \<Rightarrow> Inr (add_usage api root ''input_tokens'' ''output_tokens'' r))
              else Inl (provider_failure Protocol_mismatch ''anthropic: response has no `content` array'')
          | _ \<Rightarrow> Inl (provider_failure Protocol_mismatch ''anthropic: response has no `content` array''))))"

section \<open>Calls have names\<close>

definition named :: "tool_call list \<Rightarrow> bool" where
  "named cs = (\<forall>c \<in> set cs. tk_name c \<noteq> [])"

lemma named_simps [simp]: "named []" "named (c # cs) \<longleftrightarrow> tk_name c \<noteq> [] \<and> named cs"
  "named (cs @ ds) \<longleftrightarrow> named cs \<and> named ds"
  by (auto simp: named_def)

lemma openai_call_named: "openai_call_of api p = Inr cs \<Longrightarrow> named cs"
  by (cases p) (auto simp: openai_call_of_def attempt_Inr Let_def split: if_splits)

lemma openai_calls_named: "attempt_map (openai_call_of api) ps = Inr css \<Longrightarrow> named (concat css)"
proof (induction ps arbitrary: css)
  case (Cons p ps)
  then show ?case by (auto simp: attempt_Inr dest: openai_call_named)
qed simp

lemma openai_message_named: "openai_message_of api m = Inr (t, cs) \<Longrightarrow> named cs"
  by (auto simp: openai_message_of_def attempt_Inr dest: openai_calls_named split: option.splits if_splits)

lemma openai_choice_named: "openai_choice api n = Inr r \<Longrightarrow> named (rp_calls r)"
proof -
  assume "openai_choice api n = Inr r"
  then obtain x p where x: "(case x of None \<Rightarrow> Inr ([], []) | Some m \<Rightarrow>
      if is_map api m then openai_message_of api m else Inr ([], [])) = Inr p" and r: "rp_calls r = snd p"
    unfolding openai_choice_def by (auto simp: attempt_Inr case_prod_beta)
  have "named (snd p)"
    using x by (cases x; cases p) (auto split: if_splits dest: openai_message_named)
  then show ?thesis by (simp add: r)
qed

lemma add_usage_calls [simp]: "rp_calls (add_usage api root i k r) = rp_calls r" "rp_text (add_usage api root i k r) = rp_text r"
  by (simp_all add: add_usage_def Let_def split: sum.split option.split)

lemma openai_response_named: "openai_response api body = Inr r \<Longrightarrow> named (rp_calls r)"
  by (auto simp: openai_response_def dest: openai_choice_named split: sum.splits option.splits prod.splits)

lemma anthropic_block_named: "anthropic_block api p r = Inr r' \<Longrightarrow> named (rp_calls r) \<Longrightarrow> named (rp_calls r')"
  by (cases p) (auto simp: anthropic_block_def attempt_Inr Let_def split: if_splits option.splits)

lemma anthropic_blocks_named: "anthropic_blocks api bs r = Inr r' \<Longrightarrow> named (rp_calls r) \<Longrightarrow> named (rp_calls r')"
  by (induction api bs r rule: anthropic_blocks.induct) (auto simp: attempt_Inr dest: anthropic_block_named)

lemma anthropic_response_named: "anthropic_response api body = Inr r \<Longrightarrow> named (rp_calls r)"
  by (auto simp: anthropic_response_def attempt_Inr empty_response_def dest!: anthropic_blocks_named
      split: sum.splits option.splits if_splits prod.splits)

section \<open>A node type\<close>

definition wire_of :: "(string \<Rightarrow> yaml_doc load_error + yaml_doc) \<Rightarrow> yaml_doc wire" where
  "wire_of load = yaml.extend (yaml_of load)
     \<lparr>y_u64 = (\<lambda>n. if n = Y_text ''1'' then Some 1 else None), y_flow = (\<lambda>b n. ''{}''),
      y_no_conversion = (\<lambda>n. ''bad conversion''), y_no_subscript = (\<lambda>n k. ''operator[] call on a scalar'')\<rparr>"

lemma wire_of_simps [simp]:
  "y_type (wire_of load) n = (case n of Y_text _ \<Rightarrow> Scalar_node | Y_seq _ \<Rightarrow> Sequence_node | Y_map _ \<Rightarrow> Map_node)"
  "y_text (wire_of load) n = (case n of Y_text s \<Rightarrow> Some s | _ \<Rightarrow> None)"
  "y_get (wire_of load) n k = (case n of Y_map es \<Rightarrow> map_of es k | _ \<Rightarrow> None)"
  "y_items (wire_of load) n = (case n of Y_seq ns \<Rightarrow> ns | _ \<Rightarrow> [])"
  "y_load (wire_of load) = load"
  "y_bool (wire_of load) n = (if n = Y_text ''true'' then Some True else if n = Y_text ''false'' then Some False else None)"
  by (simp_all add: wire_of_def yaml_of_def yaml.extend_def)

section \<open>Replies as the services send them\<close>

definition openai_call_doc :: "tool_call \<Rightarrow> yaml_doc" where
  "openai_call_doc c = Y_map [(''id'', Y_text (tk_id c)), (''type'', Y_text ''function''),
     (''function'', Y_map [(''name'', Y_text (tk_name c)), (''arguments'', Y_text (tk_arguments c))])]"

definition message_doc :: "string \<Rightarrow> tool_call list \<Rightarrow> yaml_doc" where
  "message_doc content calls = Y_map [(''role'', Y_text ''assistant''), (''content'', Y_text content),
     (''tool_calls'', Y_seq (map openai_call_doc calls))]"

definition openai_doc :: "string \<Rightarrow> tool_call list \<Rightarrow> string \<Rightarrow> yaml_doc" where
  "openai_doc content calls reason = Y_map [(''choices'', Y_seq [Y_map [
     (''message'', message_doc content calls),
     (''finish_reason'', Y_text reason)]])]"

definition ollama_doc :: "string \<Rightarrow> tool_call list \<Rightarrow> yaml_doc" where
  "ollama_doc content calls = Y_map [(''message'', message_doc content calls), (''done'', Y_text ''true'')]"

lemma openai_call_read:
  "tk_name c \<noteq> [] \<Longrightarrow> openai_call_of (wire_of load) (i, openai_call_doc c) = Inr [c]"
  by (simp add: openai_call_of_def openai_call_doc_def scalar_child_def child_def as_text_def is_scalar_def
      is_map_def or_else_def)

lemma ollama_call_read: "ollama_call (wire_of load) (i, openai_call_doc c) = Inr c"
  by (simp add: ollama_call_def openai_call_doc_def child_def as_text_def is_scalar_def)

lemma openai_calls_read:
  "named calls \<Longrightarrow> attempt_map (openai_call_of (wire_of load)) (enumerate k (map openai_call_doc calls))
     = Inr (map (\<lambda>c. [c]) calls)"
  by (induction calls arbitrary: k) (simp_all add: openai_call_read)

lemma ollama_calls_read:
  "attempt_map (ollama_call (wire_of load)) (enumerate k (map openai_call_doc calls)) = Inr calls"
  by (induction calls arbitrary: k) (simp_all add: ollama_call_read)

text \<open>A missing id gets a name that another call of the reply may have: the pairing of results and
  calls by id, which the agent and the services rely on, is then lost.\<close>

lemma fallback_id_collides:
  "(case openai_response (wire_of (\<lambda>x. Inr (Y_map [(''choices'', Y_seq [Y_map [(''message'', Y_map
        [(''tool_calls'', Y_seq [openai_call_doc \<lparr>tk_id = ''call_1'', tk_name = ''rm'', tk_arguments = []\<rparr>,
           Y_map [(''function'', Y_map [(''name'', Y_text ''ls'')])]])])]])]))) [] of
      Inr r \<Rightarrow> map tk_id (rp_calls r) = [''call_1'', ''call_1''] | Inl e \<Rightarrow> False)"
  by code_simp

text \<open>Of the three readers only this one lets an exception out, on a reply that is an object: a call
  that is no object, or a status that is no boolean.\<close>

lemma ollama_response_throws:
  "ollama_response (wire_of (\<lambda>x. Inr (Y_map [(''message'', Y_map [(''tool_calls'', Y_seq [Y_text ''ls''])])]))) []
     = Inl ''operator[] call on a scalar''"
  "ollama_response (wire_of (\<lambda>x. Inr (Y_map [(''done'', Y_text ''maybe'')]))) [] = Inl ''bad conversion''"
  by (simp_all add: ollama_response_def load_reply_def child_def is_map_def scalar_child_def is_scalar_def
      ollama_message_of_def is_sequence_def ollama_call_def wire_of_def yaml_of_def yaml.extend_def)

section \<open>The property\<close>

lemma openai_message_read:
  "named calls \<Longrightarrow> openai_message_of (wire_of load) (message_doc content calls) = Inr (content, calls)"
  by (simp add: openai_message_of_def message_doc_def child_def scalar_child_def is_scalar_def as_text_def
      is_sequence_def or_else_def openai_calls_read)

lemma ollama_message_read:
  "ollama_message_of (wire_of load) (message_doc content calls) = Inr (content, calls)"
  by (simp add: ollama_message_of_def message_doc_def child_def scalar_child_def is_scalar_def as_text_def
      is_sequence_def or_else_def ollama_calls_read)

lemma openai_choice_read:
  "named calls \<Longrightarrow> openai_choice (wire_of load)
       (Y_map [(''message'', message_doc content calls), (''finish_reason'', Y_text reason)])
     = Inr (empty_response\<lparr>rp_text := content, rp_calls := calls, rp_truncated := (reason = ''length'')\<rparr>)"
  using openai_message_read [of calls load content]
  by (simp add: openai_choice_def child_def scalar_child_def is_scalar_def as_text_def is_map_def message_doc_def)

lemma openai_reply_read:
  assumes "named calls" "load body = Inr (openai_doc content calls reason)"
  shows "openai_response (wire_of load) body = Inr (empty_response\<lparr>rp_text := content, rp_calls := calls,
    rp_truncated := (reason = ''length'')\<rparr>)"
  using openai_choice_read [OF assms(1), of load content reason] assms(2)
  by (simp add: openai_response_def load_reply_def openai_doc_def child_def is_map_def first_choice_def
      is_sequence_def add_usage_def)

lemma ollama_reply_read:
  assumes "load body = Inr (ollama_doc content calls)"
  shows "ollama_response (wire_of load) body = Inr (Inr (empty_response\<lparr>rp_text := content, rp_calls := calls\<rparr>))"
  using ollama_message_read [of load content calls] assms
  by (simp add: ollama_response_def load_reply_def ollama_doc_def child_def is_map_def
      scalar_child_def is_scalar_def as_text_def
      or_else_def count_or_zero_def u64_child_def empty_response_def)

definition two_replies :: "string \<Rightarrow> yaml_doc load_error + yaml_doc" where
  "two_replies x = (if x = ''o'' then Inr (ollama_doc ''hi'' []) else Inr (openai_doc ''hi'' [] ''stop''))"

text \<open>Replies are read as they were sent.  From a reply with a text and named calls the readers
  take exactly that text and those calls, with their ids and arguments, in order; and whatever a
  service sends, a call that two of the readers pass on has a name.\<close>

theorem replies_read:
  assumes "named calls" "load body = Inr (openai_doc content calls reason)"
    "load body' = Inr (ollama_doc content calls)"
  shows "openai_response (wire_of load) body = Inr (empty_response\<lparr>rp_text := content, rp_calls := calls,
        rp_truncated := (reason = ''length'')\<rparr>)
    \<and> ollama_response (wire_of load) body' = Inr (Inr (empty_response\<lparr>rp_text := content, rp_calls := calls\<rparr>))
    \<and> (\<forall>(api :: 'n wire) reply r. openai_response api reply = Inr r \<or> anthropic_response api reply = Inr r \<longrightarrow> named (rp_calls r))"
  using openai_reply_read [of calls load body content reason, OF assms(1,2)]
    ollama_reply_read [of load body' content calls, OF assms(3)] openai_response_named
    anthropic_response_named by blast

theorem replies_read_witness:
  "openai_response (wire_of two_replies) ''b'' = Inr (empty_response\<lparr>rp_text := ''hi'', rp_calls := [],
     rp_truncated := (''stop'' = ''length'')\<rparr>)"
  by (rule replies_read [where load = two_replies and body' = "''o''", THEN conjunct1])
    (simp_all add: two_replies_def)

end
