(* ===== verification/Http_Provider.thy ===== *)
theory Http_Provider
  imports Request_Body Response
begin

text \<open>
  The providers that talk to a service through curl (src/ai/provider.cpp): the configuration fed to
  curl on its standard input, the calls, and what their results become.  Running a process is a
  parameter, a function of the options and a world \<open>'w\<close> that also says how long it took
  (include/souxmar/plugin/subprocess.h).  What curl makes of its configuration is a reader after
  its documented grammar, and the lemmas show that it finds exactly the settings meant.
\<close>

section \<open>Processes\<close>

record subprocess_options =
  so_argv :: "string list"
  so_stdin :: string
  so_timeout :: int
  so_max_capture :: nat

record subprocess_result =
  sr_ok :: bool
  sr_exit :: int
  sr_signal :: int
  sr_timed_out :: bool
  sr_stdout :: string
  sr_stderr :: string
  sr_error :: string

type_synonym 'w process = "subprocess_options \<Rightarrow> 'w \<Rightarrow> (subprocess_result \<times> int) \<times> 'w"

definition succeeded :: "subprocess_result \<Rightarrow> bool" where
  "succeeded r = (sr_ok r \<and> sr_exit r = 0 \<and> sr_signal r = 0 \<and> \<not> sr_timed_out r)"

section \<open>Configuration of curl\<close>

definition curl_char :: "char \<Rightarrow> string" where
  "curl_char c =
     (if c = CHR 0x5C then [CHR 0x5C, CHR 0x5C]
      else if c = CHR 0x22 then [CHR 0x5C, CHR 0x22]
      else if c = CHR 0x09 then [CHR 0x5C, CHR ''t'']
      else if c = CHR 0x0A then [CHR 0x5C, CHR ''n'']
      else if c = CHR 0x0D then [CHR 0x5C, CHR ''r''] else [c])"

definition curl_string :: "string \<Rightarrow> string" where
  "curl_string s = [CHR 0x22] @ concat (map curl_char s) @ [CHR 0x22]"

definition join_url :: "string \<Rightarrow> string \<Rightarrow> string" where
  "join_url base path = rev (dropWhile (\<lambda>c. c = CHR ''/'') (rev base)) @ path"

definition status_marker :: string where
  "status_marker = newline @ ''__souxmar_http_status__:''"

definition openai_config :: "string \<Rightarrow> string \<Rightarrow> string \<Rightarrow> int \<Rightarrow> string" where
  "openai_config url api_key json_body timeout =
     ''url = '' @ curl_string url @ newline @ ''request = \"POST\"'' @ newline @ ''silent'' @ newline
     @ ''show-error'' @ newline @ ''max-time = '' @ int_str timeout @ newline
     @ ''header = \"Content-Type: application/json\"'' @ newline
     @ (if api_key \<noteq> [] then ''header = '' @ curl_string (''Authorization: Bearer '' @ api_key) @ newline else [])
     @ ''write-out = '' @ curl_string (status_marker @ ''%{http_code}'') @ newline
     @ ''data-binary = '' @ curl_string json_body @ newline"

definition anthropic_config :: "string \<Rightarrow> string \<Rightarrow> string \<Rightarrow> string \<Rightarrow> int \<Rightarrow> string" where
  "anthropic_config url api_key api_version json_body timeout =
     ''url = '' @ curl_string url @ newline @ ''request = \"POST\"'' @ newline @ ''silent'' @ newline
     @ ''show-error'' @ newline @ ''max-time = '' @ int_str timeout @ newline
     @ ''header = \"Content-Type: application/json\"'' @ newline
     @ ''header = '' @ curl_string (''anthropic-version: '' @ api_version) @ newline
     @ (if api_key \<noteq> [] then ''header = '' @ curl_string (''x-api-key: '' @ api_key) @ newline else [])
     @ ''write-out = '' @ curl_string (status_marker @ ''%{http_code}'') @ newline
     @ ''data-binary = '' @ curl_string json_body @ newline"

section \<open>Numbers in texts\<close>

definition is_space :: "char \<Rightarrow> bool" where
  "is_space c = (c \<in> {CHR '' '', CHR 0x09, CHR 0x0A, CHR 0x0B, CHR 0x0C, CHR 0x0D})"

definition digits_value :: "string \<Rightarrow> nat" where
  "digits_value s = foldl (\<lambda>n c. 10 * n + digit_value c) 0 s"

text \<open>\<open>std::stol\<close> and \<open>std::stoi\<close>: \<open>None\<close> when they throw, for want of a digit or out of range.\<close>

definition parse_integer :: "nat \<Rightarrow> string \<Rightarrow> int option" where
  "parse_integer width s =
     (let s = dropWhile is_space s;
          negative = starts_with ''-'' s;
          s = (if negative \<or> starts_with ''+'' s then drop 1 s else s);
          ds = takeWhile is_digit s;
          v = (if negative then - int (digits_value ds) else int (digits_value ds))
      in if ds = [] \<or> v < - (2 ^ (width - 1)) \<or> 2 ^ (width - 1) \<le> v then None else Some v)"

definition timeout_override :: "string option \<Rightarrow> int \<Rightarrow> int" where
  "timeout_override env t = (case env of
     None \<Rightarrow> t
   | Some v \<Rightarrow> if v = [] then t else (case parse_integer 32 v of None \<Rightarrow> t | Some n \<Rightarrow> n))"

section \<open>The status of a reply\<close>

text \<open>What is before and after the last place of a text.\<close>

fun split_last :: "string \<Rightarrow> string \<Rightarrow> (string \<times> string) option" where
  "split_last m [] = (if m = [] then Some ([], []) else None)"
| "split_last m (c # cs) = (case split_last m cs of
     Some (a, b) \<Rightarrow> Some (c # a, b)
   | None \<Rightarrow> if starts_with m (c # cs) then Some ([], drop (length m) (c # cs)) else None)"

definition split_status :: "string \<Rightarrow> string \<times> int" where
  "split_status payload = (case split_last status_marker payload of
     None \<Rightarrow> (payload, 0)
   | Some (body, tail) \<Rightarrow> (body, case parse_integer 64 tail of None \<Rightarrow> 0 | Some n \<Rightarrow> n))"

section \<open>Ollama\<close>

record ollama_options =
  ol_endpoint :: string
  ol_timeout :: int
  ol_curl :: string

definition make_ollama :: "ollama_options \<Rightarrow> string option \<Rightarrow> ollama_options" where
  "make_ollama opts timeout_env =
     opts\<lparr>ol_curl := (if ol_curl opts = [] then ''curl'' else ol_curl opts),
          ol_timeout := timeout_override timeout_env (ol_timeout opts)\<rparr>"

text \<open>The texts under a key of the elements of a list, or none at all after an exception.\<close>

definition listed_names :: "('n, 'x) wire_scheme \<Rightarrow> string \<Rightarrow> string \<Rightarrow> string \<Rightarrow> string list" where
  "listed_names api list_key name_key text =
     (case y_load api text of
        Inl _ \<Rightarrow> []
      | Inr root \<Rightarrow> (case attempt (child api root list_key) (\<lambda>x. case x of
            None \<Rightarrow> Inr []
          | Some ns \<Rightarrow> if is_sequence api ns
              then attempt_map (\<lambda>n. scalar_child api n name_key) (y_items api ns) else Inr []) of
          Inl _ \<Rightarrow> []
        | Inr xs \<Rightarrow> concat (map (\<lambda>x. case x of None \<Rightarrow> [] | Some s \<Rightarrow> [s]) xs)))"

definition ollama_models ::
  "('n, 'x) wire_scheme \<Rightarrow> ollama_options \<Rightarrow> 'w process \<Rightarrow> 'w \<Rightarrow> string list \<times> 'w" where
  "ollama_models api opts run w =
     (let ((r, elapsed), w) = run \<lparr>so_argv = [ol_curl opts, ''--silent'', ''--max-time'', int_str (ol_timeout opts),
           ''--fail'', ol_endpoint opts @ ''/api/tags''], so_stdin = [], so_timeout = ol_timeout opts * 1000,
           so_max_capture = 64 * 1024\<rparr> w
      in (if succeeded r then listed_names api ''models'' ''name'' (sr_stdout r) else [], w))"

definition ollama_process :: "ollama_options \<Rightarrow> chat_request \<Rightarrow> subprocess_options" where
  "ollama_process opts req =
     \<lparr>so_argv = [ol_curl opts, ''--silent'', ''--max-time'', int_str (ol_timeout opts), ''--fail-with-body'', ''-H'',
        ''Content-Type: application/json'', ''--data-binary'', ''@-'', ol_endpoint opts @ ''/api/chat''],
      so_stdin = ollama_body req [], so_timeout = ol_timeout opts * 1000, so_max_capture = 4 * 1024 * 1024\<rparr>"

text \<open>\<open>Inl\<close> is an exception that leaves the call.\<close>

definition ollama_outcome ::
  "('n, 'x) wire_scheme \<Rightarrow> ollama_options \<Rightarrow> subprocess_result \<Rightarrow> int \<Rightarrow> string + chat_result" where
  "ollama_outcome api opts r elapsed =
     (if \<not> sr_ok r
      then Inr (Inl (provider_failure Http_client_failed (''ollama: curl spawn failed: '' @ sr_error r)))
      else if sr_timed_out r
      then Inr (Inl (provider_failure Http_client_failed
        (''ollama: request timed out after '' @ int_str (ol_timeout opts) @ ''s'')))
      else if sr_exit r = 7 \<or> sr_exit r = 28
      then Inr (Inl (provider_failure Local_daemon_unreachable
        (''ollama: daemon unreachable at '' @ ol_endpoint opts @ '' (curl exit '' @ int_str (sr_exit r) @ '')'')))
      else attempt (ollama_response api (sr_stdout r)) (\<lambda>parsed.
        if sr_exit r \<noteq> 0
        then (case parsed of
            Inl e \<Rightarrow> Inr (Inl e)
          | Inr _ \<Rightarrow> Inr (Inl (provider_failure Provider_http_error
              (''ollama: curl exit '' @ int_str (sr_exit r) @ ''; body='' @ sr_stdout r))))
        else (case parsed of
            Inl e \<Rightarrow> Inr (Inl e)
          | Inr reply \<Rightarrow> Inr (Inr (reply\<lparr>rp_latency := elapsed\<rparr>)))))"

definition ollama_chat ::
  "('n, 'x) wire_scheme \<Rightarrow> ollama_options \<Rightarrow> 'w process \<Rightarrow> chat_request \<Rightarrow> 'w \<Rightarrow> (string + chat_result) \<times> 'w" where
  "ollama_chat api opts run req w =
     (if cr_model req = [] then (Inr (Inl (provider_failure Bad_request ''ollama: empty model name'')), w)
      else if cr_messages req = [] then (Inr (Inl (provider_failure Bad_request ''ollama: empty messages'')), w)
      else let ((r, elapsed), w) = run (ollama_process opts req) w
           in (ollama_outcome api opts r elapsed, w))"

section \<open>OpenAI-compatible services\<close>

record openai_options =
  oa_provider_id :: string
  oa_base_url :: string
  oa_api_key :: string
  oa_tools :: "tool_definition list"
  oa_timeout :: int
  oa_curl :: string

definition make_openai :: "openai_options \<Rightarrow> string option \<Rightarrow> openai_options" where
  "make_openai opts timeout_env =
     opts\<lparr>oa_curl := (if oa_curl opts = [] then ''curl'' else oa_curl opts),
          oa_provider_id := (if oa_provider_id opts = [] then ''openai-compatible'' else oa_provider_id opts),
          oa_timeout := timeout_override timeout_env (oa_timeout opts)\<rparr>"

definition models_config :: "openai_options \<Rightarrow> string" where
  "models_config opts =
     ''url = '' @ curl_string (join_url (oa_base_url opts) ''/models'') @ newline @ ''silent'' @ newline
     @ ''max-time = '' @ int_str (oa_timeout opts) @ newline
     @ (if oa_api_key opts \<noteq> [] then ''header = '' @ curl_string (''Authorization: Bearer '' @ oa_api_key opts) @ newline
        else [])"

definition openai_models ::
  "('n, 'x) wire_scheme \<Rightarrow> openai_options \<Rightarrow> 'w process \<Rightarrow> 'w \<Rightarrow> string list \<times> 'w" where
  "openai_models api opts run w =
     (if oa_base_url opts = [] then ([], w)
      else let ((r, elapsed), w) = run \<lparr>so_argv = [oa_curl opts, ''-K'', ''-''], so_stdin = models_config opts,
                 so_timeout = oa_timeout opts * 1000, so_max_capture = 1024 * 1024\<rparr> w
           in (if sr_ok r \<and> sr_exit r = 0 then listed_names api ''data'' ''id'' (sr_stdout r) else [], w))"

definition openai_url :: "openai_options \<Rightarrow> string" where
  "openai_url opts = join_url (oa_base_url opts) ''/chat/completions''"

definition openai_process :: "openai_options \<Rightarrow> chat_request \<Rightarrow> subprocess_options" where
  "openai_process opts req =
     \<lparr>so_argv = [oa_curl opts, ''-K'', ''-''],
      so_stdin = openai_config (openai_url opts) (oa_api_key opts) (openai_body req (oa_tools opts)) (oa_timeout opts),
      so_timeout = oa_timeout opts * 1000, so_max_capture = 4 * 1024 * 1024\<rparr>"

definition openai_outcome ::
  "('n, 'x) wire_scheme \<Rightarrow> openai_options \<Rightarrow> subprocess_result \<Rightarrow> int \<Rightarrow> chat_result" where
  "openai_outcome api opts r elapsed =
     (let failure = (\<lambda>k m. Inl (provider_failure k (oa_provider_id opts @ m)))
      in if \<not> sr_ok r then failure Http_client_failed ('': curl spawn failed: '' @ sr_error r)
         else if sr_timed_out r
         then failure Http_client_failed ('': request timed out after '' @ int_str (oa_timeout opts) @ ''s'')
         else if sr_exit r = 6 \<or> sr_exit r = 7
         then failure Local_daemon_unreachable
           ('': could not reach '' @ oa_base_url opts @ '' (curl exit '' @ int_str (sr_exit r) @ '')'')
         else if sr_exit r \<noteq> 0
         then failure Http_client_failed ('': curl exit '' @ int_str (sr_exit r) @ '': '' @ sr_stderr r)
         else let (payload, http_status) = split_status (sr_stdout r)
              in (case openai_response api payload of
                    Inl e \<Rightarrow>
                      if http_status = 401 \<or> http_status = 403
                      then failure Provider_http_error ('': authentication rejected (HTTP '' @ int_str http_status
                        @ ''). Check the API key for this service. Detail: '' @ ve_message e)
                      else if http_status = 429
                      then failure Rate_limited ('': rate limited (HTTP 429). '' @ ve_message e)
                      else if http_status = 404
                      then failure Model_not_found ('': HTTP 404 from '' @ openai_url opts @ em_dash
                        @ ''check base_url and model. Detail: '' @ ve_message e)
                      else Inl e
                  | Inr reply \<Rightarrow> Inr (reply\<lparr>rp_latency := elapsed\<rparr>)))"

definition openai_chat ::
  "('n, 'x) wire_scheme \<Rightarrow> openai_options \<Rightarrow> 'w process \<Rightarrow> 'w chat_provider" where
  "openai_chat api opts run req w =
     (let refuse = (\<lambda>m. (Inl (provider_failure Bad_request (oa_provider_id opts @ m)), w))
      in if oa_base_url opts = [] then refuse '': no base_url configured''
         else if cr_model req = [] then refuse '': empty model name''
         else if cr_messages req = [] then refuse '': empty messages''
         else let ((r, elapsed), w) = run (openai_process opts req) w
              in (openai_outcome api opts r elapsed, w))"

section \<open>The Messages API\<close>

record anthropic_options =
  an_base_url :: string
  an_api_key :: string
  an_api_version :: string
  an_default_max_tokens :: u32
  an_tools :: "tool_definition list"
  an_timeout :: int
  an_curl :: string

definition make_anthropic :: "anthropic_options \<Rightarrow> string option \<Rightarrow> anthropic_options" where
  "make_anthropic opts timeout_env =
     opts\<lparr>an_curl := (if an_curl opts = [] then ''curl'' else an_curl opts),
          an_base_url := (if an_base_url opts = [] then ''https://api.anthropic.com/v1'' else an_base_url opts),
          an_api_version := (if an_api_version opts = [] then ''2023-06-01'' else an_api_version opts),
          an_default_max_tokens := (if an_default_max_tokens opts = 0 then 4096 else an_default_max_tokens opts),
          an_timeout := timeout_override timeout_env (an_timeout opts)\<rparr>"

definition anthropic_models :: "string list" where
  "anthropic_models = [''claude-opus-4-20250514'', ''claude-sonnet-4-20250514'',
     ''claude-3-7-sonnet-20250219'', ''claude-3-5-haiku-20241022'']"

definition anthropic_process :: "anthropic_options \<Rightarrow> chat_request \<Rightarrow> subprocess_options" where
  "anthropic_process opts req =
     \<lparr>so_argv = [an_curl opts, ''-K'', ''-''],
      so_stdin = anthropic_config (join_url (an_base_url opts) ''/messages'') (an_api_key opts) (an_api_version opts)
        (anthropic_body req (an_tools opts) (an_default_max_tokens opts)) (an_timeout opts),
      so_timeout = an_timeout opts * 1000, so_max_capture = 4 * 1024 * 1024\<rparr>"

definition anthropic_outcome ::
  "('n, 'x) wire_scheme \<Rightarrow> anthropic_options \<Rightarrow> subprocess_result \<Rightarrow> int \<Rightarrow> chat_result" where
  "anthropic_outcome api opts r elapsed =
     (if \<not> sr_ok r
      then Inl (provider_failure Http_client_failed (''anthropic: curl spawn failed: '' @ sr_error r))
      else if sr_timed_out r
      then Inl (provider_failure Http_client_failed
        (''anthropic: request timed out after '' @ int_str (an_timeout opts) @ ''s''))
      else if sr_exit r = 6 \<or> sr_exit r = 7
      then Inl (provider_failure Provider_http_error
        (''anthropic: could not reach '' @ an_base_url opts @ '' (curl exit '' @ int_str (sr_exit r) @ '')''))
      else if sr_exit r \<noteq> 0
      then Inl (provider_failure Http_client_failed
        (''anthropic: curl exit '' @ int_str (sr_exit r) @ '': '' @ sr_stderr r))
      else let (payload, http_status) = split_status (sr_stdout r)
           in (case anthropic_response api payload of
                 Inl e \<Rightarrow>
                   if http_status = 401 \<or> http_status = 403
                   then Inl (provider_failure Provider_http_error (''anthropic: authentication rejected (HTTP ''
                     @ int_str http_status @ ''). Check $ANTHROPIC_API_KEY. Detail: '' @ ve_message e))
                   else if http_status = 429
                   then Inl (provider_failure Rate_limited (''anthropic: rate limited (HTTP 429). '' @ ve_message e))
                   else if http_status = 404
                   then Inl (provider_failure Model_not_found (''anthropic: HTTP 404'' @ em_dash
                     @ ''check the model id. Detail: '' @ ve_message e))
                   else Inl e
               | Inr reply \<Rightarrow> Inr (reply\<lparr>rp_latency := elapsed\<rparr>)))"

definition anthropic_chat ::
  "('n, 'x) wire_scheme \<Rightarrow> anthropic_options \<Rightarrow> 'w process \<Rightarrow> 'w chat_provider" where
  "anthropic_chat api opts run req w =
     (if cr_model req = [] then (Inl (provider_failure Bad_request ''anthropic: empty model name''), w)
      else if cr_messages req = [] then (Inl (provider_failure Bad_request ''anthropic: empty messages''), w)
      else if an_api_key opts = [] then (Inl (provider_failure Bad_request
        (''anthropic: no API key'' @ em_dash @ ''set $ANTHROPIC_API_KEY'')), w)
      else let ((r, elapsed), w) = run (anthropic_process opts req) w
           in (anthropic_outcome api opts r elapsed, w))"

section \<open>What curl reads\<close>

text \<open>
  curl's configuration files after its manual: a setting on each line, a name and, after blanks, an
  equals sign or a colon, a value; a value in quotation marks ends at the first one without a
  backslash.
\<close>

fun text_lines :: "string \<Rightarrow> string list" where
  "text_lines [] = []"
| "text_lines (c # cs) =
     (if c = CHR 0x0A then [] # text_lines cs
      else case text_lines cs of [] \<Rightarrow> [[c]] | l # ls \<Rightarrow> (c # l) # ls)"

definition curl_unescape :: "char \<Rightarrow> char" where
  "curl_unescape c =
     (if c = CHR ''t'' then CHR 0x09 else if c = CHR ''n'' then CHR 0x0A
      else if c = CHR ''r'' then CHR 0x0D else if c = CHR ''v'' then CHR 0x0B else c)"

fun curl_unquote :: "string \<Rightarrow> string" where
  "curl_unquote [] = []"
| "curl_unquote [c] = (if c = CHR 0x22 \<or> c = CHR 0x5C then [] else [c])"
| "curl_unquote (c # d # cs) =
     (if c = CHR 0x22 then []
      else if c = CHR 0x5C then curl_unescape d # curl_unquote cs
      else c # curl_unquote (d # cs))"

definition name_end :: "char \<Rightarrow> bool" where
  "name_end c = (c \<in> {CHR '' '', CHR 0x09, CHR ''='', CHR '':''})"

definition read_setting :: "string \<Rightarrow> string \<times> string option" where
  "read_setting l =
     (let v = dropWhile name_end (dropWhile (\<lambda>c. \<not> name_end c) l)
      in (takeWhile (\<lambda>c. \<not> name_end c) l,
          if v = [] then None
          else if starts_with [CHR 0x22] v then Some (curl_unquote (tl v))
          else Some (takeWhile (\<lambda>c. \<not> is_space c) v)))"

definition read_config :: "string \<Rightarrow> (string \<times> string option) list" where
  "read_config s = map read_setting (filter (\<lambda>l. l \<noteq> []) (text_lines s))"

lemma text_lines_line: "CHR 0x0A \<notin> set l \<Longrightarrow> text_lines (l @ newline @ r) = l # text_lines r"
  by (induction l) (auto simp: newline_def)

lemma text_lines_concat:
  "list_all (\<lambda>l. CHR 0x0A \<notin> set l) ls \<Longrightarrow> text_lines (concat (map (\<lambda>l. l @ newline) ls)) = ls"
  by (induction ls) (simp_all add: text_lines_line)

lemma curl_unquote_char: "curl_unquote (curl_char c @ d # r) = c # curl_unquote (d # r)"
  by (simp add: curl_char_def curl_unescape_def)

lemma curl_unquote_chars: "curl_unquote (concat (map curl_char s) @ [CHR 0x22]) = s"
proof (induction s)
  case (Cons c s)
  obtain d r where d: "concat (map curl_char s) @ [CHR 0x22] = d # r"
    by (cases "concat (map curl_char s) @ [CHR 0x22]") auto
  show ?case using Cons.IH unfolding d by (simp add: curl_unquote_char d)
qed simp

lemma curl_unquote_string: "curl_unquote (tl (curl_string s)) = s"
  by (simp add: curl_string_def curl_unquote_chars)

lemma curl_string_line [simp]: "CHR 0x0A \<notin> set (curl_string s)"
  by (auto simp: curl_string_def curl_char_def split: if_splits)

lemma int_str_chars: "c \<in> set (int_str i) \<Longrightarrow> c = CHR ''-'' \<or> is_digit c"
  by (auto simp: int_str_def dest: nat_str_digits split: if_splits)

lemma separator_not_digit [simp]: "\<not> is_digit (CHR 0x0A)" "\<not> is_digit (CHR '' '')" "\<not> is_digit (CHR 0x09)"
  "\<not> is_digit (CHR ''='')" "\<not> is_digit (CHR '':'')" "\<not> is_digit (CHR 0x22)" "\<not> is_digit (CHR 0x0B)"
  "\<not> is_digit (CHR 0x0C)" "\<not> is_digit (CHR 0x0D)" "\<not> is_digit (CHR ''-'')" "\<not> is_digit (CHR ''+'')"
  by (simp_all add: is_digit_iff)

lemma int_str_line [simp]: "CHR 0x0A \<notin> set (int_str i)"
  using int_str_chars [of "CHR 0x0A" i] by auto

lemma int_str_word: "c \<in> set (int_str i) \<Longrightarrow> \<not> name_end c \<and> \<not> is_space c \<and> c \<noteq> CHR 0x22"
  using int_str_chars [of c i] by (auto simp: name_end_def is_space_def)

lemma int_str_nonempty [simp]: "int_str i \<noteq> []"
  by (simp add: int_str_def)

lemma read_bare:
  "read_setting (''max-time = '' @ int_str t) = (''max-time'', Some (int_str t))"
proof -
  obtain c cs where c: "int_str t = c # cs" by (cases "int_str t") auto
  have "takeWhile (\<lambda>c. \<not> is_space c) (int_str t) = int_str t"
    using int_str_word by (auto intro: takeWhile_eq_all_conv [THEN iffD2])
  moreover have "\<not> name_end c" "c \<noteq> CHR 0x22" using int_str_word [of c t] c by auto
  ultimately show ?thesis unfolding read_setting_def c by (simp add: name_end_def starts_with_def)
qed

lemma read_value:
  "\<not> name_end CHR 0x22 \<Longrightarrow> takeWhile (\<lambda>c. \<not> name_end c) l = l \<Longrightarrow>
     read_setting (l @ '' = '' @ curl_string s) = (l, Some s)"
  by (simp add: read_setting_def takeWhile_append name_end_def curl_string_def starts_with_def
    curl_unquote_chars takeWhile_eq_all_conv dropWhile_append)

lemma read_config_lines:
  "list_all (\<lambda>l. l \<noteq> [] \<and> CHR 0x0A \<notin> set l) ls \<Longrightarrow>
     read_config (concat (map (\<lambda>l. l @ newline) ls)) = map read_setting ls"
  by (simp add: read_config_def text_lines_concat list_all_iff)

lemmas read_values = read_value [of "''url''"] read_value [of "''header''"] read_value [of "''write-out''"]
  read_value [of "''data-binary''"] read_value [of "''request''"]

lemma read_flags [simp]: "read_setting ''silent'' = (''silent'', None)"
  "read_setting ''show-error'' = (''show-error'', None)"
  "read_setting ''request = \"POST\"'' = (''request'', Some ''POST'')"
  "read_setting ''header = \"Content-Type: application/json\"'' = (''header'', Some ''Content-Type: application/json'')"
  by code_simp+

definition plain_settings :: "string \<Rightarrow> int \<Rightarrow> (string \<times> string option) list" where
  "plain_settings url timeout =
     [(''url'', Some url), (''request'', Some ''POST''), (''silent'', None), (''show-error'', None),
      (''max-time'', Some (int_str timeout)), (''header'', Some ''Content-Type: application/json'')]"

definition body_settings :: "string \<Rightarrow> (string \<times> string option) list" where
  "body_settings json_body =
     [(''write-out'', Some (status_marker @ ''%{http_code}'')), (''data-binary'', Some json_body)]"

definition header_settings :: "string \<Rightarrow> string \<Rightarrow> (string \<times> string option) list" where
  "header_settings name v = (if v = [] then [] else [(''header'', Some (name @ v))])"

definition plain_lines :: "string \<Rightarrow> int \<Rightarrow> string list" where
  "plain_lines url timeout = [''url'' @ '' = '' @ curl_string url, ''request = \"POST\"'', ''silent'', ''show-error'',
     ''max-time = '' @ int_str timeout, ''header = \"Content-Type: application/json\"'']"

definition body_lines :: "string \<Rightarrow> string list" where
  "body_lines json_body = [''write-out'' @ '' = '' @ curl_string (status_marker @ ''%{http_code}''),
     ''data-binary'' @ '' = '' @ curl_string json_body]"

definition header_line :: "string \<Rightarrow> string" where
  "header_line v = ''header'' @ '' = '' @ curl_string v"

definition header_lines :: "string \<Rightarrow> string \<Rightarrow> string list" where
  "header_lines name v = (if v = [] then [] else [header_line (name @ v)])"

lemma header_line [simp]: "header_line v \<noteq> []" "CHR 0x0A \<notin> set (header_line v)"
  "read_setting (header_line v) = (''header'', Some v)"
  unfolding header_line_def by (simp, simp, rule read_value) (simp_all add: name_end_def)

lemma lines_good:
  "list_all (\<lambda>l. l \<noteq> [] \<and> CHR 0x0A \<notin> set l) (plain_lines url t)"
  "list_all (\<lambda>l. l \<noteq> [] \<and> CHR 0x0A \<notin> set l) (body_lines b)"
  "list_all (\<lambda>l. l \<noteq> [] \<and> CHR 0x0A \<notin> set l) (header_lines n v)"
  by (simp_all add: plain_lines_def body_lines_def header_lines_def)

lemma lines_read:
  "map read_setting (plain_lines url t) = plain_settings url t"
  "map read_setting (body_lines b) = body_settings b"
  "map read_setting (header_lines n v) = header_settings n v"
  unfolding plain_lines_def body_lines_def header_lines_def plain_settings_def body_settings_def header_settings_def
    list.map read_bare read_flags
  by (subst read_values, simp add: name_end_def, simp add: name_end_def, simp)
     (use read_values in \<open>simp_all add: name_end_def\<close>)

lemma openai_config_lines:
  "openai_config url key body t = concat (map (\<lambda>l. l @ newline)
     (plain_lines url t @ header_lines ''Authorization: Bearer '' key @ body_lines body))"
  by (simp add: openai_config_def plain_lines_def header_lines_def header_line_def body_lines_def)

lemma anthropic_config_lines:
  "anthropic_config url key version body t = concat (map (\<lambda>l. l @ newline)
     (plain_lines url t @ header_line (''anthropic-version: '' @ version)
      # header_lines ''x-api-key: '' key @ body_lines body))"
  by (simp add: anthropic_config_def plain_lines_def header_lines_def header_line_def body_lines_def)

lemma read_openai_config:
  "read_config (openai_config url key body t) =
     plain_settings url t @ header_settings ''Authorization: Bearer '' key @ body_settings body"
  unfolding openai_config_lines by (subst read_config_lines) (simp_all add: lines_good lines_read)

lemma read_anthropic_config:
  "read_config (anthropic_config url key version body t) =
     plain_settings url t @ (''header'', Some (''anthropic-version: '' @ version))
       # header_settings ''x-api-key: '' key @ body_settings body"
  unfolding anthropic_config_lines
  by (subst read_config_lines) (simp_all add: lines_good lines_read)

section \<open>What is asked\<close>

text \<open>C32: one request to an OpenAI-compatible service is one run of curl whose arguments do not depend on
  the key.  curl reads from its standard input the address of the service, the key as a bearer token and
  the body, whatever characters these have, and the body is the document of the request.\<close>

theorem openai_process_read:
  assumes "finite_temperature req"
  shows "so_argv (openai_process opts req) = [oa_curl opts, ''-K'', ''-'']
    \<and> (\<exists>n body. read_config (so_stdin (openai_process opts req)) =
          plain_settings (openai_url opts) (oa_timeout opts)
          @ header_settings ''Authorization: Bearer '' (oa_api_key opts) @ body_settings body
        \<and> read_json n body = Some (openai_json req (oa_tools opts), []))"
  using openai_body_reads [OF assms, of "oa_tools opts"]
  by (auto simp: openai_process_def read_openai_config)

definition sample_openai :: openai_options where
  "sample_openai = \<lparr>oa_provider_id = ''openai'', oa_base_url = ''https://a/v1/'', oa_api_key = ''k\"'',
     oa_tools = [], oa_timeout = 30, oa_curl = ''curl''\<rparr>"

theorem openai_process_read_witness:
  "\<exists>n body. read_config (so_stdin (openai_process sample_openai sample_request)) =
      plain_settings ''https://a/v1/chat/completions'' 30
      @ [(''header'', Some ''Authorization: Bearer k\"'')] @ body_settings body
    \<and> read_json n body = Some (openai_json sample_request [], [])"
proof -
  have "finite_temperature sample_request" by code_simp
  from openai_process_read [OF this, of sample_openai] show ?thesis
    by (simp add: sample_openai_def openai_url_def join_url_def header_settings_def)
qed

lemma anthropic_process_read:
  assumes "finite_temperature req" "arguments_are arg (cr_messages req)"
  shows "\<exists>n body. read_config (so_stdin (anthropic_process opts req)) =
        plain_settings (join_url (an_base_url opts) ''/messages'') (an_timeout opts)
        @ (''header'', Some (''anthropic-version: '' @ an_api_version opts))
        # header_settings ''x-api-key: '' (an_api_key opts) @ body_settings body
      \<and> read_json n body = Some (anthropic_json arg req (an_tools opts) (an_default_max_tokens opts), [])"
  using anthropic_body_reads [OF assms, of "an_tools opts" "an_default_max_tokens opts"]
  by (auto simp: anthropic_process_def read_anthropic_config)

section \<open>What comes back\<close>

lemma digits_value_nat_str: "digits_value (nat_str n) = n"
proof (induction n rule: nat_str.induct)
  case (1 n)
  then show ?case by (subst nat_str.simps) (auto simp: digits_value_def Let_def)
qed

lemma parse_integer_nat_str: "n < 2 ^ 63 \<Longrightarrow> parse_integer 64 (nat_str n) = Some (int n)"
proof -
  assume n: "n < 2 ^ 63"
  obtain c cs where c: "nat_str n = c # cs" by (cases "nat_str n") auto
  have d: "is_digit c" using nat_str_digits [of c n] c by simp
  have "takeWhile is_digit (nat_str n) = nat_str n"
    using nat_str_digits by (auto intro: takeWhile_eq_all_conv [THEN iffD2])
  moreover have "\<not> is_space c" "c \<noteq> CHR ''-''" "c \<noteq> CHR ''+''"
    using d by (auto simp: is_space_def)
  moreover have "int n < 2 ^ 63"
  proof -
    have "int n < int (2 ^ 63)" using n by (simp only: of_nat_less_iff)
    then show ?thesis by simp
  qed
  ultimately show ?thesis
    unfolding parse_integer_def c using digits_value_nat_str [of n] c
    by (simp add: starts_with_def)
qed

lemma split_last_none: "\<forall>c \<in> set s. c \<noteq> m \<Longrightarrow> split_last (m # ms) s = None"
  by (induction s) (auto simp: starts_with_def)

lemma split_last_append:
  assumes "split_last m s = Some (a, b)"
  shows "split_last m (t @ s) = Some (t @ a, b)"
  using assms by (induction t) simp_all

lemma split_last_here:
  assumes "split_last m s = None" "starts_with m (c # s)"
  shows "split_last m (c # s) = Some ([], drop (length m) (c # s))"
  using assms by simp

lemma status_marker_Cons: "status_marker = CHR 0x0A # tl status_marker" "CHR 0x0A \<notin> set (tl status_marker)"
  by (simp_all add: status_marker_def newline_def)

lemma split_status_appended:
  assumes "n < 2 ^ 63"
  shows "split_status (body @ status_marker @ nat_str n) = (body, int n)"
proof -
  let ?t = "tl status_marker @ nat_str n"
  have c: "status_marker @ nat_str n = CHR 0x0A # ?t"
    using status_marker_Cons(1) by (metis append_Cons)
  have "CHR 0x0A \<notin> set (nat_str n)" using nat_str_digits separator_not_digit(1) by blast
  then have "\<forall>c \<in> set ?t. c \<noteq> CHR 0x0A" using status_marker_Cons(2) by auto
  then have "split_last status_marker ?t = None"
    using split_last_none [of ?t "CHR 0x0A" "tl status_marker"] status_marker_Cons(1) by simp
  moreover have "starts_with status_marker (CHR 0x0A # ?t)"
    unfolding c [symmetric] by (rule starts_with_append)
  ultimately have "split_last status_marker (status_marker @ nat_str n) = Some ([], nat_str n)"
    unfolding c using split_last_here [of status_marker ?t "CHR 0x0A"]
    by (metis append_eq_conv_conj c)
  from split_last_append [OF this, of body] show ?thesis
    using parse_integer_nat_str [OF assms] by (simp add: split_status_def)
qed

text \<open>C33: the status of a reply that curl received decides what the caller hears.  When curl ends well and
  has written a body and then the status, a body the reader takes for a reply is the reply, with the time it took;
  of the other bodies, statuses 401 and 403 are a rejected key, 429 a rate limit, 404 a model not found,
  and any other status what the body says.  This holds whatever the body has in it, even the marker.\<close>

theorem openai_status:
  assumes "oa_base_url opts \<noteq> []" "cr_model req \<noteq> []" "cr_messages req \<noteq> []"
    and "run (openai_process opts req) w = ((r, elapsed), w')" "succeeded r"
    and "sr_stdout r = body @ status_marker @ nat_str status" "status < 1000"
  shows "\<exists>detail. openai_chat api opts run req w =
    (case openai_response api body of
       Inr reply \<Rightarrow> Inr (reply\<lparr>rp_latency := elapsed\<rparr>)
     | Inl e \<Rightarrow>
         if status \<in> {401, 403} then Inl (provider_failure Provider_http_error detail)
         else if status = 429 then Inl (provider_failure Rate_limited detail)
         else if status = 404 then Inl (provider_failure Model_not_found detail)
         else Inl e, w')"
proof -
  have "status < 2 ^ 63" using assms(7) by simp
  from split_status_appended [OF this, of body] show ?thesis
    using assms by (auto simp: openai_chat_def openai_outcome_def succeeded_def Let_def split: sum.splits)
qed

definition quiet_result :: subprocess_result where
  "quiet_result = \<lparr>sr_ok = True, sr_exit = 0, sr_signal = 0, sr_timed_out = False,
     sr_stdout = status_marker @ status_marker @ nat_str 200, sr_stderr = [], sr_error = []\<rparr>"

definition quiet_run :: "nat process" where
  "quiet_run opts w = ((quiet_result, 7), Suc w)"

theorem openai_status_witness:
  "openai_chat (wire_of two_replies) sample_openai quiet_run sample_request 0 =
     (Inr (empty_response\<lparr>rp_text := ''hi'', rp_calls := [], rp_truncated := (''stop'' = ''length''), rp_latency := 7\<rparr>), 1)"
proof -
  have "openai_response (wire_of two_replies) status_marker = Inr (empty_response\<lparr>rp_text := ''hi'', rp_calls := [],
      rp_truncated := (''stop'' = ''length'')\<rparr>)"
    by (rule openai_reply_read) (simp_all add: two_replies_def status_marker_def)
  moreover have "\<exists>detail. openai_chat (wire_of two_replies) sample_openai quiet_run sample_request 0 =
      (case openai_response (wire_of two_replies) status_marker of
         Inr reply \<Rightarrow> Inr (reply\<lparr>rp_latency := 7\<rparr>)
       | Inl e \<Rightarrow>
           if (200::nat) \<in> {401, 403} then Inl (provider_failure Provider_http_error detail)
           else if (200::nat) = 429 then Inl (provider_failure Rate_limited detail)
           else if (200::nat) = 404 then Inl (provider_failure Model_not_found detail)
           else Inl e, 1)"
    by (rule openai_status [where r = quiet_result])
      (simp_all add: sample_openai_def sample_request_def quiet_run_def quiet_result_def succeeded_def)
  ultimately show ?thesis by auto
qed

text \<open>Incomplete requests are refused without a process.\<close>

lemma incomplete_requests_refused:
  "cr_model req = [] \<or> cr_messages req = [] \<Longrightarrow> \<exists>m. ollama_chat api ol run req w = (Inr (Inl (provider_failure Bad_request m)), w)"
  "oa_base_url oa = [] \<or> cr_model req = [] \<or> cr_messages req = [] \<Longrightarrow>
     \<exists>m. openai_chat api oa run req w = (Inl (provider_failure Bad_request m), w)"
  "cr_model req = [] \<or> cr_messages req = [] \<or> an_api_key an = [] \<Longrightarrow>
     \<exists>m. anthropic_chat api an run req w = (Inl (provider_failure Bad_request m), w)"
  by (auto simp: ollama_chat_def openai_chat_def anthropic_chat_def Let_def)

text \<open>A process ended by a signal, whose exit code is 0, passes for one that ended well.\<close>

lemma killed_curl_is_read:
  assumes "sr_ok r" "\<not> sr_timed_out r" "sr_exit r = 0"
  shows "openai_outcome api opts (r\<lparr>sr_signal := 9\<rparr>) t = openai_outcome api opts (r\<lparr>sr_signal := 0\<rparr>) t"
  by (simp add: openai_outcome_def)

end
