(* ===== verification/Bridge_Request.thy ===== *)
theory Bridge_Request
  imports Http_Provider
begin

text \<open>
  How the desktop's bridge reads a chat request (src/c-bridge/provider.cpp): two regular
  expressions take the model and the messages out of a JSON text.  \<open>std::regex\<close> finds the leftmost
  match; in these expressions every repetition ends at a character it cannot take, so the match at
  a place is what a reader from left to right makes of it.  The lemmas say what is found in a
  request the way it is written, and what is lost.
\<close>

section \<open>The parts of the expressions\<close>

definition after :: "string \<Rightarrow> string \<Rightarrow> string option" where
  "after p s = (if starts_with p s then Some (drop (length p) s) else None)"

text \<open>White space, then the text.\<close>

definition expect :: "string \<Rightarrow> string \<Rightarrow> string option" where
  "expect p s = after p (dropWhile is_space s)"

text \<open>The characters to a quotation mark that has no backslash, and what is after it; a dot matches
  no end of a line.\<close>

fun quoted_text :: "string \<Rightarrow> (string \<times> string) option" where
  "quoted_text [] = None"
| "quoted_text [c] = (if c = CHR 0x22 then Some ([], []) else None)"
| "quoted_text (c # d # cs) =
     (if c = CHR 0x22 then Some ([], d # cs)
      else if c = CHR 0x5C
      then (if d = CHR 0x0A \<or> d = CHR 0x0D then None
            else map_option (\<lambda>(a, r). (c # d # a, r)) (quoted_text cs))
      else map_option (\<lambda>(a, r). (c # a, r)) (quoted_text (d # cs)))"

definition token :: "string \<Rightarrow> string" where
  "token k = [CHR 0x22] @ k @ [CHR 0x22]"

definition match_field :: "string \<Rightarrow> string \<Rightarrow> string option" where
  "match_field key s = Option.bind (after (token key) s) (\<lambda>s.
     Option.bind (expect '':'' s) (\<lambda>s.
     Option.bind (expect [CHR 0x22] s) (\<lambda>s. map_option fst (quoted_text s))))"

fun extract_string_field :: "string \<Rightarrow> string \<Rightarrow> string" where
  "extract_string_field key [] = []"
| "extract_string_field key (c # cs) = (case match_field key (c # cs) of
     Some v \<Rightarrow> v | None \<Rightarrow> extract_string_field key cs)"

definition match_message :: "string \<Rightarrow> ((string \<times> string) \<times> string) option" where
  "match_message s = Option.bind (after ''{'' s) (\<lambda>s.
     Option.bind (expect (token ''role'') s) (\<lambda>s.
     Option.bind (expect '':'' s) (\<lambda>s.
     Option.bind (expect [CHR 0x22] s) (\<lambda>s.
     let r = takeWhile (\<lambda>c. c \<noteq> CHR 0x22) s in
     if r = [] then None
     else Option.bind (after [CHR 0x22] (drop (length r) s)) (\<lambda>s.
     Option.bind (expect '','' s) (\<lambda>s.
     Option.bind (expect (token ''content'') s) (\<lambda>s.
     Option.bind (expect '':'' s) (\<lambda>s.
     Option.bind (expect [CHR 0x22] s) (\<lambda>s.
     Option.bind (quoted_text s) (\<lambda>(c, s).
     map_option (\<lambda>s. ((r, c), s)) (expect ''}'' s)))))))))))"

definition message_of :: "string \<times> string \<Rightarrow> message" where
  "message_of m =
     \<lparr>ms_role = (if fst m = ''system'' then System else if fst m = ''user'' then User
        else if fst m = ''assistant'' then Assistant else if fst m = ''tool'' then Tool_role else User),
      ms_content = snd m, ms_call_id = [], ms_calls = []\<rparr>"

lemma after_shorter: "after p s = Some r \<Longrightarrow> length r \<le> length s"
  by (auto simp: after_def split: if_splits)

lemma expect_shorter: "expect p s = Some r \<Longrightarrow> length r \<le> length s"
  unfolding expect_def using after_shorter [of p "dropWhile is_space s" r] length_dropWhile_le [of is_space s] by linarith

lemma quoted_text_shorter: "quoted_text s = Some (a, r) \<Longrightarrow> length r < length s"
  by (induction s arbitrary: a rule: quoted_text.induct) (fastforce split: if_splits)+

lemma match_message_shorter:
  assumes "match_message s = Some (m, r)"
  shows "length r < length s"
proof -
  from assms obtain s1 s2 s3 s4 s5 s6 s7 s8 s9 c s10 where
    "after ''{'' s = Some s1" "expect (token ''role'') s1 = Some s2" "expect '':'' s2 = Some s3"
    "expect [CHR 0x22] s3 = Some s4"
    "after [CHR 0x22] (drop (length (takeWhile (\<lambda>c. c \<noteq> CHR 0x22) s4)) s4) = Some s5"
    "expect '','' s5 = Some s6" "expect (token ''content'') s6 = Some s7" "expect '':'' s7 = Some s8"
    "expect [CHR 0x22] s8 = Some s9" "quoted_text s9 = Some (c, s10)" "expect ''}'' s10 = Some r"
    unfolding match_message_def Let_def by (auto simp: bind_eq_Some_conv split: if_splits)
  from this(1) [THEN after_shorter] this(2-4) [THEN expect_shorter] this(5) [THEN after_shorter]
    this(6-9) [THEN expect_shorter] this(10) [THEN quoted_text_shorter] this(11) [THEN expect_shorter]
  show ?thesis by simp
qed

function find_messages :: "string \<Rightarrow> (string \<times> string) list" where
  "find_messages s = (case s of
     [] \<Rightarrow> []
   | _ # cs \<Rightarrow> (case match_message s of
       Some (m, r) \<Rightarrow> m # find_messages r
     | None \<Rightarrow> find_messages cs))"
  by auto
termination by (relation "measure length") (auto dest: match_message_shorter)

declare find_messages.simps [simp del]

definition extract_messages :: "string \<Rightarrow> message list" where
  "extract_messages json = map message_of (find_messages json)"

section \<open>Requests as they are written\<close>

definition escaped :: "string \<Rightarrow> string" where
  "escaped s = concat (map json_char s)"

definition message_text :: "role \<times> string \<Rightarrow> string" where
  "message_text m = ''{\"role\":\"'' @ role_str (fst m) @ ''\",\"content\":'' @ json_string (snd m) @ ''}''"

definition request_text :: "string \<Rightarrow> (role \<times> string) list \<Rightarrow> string" where
  "request_text model ms =
     ''{\"model\":'' @ json_string model @ '',\"messages\":['' @ join '','' (map message_text ms) @ '']}''"

lemma quoted_text_json_char:
  "quoted_text (json_char c @ d # r) = map_option (\<lambda>(a, r). (json_char c @ a, r)) (quoted_text (d # r))"
proof -
  have h: "hex_digit n \<notin> {CHR 0x22, CHR 0x5C, CHR 0x0A, CHR 0x0D}" if "n < 16" for n
  proof -
    have "n \<in> set [0..<16]" using that by simp
    moreover have "\<forall>n \<in> set [0..<16]. hex_digit n \<notin> {CHR 0x22, CHR 0x5C, CHR 0x0A, CHR 0x0D}" by code_simp
    ultimately show ?thesis by blast
  qed
  have "(of_char c :: nat) mod 16 < 16" "(of_char c :: nat) < 0x20 \<longrightarrow> (of_char c :: nat) div 16 < 16" by auto
  then show ?thesis using h [of "of_char c div 16"] h [of "of_char c mod 16"]
    by (auto simp: json_char_def option.map_comp intro!: map_option_cong)
qed

lemma quoted_text_escaped: "quoted_text (escaped s @ CHR 0x22 # r) = Some (escaped s, r)"
proof (induction s)
  case Nil
  show ?case by (cases r) (simp_all add: escaped_def)
next
  case (Cons c s)
  obtain d q where d: "escaped s @ CHR 0x22 # r = d # q" by (cases "escaped s @ CHR 0x22 # r") auto
  have "quoted_text (escaped (c # s) @ CHR 0x22 # r) = quoted_text (json_char c @ escaped s @ CHR 0x22 # r)"
    by (simp add: escaped_def)
  also have "\<dots> = Some (escaped (c # s), r)" unfolding d quoted_text_json_char
    using Cons.IH unfolding d by (simp add: escaped_def)
  finally show ?case .
qed

lemma after_append [simp]: "after p (p @ s) = Some s"
  by (simp add: after_def)

lemma expect_Cons: "\<not> is_space c \<Longrightarrow> expect (c # p) (c # p @ s) = Some s"
  by (simp add: expect_def after_def starts_with_def)

lemma not_space [simp]: "\<not> is_space CHR 0x22" "\<not> is_space CHR '':''" "\<not> is_space CHR '',''"
  "\<not> is_space CHR ''}''" "\<not> is_space CHR 0x5C" "\<not> is_space CHR ''{''"
  by (simp_all add: is_space_def)

lemma json_string_parts: "json_string s @ r = CHR 0x22 # escaped s @ CHR 0x22 # r"
  by (simp add: json_string_def escaped_def)

lemma role_str_quote: "takeWhile (\<lambda>c. c \<noteq> CHR 0x22) (role_str r @ CHR 0x22 # s) = role_str r" "role_str r \<noteq> []"
  by (cases r; simp)+

lemma match_message_text:
  "match_message (message_text m @ r) = Some ((role_str (fst m), escaped (snd m)), r)"
proof -
  have t: "message_text m @ r = ''{'' @ token ''role'' @ '':'' @ [CHR 0x22] @ role_str (fst m) @ [CHR 0x22]
      @ '','' @ token ''content'' @ '':'' @ [CHR 0x22] @ escaped (snd m) @ CHR 0x22 # ''}'' @ r"
    by (simp add: message_text_def token_def json_string_def escaped_def)
  have e: "expect (token k) (token k @ s) = Some s" "expect '':'' ('':'' @ s) = Some s"
    "expect [CHR 0x22] ([CHR 0x22] @ s) = Some s" "expect '','' ('','' @ s) = Some s"
    "expect ''}'' (''}'' @ s) = Some s" for k s
    using expect_Cons [of "CHR 0x22" "k @ [CHR 0x22]" s] expect_Cons [of _ "[]" s] by (simp_all add: token_def)
  have d: "drop (length (role_str (fst m))) (role_str (fst m) @ [CHR 0x22] @ s) = [CHR 0x22] @ s" for s by simp
  have w: "takeWhile (\<lambda>c. c \<noteq> CHR 0x22) (role_str (fst m) @ [CHR 0x22] @ s) = role_str (fst m)" for s
    using role_str_quote(1) by simp
  show ?thesis
    unfolding t match_message_def after_append e bind.bind_lunit Let_def w d
    by (simp only: role_str_quote(2) if_False after_append e bind.bind_lunit quoted_text_escaped prod.case option.map)
qed

lemma find_messages_Nil [simp]: "find_messages [] = []"
  by (subst find_messages.simps) simp

lemma match_message_Cons: "c \<noteq> CHR ''{'' \<Longrightarrow> match_message (c # s) = None"
  by (simp add: match_message_def after_def starts_with_def)

lemma find_messages_skip: "CHR ''{'' \<notin> set p \<Longrightarrow> find_messages (p @ r) = find_messages r"
proof (induction p)
  case (Cons c p)
  have "match_message (c # p @ r) = None" by (rule match_message_Cons) (use Cons.prems in auto)
  then show ?case using Cons by (subst append_Cons, subst find_messages.simps) simp
qed simp

lemma find_messages_next:
  "match_message (c # s) = None \<Longrightarrow> find_messages (c # s) = find_messages s"
  by (subst find_messages.simps) simp

lemma find_messages_text:
  "find_messages (message_text m @ r) = (role_str (fst m), escaped (snd m)) # find_messages r"
proof -
  have "message_text m @ r = CHR ''{'' # tl (message_text m @ r)" by (simp add: message_text_def)
  then show ?thesis using match_message_text [of m r] find_messages.simps [of "message_text m @ r"]
    by (metis list.simps(5) option.simps(5) old.prod.case)
qed

lemma hex_digit_brace: "n < 16 \<Longrightarrow> hex_digit n \<noteq> CHR ''{''"
proof -
  assume "n < 16"
  then have "n \<in> set [0..<16]" by simp
  moreover have "\<forall>n \<in> set [0..<16]. hex_digit n \<noteq> CHR ''{''" by code_simp
  ultimately show ?thesis by blast
qed

lemma json_char_coded:
  assumes "(of_char c :: nat) < 0x20 \<or> c = CHR 0x22 \<or> c = CHR 0x5C"
  shows "json_char c = CHR 0x5C # tl (json_char c) \<and> CHR ''{'' \<notin> set (tl (json_char c)) \<and> c \<noteq> CHR ''{''"
proof -
  have h: "CHR ''{'' \<noteq> hex_digit (of_char c mod 16)" using hex_digit_brace [of "of_char c mod 16"] by simp
  have h': "CHR ''{'' \<noteq> hex_digit (of_char c div 16)" if "(of_char c :: nat) < 0x20"
  proof -
    have "(of_char c :: nat) div 16 < 16" using that by simp
    from hex_digit_brace [OF this] show ?thesis by simp
  qed
  have "c \<noteq> CHR ''{''" using assms by auto
  then show ?thesis using assms h h' unfolding json_char_def by (simp split: if_split) blast
qed

lemma json_char_cases:
  obtains (plain) "json_char c = [c]" "c \<noteq> CHR 0x22" "c \<noteq> CHR 0x5C"
  | (coded) p where "json_char c = CHR 0x5C # p" "CHR ''{'' \<notin> set p" "c \<noteq> CHR ''{''"
proof (cases "(of_char c :: nat) < 0x20 \<or> c = CHR 0x22 \<or> c = CHR 0x5C")
  case True
  then show ?thesis using coded json_char_coded by blast
next
  case False
  then have "\<not> (of_char c :: nat) < 0x20" "c \<noteq> CHR 0x22" "c \<noteq> CHR 0x5C" by blast+
  moreover from this(1) have "c \<noteq> CHR 0x08" "c \<noteq> CHR 0x0C" "c \<noteq> CHR 0x0A" "c \<noteq> CHR 0x0D" "c \<noteq> CHR 0x09"
    by auto
  ultimately have "json_char c = [c]" by (simp add: json_char_def)
  then show ?thesis using plain False by blast
qed

text \<open>A brace in a text between quotation marks begins no message: before the next quotation mark
  there is a character that is no white space, a backslash at least.\<close>

lemma expect_step: "expect p (c # s) = (if is_space c then expect p s else after p (c # s))"
  by (simp add: expect_def)

lemma no_role_in_text:
  assumes "\<not> starts_with (''role'' @ [CHR 0x22]) r"
  shows "expect (token ''role'') (escaped s @ CHR 0x22 # r) = None"
proof (induction s)
  case Nil
  show ?case using assms by (simp add: escaped_def expect_def after_def token_def starts_with_def)
next
  case (Cons c s)
  have split: "escaped (c # s) = json_char c @ escaped s" by (simp add: escaped_def)
  show ?case
  proof (cases c rule: json_char_cases)
    case plain
    have "after (token ''role'') (c # escaped s @ CHR 0x22 # r) = None"
      using plain(2) by (simp add: after_def token_def starts_with_def)
    then show ?thesis using Cons.IH plain(1) by (simp add: split expect_step)
  next
    case (coded p)
    have "after (token ''role'') (CHR 0x5C # p @ escaped s @ CHR 0x22 # r) = None"
      by (simp add: after_def token_def starts_with_def)
    then show ?thesis using coded(1) by (simp add: split expect_step)
  qed
qed

lemma find_messages_in_text:
  assumes "\<not> starts_with (''role'' @ [CHR 0x22]) r"
  shows "find_messages (escaped s @ CHR 0x22 # r) = find_messages r"
proof (induction s)
  case Nil
  show ?case using find_messages_skip [of "[CHR 0x22]" r] by (simp add: escaped_def)
next
  case (Cons c s)
  have split: "escaped (c # s) = json_char c @ escaped s" by (simp add: escaped_def)
  show ?case
  proof (cases c rule: json_char_cases)
    case plain
    have "match_message (c # escaped s @ CHR 0x22 # r) = None"
    proof (cases "c = CHR ''{''")
      case True
      then show ?thesis using no_role_in_text [OF assms, of s]
        by (simp add: match_message_def after_def starts_with_def)
    qed (rule match_message_Cons)
    then show ?thesis using Cons.IH by (simp add: split plain(1) find_messages_next)
  next
    case (coded p)
    have "CHR ''{'' \<notin> set (CHR 0x5C # p)" using coded(2) by simp
    from find_messages_skip [OF this] show ?thesis using Cons.IH by (simp add: split coded(1) flip: append_Cons)
  qed
qed

lemma find_messages_join:
  assumes "CHR ''{'' \<notin> set r"
  shows "find_messages (join '','' (map message_text ms) @ r) = map (\<lambda>m. (role_str (fst m), escaped (snd m))) ms"
proof (induction ms)
  case Nil
  show ?case using find_messages_skip [OF assms, of "[]"] by simp
next
  case (Cons m ms)
  show ?case
  proof (cases ms)
    case Nil
    then show ?thesis using find_messages_text [of m r] find_messages_skip [OF assms, of "[]"] by simp
  next
    case (Cons m' ms')
    have "join '','' (map message_text (m # ms)) @ r = message_text m @ '','' @ join '','' (map message_text ms) @ r"
      by (simp add: Cons)
    moreover have "find_messages ('','' @ join '','' (map message_text ms) @ r)
        = find_messages (join '','' (map message_text ms) @ r)"
      by (rule find_messages_skip) simp
    ultimately show ?thesis using Cons.IH find_messages_text [of m] by (simp only: list.map)
  qed
qed

lemma field_skips: "match_field key (c # s) = None \<Longrightarrow> extract_string_field key (c # s) = extract_string_field key s"
  by simp

lemma extract_model: "extract_string_field ''model'' (request_text model ms) = escaped model"
proof -
  have e: "expect '':'' ('':'' @ s) = Some s" "expect [CHR 0x22] ([CHR 0x22] @ s) = Some s" for s
    using expect_Cons [of _ "[]" s] by simp_all
  obtain r where r: "request_text model ms = CHR ''{'' # token ''model'' @ '':'' @ [CHR 0x22] @ escaped model @ CHR 0x22 # r"
    by (simp add: request_text_def token_def json_string_def escaped_def)
  have "match_field ''model'' (CHR ''{'' # s) = None" for s
    by (simp add: match_field_def after_def token_def starts_with_def)
  moreover have "match_field ''model'' (token ''model'' @ '':'' @ [CHR 0x22] @ escaped model @ CHR 0x22 # r) = Some (escaped model)"
    unfolding match_field_def after_append bind.bind_lunit e by (simp add: quoted_text_escaped)
  moreover have "token ''model'' @ s = CHR 0x22 # tl (token ''model'' @ s)" for s by (simp add: token_def)
  ultimately show ?thesis unfolding r by (metis extract_string_field.simps(2) option.simps(4) option.simps(5))
qed

lemma message_of_text:
  "message_of (role_str r, c) = \<lparr>ms_role = r, ms_content = c, ms_call_id = [], ms_calls = []\<rparr>"
  by (cases r) (simp_all add: message_of_def)

section \<open>The property\<close>

text \<open>C38: a request is found as it is written, and not decoded.  In a request with any model and messages,
  written as a JSON text, the expressions find the model and exactly the messages, in order and
  with their roles, whatever the texts have in them: no text can pose as a message.  But what is
  found of a text is its JSON form: a text with a quotation mark, a backslash or a new line reaches
  the model with a backslash before it or in its place.\<close>

theorem request_found:
  "extract_string_field ''model'' (request_text model ms) = escaped model
    \<and> extract_messages (request_text model ms) =
        map (\<lambda>(r, c). \<lparr>ms_role = r, ms_content = escaped c, ms_call_id = [], ms_calls = []\<rparr>) ms"
proof
  show "extract_string_field ''model'' (request_text model ms) = escaped model" by (rule extract_model)
  have "match_message (CHR ''{'' # CHR 0x22 # CHR ''m'' # s) = None" for s
    by (simp add: match_message_def after_def expect_def token_def starts_with_def)
  then have "find_messages (''{\"m'' @ s) = find_messages (''\"m'' @ s)" for s by (simp add: find_messages_next)
  moreover have "find_messages (''\"model\":\"'' @ s) = find_messages s" for s
    by (rule find_messages_skip) simp
  moreover have "request_text model ms = ''{\"model\":\"'' @ escaped model @ CHR 0x22 # '',\"messages\":[''
      @ join '','' (map message_text ms) @ '']}''"
    by (simp add: request_text_def json_string_def escaped_def)
  ultimately have "find_messages (request_text model ms) = find_messages (escaped model @ CHR 0x22 # '',\"messages\":[''
      @ join '','' (map message_text ms) @ '']}'')" by simp
  also have "\<dots> = find_messages ('',\"messages\":['' @ join '','' (map message_text ms) @ '']}'')"
    by (rule find_messages_in_text) (simp add: starts_with_def)
  also have "\<dots> = find_messages (join '','' (map message_text ms) @ '']}'')"
    by (rule find_messages_skip) simp
  also have "\<dots> = map (\<lambda>m. (role_str (fst m), escaped (snd m))) ms"
    by (rule find_messages_join) simp
  finally show "extract_messages (request_text model ms) =
      map (\<lambda>(r, c). \<lparr>ms_role = r, ms_content = escaped c, ms_call_id = [], ms_calls = []\<rparr>) ms"
    unfolding extract_messages_def by (simp add: split_beta message_of_text comp_def)
qed

text \<open>A text that ends in a backslash and was not written as JSON closes nothing: the message is lost.\<close>

lemma unescaped_backslash_loses_message:
  "extract_messages (''{\"model\":\"m\",\"messages\":[{\"role\":\"user\",\"content\":\"dir C:'' @ [CHR 0x5C] @ ''\"}]}'') = []"
  by code_simp

end
