(* ===== verification/Bridge.thy ===== *)
theory Bridge
  imports Agent Provider_Config Bridge_Request
begin

text \<open>
  The desktop's bridge to the agent (src/c-bridge/provider.cpp): the service a project is set to,
  one chat session for each project, and the two calls that start a turn and answer the question a
  turn stopped at.  A world is what is outside of the sessions, \<open>'x\<close>, and the part each
  session has for itself, \<open>'d\<close>: its plugins, cache and handles.  What the file system, the
  environment, the services and the tools do are arguments, the record \<open>host\<close>.  The null results
  of an allocation that fails are not modelled.
\<close>

section \<open>The service of a project\<close>

datatype bridge_provider =
    Bp_unknown
  | Bp_stub
  | Bp_anthropic
  | Bp_openai
  | Bp_ollama
  | Bp_managed
  | Bp_openai_compatible

datatype bridge_error =
    Pe_ok
  | Pe_http_error
  | Pe_timeout
  | Pe_invalid_response
  | Pe_unauthorized
  | Pe_rate_limited
  | Pe_quota_exhausted
  | Pe_not_configured
  | Pe_internal
  | Pe_awaiting_confirmation

fun bridge_error_kind_for :: "provider_error_kind \<Rightarrow> bridge_error" where
  "bridge_error_kind_for Provider_http_error = Pe_http_error"
| "bridge_error_kind_for Rate_limited = Pe_rate_limited"
| "bridge_error_kind_for Local_daemon_unreachable = Pe_not_configured"
| "bridge_error_kind_for Model_not_found = Pe_not_configured"
| "bridge_error_kind_for Http_client_failed = Pe_internal"
| "bridge_error_kind_for Malformed_response = Pe_invalid_response"
| "bridge_error_kind_for Protocol_mismatch = Pe_invalid_response"
| "bridge_error_kind_for Bad_request = Pe_invalid_response"
| "bridge_error_kind_for Context_length_exceeded = Pe_invalid_response"

definition provider_not_yet_wired :: "bridge_provider \<Rightarrow> string" where
  "provider_not_yet_wired k = (case k of
     Bp_openai \<Rightarrow> ''provider = \"byok-openai\" is the old spelling. Use ''
       @ ''provider = \"openai\" in project.ai.toml.''
   | Bp_managed \<Rightarrow> ''The managed (subscription) provider is not reachable yet'' @ Toml.em_dash
       @ ''the account portal that issues its tokens is not wired. Use your own key ''
       @ ''instead: set provider to \"anthropic\", \"openai\", \"grok\", or any other ''
       @ ''service in project.ai.toml, or \"ollama\" to run locally.''
   | _ \<Rightarrow> ''provider not yet wired'')"

record resolved =
  rv_kind :: bridge_provider
  rv_model :: string
  rv_endpoint :: string
  rv_provider_id :: string
  rv_base_url :: string
  rv_key_env :: string
  rv_config_error :: string

definition stub_resolved :: resolved where
  "stub_resolved = \<lparr>rv_kind = Bp_stub, rv_model = [], rv_endpoint = [], rv_provider_id = [], rv_base_url = [],
     rv_key_env = [], rv_config_error = []\<rparr>"

definition resolved_of :: "provider_config_error + provider_config \<Rightarrow> resolved" where
  "resolved_of r = (case r of
     Inl e \<Rightarrow> if pe_kind e = Not_found then stub_resolved else stub_resolved\<lparr>rv_config_error := pe_text e\<rparr>
   | Inr cfg \<Rightarrow>
       (let rp = stub_resolved\<lparr>rv_model := pf_model cfg, rv_endpoint := pf_endpoint cfg\<rparr>;
            keyed = (\<lambda>k. rp\<lparr>rv_kind := k, rv_provider_id := pf_provider_id cfg, rv_base_url := pf_base_url cfg,
              rv_key_env := pf_api_key_env cfg\<rparr>)
        in case pf_provider cfg of
             Stub \<Rightarrow> rp
           | Byok_anthropic \<Rightarrow> keyed Bp_anthropic
           | Byok_openai \<Rightarrow> rp\<lparr>rv_kind := Bp_openai\<rparr>
           | Ollama \<Rightarrow> rp\<lparr>rv_kind := Bp_ollama\<rparr>
           | Managed \<Rightarrow> rp\<lparr>rv_kind := Bp_managed\<rparr>
           | Openai_compatible \<Rightarrow> keyed Bp_openai_compatible
           | Default \<Rightarrow> rp))"

text \<open>\<open>std::filesystem::path::parent_path\<close>.\<close>

definition parent_path :: "string \<Rightarrow> string" where
  "parent_path p =
     (let r = dropWhile (\<lambda>c. c \<noteq> CHR ''/'') (rev p); q = dropWhile (\<lambda>c. c = CHR ''/'') r
      in if r = [] then [] else if q = [] then ''/'' else rev q)"

text \<open>\<open>content dir\<close> is what \<open>load_provider_config\<close> finds of the file of a directory.\<close>

definition resolve_provider ::
  "('n, 'y) toml_scheme \<Rightarrow> (string \<Rightarrow> bool) \<Rightarrow> (string \<Rightarrow> bool) \<Rightarrow> (string \<Rightarrow> string option option) \<Rightarrow>
   string \<Rightarrow> resolved" where
  "resolve_provider api is_dir there content project_id =
     (let load = (\<lambda>dir. resolved_of (load_provider_config api dir (content dir)))
      in if project_id = [] then stub_resolved
         else if is_dir project_id then load project_id
         else if there project_id then load (parent_path project_id)
         else stub_resolved)"

section \<open>The provider\<close>

datatype provider_choice =
    Use_stub "programmed list"
  | Use_ollama ollama_options
  | Use_openai openai_options
  | Use_anthropic anthropic_options

definition canned_text :: string where
  "canned_text =
     ''souxmar stub provider'' @ Toml.em_dash @ ''no real model is configured for this project, ''
     @ ''so this reply is generated locally and the request never left your ''
     @ ''machine. Set `provider` in project.ai.toml to talk to a real model.''"

definition env_key :: "(string \<Rightarrow> string option) \<Rightarrow> string \<Rightarrow> string" where
  "env_key env name = (case env name of Some k \<Rightarrow> k | None \<Rightarrow> [])"

definition provider_for :: "(string \<Rightarrow> string option) \<Rightarrow> resolved \<Rightarrow> string + provider_choice" where
  "provider_for env rv =
     (let timeout_env = env ''SOUXMAR_HTTP_TIMEOUT_SECS'' in
      if rv_kind rv = Bp_ollama
      then Inr (Use_ollama (make_ollama
        \<lparr>ol_endpoint = (if rv_endpoint rv \<noteq> [] then rv_endpoint rv else ''http://localhost:11434''),
         ol_timeout = 120, ol_curl = []\<rparr> (env ''SOUXMAR_OLLAMA_TIMEOUT_SECS'')))
      else if rv_kind rv = Bp_openai_compatible
      then let key = (if rv_key_env rv \<noteq> [] then env_key env (rv_key_env rv) else []);
               near = starts_with ''http://localhost'' (rv_base_url rv) \<or> starts_with ''http://127.0.0.1'' (rv_base_url rv)
           in if key = [] \<and> rv_key_env rv \<noteq> [] \<and> \<not> near
              then Inl (''no API key for provider '' @ quoted (rv_provider_id rv) @ '': set $'' @ rv_key_env rv
                @ '' in the environment souxmar runs in.'')
              else Inr (Use_openai (make_openai
                \<lparr>oa_provider_id = rv_provider_id rv, oa_base_url = rv_base_url rv, oa_api_key = key,
                 oa_tools = [], oa_timeout = 120, oa_curl = []\<rparr> timeout_env))
      else if rv_kind rv = Bp_anthropic
      then let env_name = (if rv_key_env rv = [] then ''ANTHROPIC_API_KEY'' else rv_key_env rv);
               key = env_key env env_name
           in if key = []
              then Inl (''no API key for Anthropic: set $'' @ env_name
                @ '' in the environment souxmar runs in. The desktop app reads the key you ''
                @ ''saved during setup out of the OS keychain and sets this for you'' @ Toml.em_dash @ ''if you ''
                @ ''are seeing this, re-run setup from Settings.'')
              else Inr (Use_anthropic (make_anthropic
                \<lparr>an_base_url = (if rv_base_url rv \<noteq> [] then rv_base_url rv else ''https://api.anthropic.com/v1''),
                 an_api_key = key, an_api_version = ''2023-06-01'', an_default_max_tokens = 4096, an_tools = [],
                 an_timeout = 120, an_curl = []\<rparr> timeout_env))
      else if rv_kind rv = Bp_openai \<or> rv_kind rv = Bp_managed
      then Inl (provider_not_yet_wired (rv_kind rv))
      else Inr (Use_stub (program_reply (if rv_model rv = [] then ''stub-model'' else rv_model rv) []
        (empty_response\<lparr>rp_text := canned_text\<rparr>) [])))"

section \<open>Answers to the desktop\<close>

record bridge_call =
  bc_name :: string
  bc_summary :: string
  bc_ok :: bool
  bc_refused :: bool

record bridge_response =
  br_error_kind :: bridge_error
  br_error_text :: string
  br_reply :: string
  br_provider :: bridge_provider
  br_tokens_in :: u64
  br_tokens_out :: u64
  br_calls :: "bridge_call list"
  br_pending_tool :: string
  br_pending_arguments :: string

definition new_response :: "bridge_provider \<Rightarrow> bridge_response" where
  "new_response k = \<lparr>br_error_kind = Pe_ok, br_error_text = [], br_reply = [], br_provider = k, br_tokens_in = 0,
     br_tokens_out = 0, br_calls = [], br_pending_tool = [], br_pending_arguments = []\<rparr>"

definition not_configured :: "string \<Rightarrow> bridge_response \<Rightarrow> bridge_response" where
  "not_configured e out = out\<lparr>br_error_kind := Pe_not_configured, br_error_text := e\<rparr>"

text \<open>The counts are given to the desktop as signed numbers of the same bits.\<close>

definition fill_response :: "bridge_response \<Rightarrow> outcome \<Rightarrow> bridge_response" where
  "fill_response out oc =
     (let out = out\<lparr>br_calls := br_calls out @ concat (map (\<lambda>step. map (\<lambda>call.
                \<lparr>bc_name = ac_name call, bc_summary = ac_summary call, bc_ok = ac_ok call, bc_refused = ac_refused call\<rparr>)
              (sp_calls step)) (oc_steps oc)),
            br_tokens_in := oc_input oc, br_tokens_out := oc_output oc\<rparr>
      in case oc_stop oc of
           Final_answer \<Rightarrow> out\<lparr>br_error_kind := Pe_ok, br_reply := oc_text oc\<rparr>
         | Awaiting_confirmation \<Rightarrow> out\<lparr>br_error_kind := Pe_awaiting_confirmation,
             br_pending_tool := pd_tool (oc_pending oc), br_pending_arguments := pd_arguments (oc_pending oc),
             br_reply := oc_text oc\<rparr>
         | Max_steps_reached \<Rightarrow> out\<lparr>br_error_kind := Pe_ok,
             br_reply := oc_text oc @ (if oc_text oc = [] then [] else newline @ newline)
               @ ''(stopped after the step limit with work still in progress'' @ Toml.em_dash
               @ ''this answer is incomplete.)''\<rparr>
         | _ \<Rightarrow> out\<lparr>br_error_kind := bridge_error_kind_for (oc_error_kind oc), br_error_text := oc_error oc\<rparr>)"

section \<open>Sessions\<close>

text \<open>What the map of sessions keeps between two calls.\<close>

record ('x, 'd) saved =
  sv_session :: "('x \<times> 'd) session"
  sv_history :: "message list"
  sv_pending :: pending
  sv_steps :: u32
  sv_suspended :: bool

text \<open>\<open>br_past\<close> is not in the code: what the sessions did that are gone.\<close>

record ('x, 'd) bridge =
  br_world :: 'x
  br_sessions :: "string \<rightharpoonup> ('x, 'd) saved"
  br_past :: "event list list"

record ('x, 'd) host =
  ho_resolve :: "'x \<Rightarrow> string \<Rightarrow> resolved"
  ho_env :: "'x \<Rightarrow> string \<Rightarrow> string option"
  ho_ask :: "provider_choice \<Rightarrow> ('x \<times> 'd) chat_provider"
  ho_tools :: "('x \<times> 'd) tools"
  ho_read :: "string \<Rightarrow> pvalue option"
  ho_fresh :: "'x \<Rightarrow> 'x \<times> 'd"

definition empty_policy :: "'w policy" where
  "empty_policy = \<lparr>po_overrides = [], po_confirmed_once = [], po_prompter = None\<rparr>"

definition new_session :: "'w \<Rightarrow> 'w session" where
  "new_session w = \<lparr>ss_context = \<lparr>tc_world = w, tc_budget = None\<rparr>, ss_policy = empty_policy,
     ss_audit = None, ss_meters = [], ss_events = []\<rparr>"

definition enter_world :: "'x \<Rightarrow> ('x \<times> 'd) session \<Rightarrow> ('x \<times> 'd) session" where
  "enter_world x s = s\<lparr>ss_context := (ss_context s)\<lparr>tc_world := (x, snd (tc_world (ss_context s)))\<rparr>\<rparr>"

definition forget :: "string \<Rightarrow> ('x, 'd) bridge \<Rightarrow> ('x, 'd) bridge" where
  "forget project b = (case br_sessions b project of
     None \<Rightarrow> b
   | Some sv \<Rightarrow> b\<lparr>br_sessions := (br_sessions b)(project := None),
       br_past := br_past b @ [ss_events (sv_session sv)]\<rparr>)"

definition keep_or_drop ::
  "string \<Rightarrow> outcome \<Rightarrow> ('x \<times> 'd) session \<Rightarrow> ('x, 'd) bridge \<Rightarrow> ('x, 'd) bridge" where
  "keep_or_drop project oc s b =
     (let b = b\<lparr>br_world := fst (tc_world (ss_context s))\<rparr>
      in if oc_stop oc = Awaiting_confirmation
         then b\<lparr>br_sessions := (br_sessions b)(project \<mapsto> \<lparr>sv_session = s, sv_history = oc_history oc,
           sv_pending = oc_pending oc, sv_steps = oc_steps_used oc, sv_suspended = True\<rparr>)\<rparr>
         else b\<lparr>br_sessions := (br_sessions b)(project := None), br_past := br_past b @ [ss_events s]\<rparr>)"

definition chat_options :: "string \<Rightarrow> u32 \<Rightarrow> agent_options" where
  "chat_options model used = \<lparr>op_model = model, op_system_prompt = [], op_max_steps = 8, op_allowed_tools = [],
     op_temperature = Some 0, op_suspend = True, op_steps_already_used = used\<rparr>"

definition chat_send ::
  "('x, 'd) host \<Rightarrow> string option \<Rightarrow> string \<Rightarrow> ('x, 'd) bridge \<Rightarrow>
   ((string + bridge_response) \<times> ('x, 'd) bridge) option" where
  "chat_send h request project b = (case request of
     None \<Rightarrow> Some (Inl ''request_json is NULL'', b)
   | Some json \<Rightarrow>
       (let rv = ho_resolve h (br_world b) project;
            m = extract_string_field ''model'' json;
            model = (if rv_model rv \<noteq> [] then rv_model rv else if m = [] then ''stub-model'' else m);
            out = new_response (rv_kind rv)
        in if rv_config_error rv \<noteq> [] then Some (Inr (not_configured (rv_config_error rv) out), b)
           else case provider_for (ho_env h (br_world b)) rv of
               Inl e \<Rightarrow> Some (Inr (not_configured e out), b)
             | Inr choice \<Rightarrow>
                 (let b = forget project b
                  in case run_agent_turn (ho_read h) (ho_ask h choice) (ho_tools h) (chat_options model 0)
                       (extract_messages json) (new_session (ho_fresh h (br_world b))) of
                     None \<Rightarrow> None
                   | Some (oc, s) \<Rightarrow> Some (Inr (fill_response out oc), keep_or_drop project oc s b))))"

definition chat_confirm ::
  "('x, 'd) host \<Rightarrow> string \<Rightarrow> bool \<Rightarrow> ('x, 'd) bridge \<Rightarrow>
   ((string + bridge_response) \<times> ('x, 'd) bridge) option" where
  "chat_confirm h project allow b = (case br_sessions b project of
     None \<Rightarrow> Some (Inl ''no suspended agent turn for this project'', b)
   | Some sv \<Rightarrow>
       if \<not> sv_suspended sv then Some (Inl ''no suspended agent turn for this project'', b)
       else
         (let rv = ho_resolve h (br_world b) project; out = new_response (rv_kind rv)
          in case provider_for (ho_env h (br_world b)) rv of
               Inl e \<Rightarrow> Some (Inr (not_configured e out), forget project b)
             | Inr choice \<Rightarrow>
                 (case resume_agent_turn (ho_read h) (ho_ask h choice) (ho_tools h)
                     (chat_options (if rv_model rv = [] then ''stub-model'' else rv_model rv) (sv_steps sv))
                     (sv_history sv) (sv_pending sv) allow (enter_world (br_world b) (sv_session sv)) of
                    None \<Rightarrow> None
                  | Some (oc, s) \<Rightarrow> Some (Inr (fill_response out oc), keep_or_drop project oc s b))))"

section \<open>Calls in any order\<close>

datatype bridge_op =
    Send "string option" string
  | Confirm string bool

definition bridge_step ::
  "('x, 'd) host \<Rightarrow> bridge_op \<Rightarrow> ('x, 'd) bridge \<Rightarrow> ((string + bridge_response) \<times> ('x, 'd) bridge) option" where
  "bridge_step h a b = (case a of
     Send request project \<Rightarrow> chat_send h request project b
   | Confirm project allow \<Rightarrow> chat_confirm h project allow b)"

fun bridge_run :: "('x, 'd) host \<Rightarrow> bridge_op list \<Rightarrow> ('x, 'd) bridge \<Rightarrow> ('x, 'd) bridge option" where
  "bridge_run h [] b = Some b"
| "bridge_run h (a # as) b = (case bridge_step h a b of
     None \<Rightarrow> None | Some (r, b) \<Rightarrow> bridge_run h as b)"

definition new_bridge :: "'x \<Rightarrow> ('x, 'd) bridge" where
  "new_bridge x = \<lparr>br_world = x, br_sessions = \<lambda>p. None, br_past = []\<rparr>"

text \<open>What every session in the bridge has, \<open>K\<close>, and what was done by those that are gone, \<open>E\<close>.\<close>

definition bridge_all ::
  "(('x, 'd) saved \<Rightarrow> bool) \<Rightarrow> (event list \<Rightarrow> bool) \<Rightarrow> ('x, 'd) bridge \<Rightarrow> bool" where
  "bridge_all K E b = ((\<forall>p sv. br_sessions b p = Some sv \<longrightarrow> K sv) \<and> (\<forall>evs \<in> set (br_past b). E evs))"

lemma bridge_all_new [simp]: "bridge_all K E (new_bridge x)"
  by (simp add: bridge_all_def new_bridge_def)

text \<open>
  The contract of a turn: what \<open>K\<close> says of a session that waits and \<open>E\<close> of the events of any
  session follows for a turn that starts with a request \<open>A\<close> admits and for one that is resumed.
\<close>

locale chat_turns =
  fixes h :: "('x, 'd) host" and K :: "('x, 'd) saved \<Rightarrow> bool" and E :: "event list \<Rightarrow> bool"
    and A :: "string \<Rightarrow> bool"
  assumes kept: "K sv \<Longrightarrow> E (ss_events (sv_session sv))"
    and starts: "A json \<Longrightarrow> run_agent_turn (ho_read h) (ho_ask h choice) (ho_tools h) (chat_options model 0)
        (extract_messages json) (new_session w) = Some (oc, s) \<Longrightarrow>
      E (ss_events s) \<and> (oc_stop oc = Awaiting_confirmation \<longrightarrow>
        K \<lparr>sv_session = s, sv_history = oc_history oc, sv_pending = oc_pending oc, sv_steps = oc_steps_used oc,
          sv_suspended = True\<rparr>)"
    and resumes: "K sv \<Longrightarrow> resume_agent_turn (ho_read h) (ho_ask h choice) (ho_tools h) (chat_options model (sv_steps sv))
        (sv_history sv) (sv_pending sv) allow (enter_world x (sv_session sv)) = Some (oc, s) \<Longrightarrow>
      E (ss_events s) \<and> (oc_stop oc = Awaiting_confirmation \<longrightarrow>
        K \<lparr>sv_session = s, sv_history = oc_history oc, sv_pending = oc_pending oc, sv_steps = oc_steps_used oc,
          sv_suspended = True\<rparr>)"
begin

lemma forget_all: "bridge_all K E b \<Longrightarrow> bridge_all K E (forget p b)"
  using kept unfolding bridge_all_def forget_def by (auto split: option.split if_splits)

lemma keep_or_drop_all:
  assumes "bridge_all K E b" "E (ss_events s) \<and> (oc_stop oc = Awaiting_confirmation \<longrightarrow>
    K \<lparr>sv_session = s, sv_history = oc_history oc, sv_pending = oc_pending oc, sv_steps = oc_steps_used oc,
      sv_suspended = True\<rparr>)"
  shows "bridge_all K E (keep_or_drop p oc s b)"
  using assms unfolding bridge_all_def keep_or_drop_def Let_def by (auto split: if_splits)

lemma send_all:
  assumes "bridge_all K E b" "\<And>json. request = Some json \<Longrightarrow> A json" "chat_send h request p b = Some (r, b')"
  shows "bridge_all K E b'"
proof (cases request)
  case None
  then show ?thesis using assms(1,3) by (simp add: chat_send_def)
next
  case (Some json)
  have "A json" by (rule assms(2) [OF Some])
  from assms(1,3) show ?thesis unfolding chat_send_def Some option.case Let_def
    by (auto split: if_splits sum.splits option.splits
        intro: keep_or_drop_all [OF forget_all starts [OF \<open>A json\<close>]])
qed

lemma confirm_all:
  assumes "bridge_all K E b" "chat_confirm h p allow b = Some (r, b')"
  shows "bridge_all K E b'"
proof (cases "br_sessions b p")
  case None
  then show ?thesis using assms by (simp add: chat_confirm_def)
next
  case (Some sv)
  have "K sv" using assms(1) Some unfolding bridge_all_def by blast
  from assms show ?thesis unfolding chat_confirm_def Some option.case Let_def
    by (auto split: if_splits sum.splits option.splits
        intro: forget_all keep_or_drop_all [OF _ resumes [OF \<open>K sv\<close>]])
qed

lemma run_all:
  assumes "bridge_run h as b = Some b'" "\<And>json p. Send (Some json) p \<in> set as \<Longrightarrow> A json" "bridge_all K E b"
  shows "bridge_all K E b'"
  using assms
proof (induction as arbitrary: b)
  case (Cons a as)
  from Cons.prems(1) obtain r b1 where s: "bridge_step h a b = Some (r, b1)" "bridge_run h as b1 = Some b'"
    by (auto split: option.splits)
  have "bridge_all K E b1"
  proof (cases a)
    case (Send request p)
    then show ?thesis using s(1) Cons.prems(2) by (intro send_all [OF Cons.prems(3)]) (auto simp: bridge_step_def)
  next
    case (Confirm p allow)
    then show ?thesis using s(1) by (intro confirm_all [OF Cons.prems(3)]) (simp add: bridge_step_def)
  qed
  then show ?case by (intro Cons.IH [OF s(2)]) (use Cons.prems(2) in auto)
qed simp

end

section \<open>Every tool run is authorised\<close>

definition own_level :: "'w tools \<Rightarrow> string \<Rightarrow> confirmation" where
  "own_level ts name = (case find_tool ts name of Some t \<Rightarrow> tl_confirmation t | None \<Rightarrow> Auto)"

lemma own_level_empty: "level_of ts empty_policy = own_level ts"
  by (rule ext) (simp add: level_of_def own_level_def effective_confirmation_def empty_policy_def split: option.split)

lemma new_session_ok: "turn_ok ts (own_level ts) {} (new_session w)"
  using session_ok_start [of "new_session w" ts]
  by (simp add: new_session_def own_level_empty turn_ok_def lenient_def) (simp add: empty_policy_def)

definition saved_ok :: "('x \<times> 'd) tools \<Rightarrow> ('x, 'd) saved \<Rightarrow> bool" where
  "saved_ok ts sv = (turn_ok ts (own_level ts) {} (sv_session sv) \<and> sv_suspended sv
     \<and> needs_user_decision ts (ss_policy (sv_session sv)) (pd_tool (sv_pending sv)))"

lemma turn_authorised: "turn_ok ts level once s \<Longrightarrow> authorised level once (ss_events s)"
  by (simp add: turn_ok_def session_ok_def)

lemma turn_waits:
  "run_agent_turn rd pv ts op ms s = Some (out, s') \<Longrightarrow> oc_stop out = Awaiting_confirmation \<Longrightarrow>
     needs_user_decision ts (ss_policy s') (pd_tool (oc_pending out))"
  unfolding run_agent_turn_def run_loop_def Let_def by (rule steps_wait)

lemma enter_world_frame [simp]:
  "ss_policy (enter_world x s) = ss_policy s" "ss_events (enter_world x s) = ss_events s"
  "turn_ok ts level once (enter_world x s) = turn_ok ts level once s"
  by (simp_all add: enter_world_def)

definition authorised_if_ok :: "('x \<times> 'd) tools \<Rightarrow> event list \<Rightarrow> bool" where
  "authorised_if_ok ts evs = (tools_ok ts \<longrightarrow> authorised (own_level ts) {} evs)"

definition saved_if_ok :: "('x \<times> 'd) tools \<Rightarrow> ('x, 'd) saved \<Rightarrow> bool" where
  "saved_if_ok ts sv = (tools_ok ts \<longrightarrow> saved_ok ts sv)"

lemma start_authorised:
  assumes "run_agent_turn rd pv ts op ms (new_session w) = Some (oc, s)" "tools_ok ts"
  shows "turn_ok ts (own_level ts) {} s"
  using gate.turn_keeps [OF _ assms(1), of "own_level ts" "{}"] assms(2) new_session_ok [of ts w] by simp

lemma resume_authorised:
  assumes "resume_agent_turn rd pv ts op (sv_history sv) (sv_pending sv) allow (enter_world x (sv_session sv)) = Some (oc, s)"
    "tools_ok ts" "saved_ok ts sv"
  shows "turn_ok ts (own_level ts) {} s"
proof -
  have "map_of (po_overrides (ss_policy (sv_session sv))) (pd_tool (sv_pending sv)) = None"
    using assms(3) by (intro waiting_not_overridden) (auto simp: saved_ok_def turn_ok_def)
  then show ?thesis using assms(3) by (intro resume_turn_ok [OF _ assms(2) _ assms(1)]) (simp_all add: saved_ok_def)
qed

interpretation granted: chat_turns h "saved_if_ok (ho_tools h)" "authorised_if_ok (ho_tools h)" "\<lambda>json. True"
  for h :: "('x, 'd) host"
proof
  show "saved_if_ok (ho_tools h) sv \<Longrightarrow> authorised_if_ok (ho_tools h) (ss_events (sv_session sv))" for sv :: "('x, 'd) saved"
    unfolding saved_if_ok_def authorised_if_ok_def saved_ok_def using turn_authorised by blast
next
  fix json choice model w oc and s :: "('x \<times> 'd) session"
  assume r: "run_agent_turn (ho_read h) (ho_ask h choice) (ho_tools h) (chat_options model 0)
    (extract_messages json) (new_session w) = Some (oc, s)"
  show "authorised_if_ok (ho_tools h) (ss_events s) \<and> (oc_stop oc = Awaiting_confirmation \<longrightarrow>
      saved_if_ok (ho_tools h) \<lparr>sv_session = s, sv_history = oc_history oc, sv_pending = oc_pending oc,
        sv_steps = oc_steps_used oc, sv_suspended = True\<rparr>)"
    unfolding saved_if_ok_def authorised_if_ok_def saved_ok_def saved.simps
    using start_authorised [OF r] turn_authorised turn_waits [OF r] by blast
next
  fix sv :: "('x, 'd) saved" and choice model allow x oc s
  assume sv: "saved_if_ok (ho_tools h) sv"
    and r: "resume_agent_turn (ho_read h) (ho_ask h choice) (ho_tools h) (chat_options model (sv_steps sv))
      (sv_history sv) (sv_pending sv) allow (enter_world x (sv_session sv)) = Some (oc, s)"
  have "tools_ok (ho_tools h) \<Longrightarrow> turn_ok (ho_tools h) (own_level (ho_tools h)) {} s"
    using sv resume_authorised [OF r] unfolding saved_if_ok_def by blast
  then show "authorised_if_ok (ho_tools h) (ss_events s) \<and> (oc_stop oc = Awaiting_confirmation \<longrightarrow>
      saved_if_ok (ho_tools h) \<lparr>sv_session = s, sv_history = oc_history oc, sv_pending = oc_pending oc,
        sv_steps = oc_steps_used oc, sv_suspended = True\<rparr>)"
    unfolding saved_if_ok_def authorised_if_ok_def saved_ok_def saved.simps
    using turn_authorised resume_wait [OF r] by blast
qed

section \<open>Every request is a conversation\<close>

definition asked_complete :: "event list \<Rightarrow> bool" where
  "asked_complete evs = (\<forall>r. Chatted r \<in> set evs \<longrightarrow> complete (cr_messages r))"

lemma requests_complete_iff: "requests_complete s \<longleftrightarrow> asked_complete (ss_events s)"
  unfolding requests_complete_def asked_complete_def requests_def
  by (auto split: event.splits)

text \<open>A request that gives no result of a tool is a conversation without calls.\<close>

definition no_results :: "string \<Rightarrow> bool" where
  "no_results json = list_all (\<lambda>m. ms_role m \<noteq> Tool_role) (extract_messages json)"

lemma complete_extracted:
  "no_results json \<Longrightarrow> complete (\<lparr>ms_role = System, ms_content = p, ms_call_id = [], ms_calls = []\<rparr> # extract_messages json)"
proof -
  have "list_all (\<lambda>m. ms_role m \<noteq> Tool_role) (map message_of ms) \<Longrightarrow> transcript [] (map message_of ms) = Some []" for ms
    by (induction ms) (auto simp: message_of_def split: role.split if_splits)
  then show "no_results json \<Longrightarrow> complete (\<lparr>ms_role = System, ms_content = p, ms_call_id = [], ms_calls = []\<rparr> # extract_messages json)"
    by (simp add: complete_def no_results_def extract_messages_def)
qed

definition distinct_services :: "('x, 'd) host \<Rightarrow> bool" where
  "distinct_services h = (\<forall>c. distinct_replies (ho_ask h c))"

definition saved_sound :: "('x, 'd) saved \<Rightarrow> bool" where
  "saved_sound sv = (asked_complete (ss_events (sv_session sv)) \<and> distinct (map tk_id (pd_queued (sv_pending sv)))
     \<and> transcript [] (sv_history sv) = Some (pd_id (sv_pending sv) # map tk_id (pd_queued (sv_pending sv))))"

lemma waiting_sound:
  assumes "sound_outcome oc" "requests_complete s" "distinct_pending oc"
  shows "asked_complete (ss_events s) \<and> (oc_stop oc = Awaiting_confirmation \<longrightarrow>
    saved_sound \<lparr>sv_session = s, sv_history = oc_history oc, sv_pending = oc_pending oc, sv_steps = n, sv_suspended = True\<rparr>)"
  using assms by (cases "oc_stop oc = Awaiting_confirmation")
    (simp_all add: requests_complete_iff saved_sound_def sound_outcome_def distinct_pending_def)

definition sound_if_distinct :: "('x, 'd) host \<Rightarrow> ('x, 'd) saved \<Rightarrow> bool" where
  "sound_if_distinct h sv = (distinct_services h \<longrightarrow> saved_sound sv)"

definition complete_if_distinct :: "('x, 'd) host \<Rightarrow> event list \<Rightarrow> bool" where
  "complete_if_distinct h evs = (distinct_services h \<longrightarrow> asked_complete evs)"

interpretation conversing: chat_turns h "sound_if_distinct h" "complete_if_distinct h" no_results
  for h :: "('x, 'd) host"
proof
  show "sound_if_distinct h sv \<Longrightarrow> complete_if_distinct h (ss_events (sv_session sv))" for sv :: "('x, 'd) saved"
    by (simp add: sound_if_distinct_def complete_if_distinct_def saved_sound_def)
next
  fix json choice model w oc and s :: "('x \<times> 'd) session"
  assume j: "no_results json" and r: "run_agent_turn (ho_read h) (ho_ask h choice) (ho_tools h) (chat_options model 0)
    (extract_messages json) (new_session w) = Some (oc, s)"
  have "requests_complete (new_session w)" by (simp add: requests_complete_iff asked_complete_def new_session_def)
  from transcript_loop [OF r [unfolded run_agent_turn_def Let_def] complete_extracted [OF j] this]
  show "complete_if_distinct h (ss_events s) \<and> (oc_stop oc = Awaiting_confirmation \<longrightarrow>
      sound_if_distinct h \<lparr>sv_session = s, sv_history = oc_history oc, sv_pending = oc_pending oc,
        sv_steps = oc_steps_used oc, sv_suspended = True\<rparr>)"
    unfolding sound_if_distinct_def complete_if_distinct_def distinct_services_def using waiting_sound by blast
next
  fix sv :: "('x, 'd) saved" and choice model allow x oc s
  assume sv: "sound_if_distinct h sv"
    and r: "resume_agent_turn (ho_read h) (ho_ask h choice) (ho_tools h) (chat_options model (sv_steps sv))
      (sv_history sv) (sv_pending sv) allow (enter_world x (sv_session sv)) = Some (oc, s)"
  show "complete_if_distinct h (ss_events s) \<and> (oc_stop oc = Awaiting_confirmation \<longrightarrow>
      sound_if_distinct h \<lparr>sv_session = s, sv_history = oc_history oc, sv_pending = oc_pending oc,
        sv_steps = oc_steps_used oc, sv_suspended = True\<rparr>)"
  proof (cases "distinct_services h")
    case True
    then have "saved_sound sv" using sv by (simp add: sound_if_distinct_def)
    then have "sound_outcome oc \<and> requests_complete s \<and> (distinct_replies (ho_ask h choice) \<longrightarrow> distinct_pending oc)"
      by (intro transcript_resume [OF r]) (simp_all add: saved_sound_def requests_complete_iff)
    then show ?thesis using True waiting_sound
      unfolding sound_if_distinct_def complete_if_distinct_def distinct_services_def by blast
  qed (simp add: sound_if_distinct_def complete_if_distinct_def)
qed

section \<open>Calls return\<close>

lemma send_settles:
  assumes "settling rd"
  shows "settles (\<lambda>k. chat_send (h\<lparr>ho_read := rd k\<rparr>) request p b)"
proof (cases request)
  case (Some json)
  let ?rv = "ho_resolve h (br_world b) p"
  show ?thesis
  proof (cases "rv_config_error ?rv = [] \<and> (\<exists>c. provider_for (ho_env h (br_world b)) ?rv = Inr c)")
    case True
    then obtain choice where c: "provider_for (ho_env h (br_world b)) ?rv = Inr choice" by blast
    define out where "out = new_response (rv_kind ?rv)"
    define model where "model = (let m = extract_string_field ''model'' json
      in if rv_model ?rv \<noteq> [] then rv_model ?rv else if m = [] then ''stub-model'' else m)"
    define g where "g = (\<lambda>k :: nat. \<lambda>(oc, s). Some (Inr (fill_response out oc) :: string + bridge_response,
      keep_or_drop p oc s (forget p b)))"
    have g: "settles (\<lambda>k. g k y)" for y by (cases y) (simp add: g_def)
    have "chat_send (h\<lparr>ho_read := rd k\<rparr>) request p b = (case run_agent_turn (rd k) (ho_ask h choice) (ho_tools h)
        (chat_options model 0) (extract_messages json) (new_session (ho_fresh h (br_world (forget p b)))) of
        None \<Rightarrow> None | Some y \<Rightarrow> g k y)" for k
      using True c by (simp add: chat_send_def Some Let_def g_def out_def model_def case_prod_beta split: option.split split del: if_split)
    then show ?thesis using settles_bind [where g = g, OF turn_settles [OF assms] g] by simp
  next
    case False
    then show ?thesis
      by (cases "rv_config_error ?rv = []"; cases "provider_for (ho_env h (br_world b)) ?rv")
        (simp_all add: chat_send_def Some Let_def)
  qed
qed (simp add: chat_send_def)

lemma confirm_settles:
  assumes "settling rd"
  shows "settles (\<lambda>k. chat_confirm (h\<lparr>ho_read := rd k\<rparr>) p allow b)"
proof (cases "br_sessions b p")
  case (Some sv)
  let ?rv = "ho_resolve h (br_world b) p"
  show ?thesis
  proof (cases "sv_suspended sv \<and> (\<exists>c. provider_for (ho_env h (br_world b)) ?rv = Inr c)")
    case True
    then obtain choice where c: "provider_for (ho_env h (br_world b)) ?rv = Inr choice" by blast
    define out where "out = new_response (rv_kind ?rv)"
    define model where "model = (if rv_model ?rv = [] then ''stub-model'' else rv_model ?rv)"
    define g where "g = (\<lambda>k :: nat. \<lambda>(oc, s). Some (Inr (fill_response out oc) :: string + bridge_response,
      keep_or_drop p oc s b))"
    have g: "settles (\<lambda>k. g k y)" for y by (cases y) (simp add: g_def)
    have "chat_confirm (h\<lparr>ho_read := rd k\<rparr>) p allow b = (case resume_agent_turn (rd k) (ho_ask h choice) (ho_tools h)
        (chat_options model (sv_steps sv)) (sv_history sv) (sv_pending sv) allow
        (enter_world (br_world b) (sv_session sv)) of None \<Rightarrow> None | Some y \<Rightarrow> g k y)" for k
      using True c by (simp add: chat_confirm_def Some Let_def g_def out_def model_def case_prod_beta split: option.split split del: if_split)
    then show ?thesis using settles_bind [where g = g, OF resume_settles [OF assms] g] by simp
  next
    case False
    then show ?thesis
      by (cases "sv_suspended sv"; cases "provider_for (ho_env h (br_world b)) ?rv")
        (simp_all add: chat_confirm_def Some Let_def)
  qed
qed (simp add: chat_confirm_def)

lemma bridge_settles:
  assumes "settling rd"
  shows "settles (\<lambda>k. bridge_run (h\<lparr>ho_read := rd k\<rparr>) as b)"
proof (induction as arbitrary: b)
  case (Cons a as)
  define g where "g = (\<lambda>k. \<lambda>(r :: string + bridge_response, b). bridge_run (h\<lparr>ho_read := rd k\<rparr>) as b)"
  have g: "settles (\<lambda>k. g k y)" for y by (cases y) (simp add: g_def Cons.IH)
  have "settles (\<lambda>k. bridge_step (h\<lparr>ho_read := rd k\<rparr>) a b)"
    by (cases a) (simp_all add: bridge_step_def send_settles [OF assms] confirm_settles [OF assms])
  from settles_bind [where g = g, OF this g] show ?case
    by (rule settles_eqI) (auto simp: g_def split: option.split)
qed simp

section \<open>Examples\<close>

text \<open>A project without a configuration whose model removes something once and then answers.\<close>

definition desk_tool :: "(nat \<times> nat) tool" where
  "desk_tool = \<lparr>tl_name = ''rm'', tl_description = ''Remove'', tl_category = ''Pipeline'',
     tl_confirmation = Confirm_once, tl_input_doc = [], tl_output_doc = [],
     tl_handler = (\<lambda>v ctx. (Returned \<lparr>tr_data = v, tr_summary = ''done'', tr_error = None\<rparr>, ctx))\<rparr>"

definition desk_model :: "(nat \<times> nat) chat_provider" where
  "desk_model req w =
     (if ms_role (last (cr_messages req)) = Tool_role then (Inr (empty_response\<lparr>rp_text := ''bye''\<rparr>), w)
      else (Inr (empty_response\<lparr>rp_calls := [call_of ''1'' ''rm'']\<rparr>), w))"

definition desk_host :: "(string \<Rightarrow> pvalue option) \<Rightarrow> (nat, nat) host" where
  "desk_host rd = \<lparr>ho_resolve = (\<lambda>x p. stub_resolved), ho_env = (\<lambda>x n. None), ho_ask = (\<lambda>c. desk_model),
     ho_tools = [(''rm'', desk_tool)], ho_read = rd, ho_fresh = (\<lambda>x. (x, 0))\<rparr>"

definition desk_request :: string where
  "desk_request = ''{\"role\":\"user\",\"content\":\"hi\"}''"

definition desk_ops :: "bridge_op list" where
  "desk_ops = [Send (Some desk_request) ''p'', Confirm ''p'' True]"

definition shown :: "event list \<Rightarrow> event list" where
  "shown evs = filter (\<lambda>e. case e of Chatted _ \<Rightarrow> False | _ \<Rightarrow> True) evs"

lemma desk_tools_ok: "tools_ok (ho_tools (desk_host rd))"
  by (simp add: tools_ok_def desk_host_def desk_tool_def)

lemma desk_services: "distinct_services (desk_host rd)"
  by (auto simp: distinct_services_def distinct_replies_def desk_host_def desk_model_def empty_response_def
      call_of_def split: if_splits)

lemma desk_runs:
  obtains b where "bridge_run (desk_host (parse_arguments 1 no_documents)) desk_ops (new_bridge 0) = Some b"
    "map shown (br_past b) = [[Approved ''rm'', Ran ''rm'']]" "length (concat (br_past b)) = 4"
proof -
  have "case bridge_run (desk_host (parse_arguments 1 no_documents)) desk_ops (new_bridge 0) of
      Some b \<Rightarrow> map shown (br_past b) = [[Approved ''rm'', Ran ''rm'']] \<and> length (concat (br_past b)) = 4
    | None \<Rightarrow> False" by code_simp
  then show ?thesis using that by (auto split: option.splits)
qed

text \<open>A service on another machine whose name begins like the local one is asked without a key.\<close>

lemma near_by_prefix:
  "provider_for (\<lambda>n. None) (stub_resolved\<lparr>rv_kind := Bp_openai_compatible, rv_base_url := ''http://localhost.example.org'',
     rv_key_env := ''K''\<rparr>) = Inr (Use_openai \<lparr>oa_provider_id = ''openai-compatible'',
       oa_base_url = ''http://localhost.example.org'', oa_api_key = [], oa_tools = [], oa_timeout = 120, oa_curl = ''curl''\<rparr>)"
  by code_simp

text \<open>The answer to a question asks the model of the configuration or \<open>stub-model\<close>, never the one the
  request named: with no model configured the turn goes on with another model than it began with.\<close>

lemma confirm_drops_model:
  "map (\<lambda>e. case e of Chatted r \<Rightarrow> cr_model r | _ \<Rightarrow> []) (case bridge_run (desk_host (parse_arguments 1 no_documents))
     [Send (Some (''{\"model\":\"m\"}'' @ desk_request)) ''p'', Confirm ''p'' True] (new_bridge 0) of
       Some b \<Rightarrow> concat (br_past b) | None \<Rightarrow> [])
   = [''m'', [], [], ''stub-model'']"
  by code_simp

section \<open>The properties\<close>

text \<open>C7: whatever is sent and answered, no tool runs against its gate.  Over any calls of the bridge, for
  any projects in any order, with any models and any answers, in every session, gone or waiting, each
  run of a tool is authorised by the tool's own level: it is free, or the user approved it before,
  or, for one that always asks, the user's approval is what came right before it.  A session is kept
  only while it waits for a tool that needs the user.\<close>

theorem bridge_runs_authorised:
  assumes "tools_ok (ho_tools h)" "bridge_run h as (new_bridge x) = Some b"
  shows "(\<forall>evs \<in> set (br_past b). authorised (own_level (ho_tools h)) {} evs)
    \<and> (\<forall>p sv. br_sessions b p = Some sv \<longrightarrow> sv_suspended sv
        \<and> authorised (own_level (ho_tools h)) {} (ss_events (sv_session sv))
        \<and> needs_user_decision (ho_tools h) (ss_policy (sv_session sv)) (pd_tool (sv_pending sv)))"
proof -
  have "bridge_all (saved_if_ok (ho_tools h)) (authorised_if_ok (ho_tools h)) b"
    by (rule granted.run_all [OF assms(2)]) simp_all
  then show ?thesis using assms(1) turn_authorised
    unfolding bridge_all_def saved_if_ok_def authorised_if_ok_def saved_ok_def by blast
qed

theorem bridge_runs_authorised_witness:
  "\<exists>b :: (nat, nat) bridge. map shown (br_past b) = [[Approved ''rm'', Ran ''rm'']]
    \<and> (\<forall>evs \<in> set (br_past b). authorised (own_level (ho_tools (desk_host (parse_arguments 1 no_documents)))) {} evs)"
proof -
  obtain b where b: "bridge_run (desk_host (parse_arguments 1 no_documents)) desk_ops (new_bridge 0) = Some b"
    "map shown (br_past b) = [[Approved ''rm'', Ran ''rm'']]" by (rule desk_runs)
  from bridge_runs_authorised [OF desk_tools_ok b(1)] have "\<forall>evs \<in> set (br_past b).
      authorised (own_level (ho_tools (desk_host (parse_arguments 1 no_documents)))) {} evs" by (rule conjunct1)
  with b(2) show ?thesis by (intro exI [of _ b] conjI)
qed



text \<open>Every call of the bridge returns.  When no document a model sends contains itself, any calls, in any
  order, all return, with the same sessions for every large enough amount of fuel.\<close>

theorem bridge_calls_return:
  assumes "finite_documents api"
  shows "\<exists>fuel b'. \<forall>fuel' \<ge> fuel. bridge_run (h\<lparr>ho_read := parse_arguments fuel' api\<rparr>) as b = Some b'"
  using bridge_settles [OF parse_arguments_settling [OF assms]] unfolding settles_def .

theorem bridge_calls_return_witness:
  "\<exists>fuel b'. \<forall>fuel' \<ge> fuel. bridge_run (desk_host (\<lambda>s. None)\<lparr>ho_read := parse_arguments fuel' no_documents\<rparr>)
     desk_ops (new_bridge 0) = Some b'"
  by (rule bridge_calls_return [OF no_documents_finite])

end
