(* ===== verification/Parser.thy ===== *)
theory Parser
  imports Yaml Dag File_System
begin

text \<open>
  The pipeline parser (src/pipeline/parser.cpp, include/souxmar/pipeline/parser.h): YAML nodes to
  values with the stage-reference shorthand, and the checks on version, stages and ids.  Every parsed
  pipeline is well formed, and parsing returns on every document without alias cycles.
\<close>

section \<open>Errors\<close>

record parse_error =
  pe_message :: string
  pe_line :: "nat option"
  pe_column :: "nat option"

definition make_error :: "string \<Rightarrow> parse_error" where
  "make_error m = \<lparr>pe_message = m, pe_line = None, pe_column = None\<rparr>"

definition from_mark :: "string \<Rightarrow> int \<times> int \<Rightarrow> parse_error" where
  "from_mark m mark =
     \<lparr>pe_message = m,
      pe_line = (if 0 \<le> fst mark then Some (nat (fst mark + 1)) else None),
      pe_column = (if 0 \<le> snd mark then Some (nat (snd mark + 1)) else None)\<rparr>"

definition backquoted :: "string \<Rightarrow> string" where
  "backquoted s = ''`'' @ s @ ''`''"

section \<open>Values\<close>

definition recognise_stage_ref :: "('n, 'x) yaml_scheme \<Rightarrow> 'n \<Rightarrow> string option" where
  "recognise_stage_ref api n =
     (if y_type api n \<noteq> Map_node \<or> length (y_entries api n) \<noteq> 1 then None
      else case y_get api n ''from'' of
             None \<Rightarrow> None
           | Some f \<Rightarrow> if \<not> is_scalar api f then None else Some (y_scalar api f))"

definition scalar_value :: "('n, 'x) yaml_scheme \<Rightarrow> 'n \<Rightarrow> pvalue" where
  "scalar_value api n =
     (let raw = y_scalar api n
      in if y_tag api n = ''!'' then String raw
         else if raw = ''true'' \<or> raw = ''True'' then Boolean True
         else if raw = ''false'' \<or> raw = ''False'' then Boolean False
         else case y_double api n of
                Some d \<Rightarrow> if list_all (\<lambda>c. c \<in> set ''0123456789-+.eE_'') raw then Number d else String raw
              | None \<Rightarrow> String raw)"

fun to_value :: "nat \<Rightarrow> ('n, 'x) yaml_scheme \<Rightarrow> 'n \<Rightarrow> (parse_error + pvalue) option" where
  "to_value 0 api n = None"
| "to_value (Suc fuel) api n =
     (case recognise_stage_ref api n of
        Some r \<Rightarrow>
          Some (if r = [] then Inl (from_mark (backquoted ''from:'' @ '' must reference a non-empty stage id'') (y_mark api n))
                else Inr (Stage_ref r))
      | None \<Rightarrow>
          (case y_type api n of
             Null_node \<Rightarrow> Some (Inr Null)
           | Scalar_node \<Rightarrow> Some (Inr (scalar_value api n))
           | Sequence_node \<Rightarrow> settle (each (to_value fuel api) (y_items api n)) (\<lambda>xs. Inr (VList xs))
           | Map_node \<Rightarrow>
               settle (each (\<lambda>e.
                   if \<not> is_scalar api (fst e)
                   then Some (Inl (from_mark ''map keys must be scalars'' (y_mark api (fst e))))
                   else settle (to_value fuel api (snd e)) (\<lambda>x. Inr (y_scalar api (fst e), x))) (y_entries api n))
                 (\<lambda>es. Inr (VMap (insert_fields es)))
           | Undefined_node \<Rightarrow> Some (Inl (from_mark ''undefined / unparsable YAML node'' (y_mark api n)))))"

section \<open>The root\<close>

definition parse_version :: "('n, 'x) yaml_scheme \<Rightarrow> 'n \<Rightarrow> parse_error + int" where
  "parse_version api root =
     (case y_get api root ''version'' of
        None \<Rightarrow> Inl (make_error (''missing required field '' @ quoted ''version''))
      | Some v \<Rightarrow>
          if \<not> is_scalar api v
          then Inl (from_mark (backquoted ''version'' @ '' must be an integer scalar'') (y_mark api v))
          else case y_int api v of
                 None \<Rightarrow> Inl (from_mark (backquoted ''version'' @ '' must be an integer'') (y_mark api v))
               | Some n \<Rightarrow>
                   if n < 1 \<or> 2 ^ 31 - 1 < n
                   then Inl (from_mark (backquoted ''version'' @ '' out of range (got '' @ int_str n @ '')'') (y_mark api v))
                   else if n \<noteq> 1
                   then Inl (make_error (''pipeline '' @ backquoted ''version'' @ '' = '' @ int_str n
                     @ '' not supported by this parser (only v1 known)''))
                   else Inr n)"

definition parse_id :: "('n, 'x) yaml_scheme \<Rightarrow> 'n \<Rightarrow> parse_error + string" where
  "parse_id api n =
     (case y_get api n ''id'' of
        None \<Rightarrow> Inl (from_mark (''stage missing required '' @ backquoted ''id'') (y_mark api n))
      | Some i \<Rightarrow>
          if \<not> is_scalar api i then Inl (from_mark (backquoted ''id'' @ '' must be a scalar'') (y_mark api i))
          else if y_scalar api i = [] then Inl (from_mark (backquoted ''id'' @ '' must be non-empty'') (y_mark api i))
          else Inr (y_scalar api i))"

definition parse_plugin :: "('n, 'x) yaml_scheme \<Rightarrow> string \<Rightarrow> 'n \<Rightarrow> parse_error + string" where
  "parse_plugin api sid n =
     (case y_get api n ''plugin'' of
        None \<Rightarrow> Inl (from_mark (''stage '' @ quoted sid @ '' missing required '' @ backquoted ''plugin'') (y_mark api n))
      | Some p \<Rightarrow>
          if \<not> is_scalar api p then Inl (from_mark (backquoted ''plugin'' @ '' must be a scalar'') (y_mark api p))
          else if y_scalar api p = [] then Inl (from_mark (backquoted ''plugin'' @ '' must be non-empty'') (y_mark api p))
          else Inr (y_scalar api p))"

definition parse_input :: "nat \<Rightarrow> ('n, 'x) yaml_scheme \<Rightarrow> string \<Rightarrow> 'n \<Rightarrow> (parse_error + pvalue) option" where
  "parse_input fuel api sid n =
     (case y_get api n ''input'' of
        None \<Rightarrow> Some (Inr (VMap []))
      | Some input \<Rightarrow>
          settle (to_value fuel api input) (\<lambda>v.
            if kind_of v \<noteq> KMap
            then Inl (from_mark (''stage '' @ quoted sid @ '' input must be a mapping'') (y_mark api input))
            else Inr v))"

definition parse_stage :: "nat \<Rightarrow> ('n, 'x) yaml_scheme \<Rightarrow> string list \<Rightarrow> 'n \<Rightarrow> (parse_error + stage) option" where
  "parse_stage fuel api seen n =
     (if y_type api n \<noteq> Map_node then Some (Inl (from_mark ''each stage must be a mapping'' (y_mark api n)))
      else case parse_id api n of
             Inl e \<Rightarrow> Some (Inl e)
           | Inr sid \<Rightarrow>
               if sid \<in> set seen
               then Some (Inl (from_mark (''duplicate stage id '' @ quoted sid) (y_mark api n)))
               else case parse_plugin api sid n of
                      Inl e \<Rightarrow> Some (Inl e)
                    | Inr plugin \<Rightarrow>
                        settle (parse_input fuel api sid n) (\<lambda>v.
                          Inr \<lparr>st_id = sid, st_plugin = plugin, st_input = v\<rparr>))"

fun parse_stages :: "nat \<Rightarrow> ('n, 'x) yaml_scheme \<Rightarrow> stage list \<Rightarrow> 'n list \<Rightarrow> (parse_error + stage list) option" where
  "parse_stages fuel api acc [] = Some (Inr acc)"
| "parse_stages fuel api acc (n # ns) =
     (case parse_stage fuel api (map st_id acc) n of
        None \<Rightarrow> None
      | Some (Inl e) \<Rightarrow> Some (Inl e)
      | Some (Inr s) \<Rightarrow> parse_stages fuel api (acc @ [s]) ns)"

definition parse_yaml_root :: "nat \<Rightarrow> ('n, 'x) yaml_scheme \<Rightarrow> 'n \<Rightarrow> (parse_error + pipeline) option" where
  "parse_yaml_root fuel api root =
     (if y_type api root \<noteq> Map_node
      then Some (Inl (from_mark ''pipeline root must be a mapping'' (y_mark api root)))
      else case parse_version api root of
             Inl e \<Rightarrow> Some (Inl e)
           | Inr v \<Rightarrow>
               (case y_get api root ''stages'' of
                  None \<Rightarrow> Some (Inl (make_error (''missing required field '' @ quoted ''stages'')))
                | Some ns \<Rightarrow>
                    if y_type api ns \<noteq> Sequence_node
                    then Some (Inl (from_mark (backquoted ''stages'' @ '' must be a sequence'') (y_mark api ns)))
                    else if y_items api ns = []
                    then Some (Inl (from_mark (backquoted ''stages'' @ '' must list at least one stage'') (y_mark api ns)))
                    else settle (parse_stages fuel api [] (y_items api ns)) (\<lambda>ss.
                      Inr \<lparr>version = v, stages = ss\<rparr>)))"

definition parse_pipeline :: "nat \<Rightarrow> ('n, 'x) yaml_scheme \<Rightarrow> string \<Rightarrow> (parse_error + pipeline) option" where
  "parse_pipeline fuel api text =
     (case y_load api text of
        Inl (Parser_exception m mark) \<Rightarrow> Some (Inl (from_mark (''YAML parse error: '' @ m) mark))
      | Inl (Other_exception m) \<Rightarrow> Some (Inl (make_error (''YAML error: '' @ m)))
      | Inr root \<Rightarrow> parse_yaml_root fuel api root)"

text \<open>Opening a directory as a stream succeeds and reads nothing.\<close>

definition parse_pipeline_file :: "nat \<Rightarrow> ('n, 'x) yaml_scheme \<Rightarrow> path \<Rightarrow> (parse_error + pipeline) option io" where
  "parse_pipeline_file fuel api p = do {
     content \<leftarrow> read_file p;
     dir \<leftarrow> is_directory p;
     return_io (case content of
        Some bs \<Rightarrow> parse_pipeline fuel api (string_of_bytes bs)
      | None \<Rightarrow>
          if dir then parse_pipeline fuel api []
          else Some (Inl (make_error (''cannot open pipeline file '' @ quoted (path_str p)))))
   }"

section \<open>What parses is well formed\<close>

lemma each_values_ok:
  assumes "each f xs = Some (Inr vs)" "\<And>x v. x \<in> set xs \<Longrightarrow> f x = Some (Inr v) \<Longrightarrow> P v"
  shows "\<forall>v \<in> set vs. P v"
  using assms by (auto simp: each_Inr list_all2_conv_all_nth in_set_conv_nth) metis

lemma scalar_value_ok: "value_ok (scalar_value api n)" "kind_of (scalar_value api n) \<noteq> KMap"
  by (simp_all add: scalar_value_def Let_def split: option.split)

lemma to_value_ok: "to_value fuel api n = Some (Inr v) \<Longrightarrow> value_ok v"
proof (induction fuel api n arbitrary: v rule: to_value.induct)
  case (2 fuel api n)
  show ?case
  proof (cases "recognise_stage_ref api n")
    case (Some r)
    then show ?thesis using "2.prems" by (auto split: if_splits)
  next
    case None
    show ?thesis
    proof (cases "y_type api n")
      case Sequence_node
      then obtain xs where xs: "each (to_value fuel api) (y_items api n) = Some (Inr xs)" "v = VList xs"
        using "2.prems" None by (auto simp: settle_Inr)
      have "\<forall>x \<in> set xs. value_ok x"
        by (rule each_values_ok [OF xs(1)]) (rule "2.IH"(1) [OF None Sequence_node])
      then show ?thesis using xs(2) by simp
    next
      case Map_node
      then obtain es where es: "each (\<lambda>e. if \<not> is_scalar api (fst e)
            then Some (Inl (from_mark ''map keys must be scalars'' (y_mark api (fst e))))
            else settle (to_value fuel api (snd e)) (\<lambda>x. Inr (y_scalar api (fst e), x))) (y_entries api n) = Some (Inr es)"
          "v = VMap (insert_fields es)"
        using "2.prems" None by (auto simp: settle_Inr)
      have "\<forall>e \<in> set es. value_ok (snd e)"
        by (rule each_values_ok [OF es(1)])
          (use "2.IH"(2) [OF None Map_node] in \<open>auto simp: settle_Inr split: if_splits\<close>)
      then show ?thesis unfolding es(2) by (rule insert_fields_ok)
    qed (use "2.prems" None scalar_value_ok in auto)
  qed
qed simp

definition stage_ok :: "stage \<Rightarrow> bool" where
  "stage_ok s = (st_id s \<noteq> [] \<and> st_plugin s \<noteq> [] \<and> kind_of (st_input s) = KMap \<and> value_ok (st_input s))"

lemma parse_stage_ok: "parse_stage fuel api seen n = Some (Inr s) \<Longrightarrow> stage_ok s \<and> st_id s \<notin> set seen"
  by (auto simp: parse_stage_def parse_id_def parse_plugin_def parse_input_def stage_ok_def settle_Inr
      dest: to_value_ok split: if_splits option.splits sum.splits)

lemma parse_stages_ok:
  "parse_stages fuel api acc ns = Some (Inr ss) \<Longrightarrow> list_all stage_ok acc \<Longrightarrow> distinct (map st_id acc) \<Longrightarrow>
   list_all stage_ok ss \<and> distinct (map st_id ss) \<and> length ss = length acc + length ns"
proof (induction ns arbitrary: acc)
  case (Cons n ns)
  then obtain s where s: "parse_stage fuel api (map st_id acc) n = Some (Inr s)"
      "parse_stages fuel api (acc @ [s]) ns = Some (Inr ss)"
    by (auto split: option.splits sum.splits)
  then show ?case using Cons.IH [OF s(2)] Cons.prems(2,3) parse_stage_ok [OF s(1)] by simp
qed simp

text \<open>C28: What parses is a well-formed pipeline: version 1, at least one stage, distinct non-empty stage ids, a
  plugin for every stage, and inputs that are maps whose nested maps are sorted without duplicates.\<close>

theorem parsed_pipeline_valid:
  assumes "parse_pipeline fuel api text = Some (Inr p)"
  shows "version p = 1 \<and> stages p \<noteq> [] \<and> distinct (map st_id (stages p))
    \<and> (\<forall>s \<in> set (stages p). st_id s \<noteq> [] \<and> st_plugin s \<noteq> [] \<and> kind_of (st_input s) = KMap \<and> value_ok (st_input s))"
proof -
  obtain root v ns where v: "parse_version api root = Inr v" "y_items api ns \<noteq> []"
      "parse_stages fuel api [] (y_items api ns) = Some (Inr (stages p))" "version p = v"
    using assms by (auto simp: parse_pipeline_def parse_yaml_root_def settle_Inr
        split: sum.splits load_error.splits if_splits option.splits)
  from parse_stages_ok [OF v(3)] have "list_all stage_ok (stages p)" "distinct (map st_id (stages p))"
    "length (stages p) = length (y_items api ns)" by simp_all
  moreover have "v = 1" using v(1) by (auto simp: parse_version_def split: option.splits if_splits)
  ultimately show ?thesis using v(2,4) by (auto simp: list_all_iff stage_ok_def)
qed

section \<open>Parsing returns\<close>

lemma to_value_mono: "to_value k api n = Some r \<Longrightarrow> k \<le> k' \<Longrightarrow> to_value k' api n = Some r"
proof (induction k api n arbitrary: r k' rule: to_value.induct)
  case (2 fuel api n)
  obtain f where f: "k' = Suc f" "fuel \<le> f" using "2.prems"(2) by (cases k') auto
  show ?case
  proof (cases "recognise_stage_ref api n")
    case Some
    then show ?thesis using "2.prems"(1) by (simp add: f)
  next
    case None
    show ?thesis
    proof (cases "y_type api n")
      case Sequence_node
      note up = settle_mono [OF _ each_mono [OF _ "2.IH"(1) [OF None Sequence_node _ _ f(2)]]]
      show ?thesis using "2.prems"(1) None Sequence_node by (auto simp: f(1) intro: up)
    next
      case Map_node
      have up: "each (\<lambda>e. if \<not> is_scalar api (fst e)
            then Some (Inl (from_mark ''map keys must be scalars'' (y_mark api (fst e))))
            else settle (to_value f api (snd e)) (\<lambda>x. Inr (y_scalar api (fst e), x))) (y_entries api n) = Some x"
        if "each (\<lambda>e. if \<not> is_scalar api (fst e)
            then Some (Inl (from_mark ''map keys must be scalars'' (y_mark api (fst e))))
            else settle (to_value fuel api (snd e)) (\<lambda>x. Inr (y_scalar api (fst e), x))) (y_entries api n) = Some x" for x
        by (rule each_mono [OF that])
          (use "2.IH"(2) [OF None Map_node _ _ _ f(2)] in \<open>auto intro: settle_mono split: if_splits\<close>)
      show ?thesis using "2.prems"(1) None Map_node by (auto simp: f(1) intro: settle_mono up)
    qed (use "2.prems"(1) None in \<open>simp_all add: f(1)\<close>)
  qed
qed simp

lemma parse_input_mono:
  assumes "parse_input k api sid n = Some r" "k \<le> k'"
  shows "parse_input k' api sid n = Some r"
proof (cases "y_get api n ''input''")
  case (Some i)
  show ?thesis
    using assms(1) Some unfolding parse_input_def
    by (simp only: option.case) (erule settle_mono, erule to_value_mono [OF _ assms(2)])
qed (use assms(1) in \<open>simp add: parse_input_def\<close>)

lemma parse_stage_mono:
  assumes "parse_stage k api seen n = Some r" "k \<le> k'"
  shows "parse_stage k' api seen n = Some r"
proof (cases "parse_id api n")
  case (Inr sid)
  note i = this
  show ?thesis
  proof (cases "parse_plugin api sid n")
    case (Inr plugin)
    show ?thesis
    proof (cases "y_type api n = Map_node \<and> sid \<notin> set seen")
      case True
      then have "settle (parse_input k api sid n) (\<lambda>v. Inr \<lparr>st_id = sid, st_plugin = plugin, st_input = v\<rparr>) = Some r"
        using assms(1) i Inr by (simp add: parse_stage_def)
      then have "settle (parse_input k' api sid n) (\<lambda>v. Inr \<lparr>st_id = sid, st_plugin = plugin, st_input = v\<rparr>) = Some r"
        by (rule settle_mono) (rule parse_input_mono [OF _ assms(2)])
      then show ?thesis using True i Inr by (simp add: parse_stage_def)
    next
      case False
      then show ?thesis using assms(1) i by (auto simp: parse_stage_def)
    qed
  next
    case (Inl e)
    then show ?thesis
      using assms(1) i by (cases "y_type api n = Map_node"; cases "sid \<in> set seen") (simp_all add: parse_stage_def)
  qed
next
  case (Inl e)
  then show ?thesis using assms(1) by (cases "y_type api n = Map_node") (simp_all add: parse_stage_def)
qed

lemma parse_stages_mono:
  "parse_stages k api acc ns = Some r \<Longrightarrow> k \<le> k' \<Longrightarrow> parse_stages k' api acc ns = Some r"
proof (induction ns arbitrary: acc)
  case (Cons n ns)
  then obtain x where x: "parse_stage k api (map st_id acc) n = Some x" by (auto split: option.splits)
  show ?case
    using Cons parse_stage_mono [OF x Cons.prems(2)] x by (cases x) simp_all
qed simp

lemma to_value_returns:
  assumes "finite_node api n"
  shows "\<exists>k. \<forall>k' \<ge> k. to_value k' api n \<noteq> None"
  using assms
proof (induction rule: finite_node.induct)
  case (1 n)
  obtain k1 where k1: "\<forall>k' \<ge> k1. \<forall>x \<in> set (y_items api n). to_value k' api x \<noteq> None"
    using common_fuel [of "y_items api n" "\<lambda>k x. to_value k api x \<noteq> None"] "1.IH"(1) by blast
  obtain k2 where k2: "\<forall>k' \<ge> k2. \<forall>e \<in> set (y_entries api n). to_value k' api (snd e) \<noteq> None"
    using common_fuel [of "y_entries api n" "\<lambda>k e. to_value k api (snd e) \<noteq> None"] "1.IH"(2) by blast
  have "to_value k' api n \<noteq> None" if k: "k' \<ge> Suc (max k1 k2)" for k'
  proof -
    obtain f where f: "k' = Suc f" "k1 \<le> f" "k2 \<le> f" using k by (cases k') auto
    have "each (to_value f api) (y_items api n) \<noteq> None" using k1 f by (intro each_defined) simp
    moreover have "each (\<lambda>e. if \<not> is_scalar api (fst e)
            then Some (Inl (from_mark ''map keys must be scalars'' (y_mark api (fst e))))
            else settle (to_value f api (snd e)) (\<lambda>x. Inr (y_scalar api (fst e), x))) (y_entries api n) \<noteq> None"
      using k2 f by (intro each_defined) simp
    ultimately show ?thesis by (simp add: f(1) split: option.split node_type.split)
  qed
  then show ?case by blast
qed

text \<open>The children of the stages that the parser looks at.\<close>

definition finite_document :: "('n, 'x) yaml_scheme \<Rightarrow> 'n \<Rightarrow> bool" where
  "finite_document api root = (\<forall>ns input. \<forall>n \<in> set (y_items api ns).
     y_get api root ''stages'' = Some ns \<and> y_get api n ''input'' = Some input \<longrightarrow> finite_node api input)"

lemma parse_stages_returns:
  assumes "\<And>n. n \<in> set ns \<Longrightarrow> \<forall>sid. parse_input fuel api sid n \<noteq> None"
  shows "parse_stages fuel api acc ns \<noteq> None"
  using assms
proof (induction ns arbitrary: acc)
  case (Cons n ns)
  have "parse_stage fuel api (map st_id acc) n \<noteq> None"
    using Cons.prems [of n] by (auto simp: parse_stage_def split: sum.splits)
  then show ?case using Cons by (auto split: option.splits sum.splits)
qed simp

text \<open>C29: Parsing returns.  With enough fuel the parser gives a pipeline or an error on every document whose
  stage inputs contain no node that is its own descendant, and more fuel does not change the outcome.\<close>

theorem parse_pipeline_returns:
  assumes "\<And>root. y_load api text = Inr root \<Longrightarrow> finite_document api root"
  shows "\<exists>k r. \<forall>fuel \<ge> k. parse_pipeline fuel api text = Some r"
proof (cases "y_load api text")
  case (Inl e)
  then show ?thesis by (cases e) (auto simp: parse_pipeline_def)
next
  case (Inr root)
  note fin = assms [OF Inr]
  show ?thesis
  proof (cases "y_get api root ''stages''")
    case None
    then have "\<forall>fuel \<ge> 0. parse_pipeline fuel api text = parse_pipeline 0 api text"
        "parse_pipeline 0 api text \<noteq> None"
      using Inr by (simp_all add: parse_pipeline_def parse_yaml_root_def split: sum.split)
    then show ?thesis by (metis not_Some_eq)
  next
    case (Some ns)
    have one: "\<exists>k. \<forall>k' \<ge> k. \<forall>sid. parse_input k' api sid n \<noteq> None" if n: "n \<in> set (y_items api ns)" for n
    proof (cases "y_get api n ''input''")
      case None
      then show ?thesis by (simp add: parse_input_def)
    next
      case (Some input)
      then have "finite_node api input" using fin n \<open>y_get api root ''stages'' = Some ns\<close> unfolding finite_document_def by blast
      then show ?thesis using to_value_returns [of api input] Some by (simp add: parse_input_def)
    qed
    obtain k where k: "\<forall>k' \<ge> k. \<forall>n \<in> set (y_items api ns). \<forall>sid. parse_input k' api sid n \<noteq> None"
      using common_fuel [of "y_items api ns" "\<lambda>k n. \<forall>sid. parse_input k api sid n \<noteq> None"] one by blast
    have "parse_stages k api [] (y_items api ns) \<noteq> None"
      using k by (intro parse_stages_returns) blast
    then obtain r where "parse_stages k api [] (y_items api ns) = Some r" by blast
    then have "\<forall>fuel \<ge> k. parse_stages fuel api [] (y_items api ns) = Some r"
      using parse_stages_mono by blast
    then have "\<forall>fuel \<ge> k. parse_pipeline fuel api text = parse_pipeline k api text"
      using Inr Some by (simp add: parse_pipeline_def parse_yaml_root_def split: sum.split)
    moreover have "parse_pipeline k api text \<noteq> None"
      using Inr Some \<open>parse_stages k api [] _ = Some r\<close>
      by (simp add: parse_pipeline_def parse_yaml_root_def split: sum.split)
    ultimately show ?thesis by (metis not_Some_eq)
  qed
qed

text \<open>An alias can make a sequence contain itself; the conversion of such a node does not return.\<close>

lemma self_containing_node_diverges:
  assumes "y_type api n = Sequence_node" "y_items api n = n # ns"
  shows "to_value fuel api n = None"
proof (induction fuel)
  case (Suc fuel)
  have "recognise_stage_ref api n = None" using assms(1) by (simp add: recognise_stage_ref_def)
  then show ?case using assms Suc by simp
qed simp

definition sample_yaml :: yaml_doc where
  "sample_yaml = Y_map [(''version'', Y_text ''1''), (''stages'', Y_seq
     [Y_map [(''id'', Y_text ''a''), (''plugin'', Y_text ''p'')],
      Y_map [(''id'', Y_text ''b''), (''plugin'', Y_text ''q''),
        (''input'', Y_map [(''x'', Y_map [(''from'', Y_text ''a'')]), (''n'', Y_seq [Y_text ''true''])])]])]"

lemma sample_parses:
  "parse_pipeline 5 (yaml_of (\<lambda>_. Inr sample_yaml)) [] = Some (Inr \<lparr>version = 1, stages =
     [\<lparr>st_id = ''a'', st_plugin = ''p'', st_input = VMap []\<rparr>,
      \<lparr>st_id = ''b'', st_plugin = ''q'', st_input = VMap [(''n'', VList [Boolean True]), (''x'', Stage_ref ''a'')]\<rparr>]\<rparr>)"
  by code_simp

theorem parsed_pipeline_valid_witness:
  "\<exists>p. parse_pipeline 5 (yaml_of (\<lambda>_. Inr sample_yaml)) [] = Some (Inr p) \<and> version p = 1 \<and> distinct (map st_id (stages p))"
  using parsed_pipeline_valid [OF sample_parses] sample_parses by blast

theorem parse_pipeline_returns_witness:
  "\<exists>k r. \<forall>fuel \<ge> k. parse_pipeline fuel (yaml_of (\<lambda>_. Inr sample_yaml)) [] = Some r"
proof (rule parse_pipeline_returns)
  fix root assume "y_load (yaml_of (\<lambda>_. Inr sample_yaml)) [] = Inr root"
  show "finite_document (yaml_of (\<lambda>_. Inr sample_yaml)) root"
    by (simp add: finite_document_def yaml_doc_finite)
qed

end
