(* ===== verification/Bridge_Views.thy ===== *)
theory Bridge_Views
  imports Parser Install_Layout
begin

text \<open>
  What the desktop's bridge shows of a pipeline (src/c-bridge/pipeline.cpp) and of the updater
  (src/c-bridge/updater.cpp).  A null pointer is \<open>None\<close>; the results of an allocation
  that fails are not modelled.
\<close>

section \<open>Pipelines\<close>

type_synonym shown_stage = "string \<times> string"

definition bridge_abi_version :: u32 where
  "bridge_abi_version = 3"

definition bridge_pipeline_parse ::
  "nat \<Rightarrow> ('n, 'x) yaml_scheme \<Rightarrow> string option \<Rightarrow> (string + shown_stage list) option" where
  "bridge_pipeline_parse fuel api yaml = (case yaml of
     None \<Rightarrow> Some (Inl ''yaml pointer is NULL'')
   | Some s \<Rightarrow> (case parse_pipeline fuel api s of
       None \<Rightarrow> None
     | Some (Inl e) \<Rightarrow> Some (Inl (pe_message e))
     | Some (Inr p) \<Rightarrow> Some (Inr (map (\<lambda>s. (st_id s, st_plugin s)) (stages p)))))"

definition shown_stage_count :: "shown_stage list option \<Rightarrow> u32" where
  "shown_stage_count p = (case p of None \<Rightarrow> 0 | Some xs \<Rightarrow> of_nat (length xs))"

text \<open>\<open>None\<close> is -1, the result that leaves the out-parameters alone.\<close>

definition shown_stage_at :: "shown_stage list option \<Rightarrow> u32 \<Rightarrow> shown_stage option" where
  "shown_stage_at p i = (case p of
     None \<Rightarrow> None | Some xs \<Rightarrow> if length xs \<le> unat i then None else Some (xs ! unat i))"

lemma shown_stage_at_map:
  "i < length xs \<Longrightarrow> length xs < 2 ^ 32 \<Longrightarrow> shown_stage_at (Some xs) (of_nat i) = Some (xs ! i)"
  by (simp add: shown_stage_at_def unat_of_nat take_bit_nat_eq_self)

lemma map_shown_stages:
  assumes "length xs < 2 ^ 32"
  shows "map (\<lambda>i. shown_stage_at (Some xs) (of_nat i)) [0..<length xs] = map Some xs"
proof (rule nth_equalityI)
  fix i assume "i < length (map (\<lambda>i. shown_stage_at (Some xs) (of_nat i)) [0..<length xs])"
  then show "map (\<lambda>i. shown_stage_at (Some xs) (of_nat i)) [0..<length xs] ! i = map Some xs ! i"
    using shown_stage_at_map [OF _ assms] by simp
qed simp

text \<open>Counting the stages and asking for each gives the stages of the pipeline, in order.\<close>

lemma shown_pipeline:
  assumes "parse_pipeline fuel api s = Some (Inr p)" "length (stages p) < 2 ^ 32"
  shows "\<exists>xs. bridge_pipeline_parse fuel api (Some s) = Some (Inr xs)
    \<and> map (\<lambda>i. shown_stage_at (Some xs) (of_nat i)) [0..<unat (shown_stage_count (Some xs))]
      = map (\<lambda>s. Some (st_id s, st_plugin s)) (stages p)"
proof -
  have "unat (of_nat (length (stages p)) :: u32) = length (stages p)"
    using assms(2) by (simp add: unat_of_nat take_bit_nat_eq_self)
  then show ?thesis using assms map_shown_stages [of "map (\<lambda>s. (st_id s, st_plugin s)) (stages p)"]
    by (simp add: bridge_pipeline_parse_def shown_stage_count_def)
qed

section \<open>Updates\<close>

datatype update_view =
    Us_unknown
  | Us_up_to_date
  | Us_available
  | Us_staged
  | Us_refused
  | Us_corrupted

record update_status =
  us_state :: update_view
  us_current :: string
  us_available :: string
  us_detail :: string

definition update_status_read :: "path option \<Rightarrow> (string + update_status) io" where
  "update_status_read root = (case root of
     None \<Rightarrow> return_io (Inl ''target_root is NULL or empty'')
   | Some root \<Rightarrow> do {
       dir \<leftarrow> is_directory root;
       if \<not> dir
       then return_io (Inr \<lparr>us_state = Us_unknown, us_current = [], us_available = [],
         us_detail = ''No update install layout at this path. The auto-updater ''
           @ ''has not yet run for this build.''\<rparr>)
       else do {
         current \<leftarrow> read_current_version root;
         return_io (Inr (if current = []
           then \<lparr>us_state = Us_unknown, us_current = [], us_available = [],
             us_detail = ''No current.txt in the install layout. Either this is a ''
               @ ''fresh install or the layout is corrupted.''\<rparr>
           else \<lparr>us_state = Us_up_to_date, us_current = current, us_available = [],
             us_detail = ''Current version '' @ current @ ''. Click '' @ quoted ''Check for updates''
               @ '' to query the release manifest.''\<rparr>))
       }
     })"

end
