(* ===== verification/Mesh.thy ===== *)
theory Mesh
  imports Registry
begin

text \<open>
  The mesh of the data model (src/core/mesh.cpp, include/souxmar/core/mesh.h,
  include/souxmar/core/element_type.h) and the table of the faces of its elements
  (src/core/face_topology.cpp).  The code keeps it in columns, as here; what it is meant to be is a
  list of points, a list of cells with their own nodes, and tags on some of the cells' faces.
  The lemmas show that every operation does to the columns what it does to that shape.
\<close>

section \<open>Elements\<close>

type_synonym element_type = "16 word"

record element_info =
  ei_dimension :: nat
  ei_nodes :: nat
  ei_order :: nat
  ei_faces :: nat
  ei_name :: string

definition element :: "nat \<Rightarrow> nat \<Rightarrow> nat \<Rightarrow> nat \<Rightarrow> string \<Rightarrow> element_info" where
  "element d n k f s = \<lparr>ei_dimension = d, ei_nodes = n, ei_order = k, ei_faces = f, ei_name = s\<rparr>"

text \<open>Any 16-bit number can be a type: what is not in the table is unknown.\<close>

definition info :: "element_type \<Rightarrow> element_info" where
  "info t =
     (if t = 1 then element 0 1 1 0 ''vertex''
      else if t = 2 then element 1 2 1 0 ''edge2''
      else if t = 3 then element 1 3 2 0 ''edge3''
      else if t = 4 then element 2 3 1 3 ''tri3''
      else if t = 5 then element 2 6 2 3 ''tri6''
      else if t = 6 then element 2 4 1 4 ''quad4''
      else if t = 7 then element 2 8 2 4 ''quad8''
      else if t = 8 then element 2 9 2 4 ''quad9''
      else if t = 9 then element 3 4 1 4 ''tet4''
      else if t = 10 then element 3 10 2 4 ''tet10''
      else if t = 11 then element 3 8 1 6 ''hex8''
      else if t = 12 then element 3 20 2 6 ''hex20''
      else if t = 13 then element 3 27 2 6 ''hex27''
      else if t = 14 then element 3 6 1 5 ''prism6''
      else if t = 15 then element 3 15 2 5 ''prism15''
      else if t = 16 then element 3 5 1 5 ''pyramid5''
      else if t = 17 then element 3 13 2 5 ''pyramid13''
      else element 0 0 0 0 ''unknown'')"

definition nodes_of :: "element_type \<Rightarrow> nat" where
  "nodes_of t = ei_nodes (info t)"

definition faces_of :: "element_type \<Rightarrow> nat" where
  "faces_of t = ei_faces (info t)"

text \<open>The nodes of each face of a linear element, from outside the cell.\<close>

definition face_node_table :: "element_type \<Rightarrow> nat list list" where
  "face_node_table t =
     (if t = 9 then [[1, 2, 3], [0, 3, 2], [0, 1, 3], [0, 2, 1]]
      else if t = 11 then [[0, 3, 2, 1], [4, 5, 6, 7], [0, 1, 5, 4], [3, 7, 6, 2], [0, 4, 7, 3], [1, 2, 6, 5]]
      else if t = 14 then [[0, 2, 1], [3, 4, 5], [0, 1, 4, 3], [1, 2, 5, 4], [2, 0, 3, 5]]
      else if t = 16 then [[0, 3, 2, 1], [0, 1, 4], [1, 2, 4], [2, 3, 4], [3, 0, 4]]
      else if t = 4 then [[0, 1, 2]]
      else if t = 6 then [[0, 1, 2, 3]]
      else [])"

section \<open>The mesh\<close>

type_synonym tag = "32 word"

definition untagged :: tag where
  "untagged = - 1"

type_synonym point = "double \<times> double \<times> double"

record mesh =
  me_nodes :: "double list"
  me_types :: "element_type list"
  me_tags :: "tag list"
  me_offsets :: "u64 list"
  me_indices :: "u64 list"
  me_faces :: "(u64 \<times> tag) list"

datatype mesh_error =
    Wrong_node_count
  | Missing_node
  | Node_out_of_range
  | Cell_out_of_range
  | Bad_local_face

definition new_mesh :: mesh where
  "new_mesh = \<lparr>me_nodes = [], me_types = [], me_tags = [], me_offsets = [0], me_indices = [], me_faces = []\<rparr>"

definition pack_face_key :: "u64 \<Rightarrow> byte \<Rightarrow> u64" where
  "pack_face_key cell local_face = or (push_bit 8 cell) (ucast local_face)"

definition num_nodes :: "mesh \<Rightarrow> nat" where
  "num_nodes m = length (me_nodes m) div 3"

definition num_cells :: "mesh \<Rightarrow> nat" where
  "num_cells m = length (me_types m)"

definition add_node :: "point \<Rightarrow> mesh \<Rightarrow> u64 \<times> mesh" where
  "add_node p m = (case p of (x, y, z) \<Rightarrow>
     (of_nat (length (me_nodes m) div 3), m\<lparr>me_nodes := me_nodes m @ [x, y, z]\<rparr>))"

definition add_cell :: "element_type \<Rightarrow> u64 list \<Rightarrow> tag \<Rightarrow> mesh \<Rightarrow> mesh_error + u64 \<times> mesh" where
  "add_cell t node_indices tag m =
     (if length node_indices \<noteq> nodes_of t then Inl Wrong_node_count
      else if \<exists>i \<in> set node_indices. num_nodes m \<le> unat i then Inl Missing_node
      else let indices = me_indices m @ node_indices
           in Inr (of_nat (length (me_types m)),
                m\<lparr>me_types := me_types m @ [t], me_tags := me_tags m @ [tag], me_indices := indices,
                  me_offsets := me_offsets m @ [of_nat (length indices)]\<rparr>))"

definition mesh_node :: "u64 \<Rightarrow> mesh \<Rightarrow> mesh_error + point" where
  "mesh_node i m =
     (if num_nodes m \<le> unat i then Inl Node_out_of_range
      else let base = 3 * unat i
           in Inr (me_nodes m ! base, me_nodes m ! (base + 1), me_nodes m ! (base + 2)))"

definition cell_type :: "u64 \<Rightarrow> mesh \<Rightarrow> element_type" where
  "cell_type i m = (if num_cells m \<le> unat i then 0 else me_types m ! unat i)"

definition cell_nodes :: "u64 \<Rightarrow> mesh \<Rightarrow> mesh_error + u64 list" where
  "cell_nodes i m =
     (if num_cells m \<le> unat i then Inl Cell_out_of_range
      else let begin_at = me_offsets m ! unat i; end_at = me_offsets m ! (unat i + 1)
           in Inr (take (unat (end_at - begin_at)) (drop (unat begin_at) (me_indices m))))"

definition cell_tag :: "u64 \<Rightarrow> mesh \<Rightarrow> tag" where
  "cell_tag i m = (if num_cells m \<le> unat i then untagged else me_tags m ! unat i)"

definition face_tag :: "u64 \<Rightarrow> byte \<Rightarrow> mesh \<Rightarrow> tag" where
  "face_tag cell local_face m =
     (if num_cells m \<le> unat cell then untagged
      else if faces_of (me_types m ! unat cell) \<le> unat local_face then untagged
      else case map_of (me_faces m) (pack_face_key cell local_face) of None \<Rightarrow> untagged | Some t \<Rightarrow> t)"

definition set_face_tag :: "u64 \<Rightarrow> byte \<Rightarrow> tag \<Rightarrow> mesh \<Rightarrow> mesh_error + mesh" where
  "set_face_tag cell local_face tag m =
     (if num_cells m \<le> unat cell then Inl Cell_out_of_range
      else if faces_of (me_types m ! unat cell) \<le> unat local_face then Inl Bad_local_face
      else let key = pack_face_key cell local_face
           in Inr (m\<lparr>me_faces := (if tag = untagged then AList.delete key (me_faces m)
                else AList.update key tag (me_faces m))\<rparr>))"

text \<open>The order of the hash table is not specified; here it is that of the list.\<close>

definition tagged_faces :: "mesh \<Rightarrow> (u64 \<times> byte \<times> tag) list" where
  "tagged_faces m = map (\<lambda>(key, tag). (drop_bit 8 key, ucast (and key 0xFF), tag)) (me_faces m)"

definition element_histogram :: "mesh \<Rightarrow> (element_type \<times> nat) list" where
  "element_histogram m = foldl (\<lambda>bins t. smap_assign t (Suc (case map_of bins t of None \<Rightarrow> 0 | Some n \<Rightarrow> n)) bins)
     [] (me_types m)"

definition mesh_empty :: "mesh \<Rightarrow> bool" where
  "mesh_empty m = (num_nodes m = 0 \<and> num_cells m = 0)"

section \<open>The shape\<close>

record cell =
  ce_type :: element_type
  ce_nodes :: "u64 list"
  ce_tag :: tag

record shape =
  sh_points :: "point list"
  sh_cells :: "cell list"
  sh_faces :: "nat \<times> nat \<rightharpoonup> tag"

definition empty_shape :: shape where
  "empty_shape = \<lparr>sh_points = [], sh_cells = [], sh_faces = \<lambda>f. None\<rparr>"

definition flat_points :: "point list \<Rightarrow> double list" where
  "flat_points ps = concat (map (\<lambda>(x, y, z). [x, y, z]) ps)"

definition starts_of :: "'a list list \<Rightarrow> nat list" where
  "starts_of xss = map (\<lambda>i. length (concat (take i xss))) [0..<Suc (length xss)]"

definition cell_ok :: "nat \<Rightarrow> cell \<Rightarrow> bool" where
  "cell_ok n c = (length (ce_nodes c) = nodes_of (ce_type c) \<and> (\<forall>i \<in> set (ce_nodes c). unat i < n))"

text \<open>The columns of a shape, as long as no count overflows.\<close>

definition has_shape :: "mesh \<Rightarrow> shape \<Rightarrow> bool" where
  "has_shape m s =
     (me_nodes m = flat_points (sh_points s)
      \<and> me_types m = map ce_type (sh_cells s) \<and> me_tags m = map ce_tag (sh_cells s)
      \<and> me_indices m = concat (map ce_nodes (sh_cells s))
      \<and> me_offsets m = map of_nat (starts_of (map ce_nodes (sh_cells s)))
      \<and> list_all (cell_ok (length (sh_points s))) (sh_cells s)
      \<and> length (sh_points s) < 2 ^ 64 \<and> length (concat (map ce_nodes (sh_cells s))) < 2 ^ 64
      \<and> length (sh_cells s) \<le> 2 ^ 56
      \<and> distinct (map fst (me_faces m))
      \<and> (\<forall>key. map_of (me_faces m) key = sh_faces s (unat (drop_bit 8 key), unat (and key 0xFF)))
      \<and> (\<forall>i f tag. sh_faces s (i, f) = Some tag \<longrightarrow> tag \<noteq> untagged
           \<and> i < length (sh_cells s) \<and> f < faces_of (ce_type (sh_cells s ! i))))"

section \<open>Columns\<close>

lemma flat_points_simps [simp]:
  "flat_points [] = []" "flat_points ((x, y, z) # ps) = x # y # z # flat_points ps"
  "flat_points (ps @ qs) = flat_points ps @ flat_points qs"
  by (simp_all add: flat_points_def)

lemma length_flat_points [simp]: "length (flat_points ps) = 3 * length ps"
  by (induction ps) auto

lemma flat_points_nth:
  "i < length ps \<Longrightarrow> (flat_points ps ! (3 * i), flat_points ps ! (3 * i + 1), flat_points ps ! (3 * i + 2)) = ps ! i"
proof (induction ps arbitrary: i)
  case (Cons p ps)
  obtain x y z where p: "p = (x, y, z)" by (cases p)
  show ?case
  proof (cases i)
    case (Suc j)
    have e: "3 * Suc j = Suc (Suc (Suc (3 * j)))" "3 * Suc j + 1 = Suc (Suc (Suc (3 * j + 1)))"
      "3 * Suc j + 2 = Suc (Suc (Suc (3 * j + 2)))" by simp_all
    show ?thesis using Cons.IH [of j] Cons.prems unfolding p Suc e by simp
  qed (simp add: p)
qed simp

lemma starts_of_Nil [simp]: "starts_of [] = [0]"
  by (simp add: starts_of_def)

lemma starts_of_snoc [simp]: "starts_of (xss @ [xs]) = starts_of xss @ [length (concat xss) + length xs]"
  by (auto simp: starts_of_def)

lemma starts_of_nth: "i \<le> length xss \<Longrightarrow> starts_of xss ! i = length (concat (take i xss))"
  unfolding starts_of_def by (subst nth_map) (simp_all del: upt_Suc)

lemma length_starts_of [simp]: "length (starts_of xss) = Suc (length xss)"
  by (simp add: starts_of_def)

lemma concat_slice:
  assumes "i < length xss"
  shows "take (length (xss ! i)) (drop (length (concat (take i xss))) (concat xss)) = xss ! i"
proof -
  have "concat xss = concat (take i xss) @ xss ! i @ concat (drop (Suc i) xss)"
    by (subst id_take_nth_drop [OF assms]) simp
  then show ?thesis by simp
qed

lemma starts_of_le: "i \<le> length xss \<Longrightarrow> length (concat (take i xss)) \<le> length (concat xss)"
  by (metis append_take_drop_id concat_append length_append le_add1)

lemma unat_of_nat64: "n < 2 ^ 64 \<Longrightarrow> unat (of_nat n :: u64) = n"
  by (simp add: unat_of_nat take_bit_nat_eq_self)

section \<open>Keys of faces\<close>

lemma high_bits_zero:
  fixes c :: u64
  assumes "unat c < 2 ^ 56" "bit c n"
  shows "n < 56"
proof -
  have "take_bit 56 (unat c) = unat c" using assms(1) by (rule take_bit_nat_eq_self)
  then have "bit (unat c) n \<longleftrightarrow> bit (take_bit 56 (unat c)) n" by simp
  then show ?thesis using assms(2) by (simp add: bit_take_bit_iff bit_unsigned_iff)
qed

lemma byte_bit: "\<not> bit (f :: byte) (8 + n)"
  using bit_imp_le_length [of f "8 + n"] by auto

lemma unpack_face_key:
  assumes "unat c < 2 ^ 56"
  shows "drop_bit 8 (pack_face_key c f) = c" "ucast (and (pack_face_key c f) 0xFF) = f"
    "unat (and (pack_face_key c f) 0xFF) = unat f"
proof -
  have m: "(0xFF :: u64) = mask 8" by (simp add: mask_eq_decr_exp)
  show "drop_bit 8 (pack_face_key c f) = c"
    by (rule bit_word_eqI) (use high_bits_zero [OF assms] in
      \<open>auto simp: pack_face_key_def bit_simps byte_bit\<close>)
  have e: "and (pack_face_key c f) 0xFF = ucast f"
    unfolding m by (rule bit_word_eqI)
      (use bit_imp_le_length [of f] in \<open>auto simp: pack_face_key_def bit_simps\<close>)
  have "unat f < 2 ^ LENGTH(8)" by (rule unsigned_less)
  then have "unat f < 2 ^ 64" by simp
  then show "unat (and (pack_face_key c f) 0xFF) = unat f"
    unfolding e by (simp add: unsigned_ucast_eq take_bit_nat_eq_self)
  show "ucast (and (pack_face_key c f) 0xFF) = f"
    unfolding e by (rule bit_word_eqI) (auto simp: bit_simps)
qed

lemma pack_unpacked: "pack_face_key (drop_bit 8 k) (ucast (and k 0xFF)) = k"
proof -
  have m: "(0xFF :: u64) = mask 8" by (simp add: mask_eq_decr_exp)
  show ?thesis unfolding m
  proof (rule bit_word_eqI)
    show "bit (pack_face_key (drop_bit 8 k) (ucast (and k (mask 8)))) n = bit k n" if "n < LENGTH(64)" for n
      using that by (cases "n < 8") (auto simp: pack_face_key_def bit_simps)
  qed
qed

lemma unpacked_eq_iff:
  fixes k :: u64
  assumes "unat c < 2 ^ 56"
  shows "k = pack_face_key c f \<longleftrightarrow> unat (drop_bit 8 k) = unat c \<and> unat (and k 0xFF) = unat f"
proof
  assume "k = pack_face_key c f"
  then show "unat (drop_bit 8 k) = unat c \<and> unat (and k 0xFF) = unat f"
    using unpack_face_key(1,3) [OF assms, of f] by (simp only: simp_thms)
next
  assume h: "unat (drop_bit 8 k) = unat c \<and> unat (and k 0xFF) = unat f"
  have "drop_bit 8 k = c" unfolding word_unat_eq_iff by (rule h [THEN conjunct1])
  moreover have "and k 0xFF = and (pack_face_key c f) 0xFF"
    unfolding word_unat_eq_iff unpack_face_key(3) [OF assms] by (rule h [THEN conjunct2])
  ultimately show "k = pack_face_key c f"
    using pack_unpacked [of k] unpack_face_key(2) [OF assms, of f] by metis
qed

section \<open>The operations on the shape\<close>

datatype mesh_op =
    Add_node point
  | Add_cell element_type "u64 list" tag
  | Set_face_tag u64 byte tag

datatype op_result = Index u64 | Finished | Threw mesh_error

definition mesh_step :: "mesh \<Rightarrow> mesh_op \<Rightarrow> op_result \<times> mesh" where
  "mesh_step m a = (case a of
     Add_node p \<Rightarrow> (let (i, m) = add_node p m in (Index i, m))
   | Add_cell t ns tag \<Rightarrow> (case add_cell t ns tag m of Inl e \<Rightarrow> (Threw e, m) | Inr (i, m) \<Rightarrow> (Index i, m))
   | Set_face_tag c f tag \<Rightarrow> (case set_face_tag c f tag m of Inl e \<Rightarrow> (Threw e, m) | Inr m \<Rightarrow> (Finished, m)))"

definition shape_step :: "shape \<Rightarrow> mesh_op \<Rightarrow> op_result \<times> shape" where
  "shape_step s a = (case a of
     Add_node p \<Rightarrow> (Index (of_nat (length (sh_points s))), s\<lparr>sh_points := sh_points s @ [p]\<rparr>)
   | Add_cell t ns tag \<Rightarrow>
       if length ns \<noteq> nodes_of t then (Threw Wrong_node_count, s)
       else if \<exists>i \<in> set ns. length (sh_points s) \<le> unat i then (Threw Missing_node, s)
       else (Index (of_nat (length (sh_cells s))),
         s\<lparr>sh_cells := sh_cells s @ [\<lparr>ce_type = t, ce_nodes = ns, ce_tag = tag\<rparr>]\<rparr>)
   | Set_face_tag c f tag \<Rightarrow>
       if length (sh_cells s) \<le> unat c then (Threw Cell_out_of_range, s)
       else if faces_of (ce_type (sh_cells s ! unat c)) \<le> unat f then (Threw Bad_local_face, s)
       else (Finished, s\<lparr>sh_faces := (sh_faces s)((unat c, unat f) := if tag = untagged then None else Some tag)\<rparr>))"

fun run_ops :: "('s \<Rightarrow> mesh_op \<Rightarrow> op_result \<times> 's) \<Rightarrow> mesh_op list \<Rightarrow> 's \<Rightarrow> op_result list \<times> 's" where
  "run_ops f [] s = ([], s)"
| "run_ops f (a # as) s = (let (r, s) = f s a; (rs, s) = run_ops f as s in (r # rs, s))"

lemma num_nodes_shape: "has_shape m s \<Longrightarrow> num_nodes m = length (sh_points s)"
  by (simp add: has_shape_def num_nodes_def)

lemma num_cells_shape: "has_shape m s \<Longrightarrow> num_cells m = length (sh_cells s)"
  by (simp add: has_shape_def num_cells_def)

lemma type_shape: "has_shape m s \<Longrightarrow> i < length (sh_cells s) \<Longrightarrow> me_types m ! i = ce_type (sh_cells s ! i)"
  by (simp add: has_shape_def)

lemma nodes_of_le: "nodes_of t \<le> 27"
  by (simp add: nodes_of_def info_def element_def)

lemma faces_of_le: "faces_of t \<le> 6"
  by (simp add: faces_of_def info_def element_def)

lemma has_shape_new: "has_shape new_mesh empty_shape"
  by (simp add: has_shape_def new_mesh_def empty_shape_def)

lemma add_node_shape:
  assumes "has_shape m s" "length (sh_points s) + 1 < 2 ^ 64"
  shows "fst (mesh_step m (Add_node p)) = fst (shape_step s (Add_node p))
    \<and> has_shape (snd (mesh_step m (Add_node p))) (snd (shape_step s (Add_node p)))"
proof -
  obtain x y z where p: "p = (x, y, z)" by (cases p)
  have "list_all (cell_ok n) cs \<Longrightarrow> list_all (cell_ok (Suc n)) cs" for n cs
    by (auto simp: list_all_iff cell_ok_def less_Suc_eq)
  then show ?thesis using assms
    by (simp add: mesh_step_def shape_step_def add_node_def p has_shape_def)
qed

lemma add_cell_shape:
  assumes "has_shape m s" "length (sh_cells s) + 1 \<le> 2 ^ 56"
    "length (concat (map ce_nodes (sh_cells s))) + 27 < 2 ^ 64"
  shows "fst (mesh_step m (Add_cell t ns tag)) = fst (shape_step s (Add_cell t ns tag))
    \<and> has_shape (snd (mesh_step m (Add_cell t ns tag))) (snd (shape_step s (Add_cell t ns tag)))"
proof (cases "length ns = nodes_of t \<and> \<not> (\<exists>i \<in> set ns. length (sh_points s) \<le> unat i)")
  case True
  then have "length ns \<le> 27" using nodes_of_le [of t] by simp
  moreover have "has_shape (m\<lparr>me_types := me_types m @ [t], me_tags := me_tags m @ [tag], me_indices := me_indices m @ ns,
      me_offsets := me_offsets m @ [of_nat (length (me_indices m @ ns))]\<rparr>)
      (s\<lparr>sh_cells := sh_cells s @ [\<lparr>ce_type = t, ce_nodes = ns, ce_tag = tag\<rparr>]\<rparr>)"
    using assms True \<open>length ns \<le> 27\<close>
    unfolding has_shape_def by (auto simp: cell_ok_def not_le nth_append) (blast intro: less_SucI)
  ultimately show ?thesis using True num_nodes_shape [OF assms(1)] num_cells_shape [OF assms(1)]
    by (simp add: mesh_step_def shape_step_def add_cell_def Let_def num_cells_def)
next
  case False
  then show ?thesis using assms(1) num_nodes_shape [OF assms(1)]
    by (auto simp: mesh_step_def shape_step_def add_cell_def)
qed

lemma set_face_shape:
  assumes "has_shape m s"
  shows "fst (mesh_step m (Set_face_tag c f tag)) = fst (shape_step s (Set_face_tag c f tag))
    \<and> has_shape (snd (mesh_step m (Set_face_tag c f tag))) (snd (shape_step s (Set_face_tag c f tag)))"
proof (cases "unat c < length (sh_cells s) \<and> unat f < faces_of (ce_type (sh_cells s ! unat c))")
  case True
  then have c: "unat c < 2 ^ 56" using assms by (auto simp: has_shape_def)
  let ?k = "pack_face_key c f"
  let ?fs = "if tag = untagged then AList.delete ?k (me_faces m) else AList.update ?k tag (me_faces m)"
  have "map_of ?fs key = ((map_of (me_faces m))(?k := if tag = untagged then None else Some tag)) key" for key
    by (simp add: delete_conv' update_conv')
  moreover have "distinct (map fst ?fs)" using assms by (simp add: has_shape_def distinct_delete distinct_update)
  ultimately have "has_shape (m\<lparr>me_faces := ?fs\<rparr>)
      (s\<lparr>sh_faces := (sh_faces s)((unat c, unat f) := if tag = untagged then None else Some tag)\<rparr>)"
    using assms True unpacked_eq_iff [OF c, of _ f] unfolding has_shape_def by (auto split: if_splits)
  then show ?thesis using True num_cells_shape [OF assms] type_shape [OF assms]
    by (cases "tag = untagged") (simp_all add: mesh_step_def shape_step_def set_face_tag_def)
next
  case False
  then show ?thesis using assms num_cells_shape [OF assms] type_shape [OF assms]
    by (auto simp: mesh_step_def shape_step_def set_face_tag_def)
qed

text \<open>No count overflows in fewer than \<open>2 ^ 56\<close> operations.\<close>

definition room :: "nat \<Rightarrow> shape \<Rightarrow> bool" where
  "room n s = (length (sh_points s) + n < 2 ^ 64 \<and> length (sh_cells s) + n \<le> 2 ^ 56
     \<and> length (concat (map ce_nodes (sh_cells s))) + 27 * n < 2 ^ 64)"

lemma step_shape:
  assumes "has_shape m s" "room (Suc n) s"
  shows "fst (mesh_step m a) = fst (shape_step s a) \<and> has_shape (snd (mesh_step m a)) (snd (shape_step s a))
    \<and> room n (snd (shape_step s a))"
proof -
  have "room n (snd (shape_step s a))"
  proof (cases a)
    case (Add_cell t ns tag)
    then show ?thesis using assms(2) nodes_of_le [of t] by (simp add: room_def shape_step_def)
  qed (use assms(2) in \<open>auto simp: room_def shape_step_def\<close>)
  moreover have "fst (mesh_step m a) = fst (shape_step s a) \<and> has_shape (snd (mesh_step m a)) (snd (shape_step s a))"
    using assms add_node_shape [OF assms(1)] add_cell_shape [OF assms(1)] set_face_shape [OF assms(1)]
    by (cases a) (simp_all add: room_def)
  ultimately show ?thesis by blast
qed

lemma run_shape:
  "has_shape m s \<Longrightarrow> room (length as) s \<Longrightarrow>
     fst (run_ops mesh_step as m) = fst (run_ops shape_step as s)
     \<and> has_shape (snd (run_ops mesh_step as m)) (snd (run_ops shape_step as s))"
proof (induction as arbitrary: m s)
  case (Cons a as)
  from step_shape [OF Cons.prems(1), of "length as" a] Cons.prems(2)
  have "fst (mesh_step m a) = fst (shape_step s a)" "has_shape (snd (mesh_step m a)) (snd (shape_step s a))"
    "room (length as) (snd (shape_step s a))" by simp_all
  with Cons.IH [OF this(2,3)] show ?case by (simp add: case_prod_beta Let_def)
qed simp

section \<open>Reading the shape\<close>

lemma mesh_node_shape:
  "has_shape m s \<Longrightarrow> mesh_node i m =
     (if unat i < length (sh_points s) then Inr (sh_points s ! unat i) else Inl Node_out_of_range)"
  using flat_points_nth [of "unat i" "sh_points s"] num_nodes_shape [of m s]
  by (auto simp: mesh_node_def has_shape_def Let_def)

lemma cell_nodes_shape:
  assumes "has_shape m s"
  shows "cell_nodes i m =
     (if unat i < length (sh_cells s) then Inr (ce_nodes (sh_cells s ! unat i)) else Inl Cell_out_of_range)"
proof (cases "unat i < length (sh_cells s)")
  case True
  let ?xss = "map ce_nodes (sh_cells s)"
  have i: "unat i < length ?xss" using True by simp
  have total: "length (concat ?xss) < 2 ^ 64" using assms by (simp add: has_shape_def)
  have "length (concat (take (unat i) ?xss)) \<le> length (concat ?xss)" by (rule starts_of_le) (use i in simp)
  then have b: "length (concat (take (unat i) ?xss)) < 2 ^ 64" using total by linarith
  have offsets: "me_offsets m ! unat i = of_nat (length (concat (take (unat i) ?xss)))"
    "me_offsets m ! (unat i + 1) = of_nat (length (concat (take (unat i + 1) ?xss)))"
  proof -
    have m: "me_offsets m = map of_nat (starts_of ?xss)" using assms by (simp add: has_shape_def)
    show "me_offsets m ! unat i = of_nat (length (concat (take (unat i) ?xss)))"
      unfolding m by (subst nth_map) (use i in \<open>simp_all add: starts_of_nth\<close>)
    show "me_offsets m ! (unat i + 1) = of_nat (length (concat (take (unat i + 1) ?xss)))"
      unfolding m by (subst nth_map) (use i in \<open>simp_all add: starts_of_nth\<close>)
  qed
  have more_at: "length (concat (take (unat i + 1) ?xss)) = length (concat (take (unat i) ?xss)) + length (?xss ! unat i)"
    using i by (simp add: take_Suc_conv_app_nth)
  have "length (?xss ! unat i) < 2 ^ 64"
    using starts_of_le [of "unat i + 1" ?xss] i total unfolding more_at by simp
  then have "unat (me_offsets m ! (unat i + 1) - me_offsets m ! unat i) = length (?xss ! unat i)"
    unfolding offsets more_at by (simp add: unat_of_nat64)
  moreover have "unat (me_offsets m ! unat i) = length (concat (take (unat i) ?xss))"
    unfolding offsets by (rule unat_of_nat64 [OF b])
  moreover have "me_indices m = concat ?xss" using assms by (simp add: has_shape_def)
  ultimately show ?thesis using True concat_slice [OF i] num_cells_shape [OF assms] by (simp add: cell_nodes_def)
qed (use num_cells_shape [OF assms] in \<open>simp add: cell_nodes_def\<close>)

lemma cell_fields_shape:
  assumes "has_shape m s"
  shows "cell_type i m = (if unat i < length (sh_cells s) then ce_type (sh_cells s ! unat i) else 0)"
    "cell_tag i m = (if unat i < length (sh_cells s) then ce_tag (sh_cells s ! unat i) else untagged)"
  using assms by (auto simp: cell_type_def cell_tag_def num_cells_def has_shape_def)

lemma face_tag_shape:
  assumes "has_shape m s"
  shows "face_tag c f m = (case sh_faces s (unat c, unat f) of None \<Rightarrow> untagged | Some t \<Rightarrow> t)"
proof (cases "unat c < length (sh_cells s) \<and> unat f < faces_of (ce_type (sh_cells s ! unat c))")
  case True
  then have c: "unat c < 2 ^ 56" using assms by (auto simp: has_shape_def)
  have "map_of (me_faces m) (pack_face_key c f) = sh_faces s (unat c, unat f)"
    using assms unpack_face_key(1,3) [OF c, of f] by (simp add: has_shape_def)
  then show ?thesis using True num_cells_shape [OF assms] type_shape [OF assms] by (simp add: face_tag_def)
next
  case False
  then have "sh_faces s (unat c, unat f) = None"
    using assms unfolding has_shape_def by (metis option.exhaust)
  then show ?thesis using False num_cells_shape [OF assms] type_shape [OF assms]
    by (auto simp: face_tag_def)
qed

lemma unat_parts:
  "unat (drop_bit 8 (k :: u64)) < 2 ^ 56" "unat (ucast (and k 0xFF) :: byte) = unat (and k 0xFF)"
proof -
  have "unat k < 2 ^ LENGTH(64)" by (rule unsigned_less)
  then have "unat k div 256 < 2 ^ 56" by simp
  then show c: "unat (drop_bit 8 k) < 2 ^ 56" by (simp add: unat_drop_bit_eq drop_bit_eq_div unat_div)
  show "unat (ucast (and k 0xFF) :: byte) = unat (and k 0xFF)"
    using unpack_face_key(3) [OF c, of "ucast (and k 0xFF)"] unfolding pack_unpacked by (rule sym)
qed

lemma tagged_faces_shape:
  assumes "has_shape m s"
  shows "set (tagged_faces m) = {(c, f, t). sh_faces s (unat c, unat f) = Some t}"
proof -
  have keys: "(key, t) \<in> set (me_faces m) \<longleftrightarrow> sh_faces s (unat (drop_bit 8 key), unat (and key 0xFF)) = Some t" for key t
    using assms by (simp add: has_shape_def flip: map_of_eq_Some_iff)
  have "(c, f, t) \<in> set (tagged_faces m) \<longleftrightarrow> sh_faces s (unat c, unat f) = Some t" for c f t
  proof
    assume "(c, f, t) \<in> set (tagged_faces m)"
    then obtain key where "(key, t) \<in> set (me_faces m)" "c = drop_bit 8 key" "f = ucast (and key 0xFF)"
      unfolding tagged_faces_def by auto
    then show "sh_faces s (unat c, unat f) = Some t" using keys unat_parts(2) by simp
  next
    assume t: "sh_faces s (unat c, unat f) = Some t"
    then have "unat c < length (sh_cells s)" "length (sh_cells s) \<le> 2 ^ 56" using assms unfolding has_shape_def by blast+
    then have c: "unat c < 2 ^ 56" by linarith
    from t have "(pack_face_key c f, t) \<in> set (me_faces m)"
      unfolding keys unpack_face_key(1,3) [OF c] .
    then have "(drop_bit 8 (pack_face_key c f), ucast (and (pack_face_key c f) 0xFF), t) \<in> set (tagged_faces m)"
      unfolding tagged_faces_def by force
    then show "(c, f, t) \<in> set (tagged_faces m)" unfolding unpack_face_key(1,2) [OF c] .
  qed
  then show ?thesis by auto
qed

text \<open>The table of faces fits the elements it covers.\<close>

lemma face_table_fits:
  "list_all (\<lambda>t. list_all (\<lambda>f. (length f = 3 \<or> length f = 4) \<and> distinct f \<and> list_all (\<lambda>v. v < nodes_of t) f) (face_node_table t))
     [4, 6, 9, 11, 14, 16]"
  "list_all (\<lambda>t. length (face_node_table t) = faces_of t) [9, 11, 14, 16]"
  by code_simp+

text \<open>In a solid element every edge of a face is the edge of one other face, run through the other way.\<close>

definition edges :: "nat list \<Rightarrow> (nat \<times> nat) list" where
  "edges f = zip f (rotate1 f)"

lemma face_table_closed:
  "list_all (\<lambda>t. let es = concat (map edges (face_node_table t))
     in distinct es \<and> list_all (\<lambda>(a, b). List.member es (b, a)) es) [9, 11, 14, 16]"
  by code_simp

text \<open>The faces that can be tagged are not those of the table: a triangle has three sides to tag and
  one face in the table, a quadratic element has sides to tag and none in the table.\<close>

lemma tagged_sides_are_not_table_faces:
  "map (\<lambda>t. (faces_of t, length (face_node_table t))) [4, 6, 10, 12] = [(3, 1), (4, 1), (4, 0), (6, 0)]"
  by code_simp

text \<open>A cell of an unknown type, without nodes, is accepted.\<close>

lemma unknown_cell_accepted: "fst (mesh_step new_mesh (Add_cell 999 [] 0)) = Index 0"
  by code_simp

section \<open>The property\<close>

text \<open>C36: a mesh is its shape.  After any operations, fewer than \<open>2 ^ 56\<close>, in any order and with any arguments,
  the mesh has given the results, exceptions included, that the operations give on a list of points, a
  list of cells with their own nodes and a map of tagged faces; and every query, at every index, finds
  exactly what these hold.\<close>

theorem mesh_implements_shape:
  assumes "length as \<le> 2 ^ 56" "run_ops mesh_step as new_mesh = (rs, m)" "run_ops shape_step as empty_shape = (rs', s)"
  shows "rs = rs' \<and> num_nodes m = length (sh_points s) \<and> num_cells m = length (sh_cells s)
    \<and> (\<forall>i. mesh_node i m = (if unat i < length (sh_points s) then Inr (sh_points s ! unat i) else Inl Node_out_of_range))
    \<and> (\<forall>i. cell_nodes i m = (if unat i < length (sh_cells s) then Inr (ce_nodes (sh_cells s ! unat i)) else Inl Cell_out_of_range))
    \<and> (\<forall>i. cell_type i m = (if unat i < length (sh_cells s) then ce_type (sh_cells s ! unat i) else 0))
    \<and> (\<forall>i. cell_tag i m = (if unat i < length (sh_cells s) then ce_tag (sh_cells s ! unat i) else untagged))
    \<and> (\<forall>i f. face_tag i f m = (case sh_faces s (unat i, unat f) of None \<Rightarrow> untagged | Some t \<Rightarrow> t))
    \<and> set (tagged_faces m) = {(i, f, t). sh_faces s (unat i, unat f) = Some t}"
proof -
  have "room (length as) empty_shape" using assms(1) by (simp add: room_def empty_shape_def)
  from run_shape [OF has_shape_new this] have "rs = rs'" and sh: "has_shape m s"
    unfolding assms(2,3) by simp_all
  then show ?thesis
    using num_nodes_shape [OF sh] num_cells_shape [OF sh] mesh_node_shape [OF sh] cell_nodes_shape [OF sh]
      cell_fields_shape [OF sh] face_tag_shape [OF sh] tagged_faces_shape [OF sh] by blast
qed

definition sample_mesh_ops :: "mesh_op list" where
  "sample_mesh_ops = [Add_node (0, 0, 0), Add_node (1, 0, 0), Add_node (0, 1, 0), Add_cell 4 [0, 1, 2] 7,
     Add_cell 4 [0, 1, 3] 7, Set_face_tag 0 2 5, Set_face_tag 0 3 5]"

theorem mesh_implements_shape_witness:
  "cell_nodes 0 (snd (run_ops mesh_step sample_mesh_ops new_mesh)) = Inr [0, 1, 2]
    \<and> face_tag 0 2 (snd (run_ops mesh_step sample_mesh_ops new_mesh)) = 5"
proof -
  obtain rs m where m: "run_ops mesh_step sample_mesh_ops new_mesh = (rs, m)" by fastforce
  obtain rs' s where s: "run_ops shape_step sample_mesh_ops empty_shape = (rs', s)" by fastforce
  have "s = snd (run_ops shape_step sample_mesh_ops empty_shape)" using s by simp
  moreover have "map ce_nodes (sh_cells (snd (run_ops shape_step sample_mesh_ops empty_shape))) = [[0, 1, 2]]"
    "sh_faces (snd (run_ops shape_step sample_mesh_ops empty_shape)) (0, 2) = Some 5" by code_simp+
  ultimately have cells: "map ce_nodes (sh_cells s) = [[0, 1, 2]]" and face: "sh_faces s (0, 2) = Some 5" by simp_all
  have n: "length sample_mesh_ops \<le> 2 ^ 56" by (simp add: sample_mesh_ops_def)
  from cells obtain c where c: "sh_cells s = [c]" "ce_nodes c = [0, 1, 2]" by auto
  have "cell_nodes 0 m = Inr [0, 1, 2]" "face_tag 0 2 m = 5"
    using mesh_implements_shape [OF n m s] c face by simp_all
  then show ?thesis by (simp add: m)
qed

end
