(* ===== verification/Mesh_Buffers.thy ===== *)
theory Mesh_Buffers
  imports Mesh
begin

text \<open>
  The C interface of the mesh (src/core/c_abi_mesh.cpp, include/souxmar-c/mesh.h): the calls that
  change and read a mesh behind a pointer, and the construction of a mesh from buffers that a plugin has filled.
  A null pointer is \<open>None\<close>.  A buffer is its bytes, and a read past its end, which C++
  leaves undefined, is the result \<open>Past_end\<close>.  Sizes are products of 64-bit numbers and wrap.
  The lemmas show which buffers give which mesh, and that a wrapped size lets the code read past the end.
\<close>

section \<open>Words in buffers\<close>

text \<open>The machine is little-endian.\<close>

definition to_bytes :: "'a::len word \<Rightarrow> byte list" where
  "to_bytes v = map (\<lambda>i. ucast (drop_bit (8 * i) v)) [0..<LENGTH('a) div 8]"

fun from_bytes :: "byte list \<Rightarrow> 'a::len word" where
  "from_bytes [] = 0"
| "from_bytes (b # bs) = or (ucast b) (push_bit 8 (from_bytes bs))"

definition as_bytes :: "'a::len word list \<Rightarrow> byte list" where
  "as_bytes vs = concat (map to_bytes vs)"

text \<open>The element of a typed pointer to the bytes, \<open>None\<close> past their end.\<close>

definition item_at :: "byte list \<Rightarrow> nat \<Rightarrow> 'a::len word option" where
  "item_at bs i = (let k = LENGTH('a) div 8
     in if k * i + k \<le> length bs then Some (from_bytes (take k (drop (k * i) bs))) else None)"

lemma bit_from_bytes:
  "bit (from_bytes bs :: 'a::len word) n \<longleftrightarrow> n < LENGTH('a) \<and> n div 8 < length bs \<and> bit (bs ! (n div 8)) (n mod 8)"
proof (induction bs arbitrary: n)
  case (Cons b bs)
  show ?case
  proof (cases "n < 8")
    case False
    then have "n div 8 = Suc ((n - 8) div 8)" "n mod 8 = (n - 8) mod 8"
      by (simp_all add: le_div_geq le_mod_geq)
    then show ?thesis using False bit_imp_le_length [of b n] by (auto simp: bit_simps Cons.IH)
  qed (auto simp: bit_simps)
qed simp

lemma length_to_bytes [simp]: "length (to_bytes (v :: 'a::len word)) = LENGTH('a) div 8"
  by (simp add: to_bytes_def)

lemma from_to_bytes:
  assumes "8 dvd LENGTH('a)"
  shows "from_bytes (to_bytes (v :: 'a::len word)) = v"
proof (rule bit_word_eqI)
  fix n assume n: "n < LENGTH('a)"
  then have "n div 8 < LENGTH('a) div 8" using assms by (auto simp: dvd_def)
  moreover have "n mod 8 < LENGTH(8)" by simp
  ultimately show "bit (from_bytes (to_bytes v) :: 'a word) n = bit v n"
    using n \<open>n mod 8 < LENGTH(8)\<close>
    by (simp add: bit_from_bytes to_bytes_def bit_ucast_iff bit_drop_bit_eq del: len_bit0 len_bit1)
qed

lemma to_from_bytes:
  assumes "8 * length bs = LENGTH('a)"
  shows "to_bytes (from_bytes bs :: 'a::len word) = bs"
proof (rule nth_equalityI)
  show l: "length (to_bytes (from_bytes bs :: 'a word)) = length bs" unfolding length_to_bytes assms [symmetric] by simp
  fix i assume "i < length (to_bytes (from_bytes bs :: 'a word))"
  then have i: "i < length bs" unfolding l .
  then have k: "to_bytes (from_bytes bs :: 'a word) ! i = ucast (drop_bit (8 * i) (from_bytes bs :: 'a word))"
    unfolding to_bytes_def assms [symmetric] by simp
  show "to_bytes (from_bytes bs :: 'a word) ! i = bs ! i"
    unfolding k by (rule bit_word_eqI) (use i assms [symmetric] in \<open>auto simp: bit_simps bit_from_bytes\<close>)
qed

lemma as_bytes_simps [simp]: "as_bytes [] = []" "as_bytes (v # vs) = to_bytes v @ as_bytes vs"
  by (simp_all add: as_bytes_def)

lemma length_as_bytes [simp]: "length (as_bytes (vs :: 'a::len word list)) = LENGTH('a) div 8 * length vs"
  by (induction vs) simp_all

lemma item_at_as_bytes:
  assumes "8 dvd LENGTH('a)"
  shows "item_at (as_bytes vs) i = (if i < length vs then Some (vs ! i :: 'a::len word) else None)"
proof (cases "i < length vs")
  case True
  let ?k = "LENGTH('a) div 8"
  have "as_bytes vs = as_bytes (take i vs) @ to_bytes (vs ! i) @ as_bytes (drop (Suc i) vs)"
    by (subst id_take_nth_drop [OF True]) (simp add: as_bytes_def)
  moreover have "length (as_bytes (take i vs)) = ?k * i" using True by simp
  ultimately have "drop (?k * i) (as_bytes vs) = to_bytes (vs ! i) @ as_bytes (drop (Suc i) vs)"
    by (metis append_eq_conv_conj)
  then have "take ?k (drop (?k * i) (as_bytes vs)) = to_bytes (vs ! i)" by simp
  moreover have "?k * i + ?k \<le> ?k * length vs"
    using True mult_le_mono2 [of "Suc i" "length vs" ?k] by simp
  ultimately show ?thesis using True by (simp add: item_at_def Let_def from_to_bytes [OF assms])
next
  case False
  have "0 < LENGTH('a) div 8" using dvd_imp_le [OF assms len_gt_0] by (simp add: div_greater_zero_iff)
  then have "LENGTH('a) div 8 * length vs < LENGTH('a) div 8 * Suc i" using False by (intro mult_less_mono2) simp_all
  then have "\<not> LENGTH('a) div 8 * i + LENGTH('a) div 8 \<le> LENGTH('a) div 8 * length vs" by (simp add: not_le)
  then show ?thesis using False by (simp add: item_at_def Let_def)
qed

lemma bytes_of_words:
  assumes "8 dvd LENGTH('a)" "length bs = LENGTH('a) div 8 * n"
  obtains vs where "bs = as_bytes (vs :: 'a::len word list)" "length vs = n"
  using assms(2)
proof (induction n arbitrary: bs thesis)
  case (Suc n)
  let ?k = "LENGTH('a) div 8"
  from Suc.prems(2) have "length (drop ?k bs) = ?k * n" by simp
  then obtain vs where vs: "drop ?k bs = as_bytes (vs :: 'a word list)" "length vs = n" by (rule Suc.IH [rotated]) blast
  have "8 * length (take ?k bs) = LENGTH('a)" using Suc.prems(2) assms(1) by simp
  then have "to_bytes (from_bytes (take ?k bs) :: 'a word) = take ?k bs" by (rule to_from_bytes)
  then have "bs = as_bytes ((from_bytes (take ?k bs) :: 'a word) # vs)" using vs by (simp flip: vs(1))
  then show ?case using Suc.prems(1) vs(2) by (metis length_Cons)
qed simp

lemma words_of_bytes:
  "length bs = 8 * n \<Longrightarrow> \<exists>vs :: u64 list. bs = as_bytes vs \<and> length vs = n"
  "length bs = 2 * n \<Longrightarrow> \<exists>ts :: 16 word list. bs = as_bytes ts \<and> length ts = n"
  "length bs = 4 * n \<Longrightarrow> \<exists>gs :: 32 word list. bs = as_bytes gs \<and> length gs = n"
  by (rule bytes_of_words [of bs n]; auto)+

section \<open>Calls on a mesh\<close>

datatype 'a outcome =
    Gave 'a
  | Refused c_status
  | Past_end
  | Length_error

text \<open>\<open>vector::reserve\<close> and its kin throw \<open>std::length_error\<close> beyond \<open>max_size\<close>; memory is not modelled.\<close>

definition max_size :: "nat \<Rightarrow> nat" where
  "max_size bytes = (2 ^ 63 - 1) div bytes"

definition e_not_found :: u32 where "e_not_found = 3"

definition c_add_node :: "mesh option \<Rightarrow> point option \<Rightarrow> u64 \<times> mesh option" where
  "c_add_node mesh position = (case (mesh, position) of
     (Some m, Some p) \<Rightarrow> (let (i, m) = add_node p m in (i, Some m))
   | _ \<Rightarrow> (- 1, mesh))"

definition add_cell_failure :: "mesh_error \<Rightarrow> c_status" where
  "add_cell_failure e =
     (if e = Wrong_node_count \<or> e = Bad_local_face then status_error e_invalid_argument ''node count does not match element type''
      else status_error e_invalid_argument ''node index references missing node'')"

text \<open>The array of indices is a list and the number of entries the caller gives with it; the copy is
  outside of the \<open>try\<close>.  With the OK status come the index and the mesh.\<close>

definition c_add_cell ::
  "mesh option \<Rightarrow> element_type \<Rightarrow> u64 list option \<Rightarrow> u64 \<Rightarrow> tag \<Rightarrow> (u64 \<times> mesh) outcome" where
  "c_add_cell mesh t node_indices n tag = (case mesh of
     None \<Rightarrow> Refused (status_error e_invalid_argument ''mesh is NULL'')
   | Some m \<Rightarrow>
       if 0 < n \<and> node_indices = None then Refused (status_error e_invalid_argument ''node_indices is NULL'')
       else if max_size 8 < unat n then Length_error
       else let ns = (case node_indices of None \<Rightarrow> [] | Some ns \<Rightarrow> ns)
         in if length ns < unat n then Past_end
         else (case add_cell t (take (unat n) ns) tag m of
             Inl e \<Rightarrow> Refused (add_cell_failure e)
           | Inr (i, m) \<Rightarrow> Gave (i, m)))"

definition c_num_nodes :: "mesh option \<Rightarrow> nat" where
  "c_num_nodes mesh = (case mesh of None \<Rightarrow> 0 | Some m \<Rightarrow> num_nodes m)"

definition c_num_cells :: "mesh option \<Rightarrow> nat" where
  "c_num_cells mesh = (case mesh of None \<Rightarrow> 0 | Some m \<Rightarrow> num_cells m)"

definition c_node :: "mesh option \<Rightarrow> u64 \<Rightarrow> bool \<Rightarrow> c_status + point" where
  "c_node mesh i out_null = (case mesh of
     None \<Rightarrow> Inl (status_error e_invalid_argument ''NULL mesh or out_position'')
   | Some m \<Rightarrow>
       if out_null then Inl (status_error e_invalid_argument ''NULL mesh or out_position'')
       else (case mesh_node i m of
           Inl _ \<Rightarrow> Inl (status_error e_not_found ''node index out of range'')
         | Inr p \<Rightarrow> Inr p))"

definition c_cell_type :: "mesh option \<Rightarrow> u64 \<Rightarrow> element_type" where
  "c_cell_type mesh i = (case mesh of None \<Rightarrow> 0 | Some m \<Rightarrow> cell_type i m)"

definition c_cell_node_count :: "mesh option \<Rightarrow> u64 \<Rightarrow> nat" where
  "c_cell_node_count mesh i = (case mesh of
     None \<Rightarrow> 0
   | Some m \<Rightarrow> (case cell_nodes i m of Inl _ \<Rightarrow> 0 | Inr ns \<Rightarrow> length ns))"

definition c_cell_nodes :: "mesh option \<Rightarrow> u64 \<Rightarrow> bool \<Rightarrow> u64 \<Rightarrow> c_status + u64 list" where
  "c_cell_nodes mesh i out_null out_capacity = (case mesh of
     None \<Rightarrow> Inl (status_error e_invalid_argument ''NULL pointer'')
   | Some m \<Rightarrow>
       if out_null then Inl (status_error e_invalid_argument ''NULL pointer'')
       else (case cell_nodes i m of
           Inl _ \<Rightarrow> Inl (status_error e_not_found ''cell index out of range'')
         | Inr ns \<Rightarrow>
             if unat out_capacity < length ns
             then Inl (status_error e_invalid_argument ''out_capacity smaller than cell's node count'')
             else Inr ns))"

definition c_cell_tag :: "mesh option \<Rightarrow> u64 \<Rightarrow> tag" where
  "c_cell_tag mesh i = (case mesh of None \<Rightarrow> - 1 | Some m \<Rightarrow> cell_tag i m)"

definition c_cell_face_count :: "mesh option \<Rightarrow> u64 \<Rightarrow> nat" where
  "c_cell_face_count mesh i = (case mesh of
     None \<Rightarrow> 0
   | Some m \<Rightarrow> if num_cells m \<le> unat i then 0 else faces_of (cell_type i m))"

definition c_face_tag :: "mesh option \<Rightarrow> u64 \<Rightarrow> byte \<Rightarrow> tag" where
  "c_face_tag mesh cell local_face = (case mesh of None \<Rightarrow> - 1 | Some m \<Rightarrow> face_tag cell local_face m)"

definition c_set_face_tag :: "mesh option \<Rightarrow> u64 \<Rightarrow> byte \<Rightarrow> tag \<Rightarrow> c_status \<times> mesh option" where
  "c_set_face_tag mesh cell local_face tag = (case mesh of
     None \<Rightarrow> (status_error e_invalid_argument ''mesh is NULL'', None)
   | Some m \<Rightarrow> (case set_face_tag cell local_face tag m of
       Inl e \<Rightarrow>
         (if e = Cell_out_of_range then status_error e_not_found ''cell index out of range''
          else status_error e_invalid_argument ''local face index exceeds cell's face count'', mesh)
     | Inr m \<Rightarrow> (status_ok, Some m)))"

definition c_nodes_flat :: "mesh option \<Rightarrow> double list" where
  "c_nodes_flat mesh = (case mesh of None \<Rightarrow> [] | Some m \<Rightarrow> me_nodes m)"

lemma concat_nodes_le: "list_all (cell_ok n) cs \<Longrightarrow> length (concat (map ce_nodes cs)) \<le> 27 * length cs"
proof (induction cs)
  case (Cons c cs)
  then show ?case using nodes_of_le [of "ce_type c"] by (simp add: cell_ok_def)
qed simp

lemma added_cell:
  assumes "has_shape m s" "length (sh_cells s) < 2 ^ 56" "cell_ok (length (sh_points s)) c"
  shows "\<exists>i m'. add_cell (ce_type c) (ce_nodes c) (ce_tag c) m = Inr (i, m') \<and> has_shape m' (s\<lparr>sh_cells := sh_cells s @ [c]\<rparr>)"
proof -
  have "list_all (cell_ok (length (sh_points s))) (sh_cells s)" using assms(1) by (simp add: has_shape_def)
  then have "length (concat (map ce_nodes (sh_cells s))) + 27 < 2 ^ 64"
    using concat_nodes_le [of "length (sh_points s)" "sh_cells s"] assms(2) by simp
  moreover have "length (sh_cells s) + 1 \<le> 2 ^ 56" using assms(2) by simp
  ultimately have a: "fst (mesh_step m (Add_cell (ce_type c) (ce_nodes c) (ce_tag c))) = fst (shape_step s (Add_cell (ce_type c) (ce_nodes c) (ce_tag c)))
    \<and> has_shape (snd (mesh_step m (Add_cell (ce_type c) (ce_nodes c) (ce_tag c)))) (snd (shape_step s (Add_cell (ce_type c) (ce_nodes c) (ce_tag c))))"
    using assms(1) by (intro add_cell_shape)
  have "shape_step s (Add_cell (ce_type c) (ce_nodes c) (ce_tag c)) = (Index (of_nat (length (sh_cells s))), s\<lparr>sh_cells := sh_cells s @ [c]\<rparr>)"
    using assms(3) by (auto simp: shape_step_def cell_ok_def not_le)
  with a show ?thesis by (auto simp: mesh_step_def split: sum.splits)
qed

text \<open>A client that asks for the number of nodes and offers as much room gets the nodes of the cell, and one that goes
  through the faces a cell is said to have sets and reads every tag.\<close>

lemma cell_nodes_as_counted:
  assumes "has_shape m s" "unat i < length (sh_cells s)"
  shows "c_cell_node_count (Some m) i = nodes_of (ce_type (sh_cells s ! unat i))"
    "c_cell_nodes (Some m) i False (of_nat (c_cell_node_count (Some m) i)) = Inr (ce_nodes (sh_cells s ! unat i))"
proof -
  have ok: "length (ce_nodes (sh_cells s ! unat i)) = nodes_of (ce_type (sh_cells s ! unat i))"
    using assms by (auto simp: has_shape_def list_all_length cell_ok_def)
  have "unat (of_nat (nodes_of t) :: u64) = nodes_of t" for t
    by (rule unat_of_nat64) (use nodes_of_le [of t] in simp)
  then show "c_cell_node_count (Some m) i = nodes_of (ce_type (sh_cells s ! unat i))"
    "c_cell_nodes (Some m) i False (of_nat (c_cell_node_count (Some m) i)) = Inr (ce_nodes (sh_cells s ! unat i))"
    using cell_nodes_shape [OF assms(1), of i] assms(2) ok by (simp_all add: c_cell_node_count_def c_cell_nodes_def)
qed

lemma faces_as_counted:
  assumes "has_shape m s" "unat f < c_cell_face_count (Some m) i" "c_set_face_tag (Some m) i f tag = (st, Some m')"
  shows "st = status_ok \<and> c_face_tag (Some m') i f = tag"
proof -
  have i: "unat i < num_cells m" "unat f < faces_of (me_types m ! unat i)"
    using assms(2) by (auto simp: c_cell_face_count_def cell_type_def split: if_splits)
  then have "set_face_tag i f tag m = Inr (m\<lparr>me_faces := if tag = untagged then AList.delete (pack_face_key i f) (me_faces m)
      else AList.update (pack_face_key i f) tag (me_faces m)\<rparr>)" by (simp add: set_face_tag_def Let_def)
  then have "st = status_ok" "m' = m\<lparr>me_faces := if tag = untagged then AList.delete (pack_face_key i f) (me_faces m)
      else AList.update (pack_face_key i f) tag (me_faces m)\<rparr>" using assms(3) by (simp_all add: c_set_face_tag_def)
  then show ?thesis using i by (simp add: c_face_tag_def face_tag_def num_cells_def delete_conv' update_conv')
qed

lemma added_cell_as_shape:
  assumes "has_shape m s" "length (sh_cells s) < 2 ^ 56" "cell_ok (length (sh_points s)) c"
  shows "\<exists>i m'. c_add_cell (Some m) (ce_type c) (Some (ce_nodes c)) (of_nat (length (ce_nodes c))) (ce_tag c) = Gave (i, m')
    \<and> has_shape m' (s\<lparr>sh_cells := sh_cells s @ [c]\<rparr>)"
proof -
  have "length (ce_nodes c) \<le> 27" using assms(3) nodes_of_le [of "ce_type c"] by (simp add: cell_ok_def)
  moreover from this have "unat (of_nat (length (ce_nodes c)) :: u64) = length (ce_nodes c)" by (intro unat_of_nat64) simp
  ultimately show ?thesis using added_cell [OF assms] by (auto simp: c_add_cell_def max_size_def Let_def)
qed

section \<open>Construction from buffers\<close>

record mesh_buffers =
  mb_coords :: "byte list option"
  mb_num_nodes :: u64
  mb_types :: "byte list option"
  mb_connectivity :: "byte list option"
  mb_offsets :: "byte list option"
  mb_num_cells :: u64
  mb_tags :: "byte list option"

definition write_err :: "string \<Rightarrow> 'a outcome" where
  "write_err msg = Refused (status_error e_invalid_argument (''souxmar_mesh_from_buffers: '' @ msg))"

text \<open>The size of a buffer is what it was allocated with, a 64-bit number.\<close>

definition buffer_size :: "byte list \<Rightarrow> u64" where
  "buffer_size bs = of_nat (length bs)"

definition reserve_nodes_ok :: "u64 \<Rightarrow> bool" where
  "reserve_nodes_ok n = (unat (3 * n) \<le> max_size 8)"

definition reserve_cells_ok :: "u64 \<Rightarrow> bool" where
  "reserve_cells_ok n = (unat n \<le> max_size 2 \<and> unat n \<le> max_size 4 \<and> unat (n + 1) \<le> max_size 8 \<and> unat (8 * n) \<le> max_size 8)"

function check_offsets :: "byte list \<Rightarrow> nat \<Rightarrow> nat \<Rightarrow> unit outcome" where
  "check_offsets offs i n =
     (if n \<le> i then Gave ()
      else case (item_at offs (i + 1), item_at offs i) of
        (Some b, Some a) \<Rightarrow>
          if (b :: u64) < a then write_err ''cell_offsets is not monotonically non-decreasing''
          else check_offsets offs (Suc i) n
      | _ \<Rightarrow> Past_end)"
  by pat_completeness auto
termination by (relation "measure (\<lambda>(offs, i, n). n - i)") auto

function check_slice :: "byte list \<Rightarrow> u64 \<Rightarrow> nat \<Rightarrow> nat \<Rightarrow> unit outcome" where
  "check_slice conn nodes j e =
     (if e \<le> j then Gave ()
      else case item_at conn j of
        None \<Rightarrow> Past_end
      | Some v \<Rightarrow>
          if nodes \<le> v then write_err ''cell connectivity references an out-of-range node''
          else check_slice conn nodes (Suc j) e)"
  by pat_completeness auto
termination by (relation "measure (\<lambda>(conn, nodes, j, e). e - j)") auto

function check_cells :: "byte list \<Rightarrow> byte list \<Rightarrow> byte list \<Rightarrow> u64 \<Rightarrow> nat \<Rightarrow> nat \<Rightarrow> unit outcome" where
  "check_cells types offs conn nodes i n =
     (if n \<le> i then Gave ()
      else case item_at types i of
        None \<Rightarrow> Past_end
      | Some et \<Rightarrow>
          if nodes_of et = 0 \<or> et = 0 then write_err ''cell_types[i] is not a known SOUXMAR_ET_*''
          else (case (item_at offs (i + 1), item_at offs i) of
            (Some b, Some a) \<Rightarrow>
              if b - a \<noteq> (of_nat (nodes_of et) :: u64)
              then write_err ''a cell's node count doesn't match its element type''
              else (case check_slice conn nodes (unat a) (unat b) of
                Gave _ \<Rightarrow> check_cells types offs conn nodes (Suc i) n
              | r \<Rightarrow> r)
          | _ \<Rightarrow> Past_end))"
  by pat_completeness auto
termination by (relation "measure (\<lambda>(types, offs, conn, nodes, i, n). n - i)") auto

text \<open>The result also holds the index each node was given.\<close>

function insert_nodes :: "byte list \<Rightarrow> nat \<Rightarrow> nat \<Rightarrow> u64 list \<Rightarrow> mesh \<Rightarrow> (u64 list \<times> mesh) outcome" where
  "insert_nodes coords i n lookup m =
     (if n \<le> i then Gave (lookup, m)
      else case (item_at coords (i * 3), item_at coords (i * 3 + 1), item_at coords (i * 3 + 2)) of
        (Some x, Some y, Some z) \<Rightarrow>
          (let (k, m) = add_node (x, y, z) m in insert_nodes coords (Suc i) n (lookup @ [k]) m)
      | _ \<Rightarrow> Past_end)"
  by pat_completeness auto
termination by (relation "measure (\<lambda>(coords, i, n, lookup, m). n - i)") auto

function slice_of :: "byte list \<Rightarrow> u64 list \<Rightarrow> nat \<Rightarrow> nat \<Rightarrow> u64 list option" where
  "slice_of conn lookup j e =
     (if e \<le> j then Some []
      else case item_at conn j of
        None \<Rightarrow> None
      | Some v \<Rightarrow>
          if length lookup \<le> unat (v :: u64) then None
          else map_option ((#) (lookup ! unat v)) (slice_of conn lookup (Suc j) e))"
  by pat_completeness auto
termination by (relation "measure (\<lambda>(conn, lookup, j, e). e - j)") auto

definition tag_at :: "byte list option \<Rightarrow> nat \<Rightarrow> tag option" where
  "tag_at tags i = (case tags of None \<Rightarrow> Some untagged | Some bs \<Rightarrow> item_at bs i)"

function insert_cells ::
  "byte list \<Rightarrow> byte list \<Rightarrow> byte list \<Rightarrow> byte list option \<Rightarrow> u64 list \<Rightarrow> nat \<Rightarrow> nat \<Rightarrow> mesh \<Rightarrow> mesh outcome" where
  "insert_cells types offs conn tags lookup i n m =
     (if n \<le> i then Gave m
      else case (item_at types i, item_at offs i, item_at offs (i + 1)) of
        (Some et, Some b, Some e) \<Rightarrow>
          (case (slice_of conn lookup (unat (b :: u64)) (unat (e :: u64)), tag_at tags i) of
            (Some ns, Some tag) \<Rightarrow>
              (case add_cell et ns tag m of
                Inl _ \<Rightarrow> write_err ''Mesh::add_cell rejected a cell''
              | Inr (_, m) \<Rightarrow> insert_cells types offs conn tags lookup (Suc i) n m)
          | _ \<Rightarrow> Past_end)
      | _ \<Rightarrow> Past_end)"
  by pat_completeness auto
termination by (relation "measure (\<lambda>(types, offs, conn, tags, lookup, i, n, m). n - i)") auto


text \<open>The end of the offsets, and what they say the connectivity holds.\<close>

definition total_refs :: "byte list \<Rightarrow> u64 \<Rightarrow> u64 option" where
  "total_refs offs n = (if n = 0 then Some 0 else item_at offs (unat n))"

definition build :: "byte list \<Rightarrow> byte list \<Rightarrow> byte list \<Rightarrow> byte list \<Rightarrow> byte list option \<Rightarrow> u64 \<Rightarrow> u64 \<Rightarrow> mesh outcome" where
  "build coords types conn offs tags nodes cells =
     (if \<not> reserve_nodes_ok nodes \<or> \<not> reserve_cells_ok cells \<or> max_size 8 < unat nodes then Length_error
      else case insert_nodes coords 0 (unat nodes) [] new_mesh of
        Gave (lookup, m) \<Rightarrow> insert_cells types offs conn tags lookup 0 (unat cells) m
      | Refused s \<Rightarrow> Refused s | Past_end \<Rightarrow> Past_end | Length_error \<Rightarrow> Length_error)"

definition after_sizes ::
  "byte list \<Rightarrow> byte list \<Rightarrow> byte list \<Rightarrow> byte list \<Rightarrow> byte list option \<Rightarrow> u64 \<Rightarrow> u64 \<Rightarrow> mesh outcome" where
  "after_sizes coords types conn offs tags nodes cells =
     (if 0 < cells \<and> (item_at offs 0 :: u64 option) = None then Past_end
      else if 0 < cells \<and> item_at offs 0 \<noteq> Some (0 :: u64) then write_err ''cell_offsets[0] must be 0''
      else case check_offsets offs 0 (unat cells) of
        Gave _ \<Rightarrow> (case total_refs offs cells of
          None \<Rightarrow> Past_end
        | Some nrefs \<Rightarrow>
            if buffer_size conn \<noteq> nrefs * 8
            then write_err ''cell_connectivity size != offsets[num_cells]*sizeof(uint64_t)''
            else (case check_cells types offs conn nodes 0 (unat cells) of
              Gave _ \<Rightarrow> build coords types conn offs tags nodes cells
            | Refused s \<Rightarrow> Refused s | Past_end \<Rightarrow> Past_end | Length_error \<Rightarrow> Length_error))
      | Refused s \<Rightarrow> Refused s | Past_end \<Rightarrow> Past_end | Length_error \<Rightarrow> Length_error)"

definition from_buffers :: "mesh_buffers option \<Rightarrow> mesh outcome" where
  "from_buffers buffers = (case buffers of
     None \<Rightarrow> write_err ''buffers is NULL''
   | Some b \<Rightarrow> (case (mb_coords b, mb_types b, mb_connectivity b, mb_offsets b) of
       (Some coords, Some types, Some conn, Some offs) \<Rightarrow>
         if buffer_size coords \<noteq> mb_num_nodes b * 3 * 8
         then write_err ''node_coords size != 3*num_nodes*sizeof(double)''
         else if buffer_size types \<noteq> mb_num_cells b * 2
         then write_err ''cell_types size != num_cells*sizeof(uint16_t)''
         else if buffer_size offs \<noteq> (mb_num_cells b + 1) * 8
         then write_err ''cell_offsets size != (num_cells+1)*sizeof(uint64_t)''
         else if (case mb_tags b of None \<Rightarrow> False | Some tags \<Rightarrow> buffer_size tags \<noteq> mb_num_cells b * 4)
         then write_err ''cell_tags size != num_cells*sizeof(int32_t)''
         else after_sizes coords types conn offs (mb_tags b) (mb_num_nodes b) (mb_num_cells b)
     | _ \<Rightarrow> write_err ''a required buffer is NULL''))"

section \<open>Sizes that wrap\<close>

text \<open>Two cells of which the second claims so many nodes that the size of the connectivity wraps to one
  entry: checking the first cell reads past the end.\<close>

definition wrapped_total :: mesh_buffers where
  "wrapped_total = \<lparr>mb_coords = Some (as_bytes (replicate 12 (0 :: u64))), mb_num_nodes = 4,
     mb_types = Some (as_bytes [9, 9 :: 16 word]), mb_connectivity = Some (as_bytes [0 :: u64]),
     mb_offsets = Some (as_bytes [0, 4, 2 ^ 61 + 1 :: u64]), mb_num_cells = 2, mb_tags = None\<rparr>"

lemma wrapped_total_reads_past_end: "from_buffers (Some wrapped_total) = Past_end"
  by code_simp

section \<open>What the checks let through\<close>

lemma items [simp]:
  "item_at (as_bytes (vs :: u64 list)) i = (if i < length vs then Some (vs ! i) else None)"
  "item_at (as_bytes (ts :: 16 word list)) i = (if i < length ts then Some (ts ! i) else None)"
  "item_at (as_bytes (gs :: 32 word list)) i = (if i < length gs then Some (gs ! i) else None)"
  by (rule item_at_as_bytes, simp)+

declare check_offsets.simps [simp del] check_slice.simps [simp del] check_cells.simps [simp del]
  insert_nodes.simps [simp del] slice_of.simps [simp del] insert_cells.simps [simp del]

lemma from_here: "(\<forall>k. i \<le> k \<and> k < n \<longrightarrow> P k) \<longleftrightarrow> (i < n \<longrightarrow> P i) \<and> (\<forall>k. Suc i \<le> k \<and> k < n \<longrightarrow> P k)"
proof -
  have "i \<le> k \<longleftrightarrow> k = i \<or> Suc i \<le> k" for k by auto
  then show ?thesis by auto
qed

lemma check_offsets_words:
  "n < length (os :: u64 list) \<Longrightarrow> check_offsets (as_bytes os) i n =
     (if \<forall>k. i \<le> k \<and> k < n \<longrightarrow> os ! k \<le> os ! Suc k then Gave ()
      else write_err ''cell_offsets is not monotonically non-decreasing'')"
proof (induction "n - i" arbitrary: i)
  case 0
  then show ?case by (subst check_offsets.simps) auto
next
  case (Suc d)
  then have "d = n - Suc i" "i < n" by simp_all
  with Suc.hyps(1) [of "Suc i"] Suc.prems show ?case
    by (subst check_offsets.simps, subst from_here) (auto simp: not_le not_less split: option.splits)
qed

lemma check_slice_words:
  "e \<le> length (ns :: u64 list) \<Longrightarrow> check_slice (as_bytes ns) nodes j e =
     (if \<forall>k. j \<le> k \<and> k < e \<longrightarrow> ns ! k < nodes then Gave ()
      else write_err ''cell connectivity references an out-of-range node'')"
proof (induction "e - j" arbitrary: j)
  case 0
  then show ?case by (subst check_slice.simps) auto
next
  case (Suc d)
  then have "d = e - Suc j" "j < e" by simp_all
  with Suc.hyps(1) [of "Suc j"] Suc.prems show ?case
    by (subst check_slice.simps, subst from_here) (auto simp: not_le not_less split: option.splits)
qed

definition cell_good :: "u64 \<Rightarrow> element_type list \<Rightarrow> u64 list \<Rightarrow> u64 list \<Rightarrow> nat \<Rightarrow> bool" where
  "cell_good nodes ts os ns k = (nodes_of (ts ! k) \<noteq> 0 \<and> os ! Suc k - os ! k = of_nat (nodes_of (ts ! k))
     \<and> (\<forall>j \<in> {unat (os ! k)..<unat (os ! Suc k)}. ns ! j < nodes))"

lemma nodes_of_0 [simp]: "nodes_of 0 = 0"
  by (simp add: nodes_of_def info_def element_def)

lemma check_cells_words:
  assumes "n \<le> length ts" "n < length os" "\<And>k. k < n \<Longrightarrow> unat (os ! Suc k) \<le> length ns"
  shows "\<exists>msg. check_cells (as_bytes ts) (as_bytes os) (as_bytes ns) nodes i n =
     (if \<forall>k. i \<le> k \<and> k < n \<longrightarrow> cell_good nodes ts os ns k then Gave () else write_err msg)"
proof (induction "n - i" arbitrary: i)
  case 0
  then show ?case by (subst check_cells.simps) auto
next
  case (Suc d)
  then have d: "d = n - Suc i" and i: "i < n" by simp_all
  from Suc.hyps(1) [OF d] obtain msg where m: "check_cells (as_bytes ts) (as_bytes os) (as_bytes ns) nodes (Suc i) n =
     (if \<forall>k. Suc i \<le> k \<and> k < n \<longrightarrow> cell_good nodes ts os ns k then Gave () else write_err msg)" by blast
  have z: "nodes_of (ts ! i) = 0 \<or> ts ! i = 0 \<longleftrightarrow> nodes_of (ts ! i) = 0" by (metis nodes_of_0)
  show ?case
    by (subst check_cells.simps, subst from_here)
      (use i assms in \<open>auto simp: z m cell_good_def check_slice_words write_err_def\<close>)
qed

lemma buffer_sizes:
  "buffer_size (as_bytes (vs :: u64 list)) = of_nat (length vs) * 8"
  "buffer_size (as_bytes (ts :: 16 word list)) = of_nat (length ts) * 2"
  "buffer_size (as_bytes (gs :: 32 word list)) = of_nat (length gs) * 4"
  by (simp_all add: buffer_size_def)

text \<open>So many cells that the sizes wrap to those of one cell.\<close>

definition wrapped_cells :: mesh_buffers where
  "wrapped_cells = \<lparr>mb_coords = Some (as_bytes [0, 0, 0 :: u64]), mb_num_nodes = 1,
     mb_types = Some (as_bytes [1 :: 16 word]), mb_connectivity = Some (as_bytes [0 :: u64]),
     mb_offsets = Some (as_bytes [0, 1 :: u64]), mb_num_cells = 2 ^ 63 + 1, mb_tags = None\<rparr>"

lemma wrapped_cells_read_past_end: "from_buffers (Some wrapped_cells) = Past_end"
proof -
  have "check_offsets (as_bytes [0, 1 :: u64]) 0 9223372036854775809 = Past_end"
    by (subst check_offsets.simps, simp del: as_bytes_simps, subst check_offsets.simps, simp del: as_bytes_simps)
  then show ?thesis by (simp add: wrapped_cells_def from_buffers_def after_sizes_def buffer_sizes del: as_bytes_simps)
qed

text \<open>So many nodes that their size wraps to that of one number: the exception of \<open>reserve\<close> is not
  one that is caught, and leaves a function of the C interface.\<close>

definition wrapped_nodes :: mesh_buffers where
  "wrapped_nodes = \<lparr>mb_coords = Some (as_bytes [0 :: u64]), mb_num_nodes = 768614336404564651,
     mb_types = Some (as_bytes [1 :: 16 word]), mb_connectivity = Some (as_bytes [0 :: u64]),
     mb_offsets = Some (as_bytes [0, 1 :: u64]), mb_num_cells = 1, mb_tags = None\<rparr>"

lemma wrapped_nodes_throw: "from_buffers (Some wrapped_nodes) = Length_error"
proof -
  have "check_offsets (as_bytes [0, 1 :: u64]) 0 1 = Gave ()" by code_simp
  moreover have "check_cells (as_bytes [1 :: 16 word]) (as_bytes [0, 1 :: u64]) (as_bytes [0 :: u64]) 768614336404564651 0 1 = Gave ()"
    by code_simp
  moreover have "\<not> reserve_nodes_ok 768614336404564651" by (simp add: reserve_nodes_ok_def max_size_def)
  ultimately show ?thesis
    by (simp add: wrapped_nodes_def from_buffers_def after_sizes_def buffer_sizes total_refs_def build_def del: as_bytes_simps)
qed

section \<open>What is built\<close>

lemma insert_nodes_words:
  assumes "length (cs :: u64 list) = 3 * n" "i \<le> n" "me_nodes m = take (3 * i) cs" "lookup = map of_nat [0..<i]"
  shows "insert_nodes (as_bytes cs) i n lookup m = Gave (map of_nat [0..<n], m\<lparr>me_nodes := cs\<rparr>)"
  using assms
proof (induction "n - i" arbitrary: i lookup m)
  case 0
  then show ?case by (subst insert_nodes.simps) simp
next
  case (Suc d)
  then have d: "d = n - Suc i" and i: "i < n" by simp_all
  let ?m = "m\<lparr>me_nodes := me_nodes m @ [cs ! (i * 3), cs ! (i * 3 + 1), cs ! (i * 3 + 2)]\<rparr>"
  have "take (3 * Suc i) cs = take (3 * i) cs @ [cs ! (i * 3), cs ! (i * 3 + 1), cs ! (i * 3 + 2)]"
    using i Suc.prems(1) by (simp add: take_Suc_conv_app_nth mult.commute numeral_3_eq_3)
  then have "insert_nodes (as_bytes cs) (Suc i) n (lookup @ [of_nat i]) ?m = Gave (map of_nat [0..<n], ?m\<lparr>me_nodes := cs\<rparr>)"
    using Suc.prems i by (intro Suc.hyps(1) [OF d]) simp_all
  then show ?case using i Suc.prems by (subst insert_nodes.simps) (simp add: add_node_def)
qed

lemma slice_of_words:
  assumes "e \<le> length (ns :: u64 list)" "\<forall>k. j \<le> k \<and> k < e \<longrightarrow> ns ! k < nodes"
  shows "slice_of (as_bytes ns) (map of_nat [0..<unat nodes]) j e = Some (take (e - j) (drop j ns))"
  using assms(2)
proof (induction "e - j" arbitrary: j)
  case 0
  then show ?case by (subst slice_of.simps) simp
next
  case (Suc d)
  then have d: "d = e - Suc j" and j: "j < e" by simp_all
  have "slice_of (as_bytes ns) (map of_nat [0..<unat nodes]) (Suc j) e = Some (take (e - Suc j) (drop (Suc j) ns))"
    using Suc.prems by (intro Suc.hyps(1) [OF d]) simp
  moreover have "unat (ns ! j) < unat nodes" using Suc.prems j by (simp add: word_less_nat_alt)
  moreover have "take (e - j) (drop j ns) = ns ! j # take (e - Suc j) (drop (Suc j) ns)"
    using j assms(1) by (simp add: take_Cons' Cons_nth_drop_Suc [symmetric] Suc_diff_Suc [symmetric])
  ultimately show ?case using j assms(1) by (subst slice_of.simps) simp
qed

section \<open>The shape the buffers describe\<close>

text \<open>The layout is that of the header: cell \<open>i\<close> has the nodes from \<open>offsets[i]\<close> up to \<open>offsets[i+1]\<close> of the connectivity.\<close>

definition slice :: "u64 list \<Rightarrow> u64 \<Rightarrow> u64 \<Rightarrow> u64 list" where
  "slice ns a b = take (unat b - unat a) (drop (unat a) ns)"

definition cell_at :: "element_type list \<Rightarrow> u64 list \<Rightarrow> u64 list \<Rightarrow> tag list option \<Rightarrow> nat \<Rightarrow> cell" where
  "cell_at ts os ns gs i = \<lparr>ce_type = ts ! i, ce_nodes = slice ns (os ! i) (os ! Suc i),
     ce_tag = (case gs of None \<Rightarrow> untagged | Some gs \<Rightarrow> gs ! i)\<rparr>"

definition shape_at :: "point list \<Rightarrow> element_type list \<Rightarrow> u64 list \<Rightarrow> u64 list \<Rightarrow> tag list option \<Rightarrow> nat \<Rightarrow> shape" where
  "shape_at ps ts os ns gs i = \<lparr>sh_points = ps, sh_cells = map (cell_at ts os ns gs) [0..<i], sh_faces = \<lambda>f. None\<rparr>"

definition layout_ok :: "u64 list \<Rightarrow> nat \<Rightarrow> nat \<Rightarrow> bool" where
  "layout_ok os refs_at n = ((0 < n \<longrightarrow> os ! 0 = 0) \<and> (\<forall>k < n. os ! k \<le> os ! Suc k)
     \<and> refs_at = (if n = 0 then 0 else unat (os ! n)))"

definition describes :: "mesh_buffers \<Rightarrow> shape \<Rightarrow> bool" where
  "describes b s = (\<exists>ts os ns gs. let n = unat (mb_num_cells b) in
     mb_coords b = Some (as_bytes (flat_points (sh_points s))) \<and> mb_types b = Some (as_bytes ts)
     \<and> mb_connectivity b = Some (as_bytes ns) \<and> mb_offsets b = Some (as_bytes os) \<and> mb_tags b = map_option as_bytes gs
     \<and> length (sh_points s) = unat (mb_num_nodes b) \<and> length ts = n \<and> length os = Suc n
     \<and> (\<forall>l. gs = Some l \<longrightarrow> length l = n) \<and> layout_ok os (length ns) n
     \<and> s = shape_at (sh_points s) ts os ns gs n
     \<and> (\<forall>c \<in> set (sh_cells s). nodes_of (ce_type c) \<noteq> 0 \<and> cell_ok (length (sh_points s)) c))"

lemma offsets_below: "\<forall>k < n. (os :: u64 list) ! k \<le> os ! Suc k \<Longrightarrow> k \<le> n \<Longrightarrow> os ! k \<le> os ! n"
  by (rotate_tac, induction rule: inc_induct) (auto intro: order_trans)

lemma cell_good_ok:
  assumes "os ! k \<le> os ! Suc k" "unat (os ! Suc k) \<le> length ns"
  shows "cell_good nodes ts os ns k \<longleftrightarrow> nodes_of (ts ! k) \<noteq> 0 \<and> cell_ok (unat nodes) (cell_at ts os ns gs k)"
proof -
  let ?a = "unat (os ! k)" and ?b = "unat (os ! Suc k)"
  have ab: "?a \<le> ?b" using assms(1) by (simp add: word_le_nat_alt)
  have "unat (of_nat (nodes_of (ts ! k)) :: u64) = nodes_of (ts ! k)"
    by (rule unat_of_nat64) (use nodes_of_le [of "ts ! k"] in simp)
  then have count: "os ! Suc k - os ! k = of_nat (nodes_of (ts ! k)) \<longleftrightarrow> ?b - ?a = nodes_of (ts ! k)"
    unfolding word_unat_eq_iff unat_sub [OF assms(1)] by simp
  have len: "length (slice ns (os ! k) (os ! Suc k)) = ?b - ?a" using assms(2) by (simp add: slice_def)
  have "slice ns (os ! k) (os ! Suc k) = map ((!) ns) [?a..<?b]"
    by (rule nth_equalityI) (use assms(2) in \<open>simp_all add: slice_def\<close>)
  then have "(\<forall>i \<in> set (slice ns (os ! k) (os ! Suc k)). unat i < unat nodes) \<longleftrightarrow> (\<forall>j. ?a \<le> j \<and> j < ?b \<longrightarrow> ns ! j < nodes)"
    by (auto simp: word_less_nat_alt)
  then show ?thesis by (auto simp: cell_good_def cell_ok_def cell_at_def count len)
qed

lemma insert_cells_words:
  assumes "length ts = n" "length os = Suc n" "\<forall>l. gs = Some l \<longrightarrow> length l = n" "n \<le> 2 ^ 56"
    "\<forall>k < n. os ! k \<le> os ! Suc k" "\<forall>k < n. unat (os ! Suc k) \<le> length ns"
    "\<forall>k < n. cell_good nodes ts os ns k" "length ps = unat nodes"
    "i \<le> n" "has_shape m (shape_at ps ts os ns gs i)"
  shows "\<exists>m'. insert_cells (as_bytes ts) (as_bytes os) (as_bytes ns) (map_option as_bytes gs) (map of_nat [0..<unat nodes]) i n m = Gave m'
    \<and> has_shape m' (shape_at ps ts os ns gs n)"
  using assms(9,10)
proof (induction "n - i" arbitrary: i m)
  case 0
  then show ?case by (subst insert_cells.simps) auto
next
  case (Suc d)
  then have d: "d = n - Suc i" and i: "i < n" by simp_all
  let ?c = "cell_at ts os ns gs i"
  have good: "cell_good nodes ts os ns i" "os ! i \<le> os ! Suc i" "unat (os ! Suc i) \<le> length ns" using assms(5-7) i by auto
  then have "cell_ok (length (sh_points (shape_at ps ts os ns gs i))) ?c"
    using cell_good_ok [of os i ns nodes ts gs] assms(8) by (simp add: shape_at_def)
  moreover have "length (sh_cells (shape_at ps ts os ns gs i)) < 2 ^ 56" using i assms(4) by (simp add: shape_at_def)
  ultimately obtain j m' where m': "add_cell (ce_type ?c) (ce_nodes ?c) (ce_tag ?c) m = Inr (j, m')"
      "has_shape m' ((shape_at ps ts os ns gs i)\<lparr>sh_cells := sh_cells (shape_at ps ts os ns gs i) @ [?c]\<rparr>)"
    using added_cell [OF Suc.prems(2)] by blast
  have sl: "slice_of (as_bytes ns) (map of_nat [0..<unat nodes]) (unat (os ! i)) (unat (os ! Suc i)) = Some (ce_nodes ?c)"
    using slice_of_words [OF good(3)] good(1) by (simp add: cell_good_def cell_at_def slice_def)
  have tag: "tag_at (map_option as_bytes gs) i = Some (ce_tag ?c)"
    using assms(3) i by (cases gs) (simp_all add: tag_at_def cell_at_def)
  have "has_shape m' (shape_at ps ts os ns gs (Suc i))" using m'(2) by (simp add: shape_at_def)
  from Suc.hyps(1) [OF d _ this] i have "\<exists>m''. insert_cells (as_bytes ts) (as_bytes os) (as_bytes ns) (map_option as_bytes gs)
      (map of_nat [0..<unat nodes]) (Suc i) n m' = Gave m'' \<and> has_shape m'' (shape_at ps ts os ns gs n)" by simp
  moreover have "ts ! i = ce_type ?c" by (simp add: cell_at_def)
  ultimately show ?case using i assms(1,2) m'(1) by (subst insert_cells.simps) (simp add: sl tag)
qed

lemma size_is:
  assumes "length bs < 2 ^ 63" "unat n * k < 2 ^ 64" "k < 2 ^ 64"
  shows "buffer_size bs = n * of_nat k \<longleftrightarrow> length bs = k * unat n"
proof -
  have "unat (n * of_nat k) = unat n * k"
    using assms(2,3) by (simp add: unat_word_ariths unat_of_nat64 unat_of_nat take_bit_nat_eq_self)
  moreover have "unat (buffer_size bs) = length bs"
    unfolding buffer_size_def using assms(1) by (intro unat_of_nat64) simp
  ultimately show ?thesis unfolding word_unat_eq_iff by (simp add: mult.commute)
qed

lemma coordinates:
  assumes "length cs = 3 * n"
  obtains ps where "cs = flat_points ps" "length ps = n"
  using assms
proof (induction n arbitrary: cs thesis)
  case (Suc n)
  from Suc.prems(2) obtain x y z cs' where cs: "cs = x # y # z # cs'" "length cs' = 3 * n"
    by (auto simp: length_Suc_conv numeral_3_eq_3)
  from Suc.IH [OF _ cs(2)] obtain ps where "cs' = flat_points ps" "length ps = n" by blast
  then show ?case using Suc.prems(1) [of "(x, y, z) # ps"] cs(1) by simp
qed simp

definition good_layout :: "u64 \<Rightarrow> element_type list \<Rightarrow> u64 list \<Rightarrow> nat \<Rightarrow> u64 list \<Rightarrow> bool" where
  "good_layout nodes ts os n ns = (layout_ok os (length ns) n \<and> (\<forall>k < n. cell_good nodes ts os ns k))"

lemma layout_within:
  assumes "layout_ok os (length ns) n" "k < n"
  shows "unat (os ! Suc k) \<le> length ns"
  using assms offsets_below [of n os "Suc k"] by (auto simp: layout_ok_def word_le_nat_alt)

lemma built:
  assumes "length ps = unat nodes" "unat nodes \<le> 2 ^ 56" "unat cells = n" "n \<le> 2 ^ 56"
    "length ts = n" "length os = Suc n" "\<forall>l. gs = Some l \<longrightarrow> length l = n" "good_layout nodes ts os n ns"
  shows "\<exists>m. build (as_bytes (flat_points ps)) (as_bytes ts) (as_bytes ns) (as_bytes os) (map_option as_bytes gs) nodes cells = Gave m
    \<and> has_shape m (shape_at ps ts os ns gs n)"
proof -
  have lay: "layout_ok os (length ns) n" and good: "\<forall>k < n. cell_good nodes ts os ns k"
    using assms(8) by (simp_all add: good_layout_def)
  have "unat (3 * nodes) = 3 * unat nodes" "unat (8 * cells) = 8 * unat cells" "unat (cells + 1) = Suc (unat cells)"
    using assms(2-4) by (simp_all add: unat_word_ariths)
  then have room: "reserve_nodes_ok nodes" "reserve_cells_ok cells" "unat nodes \<le> max_size 8"
    using assms(2-4) by (simp_all add: reserve_nodes_ok_def reserve_cells_ok_def max_size_def)
  have nodes: "insert_nodes (as_bytes (flat_points ps)) 0 (unat nodes) [] new_mesh
      = Gave (map of_nat [0..<unat nodes], new_mesh\<lparr>me_nodes := flat_points ps\<rparr>)"
    using assms(1) by (intro insert_nodes_words) (simp_all add: new_mesh_def)
  have "has_shape (new_mesh\<lparr>me_nodes := flat_points ps\<rparr>) (shape_at ps ts os ns gs 0)"
    using has_shape_new assms(1,2) by (auto simp: has_shape_def new_mesh_def shape_at_def empty_shape_def)
  from insert_cells_words [OF assms(5-7,4) _ _ good assms(1) le0 this] lay layout_within [OF lay]
  show ?thesis unfolding layout_ok_def assms(3) [symmetric] using room nodes
    by (auto simp: build_def)
qed

lemma after_sizes_words:
  assumes "length ps = unat nodes" "unat nodes \<le> 2 ^ 56" "unat cells = n" "n \<le> 2 ^ 56"
    "length ts = n" "length os = Suc n" "\<forall>l. gs = Some l \<longrightarrow> length l = n"
    "length conn < 2 ^ 63" "0 < n \<longrightarrow> unat (os ! n) < 2 ^ 60"
  shows "conn = as_bytes ns \<Longrightarrow> good_layout nodes ts os n ns \<Longrightarrow>
      \<exists>m. after_sizes (as_bytes (flat_points ps)) (as_bytes ts) conn (as_bytes os) (map_option as_bytes gs) nodes cells = Gave m
        \<and> has_shape m (shape_at ps ts os ns gs n)"
    "\<nexists>ns. conn = as_bytes ns \<and> good_layout nodes ts os n ns \<Longrightarrow>
      \<exists>msg. after_sizes (as_bytes (flat_points ps)) (as_bytes ts) conn (as_bytes os) (map_option as_bytes gs) nodes cells = write_err msg"
proof -
  define r where "r = (if n = 0 then 0 else os ! n)"
  have cells: "0 < cells \<longleftrightarrow> 0 < n" "cells = 0 \<longleftrightarrow> n = 0"
    unfolding assms(3) [symmetric] by (simp_all add: word_gt_0 unsigned_eq_0_iff flip: neq0_conv)
  have refs: "total_refs (as_bytes os) cells = Some r" using assms(3,6) by (auto simp: total_refs_def cells r_def)
  have "buffer_size conn = r * of_nat 8 \<longleftrightarrow> length conn = 8 * unat r"
    using assms(8,9) by (intro size_is) (auto simp: r_def)
  then have size: "buffer_size conn = r * 8 \<longleftrightarrow> length conn = 8 * unat r" by simp
  have offs: "check_offsets (as_bytes os) 0 n = (if \<forall>k < n. os ! k \<le> os ! Suc k then Gave ()
      else write_err ''cell_offsets is not monotonically non-decreasing'')"
    using check_offsets_words [of n os 0] assms(6) by simp
  have check: "\<exists>msg. check_cells (as_bytes ts) (as_bytes os) (as_bytes ns) nodes 0 n =
      (if \<forall>k < n. cell_good nodes ts os ns k then Gave () else write_err msg)" if "layout_ok os (length ns) n" for ns
    using check_cells_words [of n ts os ns nodes 0] assms(5,6) layout_within [OF that] by simp
  let ?call = "after_sizes (as_bytes (flat_points ps)) (as_bytes ts) conn (as_bytes os) (map_option as_bytes gs) nodes cells"
  have first: "0 < n \<Longrightarrow> os ! 0 \<noteq> 0 \<Longrightarrow> \<exists>msg. ?call = write_err msg"
    using assms(6) by (auto simp: after_sizes_def cells)
  have second: "0 < n \<longrightarrow> os ! 0 = 0 \<Longrightarrow> \<not> (\<forall>k < n. os ! k \<le> os ! Suc k) \<Longrightarrow> \<exists>msg. ?call = write_err msg"
    unfolding after_sizes_def assms(3) offs using assms(6) by (auto simp: cells write_err_def)
  have third: "?call = (if length conn \<noteq> 8 * unat r then write_err ''cell_connectivity size != offsets[num_cells]*sizeof(uint64_t)''
      else case check_cells (as_bytes ts) (as_bytes os) conn nodes 0 n of
        Gave _ \<Rightarrow> build (as_bytes (flat_points ps)) (as_bytes ts) conn (as_bytes os) (map_option as_bytes gs) nodes cells
      | Refused s \<Rightarrow> Refused s | Past_end \<Rightarrow> Past_end | Length_error \<Rightarrow> Length_error)"
    if "0 < n \<longrightarrow> os ! 0 = 0" "\<forall>k < n. os ! k \<le> os ! Suc k"
    unfolding after_sizes_def assms(3) offs refs option.case size using assms(6) that by (auto simp: cells)
  { assume c: "conn = as_bytes ns" and g: "good_layout nodes ts os n ns"
    then have lay: "layout_ok os (length ns) n" and good: "\<forall>k < n. cell_good nodes ts os ns k"
      by (simp_all add: good_layout_def)
    have "length conn = 8 * unat r" using lay unfolding c by (auto simp: layout_ok_def r_def)
    moreover have "check_cells (as_bytes ts) (as_bytes os) (as_bytes ns) nodes 0 n = Gave ()" using check [OF lay] good by simp
    moreover have "0 < n \<longrightarrow> os ! 0 = 0" "\<forall>k < n. os ! k \<le> os ! Suc k" using lay by (simp_all add: layout_ok_def)
    ultimately show "\<exists>m. ?call = Gave m \<and> has_shape m (shape_at ps ts os ns gs n)"
      using third built [OF assms(1-7) g] unfolding c by simp }
  { assume no: "\<nexists>ns. conn = as_bytes ns \<and> good_layout nodes ts os n ns"
    show "\<exists>msg. ?call = write_err msg"
    proof (cases "(0 < n \<longrightarrow> os ! 0 = 0) \<and> (\<forall>k < n. os ! k \<le> os ! Suc k) \<and> length conn = 8 * unat r")
      case True
      then obtain ns where ns: "conn = as_bytes (ns :: u64 list)" "length ns = unat r"
        using words_of_bytes(1) by blast
      then have lay: "layout_ok os (length ns) n" using True by (simp add: layout_ok_def r_def)
      then have bad: "(\<forall>k < n. cell_good nodes ts os ns k) = False" using no ns(1) unfolding good_layout_def by blast
      from check [OF lay] obtain msg where "check_cells (as_bytes ts) (as_bytes os) conn nodes 0 n = write_err msg"
        unfolding ns(1) bad if_False by blast
      then show ?thesis using True third by (intro exI [of _ msg]) (simp add: write_err_def)
    next
      case False
      then show ?thesis using first second third by force
    qed }
qed

section \<open>The property\<close>

text \<open>The buffers are in memory, and no size that the code computes from a count wraps.\<close>

definition sizes_fit :: "mesh_buffers \<Rightarrow> bool" where
  "sizes_fit b =
     ((\<forall>bs. mb_coords b = Some bs \<or> mb_types b = Some bs \<or> mb_connectivity b = Some bs \<or> mb_offsets b = Some bs
          \<or> mb_tags b = Some bs \<longrightarrow> length bs < 2 ^ 63)
      \<and> unat (mb_num_nodes b) \<le> 2 ^ 56 \<and> unat (mb_num_cells b) \<le> 2 ^ 56
      \<and> (\<forall>offs last. mb_offsets b = Some offs \<and> item_at offs (unat (mb_num_cells b)) = Some (last :: u64) \<longrightarrow> unat last < 2 ^ 60))"

definition sized :: "mesh_buffers \<Rightarrow> bool" where
  "sized b = (\<exists>ps ts os conn gs. mb_coords b = Some (as_bytes (flat_points ps)) \<and> mb_types b = Some (as_bytes (ts :: element_type list))
     \<and> mb_connectivity b = Some conn \<and> mb_offsets b = Some (as_bytes (os :: u64 list)) \<and> mb_tags b = map_option as_bytes gs
     \<and> length ps = unat (mb_num_nodes b) \<and> length ts = unat (mb_num_cells b) \<and> length os = Suc (unat (mb_num_cells b))
     \<and> (\<forall>l. gs = Some (l :: tag list) \<longrightarrow> length l = unat (mb_num_cells b)))"

lemma sizes_checked:
  assumes "sizes_fit b"
  shows "sized b \<and> from_buffers (Some b) = after_sizes (the (mb_coords b)) (the (mb_types b)) (the (mb_connectivity b))
      (the (mb_offsets b)) (mb_tags b) (mb_num_nodes b) (mb_num_cells b)
    \<or> \<not> sized b \<and> (\<exists>msg. from_buffers (Some b) = write_err msg)"
proof (cases "mb_coords b = None \<or> mb_types b = None \<or> mb_connectivity b = None \<or> mb_offsets b = None")
  case True
  then show ?thesis by (auto simp: from_buffers_def sized_def split: option.splits)
next
  case False
  then obtain coords types conn offs where b: "mb_coords b = Some coords" "mb_types b = Some types"
    "mb_connectivity b = Some conn" "mb_offsets b = Some offs" by auto
  let ?n = "mb_num_nodes b" and ?c = "mb_num_cells b"
  have n: "unat ?n \<le> 2 ^ 56" "unat ?c \<le> 2 ^ 56" "unat (?c + 1) = Suc (unat ?c)"
    using assms by (simp_all add: sizes_fit_def unat_word_ariths)
  have len: "length coords < 2 ^ 63" "length types < 2 ^ 63" "length offs < 2 ^ 63"
    "mb_tags b = Some tags \<Longrightarrow> length tags < 2 ^ 63" for tags
    using assms b unfolding sizes_fit_def by blast+
  have "buffer_size coords = ?n * of_nat 24 \<longleftrightarrow> length coords = 24 * unat ?n"
    using len(1) n by (intro size_is) simp_all
  then have c: "buffer_size coords = ?n * 3 * 8 \<longleftrightarrow> length coords = 24 * unat ?n" by (simp add: mult.assoc)
  have "buffer_size types = ?c * of_nat 2 \<longleftrightarrow> length types = 2 * unat ?c" using len(2) n by (intro size_is) simp_all
  then have t: "buffer_size types = ?c * 2 \<longleftrightarrow> length types = 2 * unat ?c" by simp
  have "buffer_size offs = (?c + 1) * of_nat 8 \<longleftrightarrow> length offs = 8 * unat (?c + 1)"
    using len(3) n by (intro size_is) simp_all
  then have o8: "buffer_size offs = (?c + 1) * 8 \<longleftrightarrow> length offs = 8 * Suc (unat ?c)" unfolding n(3) by simp
  have g: "buffer_size tags = ?c * 4 \<longleftrightarrow> length tags = 4 * unat ?c" if "mb_tags b = Some tags" for tags
  proof -
    have "buffer_size tags = ?c * of_nat 4 \<longleftrightarrow> length tags = 4 * unat ?c" using len(4) [OF that] n by (intro size_is) simp_all
    then show ?thesis by simp
  qed
  let ?fits = "length coords = 24 * unat ?n \<and> length types = 2 * unat ?c \<and> length offs = 8 * Suc (unat ?c)
    \<and> (\<forall>tags. mb_tags b = Some tags \<longrightarrow> length tags = 4 * unat ?c)"
  have f: "from_buffers (Some b) = after_sizes coords types conn offs (mb_tags b) ?n ?c" if ?fits
    using that g unfolding from_buffers_def b option.case prod.case c t o8 by (auto split: option.splits)
  have nf: "\<exists>msg. from_buffers (Some b) = write_err msg" if "\<not> ?fits"
    using that g unfolding from_buffers_def b option.case prod.case c t o8 by (auto split: option.splits)
  have "sized b \<longleftrightarrow> ?fits"
  proof
    assume "sized b"
    then obtain ps ts os gs where "coords = as_bytes (flat_points ps)" "types = as_bytes (ts :: element_type list)"
      "offs = as_bytes (os :: u64 list)" "mb_tags b = map_option as_bytes gs"
      "length ps = unat ?n" "length ts = unat ?c" "length os = Suc (unat ?c)" "\<forall>l. gs = Some (l :: tag list) \<longrightarrow> length l = unat ?c"
      unfolding sized_def b by auto
    then show ?fits by (cases gs) simp_all
  next
    assume fits: ?fits
    then have "length coords = 8 * (3 * unat ?n)" by simp
    then obtain cs where cs: "coords = as_bytes (cs :: u64 list)" "length cs = 3 * unat ?n" using words_of_bytes(1) by blast
    from coordinates [OF cs(2)] obtain ps where ps: "cs = flat_points ps" "length ps = unat ?n" .
    from fits obtain ts where ts: "types = as_bytes (ts :: element_type list)" "length ts = unat ?c"
      using words_of_bytes(2) by blast
    from fits obtain os where os: "offs = as_bytes (os :: u64 list)" "length os = Suc (unat ?c)"
      using words_of_bytes(1) by blast
    have "\<exists>gs. mb_tags b = map_option as_bytes gs \<and> (\<forall>l. gs = Some (l :: tag list) \<longrightarrow> length l = unat ?c)"
    proof (cases "mb_tags b")
      case (Some tags)
      then obtain l where "tags = as_bytes (l :: tag list)" "length l = unat ?c" using fits words_of_bytes(3) by blast
      then show ?thesis using Some by (intro exI [of _ "Some l"]) simp
    qed simp
    then show "sized b" unfolding sized_def b using cs(1) ps ts os by blast
  qed
  with f nf show ?thesis unfolding b by auto
qed

lemma as_bytes_inj:
  assumes "8 dvd LENGTH('a)" "as_bytes (vs :: 'a::len word list) = as_bytes ws"
  shows "vs = ws"
proof (rule nth_equalityI)
  have "0 < LENGTH('a) div 8" using dvd_imp_le [OF assms(1) len_gt_0] by (simp add: div_greater_zero_iff)
  then show l: "length vs = length ws" using arg_cong [OF assms(2), of length] by simp
  fix i assume "i < length vs"
  moreover have "item_at (as_bytes vs) i = (item_at (as_bytes ws) i :: 'a word option)" by (simp only: assms(2))
  ultimately show "vs ! i = ws ! i" using l by (simp add: item_at_as_bytes [OF assms(1)])
qed

lemma as_bytes_eq [simp]:
  "as_bytes (vs :: u64 list) = as_bytes ws \<longleftrightarrow> vs = ws"
  "as_bytes (ts :: 16 word list) = as_bytes us \<longleftrightarrow> ts = us"
  "as_bytes (gs :: 32 word list) = as_bytes hs \<longleftrightarrow> gs = hs"
  by (auto dest: as_bytes_inj [rotated])

lemma flat_points_eq: "flat_points ps = flat_points qs \<Longrightarrow> ps = qs"
proof (induction ps arbitrary: qs)
  case Nil
  then show ?case by (cases qs) auto
next
  case (Cons p ps)
  then show ?case by (cases p; cases qs) auto
qed

lemma good_cells:
  assumes "layout_ok os (length ns) n"
  shows "(\<forall>k < n. cell_good nodes ts os ns k) \<longleftrightarrow>
    (\<forall>c \<in> set (map (cell_at ts os ns gs) [0..<n]). nodes_of (ce_type c) \<noteq> 0 \<and> cell_ok (unat nodes) c)"
proof -
  have "cell_good nodes ts os ns k \<longleftrightarrow> nodes_of (ts ! k) \<noteq> 0 \<and> cell_ok (unat nodes) (cell_at ts os ns gs k)" if "k < n" for k
    using assms that layout_within [OF assms that] by (intro cell_good_ok) (simp_all add: layout_ok_def)
  then show ?thesis by (auto simp: cell_at_def)
qed

lemma described_by:
  assumes "mb_coords b = Some (as_bytes (flat_points ps))" "mb_types b = Some (as_bytes ts)"
    "mb_connectivity b = Some (as_bytes ns)" "mb_offsets b = Some (as_bytes os)" "mb_tags b = map_option as_bytes gs"
    "length ps = unat (mb_num_nodes b)" "length ts = unat (mb_num_cells b)" "length os = Suc (unat (mb_num_cells b))"
    "\<forall>l. gs = Some l \<longrightarrow> length l = unat (mb_num_cells b)" "good_layout (mb_num_nodes b) ts os (unat (mb_num_cells b)) ns"
  shows "describes b (shape_at ps ts os ns gs (unat (mb_num_cells b)))"
proof -
  have lay: "layout_ok os (length ns) (unat (mb_num_cells b))" using assms(10) by (simp add: good_layout_def)
  have "\<forall>c \<in> set (map (cell_at ts os ns gs) [0..<unat (mb_num_cells b)]). nodes_of (ce_type c) \<noteq> 0 \<and> cell_ok (length ps) c"
    using assms(10) unfolding good_layout_def assms(6) good_cells [OF lay, where gs = gs] by blast
  then show ?thesis unfolding describes_def Let_def
    by (intro exI [of _ ts] exI [of _ os] exI [of _ ns] exI [of _ gs]) (use assms(1-9) lay in \<open>simp add: shape_at_def\<close>)
qed

lemma describes_good:
  assumes "describes b s"
    "mb_coords b = Some (as_bytes (flat_points ps))" "mb_types b = Some (as_bytes ts)"
    "mb_connectivity b = Some conn" "mb_offsets b = Some (as_bytes os)" "mb_tags b = map_option as_bytes gs"
  shows "\<exists>ns. conn = as_bytes ns \<and> good_layout (mb_num_nodes b) ts os (unat (mb_num_cells b)) ns
    \<and> s = shape_at ps ts os ns gs (unat (mb_num_cells b))"
proof -
  let ?n = "unat (mb_num_cells b)"
  from assms(1) obtain ts' os' ns gs' where d: "mb_coords b = Some (as_bytes (flat_points (sh_points s)))"
    "mb_types b = Some (as_bytes ts')" "mb_connectivity b = Some (as_bytes ns)" "mb_offsets b = Some (as_bytes os')"
    "mb_tags b = map_option as_bytes gs'" "length (sh_points s) = unat (mb_num_nodes b)" "layout_ok os' (length ns) ?n"
    "s = shape_at (sh_points s) ts' os' ns gs' ?n"
    "\<forall>c \<in> set (sh_cells s). nodes_of (ce_type c) \<noteq> 0 \<and> cell_ok (length (sh_points s)) c"
    unfolding describes_def Let_def by blast
  have "sh_points s = ps" by (rule flat_points_eq) (use assms(2) d(1) in simp)
  moreover have "ts' = ts" "os' = os" "conn = as_bytes ns" using assms(3-5) d(2-4) by simp_all
  moreover have "gs' = gs" using assms(6) d(5) by (cases gs; cases gs') auto
  moreover have "sh_cells s = map (cell_at ts' os' ns gs') [0..<?n]" by (subst d(8)) (simp add: shape_at_def)
  ultimately show ?thesis using d(6-9) good_cells [of os ns ?n "mb_num_nodes b" ts gs] unfolding good_layout_def by metis
qed

text \<open>C35: what a plugin's buffers become.  When no size wraps, buffers that have the layout of the header
  and name known elements and existing nodes become the mesh they describe, and any other buffers,
  or missing ones, are refused as an invalid argument: nothing is read past the end of a buffer and
  no exception leaves the function.\<close>

theorem from_buffers_builds:
  assumes "sizes_fit b"
  shows "(\<forall>s. describes b s \<longrightarrow> (\<exists>m. from_buffers (Some b) = Gave m \<and> has_shape m s))
    \<and> ((\<nexists>s. describes b s) \<longrightarrow> (\<exists>msg. from_buffers (Some b) = Refused (status_error e_invalid_argument msg)))"
proof -
  have refused: "\<exists>text. write_err msg = Refused (status_error e_invalid_argument text)" for msg by (auto simp: write_err_def)
  let ?n = "unat (mb_num_cells b)" and ?nodes = "mb_num_nodes b"
  have fit: "unat ?nodes \<le> 2 ^ 56" "?n \<le> 2 ^ 56" using assms by (simp_all add: sizes_fit_def)
  consider (no) "\<not> sized b" "\<exists>msg. from_buffers (Some b) = write_err msg"
    | (yes) "sized b" "from_buffers (Some b) = after_sizes (the (mb_coords b)) (the (mb_types b)) (the (mb_connectivity b))
      (the (mb_offsets b)) (mb_tags b) ?nodes (mb_num_cells b)" using sizes_checked [OF assms] by blast
  then show ?thesis
  proof cases
    case no
    then have "\<not> describes b s" for s unfolding sized_def describes_def Let_def by blast
    then show ?thesis using no refused by metis
  next
    case yes
    then obtain ps and ts :: "element_type list" and os :: "u64 list" and conn and gs :: "tag list option" where
      b: "mb_coords b = Some (as_bytes (flat_points ps))" "mb_types b = Some (as_bytes ts)"
      "mb_connectivity b = Some conn" "mb_offsets b = Some (as_bytes os)" "mb_tags b = map_option as_bytes gs"
      and l: "length ps = unat ?nodes" "length ts = ?n" "length os = Suc ?n" "\<forall>l. gs = Some l \<longrightarrow> length l = ?n"
      unfolding sized_def by blast
    have "length conn < 2 ^ 63" "0 < ?n \<longrightarrow> unat (os ! ?n) < 2 ^ 60"
      using assms b(3,4) l(3) by (auto simp: sizes_fit_def)
    note after = after_sizes_words [OF l(1) fit(1) refl fit(2) l(2-4) this]
    have call: "from_buffers (Some b) = after_sizes (as_bytes (flat_points ps)) (as_bytes ts) conn (as_bytes os)
        (map_option as_bytes gs) ?nodes (mb_num_cells b)" unfolding yes(2) b by simp
    have described: "describes b (shape_at ps ts os ns gs ?n)" if "conn = as_bytes ns" "good_layout ?nodes ts os ?n ns" for ns
      using described_by [OF b(1,2) b(3) [unfolded that(1)] b(4,5) l that(2)] .
    have undescribed: "\<exists>ns. conn = as_bytes ns \<and> good_layout ?nodes ts os ?n ns \<and> s = shape_at ps ts os ns gs ?n" if "describes b s" for s
      using describes_good [OF that b] .
    show ?thesis unfolding call using after undescribed described refused by metis
  qed
qed

definition sample_buffers :: mesh_buffers where
  "sample_buffers = \<lparr>mb_coords = Some (as_bytes (flat_points [(0, 0, 0), (1, 0, 0), (0, 1, 0)])), mb_num_nodes = 3,
     mb_types = Some (as_bytes [4, 1 :: element_type]), mb_connectivity = Some (as_bytes [0, 1, 2, 1 :: u64]),
     mb_offsets = Some (as_bytes [0, 3, 4 :: u64]), mb_num_cells = 2, mb_tags = Some (as_bytes [7, 8 :: tag])\<rparr>"

theorem from_buffers_builds_witness:
  "\<exists>m s. from_buffers (Some sample_buffers) = Gave m \<and> has_shape m s \<and> map ce_nodes (sh_cells s) = [[0, 1, 2], [1]]"
proof -
  let ?s = "shape_at [(0, 0, 0), (1, 0, 0), (0, 1, 0)] [4, 1] [0, 3, 4] [0, 1, 2, 1] (Some [7, 8]) 2"
  have "sizes_fit sample_buffers" by (auto simp: sizes_fit_def sample_buffers_def simp del: as_bytes_simps)
  moreover have "good_layout 3 [4, 1] [0, 3, 4] 2 [0, 1, 2, 1]" by code_simp
  then have "describes sample_buffers ?s"
    using described_by [of sample_buffers "[(0, 0, 0), (1, 0, 0), (0, 1, 0)]" "[4, 1]" "[0, 1, 2, 1]" "[0, 3, 4]" "Some [7, 8]"]
    by (simp add: sample_buffers_def del: as_bytes_simps)
  ultimately obtain m where "from_buffers (Some sample_buffers) = Gave m" "has_shape m ?s"
    using from_buffers_builds by blast
  moreover have "map ce_nodes (sh_cells ?s) = [[0, 1, 2], [1]]" by code_simp
  ultimately show ?thesis by (intro exI [of _ m] exI [of _ ?s] conjI)
qed

end
