(* ===== verification/Spec2Isabelle.thy ===== *)
theory Spec2Isabelle
  imports Parallel_Run Apply Dispatch_Run Bridge Bridge_Views Mesh_Buffers
begin

text \<open>
  souxmar is an engineering workbench whose core runs pipelines of plugin calls.  This development
  models its C++ core: the pipeline engine with its caches, the plugin host, the updater, the agent
  with its providers, the bridge of the desktop application, and the mesh that plugins exchange.

  The parts and how they interact.

  A pipeline file becomes a graph of stages, the validator orders it, and a runner dispatches the
  stages, answering from a cache those whose content hash it knows.  The dispatcher calls plugin
  functions which the loader has put in the capability registry.  The agent lets a language model
  call tools, under a budget and with the user's confirmation; the desktop reaches it through a C
  bridge with one session per project.  The updater reads a signed manifest, decides whether it
  may be applied, stages and switches versions on disk and can go back.

  Theories and sources (below src/src and src/include).

  \<^item> \<open>Prelude\<close>: the machine types, \<open>std::map\<close> and \<open>std::string\<close> as the code uses them, shared lemmas.
  \<^item> Values and files: \<open>Value\<close> and \<open>Yaml\<close> (pipeline/value.cpp, c_abi_value.cpp), \<open>Parser\<close>
    (pipeline/parser.cpp), \<open>Toml\<close> (the accessors of the TOML library), \<open>Toml_Text\<close> (what the updater
    writes, with a reader as a reference), \<open>File_System\<close> (\<open>std::filesystem\<close> and streams with faults),
    \<open>Atomic_Write\<close> (the write-then-rename protocol of the updater and the cache).
  \<^item> The engine: \<open>Dag\<close> (pipeline/dag.cpp), \<open>Sha256\<close>, \<open>Content_Hash\<close> and \<open>Disk_Cache\<close>
    (pipeline/cache.cpp), \<open>Runner\<close> (runner.cpp), \<open>Parallel\<close> and \<open>Parallel_Run\<close>
    (parallel_runner.cpp), \<open>Dispatcher\<close> (registry_dispatcher.cpp), \<open>Dispatch_Run\<close> (a whole run).
  \<^item> The plugin host: \<open>Registry\<close>, \<open>Plugin_Manifest\<close>, \<open>Loader\<close> (plugin-host/registry.cpp, manifest.cpp,
    loader.cpp, guard.cpp).
  \<^item> The updater: \<open>Version\<close>, \<open>Clock\<close> and \<open>Gate\<close> (updater/state_machine.cpp), \<open>Update_Manifest\<close>
    (manifest.cpp), \<open>Verifier\<close> (verifier.cpp, crypto/primitives.cpp), \<open>Install_Layout\<close>,
    \<open>Update_State\<close>, \<open>Rollback_Log\<close>, \<open>Apply\<close> (the files of the same names).
  \<^item> The agent: \<open>Budget\<close> and \<open>Tools\<close> (ai/audit_log.cpp, budget_config.cpp, tool_dispatcher.cpp),
    \<open>Agent\<close> (agent.cpp), \<open>Chat\<close>, \<open>Json\<close>, \<open>Request_Body\<close>, \<open>Response\<close>, \<open>Http_Provider\<close> (provider.cpp),
    \<open>Provider_Config\<close> (provider_config.cpp).
  \<^item> The bridge: \<open>Bridge_Request\<close>, \<open>Bridge\<close>, \<open>Bridge_Views\<close> (the files of c-bridge).
  \<^item> The data model: \<open>Mesh\<close> (core/mesh.cpp, face_topology.cpp, core/element_type.h),
    \<open>Mesh_Buffers\<close> (core/c_abi_mesh.cpp).

  State and operations.  A class is a record and a method a function that returns the record
  updated; an exception or an error struct is the left side of a sum or \<open>None\<close>; a hash table is an
  association list whose order, where the code lets it be seen, is a parameter; integers keep their width; a
  double is its 64 bits.  What is outside of the program is a world \<open>'w\<close> that the parameters read and
  change.  The file system is a tree with a stream of faults that the operations consume, so a
  theorem about every stream covers every failure.  The parallel runner is a step relation over
  program counters, one step for each section its locks protect.

  Interfaces.  A locale states each contract that several parts rest on, and an interpretation
  proves it of the code's own definitions: \<open>prefix_code\<close> (unambiguous encodings), \<open>streaming_hash\<close>,
  \<open>kv_store\<close> (the caches), \<open>atomic_writer\<close> (both writers), \<open>stage_sorter\<close> (what a runner needs of the
  validator), \<open>growing_store\<close> and \<open>capability_store\<close> (the registry), \<open>kept_by_calls\<close> and \<open>kept_by_turn\<close> (what
  a dispatch keeps, a turn keeps), \<open>chat_turns\<close> (what a turn keeps, the bridge keeps).

  What the lemmas show.

  \<^item> The engine: the order is topological exactly for acyclic graphs; a stage key determines what it
    was made of or SHA-256 collides; both runners account for every stage; two workers never run one stage or
    two dispatches under one exclusive plugin, every interleaving is bounded and can be finished; a run frees or keeps every handle.
  \<^item> The host: the registry is an abstract catalogue with owners; loading and unloading restore it;
    which plugin manifests are accepted.
  \<^item> The updater: an update leaves the old or the complete new version whatever fails, a manifest
    below the highest version ever seen is never applied, the log only grows, garbage collection keeps what is named.
  \<^item> The agent: no tool runs without the confirmation its declaration and the user's overrides ask for, through any
    calls of the bridge; conversations are complete when sent; turns end; request bodies read back as
    the request; keys are neither in the arguments of curl nor able to change its configuration.
  \<^item> The mesh: its columns implement points, cells and tagged faces; buffers of a plugin become the
    mesh they describe or are refused, unless a size wraps.

  Termination and bounds.  Loops that the code bounds are structural or have a measure.  Reading
  YAML follows aliases and may not end: the readers take fuel, return \<open>None\<close> when it runs out, and
  are shown to return on every document whose nodes form a finite tree (\<open>finite_node\<close>), with a value that no more
  fuel changes.  A turn of the agent has as fuel the steps that are left.  The JSON readers, which
  are references and not models, take the length of the text.  \<open>mesh_implements_shape\<close> is stated for at
  most \<open>2 ^ 56\<close> operations, the number of cells the key of a face has room for.

  Parameters.  yaml-cpp, the TOML library and libsodium are records of their functions; plugins, tool handlers,
  the prompter, the dynamic linker, the process runner (which stands for curl), clocks, random
  names and the environment are functions.  Hypotheses about them are named definitions: that a
  linker is one that opens what it found, that YAML reads back what a JSON writer wrote, that a file name is
  new.  Each theorem with a hypothesis is applied at a concrete instance by its witness.

  Not modelled.

  \<^item> The command line (cli/main.cpp), plugin discovery, index and conformance runs, the
    fetcher and the subprocess runner: input and output around the modelled operations.
  \<^item> The handlers of the individual tools and the example plugins: clients of the interfaces, mostly
    floating-point arithmetic; the dispatchers take them as parameters.
  \<^item> Fields, geometries, streams, time series and mesh quality: columns of floating-point numbers
    that the orchestrator treats as opaque handles.  Of the mesh, the bounding box, and of the
    buffers, their allocation and mapping.
  \<^item> The memory model below mutexes, memory exhaustion, and signals that end a process.
  \<^item> The desktop application, services, bindings and the Windows shim, which are other languages.
\<close>

end
